(* ===== verification/Prelude.thy ===== *)
theory Prelude
  imports Main "HOL-Library.Word"
begin

text \<open>
  Shared vocabulary of the development: the machine integers of the code, the
  outcome of a C++ call (a value, an exception, a fault, or no return at all),
  the state-passing composition of such calls, and generic facts on words and
  lists that several components use.
\<close>

unbundle bit_operations_syntax

section \<open>Machine integers\<close>

type_synonym u8 = "8 word"
type_synonym u16 = "16 word"
type_synonym u32 = "32 word"
type_synonym u64 = "64 word"

text \<open>
  Addresses and sizes (\<^verbatim>\<open>uint64_t\<close>, \<^verbatim>\<open>size_t\<close>) that are only added, subtracted and
  compared are natural numbers below \<open>2 ^ 64\<close>; the wrap-around of the C++ operators
  is written out with \<open>wrap64\<close> and \<open>sub64\<close>.
\<close>

definition wrap64 :: "nat \<Rightarrow> nat" where
  "wrap64 n = n mod 2 ^ 64"

definition sub64 :: "nat \<Rightarrow> nat \<Rightarrow> nat" where
  "sub64 a b = (a + (2 ^ 64 - b mod 2 ^ 64)) mod 2 ^ 64"

abbreviation null64 :: nat where
  "null64 \<equiv> 2 ^ 64 - 1"

lemma wrap64_small [simp]: "n < 2 ^ 64 \<Longrightarrow> wrap64 n = n"
  by (simp add: wrap64_def)

lemma wrap64_less [simp]: "wrap64 n < 2 ^ 64"
  by (simp add: wrap64_def)

lemma wrap64_less_num [simp]: "wrap64 n < 18446744073709551616"
  using wrap64_less[of n] by simp

lemma wrap64_add [simp]: "wrap64 (wrap64 a + b) = wrap64 (a + b)"
  by (simp add: wrap64_def mod_simps)

lemma sub64_small [simp]: "b \<le> a \<Longrightarrow> a < 2 ^ 64 \<Longrightarrow> sub64 a b = a - b"
proof -
  assume a: "b \<le> a" "a < 2 ^ 64"
  then have eq: "a + (2 ^ 64 - b mod 2 ^ 64) = (a - b) + 2 ^ 64"
    by simp
  have "sub64 a b = ((a - b) + 2 ^ 64) mod 2 ^ 64"
    by (simp only: sub64_def eq)
  also have "\<dots> = (a - b) mod 2 ^ 64"
    by (rule mod_add_self2)
  finally show ?thesis using a by simp
qed

section \<open>Outcomes of a call\<close>

datatype exn =
    Logic_error string
  | Runtime_error string
  | Einval string
  | Eperm string
  | Enoent string
  | Eaccess string
  | Eoverflow string
  | Enxio string
  | Ebusy string
  | Enomem string
  | Empty_directory
  | Bad_alloc

text \<open>
  \<open>Fault\<close> is a null or wild dereference, an out-of-bounds access, a division by zero
  or a failed kernel assertion; \<open>Hang\<close> is a call that never returns.
\<close>

datatype 'a outcome =
    Ret 'a
  | Throw exn
  | Fault string
  | Hang

text \<open>A call that reads and writes a state: the state survives an exception.\<close>

type_synonym ('s, 'a) action = "'s \<Rightarrow> 'a outcome \<times> 's"

definition ret :: "'a \<Rightarrow> ('s, 'a) action" where
  "ret a = (\<lambda>s. (Ret a, s))"

definition throw :: "exn \<Rightarrow> ('s, 'a) action" where
  "throw e = (\<lambda>s. (Throw e, s))"

definition andthen :: "('s, 'a) action \<Rightarrow> ('a \<Rightarrow> ('s, 'b) action) \<Rightarrow> ('s, 'b) action" where
  "andthen m k = (\<lambda>s. case m s of
      (Ret a, s') \<Rightarrow> k a s'
    | (Throw e, s') \<Rightarrow> (Throw e, s')
    | (Fault f, s') \<Rightarrow> (Fault f, s')
    | (Hang, s') \<Rightarrow> (Hang, s'))"

text \<open>Composition of calls that keep no state of their own.\<close>

primrec obind :: "'a outcome \<Rightarrow> ('a \<Rightarrow> 'b outcome) \<Rightarrow> 'b outcome" where
  "obind (Ret a) k = k a"
| "obind (Throw e) k = Throw e"
| "obind (Fault f) k = Fault f"
| "obind Hang k = Hang"

named_theorems action_simps "unfolding of the state-passing combinators"

lemma ret_apply [action_simps]: "ret a s = (Ret a, s)"
  by (simp add: ret_def)

lemma throw_apply [action_simps]: "throw e s = (Throw e, s)"
  by (simp add: throw_def)

lemma andthen_Ret [action_simps]: "m s = (Ret a, s') \<Longrightarrow> andthen m k s = k a s'"
  by (simp add: andthen_def)

lemma andthen_Throw [action_simps]: "m s = (Throw e, s') \<Longrightarrow> andthen m k s = (Throw e, s')"
  by (simp add: andthen_def)

lemma andthen_ret [action_simps]: "andthen (ret a) k s = k a s"
  by (simp add: andthen_def ret_def)

lemma andthen_throw [action_simps]: "andthen (throw e) k s = (Throw e, s)"
  by (simp add: andthen_def throw_def)

lemma andthen_cases:
  assumes "andthen m k s = (Ret b, s2)"
  obtains a s1 where "m s = (Ret a, s1)" "k a s1 = (Ret b, s2)"
  using assms by (auto simp: andthen_def split: prod.splits outcome.splits)

section \<open>Words\<close>

lemma bit_set_u64 [simp]:
  "bit ((x :: u64) OR push_bit j 1) i \<longleftrightarrow> bit x i \<or> (i = j \<and> i < 64)"
  by (auto simp: bit_simps)

lemma bit_clear_u64 [simp]:
  "bit ((x :: u64) AND NOT (push_bit j 1)) i \<longleftrightarrow> bit x i \<and> i \<noteq> j"
  by (auto simp: bit_simps dest: bit_imp_le_length)

lemmas bit_set_u64_exp [simp] = bit_set_u64 [unfolded push_bit_of_1]
lemmas bit_clear_u64_exp [simp] = bit_clear_u64 [unfolded push_bit_of_1]

lemma shift_test_u64 [simp]: "(drop_bit j (x :: u64)) AND 1 = 0 \<longleftrightarrow> \<not> bit x j"
  by (simp add: bit_iff_and_drop_bit_eq_1 and_one_eq)

lemma all_ones_u64: "(x :: u64) = - 1 \<longleftrightarrow> (\<forall>j < 64. bit x j)"
  by (auto simp: bit_eq_iff)

section \<open>Lists\<close>

lemma list_ex_nth: "list_ex P xs \<longleftrightarrow> (\<exists>i < length xs. P (xs ! i))"
  by (metis list_ex_length)

lemma list_all_nth: "list_all P xs \<longleftrightarrow> (\<forall>i < length xs. P (xs ! i))"
  by (simp add: list_all_length)

lemma div_mod_split: "(n :: nat) = m \<longleftrightarrow> n div c = m div c \<and> n mod c = m mod c"
  by (metis div_mult_mod_eq)

end
