(* ===== verification/Allocator.thy ===== *)
theory Allocator
  imports Prelude
begin

text \<open>
  The contract of an allocator of numbered pages, as its clients use it: a request is
  granted a set of pages that were free and are free no longer, or refused with nothing
  changed but internal bookkeeping. Whoever relies on an allocator (the page tables on the
  physical pages, \<^verbatim>\<open>kmmap\<close> on the kernel addresses) needs that no page is granted twice.
\<close>

text \<open>The grants of a sequence of requests, oldest first.\<close>

fun serve :: "('q \<Rightarrow> 's \<Rightarrow> 'r option \<times> 's) \<Rightarrow> 'q list \<Rightarrow> 's \<Rightarrow> ('q \<times> 'r) list \<times> 's" where
  "serve alloc [] s = ([], s)"
| "serve alloc (q # qs) s = (case alloc q s of
      (None, s1) \<Rightarrow> serve alloc qs s1
    | (Some r, s1) \<Rightarrow> (case serve alloc qs s1 of (gs, s2) \<Rightarrow> ((q, r) # gs, s2)))"

locale allocator =
  fixes invar :: "'s \<Rightarrow> bool"
    and free :: "'s \<Rightarrow> nat \<Rightarrow> bool"
    and alloc :: "'q \<Rightarrow> 's \<Rightarrow> 'r option \<times> 's"
    and pages :: "'q \<Rightarrow> 'r \<Rightarrow> nat set"
  assumes grant: "invar s \<Longrightarrow> alloc q s = (Some r, s') \<Longrightarrow>
      invar s' \<and> (\<forall>n \<in> pages q r. free s n) \<and> (\<forall>n. free s' n \<longleftrightarrow> free s n \<and> n \<notin> pages q r)"
    and refuse: "invar s \<Longrightarrow> alloc q s = (None, s') \<Longrightarrow> invar s' \<and> (\<forall>n. free s' n \<longleftrightarrow> free s n)"
begin

lemma serve_step:
  assumes "invar s"
  shows "invar (snd (alloc q s)) \<and> (\<forall>n. free (snd (alloc q s)) n \<longrightarrow> free s n)"
  using grant[OF assms, of q] refuse[OF assms, of q] by (cases "alloc q s"; cases "fst (alloc q s)") auto

lemma serve_spec:
  assumes "invar s" "serve alloc qs s = (gs, s')"
  shows "invar s' \<and> (\<forall>(q, r) \<in> set gs. \<forall>n \<in> pages q r. free s n) \<and>
    (\<forall>n. free s' n \<longleftrightarrow> free s n \<and> (\<forall>(q, r) \<in> set gs. n \<notin> pages q r)) \<and>
    sorted_wrt (\<lambda>(q, r) (q', r'). pages q r \<inter> pages q' r' = {}) gs"
  using assms
proof (induction qs arbitrary: s gs)
  case (Cons q qs)
  obtain x s1 where st: "alloc q s = (x, s1)" by fastforce
  show ?case
  proof (cases x)
    case None
    with st Cons.prems have "invar s1" "free s1 = free s" "serve alloc qs s1 = (gs, s')"
      using refuse[OF Cons.prems(1)] by auto
    from Cons.IH[OF this(1,3), unfolded this(2)] show ?thesis .
  next
    case (Some r)
    with st Cons.prems obtain gs1 where run: "serve alloc qs s1 = (gs1, s')" and gs: "gs = (q, r) # gs1"
      by (auto split: prod.splits)
    from grant[OF Cons.prems(1)] st Some have g: "invar s1" "\<forall>n \<in> pages q r. free s n"
      "\<And>n. free s1 n \<longleftrightarrow> free s n \<and> n \<notin> pages q r" by auto
    from Cons.IH[OF g(1) run] have IH: "invar s'"
      "\<forall>(q, r) \<in> set gs1. \<forall>n \<in> pages q r. free s1 n"
      "\<And>n. free s' n \<longleftrightarrow> free s1 n \<and> (\<forall>(q, r) \<in> set gs1. n \<notin> pages q r)"
      "sorted_wrt (\<lambda>(q, r) (q', r'). pages q r \<inter> pages q' r' = {}) gs1" by blast+
    show ?thesis unfolding gs using IH g by fastforce
  qed
qed simp

end

locale releasing_allocator = allocator invar free alloc pages
  for invar :: "'s \<Rightarrow> bool"
    and free :: "'s \<Rightarrow> nat \<Rightarrow> bool"
    and alloc :: "'q \<Rightarrow> 's \<Rightarrow> 'r option \<times> 's"
    and pages :: "'q \<Rightarrow> 'r \<Rightarrow> nat set" +
  fixes release :: "'q \<Rightarrow> 'r \<Rightarrow> 's \<Rightarrow> 's"
  assumes release: "invar s \<Longrightarrow> alloc q s = (Some r, s') \<Longrightarrow>
      invar (release q r s') \<and> (\<forall>n. free (release q r s') n \<longleftrightarrow> free s n)"
begin

lemma alloc_release_alloc:
  assumes "invar s" "alloc q s = (Some r, s')" "alloc q (release q r s') = (Some r', s'')"
  shows "\<forall>n \<in> pages q r'. free s n"
  using grant[OF _ assms(3)] release[OF assms(1,2)] by blast

end

end
