(* ===== verification/Phmem.thy ===== *)
theory Phmem
  imports Allocator
begin

text \<open>
  The physical page allocator, kernel/mem/phmem_allocator.hh: a tree of fan-out 4
  whose leaves are 64-bit bitmaps (bit set: page used) and whose inner nodes cache
  whether some page below them is free. The C++ template parameter \<^verbatim>\<open>depth\<close> of a
  node is \<open>lv + 3\<close> here: the specialisation for depth 3 is the leaf, level 0.
\<close>

datatype ph_tree = PhLeaf u64 | PhNode bool "ph_tree list"

definition phalloc_null :: nat where
  "phalloc_null = null64"

definition child_size :: "nat \<Rightarrow> nat" where
  "child_size lv = 2 ^ ((lv + 2) * 2 + 12)"

text \<open>\<open>child_size lv\<close> is the C++ constant of a node of depth \<open>lv + 3\<close>, for \<open>lv > 0\<close>.\<close>

fun isfull :: "ph_tree \<Rightarrow> bool" where
  "isfull (PhLeaf x) = (x = - 1)"
| "isfull (PhNode free_cache _) = (\<not> free_cache)"

definition any_free :: "ph_tree list \<Rightarrow> bool" where
  "any_free cs = list_ex (\<lambda>c. \<not> isfull c) cs"

text \<open>The leaf's scan \<^verbatim>\<open>for(int j = 0; j < 64; ++j)\<close>.\<close>

fun leaf_scan :: "nat list \<Rightarrow> u64 \<Rightarrow> nat \<times> u64" where
  "leaf_scan [] x = (phalloc_null, x)"
| "leaf_scan (j # js) x =
     (if (drop_bit j (NOT x)) AND 1 \<noteq> 0 then (j * 4096, x OR push_bit j 1)
      else leaf_scan js x)"

text \<open>
  The node's loop \<^verbatim>\<open>for(;(i < 4) && (x = children[i].get_page()) == phalloc_null; ++i)\<close>:
  the index it stops at, the last value of \<^verbatim>\<open>x\<close>, and the children it touched.
\<close>

fun first_page :: "(ph_tree \<Rightarrow> nat \<times> ph_tree) \<Rightarrow> ph_tree list \<Rightarrow> nat \<times> nat \<times> ph_tree list" where
  "first_page get [] = (0, phalloc_null, [])"
| "first_page get (c # cs) =
     (case get c of (x, c') \<Rightarrow>
       if x = phalloc_null
       then (case first_page get cs of (i, y, cs') \<Rightarrow> (Suc i, y, c' # cs'))
       else (0, x, c' # cs))"

fun get_page :: "nat \<Rightarrow> ph_tree \<Rightarrow> nat \<times> ph_tree" where
  "get_page lv (PhLeaf x) =
     (if isfull (PhLeaf x) then (phalloc_null, PhLeaf x)
      else case leaf_scan [0..<64] x of (p, x') \<Rightarrow> (p, PhLeaf x'))"
| "get_page (Suc lv) (PhNode free_cache cs) =
     (if \<not> free_cache then (phalloc_null, PhNode free_cache cs)
      else case first_page (get_page lv) cs of (i, x, cs') \<Rightarrow>
        (wrap64 (x + i * child_size (Suc lv)), PhNode (any_free cs') cs'))"
| "get_page 0 (PhNode free_cache cs) = (phalloc_null, PhNode free_cache cs)"

fun release_page :: "nat \<Rightarrow> ph_tree \<Rightarrow> nat \<Rightarrow> ph_tree" where
  "release_page lv (PhLeaf x) p = PhLeaf (x AND NOT (push_bit (p div 4096) 1))"
| "release_page (Suc lv) (PhNode free_cache cs) p =
     (let k = p div child_size (Suc lv) in
      if k < 4 then
        (let c = release_page lv (cs ! k) (p - k * child_size (Suc lv))
         in PhNode (if \<not> isfull c then True else free_cache) (cs[k := c]))
      else PhNode free_cache cs)"
| "release_page 0 (PhNode free_cache cs) p = PhNode free_cache cs"

text \<open>The leaf's loop \<^verbatim>\<open>for(unsigned i = k_beg; i <= k_end; ++i)\<close>.\<close>

definition mark_bits :: "nat \<Rightarrow> nat \<Rightarrow> u64 \<Rightarrow> u64" where
  "mark_bits b e x = fold (\<lambda>i x. x OR push_bit i 1) [b..<Suc e] x"

fun mark_used :: "nat \<Rightarrow> ph_tree \<Rightarrow> nat \<Rightarrow> nat \<Rightarrow> ph_tree" where
  "mark_used lv (PhLeaf x) p_beg p_end =
     (let k_beg = p_beg div 4096; k_end = p_end div 4096 in
      if k_beg \<ge> 64 then PhLeaf x
      else let k_end = (if k_end \<ge> 64 then 63 else k_end)
           in PhLeaf (mark_bits k_beg k_end x))"
| "mark_used (Suc lv) (PhNode free_cache cs) p_beg p_end =
     (let sz = child_size (Suc lv); k_beg = p_beg div sz; k_end = p_end div sz in
      if k_beg \<ge> 4 then PhNode free_cache cs
      else let k_end = (if k_end \<ge> 4 then 3 else k_end) in
        if k_beg = k_end then
          (let cs1 = cs[k_beg := mark_used lv (cs ! k_beg) (p_beg - k_beg * sz) (sub64 p_end (k_beg * sz))]
           in PhNode (any_free cs1) cs1)
        else
          (let cs1 = cs[k_beg := mark_used lv (cs ! k_beg) (p_beg - k_beg * sz) (sz - 1)];
               cs2 = cs1[k_end := mark_used lv (cs1 ! k_end) 0 (sub64 p_end (k_end * sz))];
               cs3 = fold (\<lambda>i cs. cs[i := mark_used lv (cs ! i) 0 (sz - 1)]) [Suc k_beg..<k_end] cs2
           in PhNode (any_free cs3) cs3))"
| "mark_used 0 (PhNode free_cache cs) p_beg p_end = PhNode free_cache cs"

text \<open>A freshly constructed allocator: every bitmap 0, every cache true.\<close>

fun new_ph_tree :: "nat \<Rightarrow> ph_tree" where
  "new_ph_tree 0 = PhLeaf 0"
| "new_ph_tree (Suc lv) = PhNode True (replicate 4 (new_ph_tree lv))"

section \<open>Well-formed trees and the set of free pages\<close>

text \<open>
  A tree of level \<open>lv\<close> has \<open>4 ^ lv\<close> leaves; its cache says whether a child is not full.
  Page \<open>n\<close> of a node of level \<open>lv + 1\<close> is page \<open>n mod npages lv\<close> of its child
  \<open>n div npages lv\<close>.
\<close>

definition npages :: "nat \<Rightarrow> nat" where
  "npages lv = 64 * 4 ^ lv"

fun wf_ph :: "nat \<Rightarrow> ph_tree \<Rightarrow> bool" where
  "wf_ph lv (PhLeaf x) = (lv = 0)"
| "wf_ph (Suc lv) (PhNode free_cache cs) =
     (length cs = 4 \<and> list_all (wf_ph lv) cs \<and> free_cache = any_free cs)"
| "wf_ph 0 (PhNode free_cache cs) = False"

fun free_at :: "nat \<Rightarrow> ph_tree \<Rightarrow> nat \<Rightarrow> bool" where
  "free_at lv (PhLeaf x) n = (n < 64 \<and> \<not> bit x n)"
| "free_at (Suc lv) (PhNode free_cache cs) n =
     (n div npages lv < 4 \<and> free_at lv (cs ! (n div npages lv)) (n mod npages lv))"
| "free_at 0 (PhNode free_cache cs) n = False"

lemma npages_pos [simp]: "0 < npages lv"
  by (simp add: npages_def)

lemma npages_Suc: "npages (Suc lv) = 4 * npages lv"
  by (simp add: npages_def)

lemma child_size_npages: "child_size (Suc lv) = 4096 * npages lv"
proof -
  have "(2::nat) ^ ((Suc lv + 2) * 2 + 12) = 2 ^ (2 * lv + 18)"
    by (simp add: algebra_simps)
  also have "\<dots> = 2 ^ (2 * lv) * 2 ^ 18"
    by (rule power_add)
  also have "(2::nat) ^ (2 * lv) = 4 ^ lv"
    by (simp add: power_mult)
  finally show ?thesis by (simp add: child_size_def npages_def)
qed

lemma free_at_bound: "free_at lv t n \<Longrightarrow> wf_ph lv t \<Longrightarrow> n < npages lv"
  by (induction lv t n rule: free_at.induct)
    (auto simp: npages_def div_less_iff_less_mult mult.commute)

lemma isfull_no_free:
  "wf_ph lv t \<Longrightarrow> isfull t \<longleftrightarrow> (\<forall>n. \<not> free_at lv t n)"
proof (induction lv t rule: wf_ph.induct)
  case (1 lv x)
  then show ?case by (auto simp: all_ones_u64)
next
  case (2 lv fc cs)
  then have len: "length cs = 4" and fc: "fc = any_free cs"
    and kids: "\<And>k. k < 4 \<Longrightarrow> wf_ph lv (cs ! k)"
    by (auto simp: list_all_length)
  have IH: "\<And>k. k < 4 \<Longrightarrow> isfull (cs ! k) \<longleftrightarrow> (\<forall>n. \<not> free_at lv (cs ! k) n)"
    using "2.IH" kids len nth_mem by metis
  show ?case
  proof
    assume "isfull (PhNode fc cs)"
    then have "\<And>k. k < 4 \<Longrightarrow> isfull (cs ! k)"
      using fc len by (auto simp: any_free_def list_ex_length)
    then show "\<forall>n. \<not> free_at (Suc lv) (PhNode fc cs) n"
      using IH by auto
  next
    assume none: "\<forall>n. \<not> free_at (Suc lv) (PhNode fc cs) n"
    have "isfull (cs ! k)" if k: "k < 4" for k
    proof -
      have "\<not> free_at lv (cs ! k) m" for m
      proof (cases "m < npages lv")
        case True
        with k none[rule_format, of "k * npages lv + m"] show ?thesis by simp
      next
        case False
        then show ?thesis using free_at_bound kids[OF k] by blast
      qed
      with IH k show ?thesis by blast
    qed
    with fc len show "isfull (PhNode fc cs)"
      by (auto simp: any_free_def list_ex_length)
  qed
qed simp

section \<open>Allocation\<close>

lemma phalloc_null_not_page [simp]: "phalloc_null \<noteq> n * 4096" "n * 4096 \<noteq> phalloc_null"
proof -
  have "odd phalloc_null" "even (n * 4096)"
    by (simp_all add: phalloc_null_def)
  then show "phalloc_null \<noteq> n * 4096" "n * 4096 \<noteq> phalloc_null"
    by metis+
qed

lemma leaf_scan_spec:
  assumes "leaf_scan js x = (p, x')" "\<forall>j\<in>set js. j < 64" "\<exists>j\<in>set js. \<not> bit x j"
  shows "\<exists>pre j post. js = pre @ j # post \<and> (\<forall>i\<in>set pre. bit x i) \<and> \<not> bit x j \<and>
    p = j * 4096 \<and> x' = x OR push_bit j 1"
  using assms
proof (induction js)
  case (Cons j js)
  show ?case
  proof (cases "bit x j")
    case True
    with Cons have "\<exists>pre i post. js = pre @ i # post \<and> (\<forall>i\<in>set pre. bit x i) \<and> \<not> bit x i \<and>
      p = i * 4096 \<and> x' = x OR push_bit i 1"
      by (simp add: bit_not_iff)
    then obtain pre i post where "js = pre @ i # post" "\<forall>i\<in>set pre. bit x i" "\<not> bit x i"
      "p = i * 4096" "x' = x OR push_bit i 1" by blast
    with True have "j # js = (j # pre) @ i # post \<and> (\<forall>i\<in>set (j # pre). bit x i) \<and> \<not> bit x i \<and>
      p = i * 4096 \<and> x' = x OR push_bit i 1" by simp
    then show ?thesis by blast
  next
    case False
    with Cons.prems have "j # js = [] @ j # js \<and> p = j * 4096 \<and> x' = x OR push_bit j 1"
      by (simp add: bit_not_iff)
    with False show ?thesis by fastforce
  qed
qed simp

lemma first_page_spec:
  assumes "first_page get cs = (i, x, cs')"
    and "\<And>c. c \<in> set cs \<Longrightarrow> isfull c \<Longrightarrow> get c = (phalloc_null, c)"
    and "\<And>c. c \<in> set cs \<Longrightarrow> \<not> isfull c \<Longrightarrow> fst (get c) \<noteq> phalloc_null"
    and "any_free cs"
  shows "i < length cs \<and> \<not> isfull (cs ! i) \<and> (\<forall>j < i. isfull (cs ! j)) \<and>
    x = fst (get (cs ! i)) \<and> cs' = cs[i := snd (get (cs ! i))]"
  using assms
proof (induction cs arbitrary: i cs')
  case (Cons c cs)
  show ?case
  proof (cases "isfull c")
    case True
    with Cons.prems(1,2,4) obtain k ds where fp: "first_page get cs = (k, x, ds)"
      "i = Suc k" "cs' = c # ds" "any_free cs"
      by (auto simp: any_free_def split: prod.splits)
    from Cons.IH[OF fp(1)] Cons.prems fp
    have "k < length cs \<and> \<not> isfull (cs ! k) \<and> (\<forall>j < k. isfull (cs ! j)) \<and>
      x = fst (get (cs ! k)) \<and> ds = cs[k := snd (get (cs ! k))]"
      by simp
    with fp True show ?thesis by (auto simp: less_Suc_eq_0_disj)
  next
    case False
    with Cons.prems(3)[of c] have "fst (get c) \<noteq> phalloc_null" by simp
    with False Cons.prems(1) show ?thesis by (auto split: prod.splits if_splits)
  qed
qed (simp add: any_free_def)

text \<open>
  What a call of \<open>get_page\<close> does to the set of free pages: nothing when it is empty;
  otherwise it takes the least free page and returns its byte address.
\<close>

definition takes_page :: "nat \<Rightarrow> ph_tree \<Rightarrow> nat \<Rightarrow> ph_tree \<Rightarrow> bool" where
  "takes_page lv t a t' \<longleftrightarrow> (\<exists>n. a = n * 4096 \<and> free_at lv t n \<and> (\<forall>m < n. \<not> free_at lv t m) \<and>
     wf_ph lv t' \<and> (\<forall>m. free_at lv t' m \<longleftrightarrow> free_at lv t m \<and> m \<noteq> n))"

lemma get_page_leaf:
  assumes "get_page 0 (PhLeaf x) = (a, t')" "\<not> isfull (PhLeaf x)"
  shows "takes_page 0 (PhLeaf x) a t'"
proof -
  from assms obtain x' where scan: "leaf_scan [0..<64] x = (a, x')" and t': "t' = PhLeaf x'"
    by (auto split: prod.splits)
  from assms(2) have "\<exists>j\<in>set [0..<64]. \<not> bit x j" by (auto simp: all_ones_u64)
  from leaf_scan_spec[OF scan _ this] obtain pre j post where
    js: "[0..<64] = pre @ j # post" and pre: "\<forall>i\<in>set pre. bit x i" and j: "\<not> bit x j"
    and a: "a = j * 4096" and x': "x' = x OR push_bit j 1"
    by auto
  have lp: "length pre < 64" using arg_cong[OF js, of length] by simp
  have "[0..<64] ! length pre = j" unfolding js by (rule nth_append_length)
  with lp have len: "length pre = j" and "j < 64" by auto
  have "pre = take (length pre) [0..<64]" unfolding js by simp
  then have "pre = [0..<j]" using len lp by (simp add: take_upt)
  with pre j a x' t' \<open>j < 64\<close> show ?thesis by (auto simp: takes_page_def)
qed

lemma free_at_node:
  "k < 4 \<Longrightarrow> m < npages lv \<Longrightarrow>
    free_at (Suc lv) (PhNode fc cs) (k * npages lv + m) \<longleftrightarrow> free_at lv (cs ! k) m"
  by simp

lemma node_takes_page:
  assumes wf: "wf_ph (Suc lv) (PhNode fc cs)" and i: "i < 4"
    and full: "\<forall>j < i. isfull (cs ! j)" and take: "takes_page lv (cs ! i) x c"
    and cs': "cs' = cs[i := c]" and a: "a = x + i * child_size (Suc lv)"
  shows "takes_page (Suc lv) (PhNode fc cs) a (PhNode (any_free cs') cs')"
proof -
  let ?s = "npages lv"
  from wf have len: "length cs = 4" and kids: "\<And>k. k < 4 \<Longrightarrow> wf_ph lv (cs ! k)"
    by (auto simp: list_all_length)
  from take obtain n where n: "x = n * 4096" "free_at lv (cs ! i) n" "\<forall>m < n. \<not> free_at lv (cs ! i) m"
    "wf_ph lv c" "\<And>m. free_at lv c m \<longleftrightarrow> free_at lv (cs ! i) m \<and> m \<noteq> n"
    by (auto simp: takes_page_def)
  have ns: "n < ?s" using n(2) kids[OF i] by (rule free_at_bound)
  have "\<not> free_at (Suc lv) (PhNode fc cs) m" if m: "m < i * ?s + n" for m
  proof (cases "m div ?s = i")
    case True
    with m have "m mod ?s < n"
      by (metis add_less_cancel_left div_mult_mod_eq)
    with n(3) True show ?thesis by simp
  next
    case False
    have "m < (i + 1) * ?s" using m ns by simp
    then have "m div ?s < i + 1" by (simp add: div_less_iff_less_mult)
    with False have "m div ?s < i" by linarith
    with full isfull_no_free[OF kids] i show ?thesis by simp
  qed
  moreover have "free_at (Suc lv) (PhNode (any_free cs') cs') m \<longleftrightarrow>
      free_at (Suc lv) (PhNode fc cs) m \<and> m \<noteq> i * ?s + n" for m
  proof (cases "m div ?s = i")
    case True
    then have "m = i * ?s + n \<longleftrightarrow> m mod ?s = n" by (metis add_left_cancel div_mult_mod_eq)
    with True n(5) len i show ?thesis by (simp add: cs')
  next
    case False
    then have "m \<noteq> i * ?s + n" using ns by auto
    with False len show ?thesis by (simp add: cs')
  qed
  moreover have "wf_ph (Suc lv) (PhNode (any_free cs') cs')"
    using len kids n(4) i by (simp add: cs' list_all_length nth_list_update)
  moreover have "free_at (Suc lv) (PhNode fc cs) (i * ?s + n)"
    using n(2) ns i by simp
  moreover have "a = (i * ?s + n) * 4096"
    by (simp add: a child_size_npages n(1))
  ultimately show ?thesis unfolding takes_page_def by blast
qed

lemma get_page_correct:
  assumes "wf_ph lv t" "lv \<le> 7" "get_page lv t = (a, t')"
  shows "(isfull t \<longrightarrow> a = phalloc_null \<and> t' = t) \<and> (\<not> isfull t \<longrightarrow> takes_page lv t a t')"
  using assms
proof (induction lv arbitrary: t a t')
  case 0
  then obtain x where "t = PhLeaf x" by (cases t) auto
  with 0 show ?case using get_page_leaf by (auto split: if_splits)
next
  case (Suc lv)
  then obtain fc cs where t: "t = PhNode fc cs" by (cases t) auto
  show ?case
  proof (cases fc)
    case False
    with Suc.prems(3) t have "a = phalloc_null \<and> t' = t" "isfull t" by auto
    then show ?thesis by blast
  next
    case True
    from Suc.prems t True obtain i x cs' where fp: "first_page (get_page lv) cs = (i, x, cs')"
      and a: "a = wrap64 (x + i * child_size (Suc lv))" and t': "t' = PhNode (any_free cs') cs'"
      by (auto split: prod.splits)
    have kid: "wf_ph lv c" if "c \<in> set cs" for c
      using that Suc.prems t by (auto simp: list_all_iff)
    have IH: "(isfull c \<longrightarrow> get_page lv c = (phalloc_null, c)) \<and>
        (\<not> isfull c \<longrightarrow> takes_page lv c (fst (get_page lv c)) (snd (get_page lv c)))"
      if "c \<in> set cs" for c
      using Suc.IH[OF kid[OF that]] Suc.prems(2) by (metis Suc_leD prod.collapse)
    then have fst: "fst (get_page lv c) \<noteq> phalloc_null" if "c \<in> set cs" "\<not> isfull c" for c
      using IH[OF that(1)] that(2) phalloc_null_not_page unfolding takes_page_def by metis
    have "any_free cs" using True Suc.prems(1) t by simp
    with first_page_spec[OF fp _ fst] IH
    have i: "i < length cs" "\<not> isfull (cs ! i)" "\<forall>j < i. isfull (cs ! j)"
      "x = fst (get_page lv (cs ! i))" "cs' = cs[i := snd (get_page lv (cs ! i))]" by auto
    with IH have "takes_page lv (cs ! i) x (snd (get_page lv (cs ! i)))" by simp
    from node_takes_page[OF Suc.prems(1)[unfolded t] _ i(3) this i(5) refl]
    have takes: "takes_page (Suc lv) t (x + i * child_size (Suc lv)) t'"
      using i(1) Suc.prems(1) t t' by simp
    then have "x + i * child_size (Suc lv) < npages (Suc lv) * 4096"
      using free_at_bound[OF _ Suc.prems(1)] by (auto simp: takes_page_def)
    also have "npages (Suc lv) \<le> 2 ^ 20"
    proof -
      have "(4::nat) ^ Suc lv \<le> 4 ^ 7" using Suc.prems(2) by (rule power_increasing) simp
      then show ?thesis by (simp add: npages_def)
    qed
    finally have "a = x + i * child_size (Suc lv)" using a by simp
    with takes True t show ?thesis by simp
  qed
qed

section \<open>Release\<close>

text \<open>
  An operation on a node is described child by child: if every child keeps its shape and
  its free pages change as \<open>P\<close> says, so does the node.
\<close>

lemma node_update:
  assumes len: "length cs' = 4"
    and kids: "\<And>j. j < 4 \<Longrightarrow> wf_ph lv (cs' ! j)"
    and upd: "\<And>j m. j < 4 \<Longrightarrow> m < npages lv \<Longrightarrow> free_at lv (cs' ! j) m \<longleftrightarrow> Q (j * npages lv + m)"
    and bound: "\<And>m. Q m \<Longrightarrow> m < npages (Suc lv)"
  shows "wf_ph (Suc lv) (PhNode (any_free cs') cs') \<and>
    (\<forall>m. free_at (Suc lv) (PhNode (any_free cs') cs') m \<longleftrightarrow> Q m)"
proof -
  have wf: "wf_ph (Suc lv) (PhNode (any_free cs') cs')"
    using len kids by (simp add: list_all_length)
  have "free_at (Suc lv) (PhNode (any_free cs') cs') m \<longleftrightarrow> Q m" for m
  proof (cases "m < npages (Suc lv)")
    case True
    then have j: "m div npages lv < 4"
      by (simp add: npages_Suc div_less_iff_less_mult)
    with upd[OF this, of "m mod npages lv"] show ?thesis by simp
  next
    case False
    with bound free_at_bound[OF _ wf] show ?thesis by blast
  qed
  with wf show ?thesis by blast
qed

lemma page_of_child:
  "p div 4096 = p div child_size (Suc lv) * npages lv + (p mod child_size (Suc lv)) div 4096"
proof -
  have "p div 4096 div npages lv = p div child_size (Suc lv)"
    by (simp add: child_size_npages div_mult2_eq)
  moreover have "p div 4096 mod npages lv = (p mod child_size (Suc lv)) div 4096"
    by (simp add: child_size_npages mod_mult2_eq)
  ultimately show ?thesis by (metis div_mult_mod_eq)
qed

lemma free_at_outside: "wf_ph lv t \<Longrightarrow> npages lv \<le> m \<Longrightarrow> \<not> free_at lv t m"
  using free_at_bound by (meson not_le)

lemma release_page_spec:
  assumes "wf_ph lv t" "p < npages lv * 4096"
  shows "wf_ph lv (release_page lv t p) \<and>
    (\<forall>m. free_at lv (release_page lv t p) m \<longleftrightarrow> m = p div 4096 \<or> free_at lv t m)"
  using assms
proof (induction lv arbitrary: t p)
  case 0
  then obtain x where "t = PhLeaf x" by (cases t) auto
  moreover have "p div 4096 < 64" using 0 by (simp add: npages_def div_less_iff_less_mult)
  ultimately show ?case by auto
next
  case (Suc lv)
  let ?sz = "child_size (Suc lv)"
  from Suc.prems obtain fc cs where t: "t = PhNode fc cs" by (cases t) auto
  with Suc.prems(1) have len: "length cs = 4" and fc: "fc = any_free cs"
    and kids: "\<And>k. k < 4 \<Longrightarrow> wf_ph lv (cs ! k)"
    by (auto simp: list_all_length)
  define k where "k = p div ?sz"
  define c where "c = release_page lv (cs ! k) (p mod ?sz)"
  have k: "k < 4" using Suc.prems(2)
    by (simp add: k_def child_size_npages npages_Suc div_less_iff_less_mult algebra_simps)
  have "p mod ?sz < npages lv * 4096"
    by (simp add: child_size_npages mult.commute)
  with Suc.IH kids k have c: "wf_ph lv c"
    "\<And>m. free_at lv c m \<longleftrightarrow> m = (p mod ?sz) div 4096 \<or> free_at lv (cs ! k) m"
    by (auto simp: c_def)
  have nf: "\<not> isfull c" using isfull_no_free[OF c(1)] c(2) by blast
  have pk: "p div 4096 div npages lv = k"
    by (simp add: k_def child_size_npages div_mult2_eq)
  have upd: "free_at lv (cs[k := c] ! j) m \<longleftrightarrow>
      j * npages lv + m = p div 4096 \<or> free_at (Suc lv) t (j * npages lv + m)"
    if j: "j < 4" "m < npages lv" for j m
  proof (cases "j = k")
    case True
    then show ?thesis using c(2) len k page_of_child[of p lv] j
      by (simp only: t free_at_node k_def) auto
  next
    case False
    have "j * npages lv + m \<noteq> p div 4096"
    proof
      assume eq: "j * npages lv + m = p div 4096"
      have "(j * npages lv + m) div npages lv = j" using j by simp
      then have "j = k" unfolding eq pk by (rule sym)
      with False show False by simp
    qed
    moreover have "cs[k := c] ! j = cs ! j" using False by simp
    ultimately show ?thesis using j by (simp only: t free_at_node simp_thms)
  qed
  have "any_free (cs[k := c])" using nf len k
    by (auto simp: any_free_def list_ex_length intro!: exI[of _ k])
  then have res: "release_page (Suc lv) t p = PhNode (any_free (cs[k := c])) (cs[k := c])"
    using t k nf by (simp add: k_def c_def minus_div_mult_eq_mod Let_def)
  have wfk: "\<And>j. j < 4 \<Longrightarrow> wf_ph lv (cs[k := c] ! j)"
    using kids c(1) len k by (simp add: nth_list_update)
  show ?case unfolding res
  proof (rule node_update)
    fix m assume "m = p div 4096 \<or> free_at (Suc lv) t m"
    then show "m < npages (Suc lv)"
      using Suc.prems free_at_bound by (auto simp: div_less_iff_less_mult)
  qed (use len wfk upd in auto)
qed

section \<open>Reservation of a byte range\<close>

lemma fold_update_nth:
  "b \<le> length xs \<Longrightarrow> j < length xs \<Longrightarrow>
    fold (\<lambda>i xs. xs[i := f (xs ! i)]) [a..<b] xs ! j = (if a \<le> j \<and> j < b then f (xs ! j) else xs ! j)"
proof (induction b)
  case (Suc b)
  have len: "length (fold (\<lambda>i xs. xs[i := f (xs ! i)]) js xs) = length xs" for js
    by (induction js arbitrary: xs) auto
  from Suc show ?case by (auto simp: nth_list_update len less_Suc_eq)
qed simp

lemma length_fold_update: "length (fold (\<lambda>i xs. xs[i := f (xs ! i)]) js xs) = length xs"
  by (induction js arbitrary: xs) auto

lemma bit_mark_bits:
  "bit (mark_bits b e x) i \<longleftrightarrow> bit x i \<or> (b \<le> i \<and> i \<le> e \<and> i < 64)"
proof -
  have "bit (fold (\<lambda>i x. x OR push_bit i 1) js x) i \<longleftrightarrow> bit x i \<or> (i \<in> set js \<and> i < 64)" for js
    by (induction js arbitrary: x) auto
  then show ?thesis by (auto simp: mark_bits_def simp del: upt_Suc)
qed

text \<open>Pages of a byte range that a node's loop over its children must reserve.\<close>

abbreviation in_range :: "nat \<Rightarrow> nat \<Rightarrow> nat \<Rightarrow> bool" where
  "in_range b e m \<equiv> b div 4096 \<le> m \<and> m \<le> e div 4096"

lemma page_shift: "(x - j * child_size (Suc lv)) div 4096 = x div 4096 - j * npages lv"
proof (cases "j * child_size (Suc lv) \<le> x")
  case True
  then obtain r where "x = j * npages lv * 4096 + r"
    by (auto simp: child_size_npages le_iff_add algebra_simps)
  then show ?thesis by (simp add: child_size_npages algebra_simps)
next
  case False
  then have "x \<le> j * npages lv * 4096" by (simp add: child_size_npages)
  from div_le_mono[OF this, of 4096] have "x div 4096 \<le> j * npages lv" by simp
  with False show ?thesis by simp
qed

text \<open>
  What the node's three stages leave in child \<open>j\<close>: the children strictly between the
  ends are reserved whole, the two end children partly, the others not at all.
\<close>

lemma mark_used_child:
  assumes wf: "\<And>j. j < 4 \<Longrightarrow> wf_ph lv (cs ! j)"
    and IH: "\<And>t b e. wf_ph lv t \<Longrightarrow> b \<le> e \<Longrightarrow> e < 2 ^ 64 \<Longrightarrow> wf_ph lv (mark_used lv t b e) \<and>
      (\<forall>m. free_at lv (mark_used lv t b e) m \<longleftrightarrow> free_at lv t m \<and> \<not> in_range b e m)"
    and be: "b \<le> e" "e < 2 ^ 64" and j: "j < 4"
    and c: "c = (if j * child_size (Suc lv) \<le> e \<and> b < (j + 1) * child_size (Suc lv)
      then mark_used lv (cs ! j) (b - j * child_size (Suc lv))
        (if e div child_size (Suc lv) = j \<or> j = 3 then e - j * child_size (Suc lv) else child_size (Suc lv) - 1)
      else cs ! j)"
  shows "wf_ph lv c \<and> (\<forall>m < npages lv.
    free_at lv c m \<longleftrightarrow> free_at lv (cs ! j) m \<and> \<not> in_range b e (j * npages lv + m))"
proof -
  let ?sz = "child_size (Suc lv)" and ?s = "npages lv"
  have sz: "?sz = 4096 * ?s" by (rule child_size_npages)
  show ?thesis
  proof (cases "j * ?sz \<le> e \<and> b < (j + 1) * ?sz")
    case False
    have "\<not> in_range b e (j * ?s + m)" if m: "m < ?s" for m
    proof (cases "j * ?sz \<le> e")
      case True
      with False have "(j + 1) * ?s * 4096 \<le> b" by (simp add: sz algebra_simps)
      then have "(j + 1) * ?s \<le> b div 4096" by (simp add: less_eq_div_iff_mult_less_eq)
      with m show ?thesis by simp
    next
      case False
      then have "e div 4096 < j * ?s" by (simp add: sz div_less_iff_less_mult algebra_simps)
      then show ?thesis by simp
    qed
    moreover have "c = cs ! j" using c False by (simp only: if_False)
    ultimately show ?thesis using wf[OF j] by simp
  next
    case True
    define e' where "e' = (if e div ?sz = j \<or> j = 3 then e - j * ?sz else ?sz - 1)"
    have c': "c = mark_used lv (cs ! j) (b - j * ?sz) e'" using True c by (simp add: e'_def)
    have le: "(j + 1) * ?sz \<le> e" if "e div ?sz \<noteq> j" "j \<noteq> 3"
    proof -
      have "j \<le> e div ?sz" using True by (simp add: less_eq_div_iff_mult_less_eq sz)
      with that have "j + 1 \<le> e div ?sz" by simp
      then show ?thesis by (meson div_times_less_eq_dividend le_trans mult_le_mono1)
    qed
    have "b - j * ?sz \<le> e'" "e' < 2 ^ 64"
      using True be le by (auto simp: e'_def)
    with IH[OF wf[OF j]] have res: "wf_ph lv c"
      "\<And>m. free_at lv c m \<longleftrightarrow> free_at lv (cs ! j) m \<and> \<not> in_range (b - j * ?sz) e' m"
      by (auto simp: c')
    have rng: "in_range (b - j * ?sz) e' m \<longleftrightarrow> in_range b e (j * ?s + m)" if m: "m < ?s" for m
    proof (cases "e div ?sz = j \<or> j = 3")
      case True2: True
      have "j * ?s * 4096 \<le> e" using True by (simp add: sz algebra_simps)
      then have "j * ?s \<le> e div 4096" by (simp only: less_eq_div_iff_mult_less_eq)
      with True2 show ?thesis by (auto simp: e'_def page_shift)
    next
      case False2: False
      with le have "(j + 1) * ?s * 4096 \<le> e" by (simp add: sz algebra_simps)
      then have "(j + 1) * ?s \<le> e div 4096" by (simp only: less_eq_div_iff_mult_less_eq)
      moreover have "e' div 4096 = ?s - 1" using False2
        by (simp add: e'_def sz)
      ultimately show ?thesis using m by (auto simp: page_shift)
    qed
    show ?thesis using res rng by blast
  qed
qed

text \<open>The children of a node after \<open>mark_used\<close>.\<close>

definition marked_kids :: "nat \<Rightarrow> ph_tree list \<Rightarrow> nat \<Rightarrow> nat \<Rightarrow> ph_tree list" where
  "marked_kids lv cs b e = map (\<lambda>j.
     if j * child_size (Suc lv) \<le> e \<and> b < (j + 1) * child_size (Suc lv)
     then mark_used lv (cs ! j) (b - j * child_size (Suc lv))
       (if e div child_size (Suc lv) = j \<or> j = 3 then e - j * child_size (Suc lv) else child_size (Suc lv) - 1)
     else cs ! j) [0..<4]"

lemma child_size_pos [simp]: "0 < child_size lv"
  by (simp add: child_size_def)

lemma mark_used_node:
  assumes len: "length cs = 4" and be: "b \<le> e" "e < 2 ^ 64" and kb: "b div child_size (Suc lv) < 4"
  shows "mark_used (Suc lv) (PhNode fc cs) b e =
    PhNode (any_free (marked_kids lv cs b e)) (marked_kids lv cs b e)"
proof -
  let ?sz = "child_size (Suc lv)"
  define k1 where "k1 = b div ?sz"
  define k2 where "k2 = (if e div ?sz \<ge> 4 then 3 else e div ?sz)"
  have k12: "k1 \<le> k2" "k2 < 4" "k1 < 4" using kb div_le_mono[OF be(1), of ?sz]
    by (auto simp: k1_def k2_def)
  have "j * ?sz \<le> e \<longleftrightarrow> j \<le> k2" if "j < 4" for j
    using that less_eq_div_iff_mult_less_eq[of ?sz j e] by (auto simp: k2_def)
  moreover have "b < (j + 1) * ?sz \<longleftrightarrow> k1 \<le> j" for j
    using div_less_iff_less_mult[of ?sz b "j + 1"] by (auto simp: k1_def)
  moreover have "e div ?sz = j \<or> j = 3 \<longleftrightarrow> j = k2" if "j \<le> k2" for j
    using that by (auto simp: k2_def split: if_splits)
  ultimately have kids: "marked_kids lv cs b e ! j =
      (if k1 \<le> j \<and> j \<le> k2 then mark_used lv (cs ! j) (b - j * ?sz)
         (if j = k2 then e - j * ?sz else ?sz - 1) else cs ! j)" if "j < 4" for j
    using that by (auto simp: marked_kids_def)
  have b0: "b - j * ?sz = 0" if "k1 < j" for j
  proof -
    have "b < (k1 + 1) * ?sz"
      using div_less_iff_less_mult[of ?sz b "k1 + 1"] by (simp add: k1_def)
    also have "\<dots> \<le> j * ?sz" using that by (intro mult_le_mono1) simp
    finally show ?thesis by simp
  qed
  have "k2 * ?sz \<le> e"
  proof -
    have "k2 \<le> e div ?sz" by (simp add: k2_def)
    then show ?thesis by (simp only: less_eq_div_iff_mult_less_eq child_size_pos)
  qed
  then have e: "sub64 e (k2 * ?sz) = e - k2 * ?sz" using be(2) by simp
  let ?mk = "\<lambda>i cs. cs[i := mark_used lv (cs ! i) 0 (?sz - 1)]"
  define cs1 where "cs1 = cs[k1 := mark_used lv (cs ! k1) (b - k1 * ?sz) (?sz - 1)]"
  define cs2 where "cs2 = cs1[k2 := mark_used lv (cs1 ! k2) 0 (e - k2 * ?sz)]"
  define cs3 where "cs3 = fold ?mk [Suc k1..<k2] cs2"
  show ?thesis
  proof (cases "k1 = k2")
    case True
    let ?cs = "cs[k1 := mark_used lv (cs ! k1) (b - k1 * ?sz) (e - k1 * ?sz)]"
    have "?cs = marked_kids lv cs b e"
      by (rule nth_equalityI) (use len k12 True in \<open>auto simp: kids nth_list_update marked_kids_def[THEN arg_cong[where f = length]]\<close>)
    moreover have "mark_used (Suc lv) (PhNode fc cs) b e = PhNode (any_free ?cs) ?cs"
      using kb True e by (simp add: Let_def k1_def[symmetric] k2_def[symmetric])
    ultimately show ?thesis by simp
  next
    case False
    have len3: "length cs2 = 4" "length cs1 = 4" by (simp_all add: cs2_def cs1_def len)
    have "length cs3 = length cs2" unfolding cs3_def by (rule length_fold_update)
    with len3 have len3: "length cs3 = 4" "length cs2 = 4" "length cs1 = 4" by simp_all
    have "cs3 ! j = marked_kids lv cs b e ! j" if j: "j < 4" for j
    proof -
      have "cs3 ! j = (if Suc k1 \<le> j \<and> j < k2 then mark_used lv (cs2 ! j) 0 (?sz - 1) else cs2 ! j)"
        unfolding cs3_def by (rule fold_update_nth) (use len3 k12 j in auto)
      then show ?thesis using False k12 j len
        by (auto simp: kids[OF j] cs2_def cs1_def nth_list_update b0)
    qed
    then have "cs3 = marked_kids lv cs b e"
      by (intro nth_equalityI) (simp_all add: len3 marked_kids_def)
    moreover have "mark_used (Suc lv) (PhNode fc cs) b e = PhNode (any_free cs3) cs3"
      using kb False e by (simp add: Let_def k1_def[symmetric] k2_def[symmetric] cs3_def cs2_def cs1_def)
    ultimately show ?thesis by simp
  qed
qed

theorem mark_used_spec:
  assumes "wf_ph lv t" "b \<le> e" "e < 2 ^ 64"
  shows "wf_ph lv (mark_used lv t b e) \<and>
    (\<forall>m. free_at lv (mark_used lv t b e) m \<longleftrightarrow> free_at lv t m \<and> \<not> in_range b e m)"
  using assms
proof (induction lv arbitrary: t b e)
  case 0
  then obtain x where "t = PhLeaf x" by (cases t) auto
  then show ?case by (auto simp: bit_mark_bits Let_def)
next
  case (Suc lv)
  let ?sz = "child_size (Suc lv)"
  from Suc.prems obtain fc cs where t: "t = PhNode fc cs" by (cases t) auto
  with Suc.prems(1) have len: "length cs = 4"
    and kids: "\<And>k. k < 4 \<Longrightarrow> wf_ph lv (cs ! k)"
    by (auto simp: list_all_length)
  show ?case
  proof (cases "b div ?sz < 4")
    case True
    let ?cs = "marked_kids lv cs b e"
    have kid: "wf_ph lv (?cs ! j) \<and> (\<forall>m < npages lv. free_at lv (?cs ! j) m \<longleftrightarrow>
        free_at lv (cs ! j) m \<and> \<not> in_range b e (j * npages lv + m))" if j: "j < 4" for j
      by (rule mark_used_child[OF kids Suc.IH Suc.prems(2,3) j]) (simp_all add: marked_kids_def j)
    show ?thesis unfolding t mark_used_node[OF len Suc.prems(2,3) True]
    proof (rule node_update)
      fix m assume "free_at (Suc lv) (PhNode fc cs) m \<and> \<not> in_range b e m"
      with free_at_bound Suc.prems(1) t show "m < npages (Suc lv)" by blast
    next
      fix j m :: nat assume "j < 4" "m < npages lv"
      with kid show "free_at lv (?cs ! j) m \<longleftrightarrow>
        free_at (Suc lv) (PhNode fc cs) (j * npages lv + m) \<and> \<not> in_range b e (j * npages lv + m)"
        by (simp only: free_at_node)
    qed (use kid in \<open>simp_all add: marked_kids_def\<close>)
  next
    case False
    then have "npages (Suc lv) \<le> b div 4096"
      by (simp add: npages_Suc child_size_npages div_mult2_eq less_eq_div_iff_mult_less_eq not_less)
    with free_at_bound[OF _ Suc.prems(1)] have "free_at (Suc lv) t m \<Longrightarrow> \<not> in_range b e m" for m
      by fastforce
    moreover have "mark_used (Suc lv) t b e = t" using False t by (simp add: Let_def)
    ultimately show ?thesis using Suc.prems(1) by auto
  qed
qed

section \<open>A fresh allocator\<close>

lemma new_ph_tree_spec:
  "wf_ph lv (new_ph_tree lv) \<and> \<not> isfull (new_ph_tree lv) \<and>
    (\<forall>n. free_at lv (new_ph_tree lv) n \<longleftrightarrow> n < npages lv)"
proof (induction lv)
  case 0
  show ?case by (auto simp: npages_def)
next
  case (Suc lv)
  have "any_free (replicate 4 (new_ph_tree lv))"
    using Suc by (simp add: any_free_def list_ex_iff)
  moreover have "free_at (Suc lv) (new_ph_tree (Suc lv)) n \<longleftrightarrow> n < npages (Suc lv)" for n
  proof -
    have "free_at (Suc lv) (new_ph_tree (Suc lv)) n \<longleftrightarrow> n div npages lv < 4"
      using Suc by (cases "n div npages lv < 4") simp_all
    then show ?thesis by (simp add: npages_Suc div_less_iff_less_mult)
  qed
  moreover have "list_all (wf_ph lv) (replicate 4 (new_ph_tree lv))"
    using Suc by (simp add: list_all_iff)
  ultimately show ?case by simp
qed

lemma new_ph_tree_get:
  "lv \<le> 7 \<Longrightarrow> fst (get_page lv (new_ph_tree lv)) \<noteq> phalloc_null"
  using get_page_correct[of lv "new_ph_tree lv", OF _ _ surjective_pairing] new_ph_tree_spec[of lv]
    phalloc_null_not_page unfolding takes_page_def by metis

section \<open>The kernel's allocator as an allocator of pages\<close>

text \<open>
  \<^verbatim>\<open>palloc\<close> has depth 10, level 7, four gigabytes. \<^verbatim>\<open>get_phpage\<close> and
  \<^verbatim>\<open>release_phpage\<close> of kernel/kmmap.cc call it; \<^verbatim>\<open>phalloc_null\<close> means no page.
\<close>

definition get_phpage :: "unit \<Rightarrow> ph_tree \<Rightarrow> nat option \<times> ph_tree" where
  "get_phpage _ t = (case get_page 7 t of (a, t') \<Rightarrow>
     (if a = phalloc_null then None else Some a, t'))"

definition release_phpage :: "unit \<Rightarrow> nat \<Rightarrow> ph_tree \<Rightarrow> ph_tree" where
  "release_phpage _ p t = release_page 7 t p"

definition page_of :: "unit \<Rightarrow> nat \<Rightarrow> nat set" where
  "page_of _ a = {a div 4096}"

lemma get_page_cases:
  assumes "wf_ph lv t" "lv \<le> 7" "get_page lv t = (a, t')"
  obtains "a = phalloc_null" "t' = t" "\<And>n. \<not> free_at lv t n"
    | n where "a = n * 4096" "free_at lv t n" "wf_ph lv t'"
      "\<And>m. free_at lv t' m \<longleftrightarrow> free_at lv t m \<and> m \<noteq> n"
proof (cases "isfull t")
  case True
  with get_page_correct[OF assms] isfull_no_free[OF assms(1)] that(1) show thesis by blast
next
  case False
  with get_page_correct[OF assms] have "takes_page lv t a t'" by blast
  with that(2) show thesis unfolding takes_page_def by blast
qed

interpretation phpages: releasing_allocator "wf_ph 7" "free_at 7" get_phpage page_of release_phpage
proof
  fix s q r s' assume wf: "wf_ph 7 s" and alloc: "get_phpage q s = (Some r, s')"
  from alloc have get: "get_page 7 s = (r, s')" "r \<noteq> phalloc_null"
    by (auto simp: get_phpage_def split: prod.splits if_splits)
  from get_page_cases[OF wf _ get(1)] get(2) obtain n where
    n: "r = n * 4096" "free_at 7 s n" "wf_ph 7 s'" "\<And>m. free_at 7 s' m \<longleftrightarrow> free_at 7 s m \<and> m \<noteq> n"
    by auto
  then show "wf_ph 7 s' \<and> (\<forall>n\<in>page_of q r. free_at 7 s n) \<and>
      (\<forall>n. free_at 7 s' n \<longleftrightarrow> free_at 7 s n \<and> n \<notin> page_of q r)"
    by (auto simp: page_of_def)
  have "r < npages 7 * 4096" using n(1,2) free_at_bound[OF _ wf] by simp
  from release_page_spec[OF n(3) this] n
  show "wf_ph 7 (release_phpage q r s') \<and> (\<forall>n. free_at 7 (release_phpage q r s') n \<longleftrightarrow> free_at 7 s n)"
    by (auto simp: release_phpage_def)
next
  fix s q s' assume wf: "wf_ph 7 s" and alloc: "get_phpage q s = (None, s')"
  from alloc have get: "get_page 7 s = (phalloc_null, s')"
    by (auto simp: get_phpage_def split: prod.splits if_splits)
  from get_page_cases[OF wf _ get] wf
  show "wf_ph 7 s' \<and> (\<forall>n. free_at 7 s' n \<longleftrightarrow> free_at 7 s n)"
    using phalloc_null_not_page by (metis order_refl)
qed

section \<open>Properties\<close>

text \<open>
  C1: \<^verbatim>\<open>get_page\<close> on a well-formed tree (up to the kernel's depth 10) returns the byte
  address of the least free page and removes exactly this page from the free set, or
  returns \<^verbatim>\<open>phalloc_null\<close> and changes nothing, in which case no page was free: a cached
  free flag never sends the search into a full subtree.
\<close>

theorem get_page_least_free:
  assumes "wf_ph lv t" "lv \<le> 7" "get_page lv t = (a, t')"
  shows "takes_page lv t a t' \<or> (a = phalloc_null \<and> t' = t \<and> (\<forall>n. \<not> free_at lv t n))"
  using get_page_correct[OF assms] isfull_no_free[OF assms(1)] by blast

lemma get_page_least_free_witness:
  "takes_page 7 (new_ph_tree 7) (fst (get_page 7 (new_ph_tree 7))) (snd (get_page 7 (new_ph_tree 7)))"
  using get_page_least_free[of 7 "new_ph_tree 7", OF _ _ surjective_pairing] new_ph_tree_spec[of 7]
    new_ph_tree_get[of 7] by blast

text \<open>
  C2: however many times the kernel calls \<^verbatim>\<open>get_phpage\<close>, the pages it is given were free,
  are pairwise distinct, and are exactly the pages that stopped being free.
\<close>

theorem phpages_never_shared:
  assumes "wf_ph 7 t" "serve get_phpage (replicate k ()) t = (gs, t')"
  shows "distinct (map (\<lambda>(q, a). a div 4096) gs) \<and> wf_ph 7 t' \<and>
    (\<forall>n. free_at 7 t n \<longleftrightarrow> free_at 7 t' n \<or> n \<in> set (map (\<lambda>(q, a). a div 4096) gs))"
proof -
  note spec = phpages.serve_spec[OF assms]
  have "sorted_wrt (\<lambda>x y. x \<noteq> y) (map (\<lambda>(q, a). a div 4096) gs)"
    using spec unfolding sorted_wrt_map
    by (elim conjE, elim sorted_wrt_mono_rel[rotated]) (auto simp: page_of_def)
  moreover have "distinct xs" if "sorted_wrt (\<lambda>x y. x \<noteq> y) xs" for xs :: "nat list"
    using that by (induction xs) auto
  ultimately show ?thesis using spec by (fastforce simp: page_of_def)
qed

lemma phpages_never_shared_witness:
  "distinct (map (\<lambda>(q, a). a div 4096) (fst (serve get_phpage (replicate 3 ()) (new_ph_tree 7))))"
  using phpages_never_shared[of "new_ph_tree 7" 3, OF _ surjective_pairing] new_ph_tree_spec[of 7]
  by blast

text \<open>
  \<^verbatim>\<open>mark_used(p_beg, p_end)\<close> takes exactly the pages from the one of \<^verbatim>\<open>p_beg\<close> to the one
  of \<^verbatim>\<open>p_end\<close> (inclusive, clipped to the tree) out of the free set and keeps every cached
  flag correct, although the node splits the range over its four children.
\<close>

theorem mark_used_exact:
  assumes "wf_ph lv t" "p_beg \<le> p_end" "p_end < 2 ^ 64"
  shows "wf_ph lv (mark_used lv t p_beg p_end) \<and>
    (\<forall>n. free_at lv (mark_used lv t p_beg p_end) n \<longleftrightarrow>
       free_at lv t n \<and> \<not> (p_beg div 4096 \<le> n \<and> n \<le> p_end div 4096))"
  using mark_used_spec[OF assms] .

lemma mark_used_exact_witness:
  "\<not> free_at 7 (mark_used 7 (new_ph_tree 7) 0x100000 0x4fffff) 0x200 \<and>
    free_at 7 (mark_used 7 (new_ph_tree 7) 0x100000 0x4fffff) 0x500"
  using mark_used_exact[of 7 "new_ph_tree 7" "0x100000" "0x4fffff"] new_ph_tree_spec[of 7]
  by (simp add: npages_def)

text \<open>
  \<^verbatim>\<open>release_page\<close> gives back the page of its address and no other, and a page just
  taken and released leaves the set of free pages as it was.
\<close>

theorem release_page_restores:
  assumes "wf_ph lv t" "lv \<le> 7" "get_page lv t = (a, t')" "a \<noteq> phalloc_null"
  shows "wf_ph lv (release_page lv t' a) \<and>
    (\<forall>n. free_at lv (release_page lv t' a) n \<longleftrightarrow> free_at lv t n) \<and>
    (\<forall>p < npages lv * 4096. \<forall>n. free_at lv (release_page lv t p) n \<longleftrightarrow> n = p div 4096 \<or> free_at lv t n)"
proof -
  from get_page_cases[OF assms(1-3)] assms(4) obtain n where
    n: "a = n * 4096" "free_at lv t n" "wf_ph lv t'" "\<And>m. free_at lv t' m \<longleftrightarrow> free_at lv t m \<and> m \<noteq> n"
    by auto
  have "a < npages lv * 4096" using n(1,2) free_at_bound[OF _ assms(1)] by simp
  from release_page_spec[OF n(3) this] n release_page_spec[OF assms(1)]
  show ?thesis by auto
qed

lemma release_page_restores_witness:
  "wf_ph 7 (release_page 7 (snd (get_page 7 (new_ph_tree 7))) (fst (get_page 7 (new_ph_tree 7))))"
  using release_page_restores[of 7 "new_ph_tree 7", OF _ _ surjective_pairing]
    new_ph_tree_spec[of 7] new_ph_tree_get[of 7] by blast

end
