(* ===== verification/Buddy.thy ===== *)
theory Buddy
  imports Allocator
begin

text \<open>
  The buddy allocator of virtual address ranges, kernel/mem/vmem_allocator.hh. A node of
  depth \<open>d\<close> covers \<open>2 ^ (d + 12)\<close> bytes; \<^verbatim>\<open>maxdepth\<close> is the order of the largest free
  block below it, \<open>- 1\<close> when there is none and \<open>d\<close> when the whole block is free. In these
  two cases the children's fields are stale, and the code refreshes them on demand.
\<close>

datatype buddy = BLeaf int | BNode int buddy buddy

definition alloc_null :: nat where
  "alloc_null = null64"

fun maxdepth :: "buddy \<Rightarrow> int" where
  "maxdepth (BLeaf md) = md"
| "maxdepth (BNode md _ _) = md"

fun set_maxdepth :: "int \<Rightarrow> buddy \<Rightarrow> buddy" where
  "set_maxdepth md (BLeaf _) = BLeaf md"
| "set_maxdepth md (BNode _ l r) = BNode md l r"

definition total_size :: "nat \<Rightarrow> nat" where
  "total_size d = 2 ^ (d + 12)"

text \<open>\<^verbatim>\<open>mid_point\<close> of a node of depth \<open>d + 1\<close> is \<open>total_size d\<close>.\<close>

fun new_buddy :: "nat \<Rightarrow> buddy" where
  "new_buddy 0 = BLeaf 0"
| "new_buddy (Suc d) = BNode (int (Suc d)) (new_buddy d) (new_buddy d)"

fun get_range :: "nat \<Rightarrow> buddy \<Rightarrow> nat \<Rightarrow> nat \<times> buddy" where
  "get_range d (BLeaf md) sz =
     (if sz > 4096 \<or> md = - 1 then (alloc_null, BLeaf md) else (0, BLeaf (- 1)))"
| "get_range (Suc d) (BNode md l r) sz =
     (if md = - 1 \<or> sz > 2 ^ nat (md + 12) then (alloc_null, BNode md l r)
      else if sz > total_size d then (0, BNode md l r)
      else
        let l = (if md = int (Suc d) then set_maxdepth (int d) l else l);
            r = (if md = int (Suc d) then set_maxdepth (int d) r else r)
        in case get_range d l sz of (v, l') \<Rightarrow>
          if v = alloc_null
          then (case get_range d r sz of (w, r') \<Rightarrow> (wrap64 (total_size d + w), BNode md l' r'))
          else (v, BNode md l' r))"
| "get_range 0 (BNode md l r) sz = (alloc_null, BNode md l r)"

text \<open>The value a node recomputes after freeing below it.\<close>

definition joined :: "nat \<Rightarrow> buddy \<Rightarrow> buddy \<Rightarrow> int" where
  "joined d l r = (if maxdepth l = int d \<and> maxdepth r = int d then int (Suc d)
     else max (maxdepth l) (maxdepth r))"

fun free_range :: "nat \<Rightarrow> buddy \<Rightarrow> nat \<Rightarrow> nat \<Rightarrow> buddy" where
  "free_range d (BLeaf md) addr sz = (if addr < 4096 \<and> sz \<noteq> 0 then BLeaf 0 else BLeaf md)"
| "free_range (Suc d) (BNode md l r) addr sz =
     (if addr \<ge> total_size (Suc d) \<or> sz = 0 then BNode md l r
      else if addr = 0 \<and> sz \<ge> total_size (Suc d) then BNode (int d) l r
      else
        let l = (if md = - 1 then set_maxdepth (- 1) l else l);
            r = (if md = - 1 then set_maxdepth (- 1) r else r)
        in
        if addr \<ge> total_size d then
          (let r' = free_range d r (addr - total_size d) sz in BNode (joined d l r') l r')
        else if wrap64 (addr + sz) \<le> total_size d then
          (let l' = free_range d l addr sz in BNode (joined d l' r) l' r)
        else
          (let l' = free_range d l addr (total_size d - addr);
               r' = free_range d r 0 (wrap64 (sub64 sz (total_size d) + addr))
           in BNode (joined d l' r') l' r'))"
| "free_range 0 (BNode md l r) addr sz = BNode md l r"

fun is_range_free :: "nat \<Rightarrow> buddy \<Rightarrow> nat \<Rightarrow> nat \<Rightarrow> bool" where
  "is_range_free d (BLeaf md) addr sz = (wrap64 (addr + sz) \<le> 4096 \<and> md = 0)"
| "is_range_free (Suc d) (BNode md l r) addr sz =
     (if sz = 0 then True
      else if md = - 1 \<or> wrap64 (addr + sz) \<ge> total_size (Suc d) then False
      else if md = int (Suc d) then True
      else if addr \<ge> total_size d then is_range_free d r (addr - total_size d) sz
      else if wrap64 (addr + sz) \<le> total_size d then is_range_free d l addr sz
      else is_range_free d l addr (total_size d - addr) \<and>
        is_range_free d r 0 (wrap64 (sub64 sz (total_size d) + addr)))"
| "is_range_free 0 (BNode md l r) addr sz = False"

fun mark_range :: "nat \<Rightarrow> buddy \<Rightarrow> nat \<Rightarrow> nat \<Rightarrow> buddy" where
  "mark_range d (BLeaf md) addr sz = (if sz > 0 \<and> addr < 4096 then BLeaf (- 1) else BLeaf md)"
| "mark_range (Suc d) (BNode md l r) addr sz =
     (if md = - 1 \<or> sz = 0 then BNode md l r
      else if addr = 0 \<and> sz \<ge> total_size (Suc d) then BNode (- 1) l r
      else
        let l = (if md = int (Suc d) then set_maxdepth (int d) l else l);
            r = (if md = int (Suc d) then set_maxdepth (int d) r else r)
        in
        if addr \<ge> total_size d then
          (let r' = mark_range d r (addr - total_size d) sz
           in BNode (max (maxdepth l) (maxdepth r')) l r')
        else if wrap64 (addr + sz) \<le> total_size d then
          (let l' = mark_range d l addr sz in BNode (max (maxdepth l') (maxdepth r)) l' r)
        else
          (let l' = mark_range d l addr (total_size d - addr);
               r' = mark_range d r 0 (wrap64 (sub64 sz (total_size d) + addr))
           in BNode (max (maxdepth l') (maxdepth r')) l' r'))"
| "mark_range 0 (BNode md l r) addr sz = BNode md l r"

text \<open>\<^verbatim>\<open>VirtualMemoryAllocator<depth>\<close>: the state is its root.\<close>

definition vma_mmap :: "nat \<Rightarrow> buddy \<Rightarrow> nat \<Rightarrow> nat \<Rightarrow> nat \<times> buddy" where
  "vma_mmap d root addr sz =
     (if sz > total_size d \<or> sz = 0 then (alloc_null, root)
      else if is_range_free d root addr sz then (addr, mark_range d root addr sz)
      else case get_range d root sz of (retval, root') \<Rightarrow>
        (retval, mark_range d root' retval sz))"

definition vma_munmap :: "nat \<Rightarrow> buddy \<Rightarrow> nat \<Rightarrow> nat \<Rightarrow> buddy" where
  "vma_munmap d root addr sz = free_range d root addr sz"

definition vma_mark_used :: "nat \<Rightarrow> buddy \<Rightarrow> nat \<Rightarrow> nat \<Rightarrow> buddy" where
  "vma_mark_used d root addr_begin sz = mark_range d root addr_begin sz"

section \<open>Shape, invariant and free pages\<close>

fun shape :: "nat \<Rightarrow> buddy \<Rightarrow> bool" where
  "shape d (BLeaf md) = (d = 0)"
| "shape (Suc d) (BNode md l r) = (shape d l \<and> shape d r)"
| "shape 0 (BNode md l r) = False"

fun buddy_inv :: "nat \<Rightarrow> buddy \<Rightarrow> bool" where
  "buddy_inv d (BLeaf md) = (d = 0 \<and> (md = - 1 \<or> md = 0))"
| "buddy_inv (Suc d) (BNode md l r) =
     (shape d l \<and> shape d r \<and>
      (md = - 1 \<or> md = int (Suc d) \<or>
       (md = max (maxdepth l) (maxdepth r) \<and> buddy_inv d l \<and> buddy_inv d r)))"
| "buddy_inv 0 (BNode md l r) = False"

fun bfree :: "nat \<Rightarrow> buddy \<Rightarrow> nat \<Rightarrow> bool" where
  "bfree d (BLeaf md) n = (n = 0 \<and> md = 0)"
| "bfree (Suc d) (BNode md l r) n =
     (if md = - 1 then False
      else if md = int (Suc d) then n < 2 ^ Suc d
      else if n < 2 ^ d then bfree d l n
      else bfree d r (n - 2 ^ d))"
| "bfree 0 (BNode md l r) n = False"

text \<open>Page \<open>n\<close> meets the byte range of \<open>sz\<close> bytes from \<open>addr\<close>.\<close>

definition touches :: "nat \<Rightarrow> nat \<Rightarrow> nat \<Rightarrow> bool" where
  "touches addr sz n \<longleftrightarrow> 0 < sz \<and> n * 4096 < addr + sz \<and> addr < (n + 1) * 4096"

lemma total_size_Suc: "total_size (Suc d) = 2 * total_size d"
  by (simp add: total_size_def power_add)

lemma total_size_pages: "total_size d = 2 ^ d * 4096"
  by (simp add: total_size_def power_add)

lemma total_size_pos [simp]: "0 < total_size d"
  by (simp add: total_size_def)

lemma shape_set_maxdepth [simp]: "shape d (set_maxdepth md t) = shape d t"
  by (cases t; cases d) auto

lemma maxdepth_set_maxdepth [simp]: "maxdepth (set_maxdepth md t) = md"
  by (cases t) auto

lemma buddy_inv_shape: "buddy_inv d t \<Longrightarrow> shape d t"
  by (cases t; cases d) auto

lemma buddy_inv_set [simp]:
  "shape d t \<Longrightarrow> buddy_inv d (set_maxdepth (int d) t)"
  "shape d t \<Longrightarrow> buddy_inv d (set_maxdepth (- 1) t)"
  by (cases t; cases d; simp)+

lemma bfree_set [simp]:
  "shape d t \<Longrightarrow> bfree d (set_maxdepth (int d) t) n \<longleftrightarrow> n < 2 ^ d"
  "shape d t \<Longrightarrow> bfree d (set_maxdepth (- 1) t) n \<longleftrightarrow> False"
  by (cases t; cases d; simp)+

lemma maxdepth_range: "buddy_inv d t \<Longrightarrow> - 1 \<le> maxdepth t \<and> maxdepth t \<le> int d"
  by (induction d t rule: buddy_inv.induct) auto

lemma bfree_bound: "bfree d t n \<Longrightarrow> n < 2 ^ d"
  by (induction d t n rule: bfree.induct) (auto split: if_splits)

lemma bfree_full: "maxdepth t = int d \<Longrightarrow> shape d t \<Longrightarrow> bfree d t n \<longleftrightarrow> n < 2 ^ d"
  by (cases t; cases d) auto

lemma bfree_empty: "maxdepth t = - 1 \<Longrightarrow> \<not> bfree d t n"
  by (cases t; cases d) auto

section \<open>Reservation\<close>

lemma touches_left:
  "n < 2 ^ d \<Longrightarrow> addr < total_size d \<Longrightarrow>
    touches addr sz n \<longleftrightarrow> touches addr (min sz (total_size d - addr)) n"
  by (auto simp: touches_def total_size_pages min_def)

lemma page_below:
  assumes "(n :: nat) < 2 ^ d"
  shows "(n + 1) * 4096 \<le> total_size d"
proof -
  have "n + 1 \<le> 2 ^ d" using assms by simp
  then show ?thesis unfolding total_size_pages by (rule mult_le_mono1)
qed

lemma page_above: "2 ^ d \<le> n \<Longrightarrow> total_size d \<le> n * 4096"
  unfolding total_size_pages by (rule mult_le_mono1)

lemma page_minus: "2 ^ d \<le> n \<Longrightarrow> (n - 2 ^ d) * 4096 = n * 4096 - total_size d"
  by (simp add: total_size_pages diff_mult_distrib)

lemma touches_low: "n < 2 ^ d \<Longrightarrow> total_size d \<le> addr \<Longrightarrow> \<not> touches addr sz n"
  using page_below[of n d] by (auto simp: touches_def)

lemma touches_high: "2 ^ d \<le> n \<Longrightarrow> addr + sz \<le> total_size d \<Longrightarrow> \<not> touches addr sz n"
  using page_above[of d n] by (auto simp: touches_def)

lemma touches_shift:
  "2 ^ d \<le> n \<Longrightarrow> total_size d \<le> addr \<Longrightarrow>
    touches addr sz n \<longleftrightarrow> touches (addr - total_size d) sz (n - 2 ^ d)"
  using page_above[of d n] page_minus[of d n] by (auto simp: touches_def)

lemma touches_over_left:
  assumes "n < 2 ^ d" "addr < total_size d" "total_size d < addr + sz"
  shows "touches addr sz n \<longleftrightarrow> touches addr (total_size d - addr) n"
  using page_below[OF assms(1)] assms(2,3) by (auto simp: touches_def)

lemma touches_over_right:
  assumes "2 ^ d \<le> n" "addr < total_size d" "total_size d < addr + sz"
  shows "touches addr sz n \<longleftrightarrow> touches 0 (addr + sz - total_size d) (n - 2 ^ d)"
  using page_above[OF assms(1)] page_minus[OF assms(1)] assms(2,3) by (auto simp: touches_def)

lemma wrap_sub_add:
  assumes "t \<le> a + s" "a + s < 2 ^ 64"
  shows "wrap64 (sub64 s t + a) = a + s - t"
proof -
  have "(s + (2 ^ 64 - t)) + a = (a + s - t) + 2 ^ 64"
    using assms by simp
  then have "wrap64 (sub64 s t + a) = ((a + s - t) + 2 ^ 64) mod 2 ^ 64" using assms
    by (simp add: wrap64_def sub64_def mod_simps)
  also have "\<dots> = (a + s - t) mod 2 ^ 64"
    by (rule mod_add_self2)
  finally show ?thesis using assms by simp
qed

text \<open>The children a call works on: refreshed when the node is fully free or fully used.\<close>

definition refreshed :: "bool \<Rightarrow> int \<Rightarrow> buddy \<Rightarrow> buddy" where
  "refreshed stale md t = (if stale then set_maxdepth md t else t)"

lemma refreshed_free:
  assumes "buddy_inv (Suc d) (BNode md l r)" "md \<noteq> - 1"
  shows "buddy_inv d (refreshed (md = int (Suc d)) (int d) l)"
    "buddy_inv d (refreshed (md = int (Suc d)) (int d) r)"
    "bfree (Suc d) (BNode md l r) n \<longleftrightarrow>
      (if n < 2 ^ d then bfree d (refreshed (md = int (Suc d)) (int d) l) n
       else bfree d (refreshed (md = int (Suc d)) (int d) r) (n - 2 ^ d))"
  using assms by (auto simp: refreshed_def)

lemma joined_max_inv:
  assumes "buddy_inv d l" "buddy_inv d r"
  shows "buddy_inv (Suc d) (BNode (max (maxdepth l) (maxdepth r)) l r)"
    "bfree (Suc d) (BNode (max (maxdepth l) (maxdepth r)) l r) n \<longleftrightarrow>
      (if n < 2 ^ d then bfree d l n else bfree d r (n - 2 ^ d))"
proof -
  note rng = maxdepth_range[OF assms(1)] maxdepth_range[OF assms(2)]
  show "buddy_inv (Suc d) (BNode (max (maxdepth l) (maxdepth r)) l r)"
    using assms buddy_inv_shape by auto
  show "bfree (Suc d) (BNode (max (maxdepth l) (maxdepth r)) l r) n \<longleftrightarrow>
      (if n < 2 ^ d then bfree d l n else bfree d r (n - 2 ^ d))"
  proof (cases "max (maxdepth l) (maxdepth r) = - 1")
    case True
    with rng have "maxdepth l = - 1" "maxdepth r = - 1" by auto
    then show ?thesis by (simp add: bfree_empty)
  next
    case False
    moreover have "max (maxdepth l) (maxdepth r) \<noteq> int (Suc d)" using rng by auto
    ultimately show ?thesis by simp
  qed
qed

lemma mark_range_step:
  assumes "md \<noteq> - 1" "sz \<noteq> 0" "\<not> (addr = 0 \<and> sz \<ge> total_size (Suc d))"
    and "l1 = refreshed (md = int (Suc d)) (int d) l" "r1 = refreshed (md = int (Suc d)) (int d) r"
  shows "mark_range (Suc d) (BNode md l r) addr sz =
    (if addr \<ge> total_size d then
       (let r' = mark_range d r1 (addr - total_size d) sz in BNode (max (maxdepth l1) (maxdepth r')) l1 r')
     else if wrap64 (addr + sz) \<le> total_size d then
       (let l' = mark_range d l1 addr sz in BNode (max (maxdepth l') (maxdepth r1)) l' r1)
     else
       (let l' = mark_range d l1 addr (total_size d - addr);
            r' = mark_range d r1 0 (wrap64 (sub64 sz (total_size d) + addr))
        in BNode (max (maxdepth l') (maxdepth r')) l' r'))"
  unfolding mark_range.simps refreshed_def[symmetric] assms(4,5)[symmetric]
    if_not_P[OF assms(3)] Let_def using assms(1,2) by simp

lemma mark_range_node:
  assumes "md \<noteq> - 1" "sz \<noteq> 0" "\<not> (addr = 0 \<and> sz \<ge> total_size (Suc d))"
    and "l1 = refreshed (md = int (Suc d)) (int d) l" "r1 = refreshed (md = int (Suc d)) (int d) r"
    and "addr + sz < 2 ^ 64 \<or> total_size (Suc d) \<le> addr"
  shows "mark_range (Suc d) (BNode md l r) addr sz =
    (let l2 = (if addr < total_size d then mark_range d l1 addr (min sz (total_size d - addr)) else l1);
         r2 = (if total_size d \<le> addr then mark_range d r1 (addr - total_size d) sz
               else if total_size d < addr + sz then mark_range d r1 0 (addr + sz - total_size d) else r1)
     in BNode (max (maxdepth l2) (maxdepth r2)) l2 r2)"
proof (cases "total_size d \<le> addr")
  case False
  with assms(6) have w: "addr + sz < 2 ^ 64" by (simp add: total_size_Suc)
  show ?thesis
  proof (cases "addr + sz \<le> total_size d")
    case True
    with False w show ?thesis unfolding mark_range_step[OF assms(1-5)] by (auto simp: Let_def min_def)
  next
    case False2: False
    then have "wrap64 (sub64 sz (total_size d) + addr) = addr + sz - total_size d"
      using w by (intro wrap_sub_add) auto
    with False False2 w show ?thesis
      unfolding mark_range_step[OF assms(1-5)] by (auto simp: Let_def min_def)
  qed
qed (use mark_range_step[OF assms(1-5)] in \<open>simp add: Let_def\<close>)

lemma mark_range_spec:
  assumes "buddy_inv d t" "d \<le> 50" "addr + sz < 2 ^ 64 \<or> total_size d \<le> addr"
  shows "buddy_inv d (mark_range d t addr sz) \<and>
    (\<forall>n. bfree d (mark_range d t addr sz) n \<longleftrightarrow> bfree d t n \<and> \<not> touches addr sz n)"
  using assms
proof (induction d arbitrary: t addr sz)
  case 0
  then obtain md where "t = BLeaf md" "md = - 1 \<or> md = 0" by (cases t) auto
  then show ?case by (auto simp: touches_def)
next
  case (Suc d)
  from Suc.prems(1) obtain md l r where t: "t = BNode md l r" by (cases t) auto
  note inv = Suc.prems(1)[unfolded t]
  consider "md = - 1 \<or> sz = 0" | "md \<noteq> - 1" "sz \<noteq> 0" "addr = 0 \<and> sz \<ge> total_size (Suc d)"
    | "md \<noteq> - 1" "sz \<noteq> 0" "\<not> (addr = 0 \<and> sz \<ge> total_size (Suc d))" by blast
  then show ?case
  proof cases
    case 1
    then show ?thesis using Suc.prems(1) t by (auto simp: touches_def)
  next
    case 2
    have "touches addr sz n" if "bfree (Suc d) t n" for n
      using page_below[OF bfree_bound[OF that]] 2 by (simp add: touches_def)
    moreover have "mark_range (Suc d) t addr sz = BNode (- 1) l r" using 2 t by simp
    ultimately show ?thesis using inv by auto
  next
    case 3
    define l1 where "l1 = refreshed (md = int (Suc d)) (int d) l"
    define r1 where "r1 = refreshed (md = int (Suc d)) (int d) r"
    define l2 where "l2 = (if addr < total_size d then mark_range d l1 addr (min sz (total_size d - addr)) else l1)"
    define r2 where "r2 = (if total_size d \<le> addr then mark_range d r1 (addr - total_size d) sz
               else if total_size d < addr + sz then mark_range d r1 0 (addr + sz - total_size d) else r1)"
    have eq: "mark_range (Suc d) t addr sz = BNode (max (maxdepth l2) (maxdepth r2)) l2 r2"
      unfolding t l2_def r2_def using mark_range_node[OF 3 l1_def r1_def Suc.prems(3)]
      by (simp add: Let_def)
    have i1: "buddy_inv d l1" "buddy_inv d r1"
      and f1: "bfree (Suc d) t n \<longleftrightarrow> (if n < 2 ^ d then bfree d l1 n else bfree d r1 (n - 2 ^ d))" for n
      unfolding l1_def r1_def t using refreshed_free[OF inv 3(1)] by blast+
    have d: "d \<le> 50" using Suc.prems(2) by simp
    have "total_size d < 2 ^ 64"
    proof -
      have "(2::nat) ^ (d + 12) < 2 ^ 64" using d by (intro power_strict_increasing) auto
      then show ?thesis by (simp add: total_size_def)
    qed
    then have cond: "addr + min sz (total_size d - addr) < 2 ^ 64" if "addr < total_size d"
      using that by (auto simp: min_def)
    have l2: "buddy_inv d l2 \<and> (\<forall>n < 2 ^ d. bfree d l2 n \<longleftrightarrow> bfree d l1 n \<and> \<not> touches addr sz n)"
    proof (cases "addr < total_size d")
      case True
      note IH = Suc.IH[OF i1(1) d disjI1[OF cond[OF True]]]
      have "l2 = mark_range d l1 addr (min sz (total_size d - addr))" using True by (simp add: l2_def)
      with IH have "buddy_inv d l2"
        "\<And>n. bfree d l2 n \<longleftrightarrow> bfree d l1 n \<and> \<not> touches addr (min sz (total_size d - addr)) n"
        by blast+
      with touches_left[OF _ True] show ?thesis by blast
    next
      case False
      then have "l2 = l1" "total_size d \<le> addr" by (simp_all add: l2_def)
      with i1 touches_low show ?thesis by blast
    qed
    have condr: "(addr - total_size d) + sz < 2 ^ 64 \<or> total_size d \<le> addr - total_size d"
      using Suc.prems(3) by (auto simp: total_size_Suc)
    have condr0: "0 + (addr + sz - total_size d) < 2 ^ 64" if "addr < total_size d"
      using Suc.prems(3) that by (auto simp: total_size_Suc)
    have r2: "buddy_inv d r2 \<and> (\<forall>n \<ge> 2 ^ d. bfree d r2 (n - 2 ^ d) \<longleftrightarrow> bfree d r1 (n - 2 ^ d) \<and> \<not> touches addr sz n)"
    proof (cases "total_size d \<le> addr")
      case True
      then show ?thesis using Suc.IH[OF i1(2) d condr] touches_shift by (simp add: r2_def)
    next
      case False
      then show ?thesis
        using Suc.IH[OF i1(2) d disjI1[OF condr0]] i1 touches_over_right[of d _ addr sz] touches_high[of d _ addr sz]
        by (simp add: r2_def not_le not_less)
    qed
    note node = joined_max_inv[OF conjunct1[OF l2] conjunct1[OF r2]]
    have "bfree (Suc d) (BNode (max (maxdepth l2) (maxdepth r2)) l2 r2) n \<longleftrightarrow>
        bfree (Suc d) t n \<and> \<not> touches addr sz n" for n
      unfolding node(2) f1 using l2 r2 by (simp add: not_less)
    then show ?thesis unfolding eq using node(1) by blast
  qed
qed

section \<open>First fit\<close>

definition fits :: "buddy \<Rightarrow> nat \<Rightarrow> bool" where
  "fits t sz \<longleftrightarrow> maxdepth t \<noteq> - 1 \<and> sz \<le> 2 ^ nat (maxdepth t + 12)"

text \<open>
  What a successful \<open>get_range\<close> guarantees: a page-aligned range of free pages inside the
  block. The tree it leaves differs from the old one only in the fields that the
  \<open>mark_range\<close> that follows in \<open>mmap\<close> rewrites.
\<close>

definition found :: "nat \<Rightarrow> buddy \<Rightarrow> nat \<Rightarrow> nat \<Rightarrow> buddy \<Rightarrow> bool" where
  "found d t sz v t' \<longleftrightarrow> v + sz \<le> total_size d \<and> v < total_size d \<and> 4096 dvd v \<and>
     (\<forall>n. touches v sz n \<longrightarrow> bfree d t n) \<and>
     mark_range d t' v sz = mark_range d t v sz \<and>
     (maxdepth t = int d \<longrightarrow> set_maxdepth (int d) t' = t' \<or> set_maxdepth (int d) t' = t)"

lemma total_size_less: "d \<le> 50 \<Longrightarrow> total_size d < 2 ^ 64"
  unfolding total_size_def by (intro power_strict_increasing) auto

lemma set_maxdepth_same [simp]: "maxdepth t = md \<Longrightarrow> set_maxdepth md t = t"
  by (cases t) auto

lemma set_maxdepth_twice [simp]: "set_maxdepth a (set_maxdepth b t) = set_maxdepth a t"
  by (cases t) auto

lemma get_range_step:
  assumes "fits (BNode md l r) sz" "sz \<le> total_size d"
    and "l1 = refreshed (md = int (Suc d)) (int d) l" "r1 = refreshed (md = int (Suc d)) (int d) r"
  shows "get_range (Suc d) (BNode md l r) sz =
    (case get_range d l1 sz of (v, l') \<Rightarrow>
      if v = alloc_null
      then (case get_range d r1 sz of (w, r') \<Rightarrow> (wrap64 (total_size d + w), BNode md l' r'))
      else (v, BNode md l' r1))"
  unfolding get_range.simps refreshed_def[symmetric] assms(3,4)[symmetric] Let_def
  using assms(1,2) by (simp add: fits_def)

lemma found_left:
  assumes inv: "buddy_inv (Suc d) (BNode md l r)" "md \<noteq> - 1" and d: "d \<le> 49"
    and sz: "0 < sz" "sz \<le> total_size d"
    and l1: "l1 = refreshed (md = int (Suc d)) (int d) l" and r1: "r1 = refreshed (md = int (Suc d)) (int d) r"
    and f: "found d l1 sz v l'"
  shows "found (Suc d) (BNode md l r) sz v (BNode md l' r1)"
proof -
  have v: "v < total_size d" "v + sz \<le> total_size d" "4096 dvd v"
    and fr: "\<And>n. touches v sz n \<Longrightarrow> bfree d l1 n" and mk: "mark_range d l' v sz = mark_range d l1 v sz"
    and st: "maxdepth l1 = int d \<Longrightarrow> set_maxdepth (int d) l' = l' \<or> set_maxdepth (int d) l' = l1"
    using f by (auto simp: found_def)
  have w: "v + sz < 2 ^ 64" using v total_size_less[of d] d by simp
  have small: "\<not> (v = 0 \<and> sz \<ge> total_size (Suc d))" using sz by (simp add: total_size_Suc)
  have "mark_range d (refreshed (md = int (Suc d)) (int d) l') v sz = mark_range d l1 v sz"
    using st mk by (auto simp: refreshed_def l1)
  moreover have "refreshed (md = int (Suc d)) (int d) r1 = r1" by (simp add: refreshed_def r1)
  ultimately have "mark_range (Suc d) (BNode md l' r1) v sz = mark_range (Suc d) (BNode md l r) v sz"
    using mark_range_step[OF inv(2) _ small refl refl, of l' r1] v w sz
      mark_range_step[OF inv(2) _ small l1 r1] by (simp add: Let_def)
  moreover have "bfree (Suc d) (BNode md l r) n" if "touches v sz n" for n
  proof -
    have "n < 2 ^ d" using bfree_bound[OF fr[OF that]] .
    with fr[OF that] show ?thesis unfolding refreshed_free(3)[OF inv] l1 by simp
  qed
  ultimately show ?thesis using v by (auto simp: found_def total_size_Suc)
qed

lemma found_right:
  assumes inv: "buddy_inv (Suc d) (BNode md l r)" "md \<noteq> - 1" and d: "d \<le> 49"
    and sz: "0 < sz" "sz \<le> total_size d"
    and l1: "l1 = refreshed (md = int (Suc d)) (int d) l" and r1: "r1 = refreshed (md = int (Suc d)) (int d) r"
    and f: "found d r1 sz v r'"
  shows "found (Suc d) (BNode md l r) sz (total_size d + v) (BNode md l1 r')"
proof -
  have v: "v < total_size d" "v + sz \<le> total_size d" "4096 dvd v"
    and fr: "\<And>n. touches v sz n \<Longrightarrow> bfree d r1 n" and mk: "mark_range d r' v sz = mark_range d r1 v sz"
    and st: "maxdepth r1 = int d \<Longrightarrow> set_maxdepth (int d) r' = r' \<or> set_maxdepth (int d) r' = r1"
    using f by (auto simp: found_def)
  let ?a = "total_size d + v"
  have small: "\<not> (?a = 0 \<and> sz \<ge> total_size (Suc d))" by simp
  have "mark_range d (refreshed (md = int (Suc d)) (int d) r') v sz = mark_range d r1 v sz"
    using st mk by (auto simp: refreshed_def r1)
  moreover have "refreshed (md = int (Suc d)) (int d) l1 = l1" by (simp add: refreshed_def l1)
  ultimately have "mark_range (Suc d) (BNode md l1 r') ?a sz = mark_range (Suc d) (BNode md l r) ?a sz"
    using mark_range_step[OF inv(2) _ small refl refl, of l1 r'] sz
      mark_range_step[OF inv(2) _ small l1 r1] by (simp add: Let_def)
  moreover have "bfree (Suc d) (BNode md l r) n" if t: "touches ?a sz n" for n
  proof -
    have n: "2 ^ d \<le> n" using t touches_low[of n d ?a sz] by (meson le_add1 not_le)
    then have "touches v sz (n - 2 ^ d)" using t touches_shift[OF n, of ?a sz] by simp
    with fr n show ?thesis unfolding refreshed_free(3)[OF inv] r1 by simp
  qed
  moreover have "4096 dvd ?a" using v(3) by (simp add: total_size_pages)
  ultimately show ?thesis using v by (auto simp: found_def total_size_Suc)
qed

lemma get_range_spec:
  assumes "buddy_inv d t" "d \<le> 50" "0 < sz" "get_range d t sz = (v, t')"
  shows "(fits t sz \<longrightarrow> found d t sz v t') \<and> (\<not> fits t sz \<longrightarrow> v = alloc_null \<and> t' = t)"
  using assms
proof (induction d arbitrary: t v t')
  case 0
  then obtain md where t: "t = BLeaf md" "md = - 1 \<or> md = 0" by (cases t) auto
  then show ?case using 0 by (auto simp: fits_def found_def total_size_def touches_def split: if_splits)
next
  case (Suc d)
  from Suc.prems(1) obtain md l r where t: "t = BNode md l r" by (cases t) auto
  note inv = Suc.prems(1)[unfolded t]
  define l1 where "l1 = refreshed (md = int (Suc d)) (int d) l"
  define r1 where "r1 = refreshed (md = int (Suc d)) (int d) r"
  show ?case
  proof (cases "fits t sz")
    case False
    with Suc.prems(4) t show ?thesis by (auto simp: fits_def)
  next
    case fit: True
    then have md: "md \<noteq> - 1" by (simp add: fits_def t)
    show ?thesis
    proof (cases "sz \<le> total_size d")
      case False
      have "int d < md"
      proof (rule ccontr)
        assume "\<not> int d < md"
        then have "nat (md + 12) \<le> d + 12" by simp
        then have "(2::nat) ^ nat (md + 12) \<le> total_size d"
          unfolding total_size_def by (rule power_increasing) simp
        with False fit show False by (simp add: fits_def t)
      qed
      with maxdepth_range[OF inv] have md': "md = int (Suc d)" by simp
      have "sz \<le> total_size (Suc d)"
      proof -
        have "nat (md + 12) = Suc d + 12" using md' by simp
        then show ?thesis using fit unfolding fits_def t maxdepth.simps total_size_def by metis
      qed
      moreover have "bfree (Suc d) t n" if "touches 0 sz n" for n
      proof -
        have "n * 4096 < 2 ^ Suc d * 4096"
          using that calculation unfolding touches_def total_size_pages by linarith
        then show ?thesis using md' by (simp add: t)
      qed
      moreover have "v = 0 \<and> t' = t" using Suc.prems(4) fit False md' by (auto simp: t fits_def)
      ultimately show ?thesis using fit by (simp add: found_def t md')
    next
      case True
      note step = get_range_step[OF fit[unfolded t] True l1_def r1_def]
      have i1: "buddy_inv d l1" "buddy_inv d r1"
        unfolding l1_def r1_def using refreshed_free[OF inv md] by blast+
      have d: "d \<le> 50" "d \<le> 49" using Suc.prems(2) by simp_all
      obtain vl l' where gl: "get_range d l1 sz = (vl, l')" by fastforce
      obtain vr r' where gr: "get_range d r1 sz = (vr, r')" by fastforce
      note IHl = Suc.IH[OF i1(1) d(1) Suc.prems(3) gl]
      note IHr = Suc.IH[OF i1(2) d(1) Suc.prems(3) gr]
      have big: "alloc_null \<ge> total_size (Suc d)"
        using total_size_less[OF Suc.prems(2)] by (simp add: alloc_null_def)
      show ?thesis
      proof (cases "fits l1 sz")
        case True
        with IHl have f: "found d l1 sz vl l'" by blast
        then have "vl \<noteq> alloc_null" using big by (auto simp: found_def total_size_Suc)
        then have "v = vl" "t' = BNode md l' r1" using step gl Suc.prems(4) t by auto
        then show ?thesis
          using found_left[OF inv md d(2) Suc.prems(3) \<open>sz \<le> total_size d\<close> l1_def r1_def f] fit t by simp
      next
        case False
        with IHl have nl: "vl = alloc_null" "l' = l1" by blast+
        have "fits r1 sz"
        proof (cases "md = int (Suc d)")
          case True
          then have "maxdepth l1 = int d" by (simp add: l1_def refreshed_def)
          then have "fits l1 sz" using \<open>sz \<le> total_size d\<close>
            by (simp add: fits_def total_size_def nat_add_distrib)
          with False show ?thesis by blast
        next
          case False2: False
          then have "l1 = l" "r1 = r" by (simp_all add: l1_def r1_def refreshed_def)
          moreover have "md = max (maxdepth l) (maxdepth r)" using inv False2 md by auto
          ultimately show ?thesis using False fit t by (auto simp: fits_def max_def split: if_splits)
        qed
        with IHr have f: "found d r1 sz vr r'" by blast
        then have "wrap64 (total_size d + vr) = total_size d + vr"
          using total_size_less[OF Suc.prems(2)] by (intro wrap64_small) (simp add: found_def total_size_Suc)
        then have "v = total_size d + vr" "t' = BNode md l1 r'"
          using step gl gr nl Suc.prems(4) t by auto
        then show ?thesis
          using found_right[OF inv md d(2) Suc.prems(3) \<open>sz \<le> total_size d\<close> l1_def r1_def f] fit t by simp
      qed
    qed
  qed
qed

section \<open>The hint test\<close>

lemma is_range_free_sound:
  assumes "buddy_inv d t" "d \<le> 50" "addr + sz < 2 ^ 64" "is_range_free d t addr sz" "touches addr sz n"
  shows "bfree d t n"
  using assms
proof (induction d arbitrary: t addr sz n)
  case 0
  then show ?case by (cases t) (auto simp: touches_def)
next
  case (Suc d)
  from Suc.prems(1) obtain md l r where t: "t = BNode md l r" by (cases t) auto
  note inv = Suc.prems(1)[unfolded t]
  have sz: "sz \<noteq> 0" using Suc.prems(5) by (auto simp: touches_def)
  have w: "wrap64 (addr + sz) = addr + sz" using Suc.prems(3) by simp
  note free = Suc.prems(4)[unfolded t is_range_free.simps w]
  have md: "md \<noteq> - 1" and lim: "addr + sz < total_size (Suc d)" using free sz by (auto split: if_splits)
  show ?case
  proof (cases "md = int (Suc d)")
    case True
    have "n * 4096 < 2 ^ Suc d * 4096"
      using Suc.prems(5) lim unfolding touches_def total_size_pages by linarith
    then show ?thesis using True t by simp
  next
    case False
    have kids: "buddy_inv d l" "buddy_inv d r" using inv md False by auto
    note IHl = Suc.IH[OF kids(1)] and IHr = Suc.IH[OF kids(2)]
    have d: "d \<le> 50" using Suc.prems(2) by simp
    have split: "bfree (Suc d) t n \<longleftrightarrow> (if n < 2 ^ d then bfree d l n else bfree d r (n - 2 ^ d))"
      using md False t by simp
    consider (right) "total_size d \<le> addr" | (left) "addr + sz \<le> total_size d"
      | (both) "addr < total_size d" "total_size d < addr + sz" by linarith
    then show ?thesis
    proof cases
      case right
      then have n: "2 ^ d \<le> n" using touches_low Suc.prems(5) by (meson not_le)
      have "is_range_free d r (addr - total_size d) sz" using free right False md sz lim by simp
      then show ?thesis unfolding split using IHr[OF d, of "addr - total_size d" sz "n - 2 ^ d"]
          touches_shift[OF n right] Suc.prems(3,5) n by simp
    next
      case left
      then have n: "n < 2 ^ d" using touches_high Suc.prems(5) by (meson not_le)
      have "\<not> total_size d \<le> addr" using left sz by simp
      then have "is_range_free d l addr sz" using free left False md sz lim by simp
      then show ?thesis unfolding split using IHl[OF d Suc.prems(3) _ Suc.prems(5)] n by simp
    next
      case both
      then have eq: "wrap64 (sub64 sz (total_size d) + addr) = addr + sz - total_size d"
        using Suc.prems(3) by (intro wrap_sub_add) auto
      have "is_range_free d l addr (total_size d - addr)" "is_range_free d r 0 (addr + sz - total_size d)"
        using free both False md sz lim by (simp_all add: eq)
      moreover have "addr + (total_size d - addr) < 2 ^ 64" "0 + (addr + sz - total_size d) < 2 ^ 64"
        using both Suc.prems(3) by linarith+
      ultimately show ?thesis unfolding split
        using IHl[OF d, of addr "total_size d - addr" n] IHr[OF d, of 0 "addr + sz - total_size d" "n - 2 ^ d"]
          touches_over_left[OF _ both, of n] touches_over_right[OF _ both, of n] Suc.prems(5)
        by (simp add: not_less)
    qed
  qed
qed

section \<open>Release of a page\<close>

lemma joined_inv:
  assumes "buddy_inv d l" "buddy_inv d r"
  shows "buddy_inv (Suc d) (BNode (joined d l r) l r)"
    "bfree (Suc d) (BNode (joined d l r) l r) n \<longleftrightarrow>
      (if n < 2 ^ d then bfree d l n else bfree d r (n - 2 ^ d))"
proof -
  note shape = buddy_inv_shape[OF assms(1)] buddy_inv_shape[OF assms(2)]
  show "buddy_inv (Suc d) (BNode (joined d l r) l r)"
    using assms shape by (auto simp: joined_def)
  show "bfree (Suc d) (BNode (joined d l r) l r) n \<longleftrightarrow>
      (if n < 2 ^ d then bfree d l n else bfree d r (n - 2 ^ d))"
  proof (cases "maxdepth l = int d \<and> maxdepth r = int d")
    case True
    then show ?thesis using shape bfree_full by (auto simp: joined_def)
  next
    case False
    then show ?thesis using joined_max_inv(2)[OF assms, of n] by (simp only: joined_def if_False)
  qed
qed

lemma free_page_spec:
  assumes "buddy_inv d t" "d \<le> 50" "0 < sz" "addr mod 4096 + sz \<le> 4096" "addr < total_size d"
    and "\<not> bfree d t (addr div 4096)"
  shows "buddy_inv d (free_range d t addr sz) \<and>
    (\<forall>n. bfree d (free_range d t addr sz) n \<longleftrightarrow> bfree d t n \<or> n = addr div 4096)"
  using assms
proof (induction d arbitrary: t addr)
  case 0
  then show ?case by (cases t) (auto simp: total_size_def)
next
  case (Suc d)
  from Suc.prems(1) obtain md l r where t: "t = BNode md l r" by (cases t) auto
  note inv = Suc.prems(1)[unfolded t]
  have "addr div 4096 < 2 ^ Suc d"
    using Suc.prems(5) unfolding total_size_pages by (simp add: div_less_iff_less_mult)
  then have nf: "md \<noteq> int (Suc d)" using Suc.prems(6) t by auto
  define l1 where "l1 = refreshed (md = - 1) (- 1) l"
  define r1 where "r1 = refreshed (md = - 1) (- 1) r"
  have kids: "buddy_inv d l1" "buddy_inv d r1"
    using inv nf by (auto simp: l1_def r1_def refreshed_def)
  have split: "bfree (Suc d) t n \<longleftrightarrow> (if n < 2 ^ d then bfree d l1 n else bfree d r1 (n - 2 ^ d))" for n
    using inv nf t by (auto simp: l1_def r1_def refreshed_def)
  have d: "d \<le> 50" using Suc.prems(2) by simp
  have ge: "4096 \<le> total_size d" by (simp add: total_size_pages)
  have "addr + sz \<le> addr - addr mod 4096 + 4096" using Suc.prems(4) by linarith
  then have pg: "addr + sz \<le> (addr div 4096 + 1) * 4096" by (simp add: minus_mod_eq_div_mult)
  have small: "\<not> (addr \<ge> total_size (Suc d) \<or> sz = 0)" "\<not> (addr = 0 \<and> sz \<ge> total_size (Suc d))"
    using Suc.prems(3-5) ge by (auto simp: total_size_Suc)
  have step: "free_range (Suc d) t addr sz =
     (if addr \<ge> total_size d then
        (let r' = free_range d r1 (addr - total_size d) sz in BNode (joined d l1 r') l1 r')
      else if wrap64 (addr + sz) \<le> total_size d then
        (let l' = free_range d l1 addr sz in BNode (joined d l' r1) l' r1)
      else
        (let l' = free_range d l1 addr (total_size d - addr);
             r' = free_range d r1 0 (wrap64 (sub64 sz (total_size d) + addr))
         in BNode (joined d l' r') l' r'))"
    unfolding t free_range.simps refreshed_def[symmetric] l1_def[symmetric] r1_def[symmetric]
      if_not_P[OF small(1)] if_not_P[OF small(2)] Let_def by (rule refl)
  show ?case
  proof (cases "total_size d \<le> addr")
    case True
    have n: "(addr - total_size d) div 4096 = addr div 4096 - 2 ^ d" "2 ^ d \<le> addr div 4096"
      using True div_le_mono[OF True, of 4096] by (auto simp: total_size_pages le_iff_add)
    have "(addr - total_size d) mod 4096 = addr mod 4096"
      using True by (auto simp: total_size_pages le_iff_add)
    moreover have "addr - total_size d < total_size d"
      using Suc.prems(5) True by (simp add: total_size_Suc less_diff_conv2)
    moreover have "\<not> bfree d r1 ((addr - total_size d) div 4096)"
      using Suc.prems(6) n by (simp add: split)
    ultimately have IH: "buddy_inv d (free_range d r1 (addr - total_size d) sz)"
      "\<And>n. bfree d (free_range d r1 (addr - total_size d) sz) n \<longleftrightarrow> bfree d r1 n \<or> n = addr div 4096 - 2 ^ d"
      using Suc.IH[OF kids(2) d Suc.prems(3), of "addr - total_size d"] Suc.prems(4,5) True n
      by (auto simp: total_size_Suc)
    have "free_range (Suc d) t addr sz = BNode (joined d l1 (free_range d r1 (addr - total_size d) sz))
        l1 (free_range d r1 (addr - total_size d) sz)"
      using True step by (simp add: Let_def)
    then show ?thesis using joined_inv[OF kids(1) IH(1)] IH(2) n by (auto simp: split)
  next
    case False
    then have n: "addr div 4096 < 2 ^ d"
      by (simp add: total_size_pages div_less_iff_less_mult)
    have le: "addr + sz \<le> total_size d" using page_below[OF n] pg by linarith
    then have w: "wrap64 (addr + sz) = addr + sz" using total_size_less[OF d] by simp
    have "\<not> bfree d l1 (addr div 4096)" using Suc.prems(6) n by (simp add: split)
    then have IH: "buddy_inv d (free_range d l1 addr sz)"
      "\<And>n. bfree d (free_range d l1 addr sz) n \<longleftrightarrow> bfree d l1 n \<or> n = addr div 4096"
      using Suc.IH[OF kids(1) d Suc.prems(3,4)] False by auto
    have "free_range (Suc d) t addr sz = BNode (joined d (free_range d l1 addr sz) r1)
        (free_range d l1 addr sz) r1"
      using False step w le by (simp add: Let_def)
    then show ?thesis using joined_inv[OF IH(1) kids(2)] IH(2) n by (auto simp: split)
  qed
qed

section \<open>The virtual memory allocator\<close>

lemma buddy_inv_new: "buddy_inv d (new_buddy d)"
proof -
  have "shape d (new_buddy d)" by (induction d) auto
  moreover have "maxdepth (new_buddy d) = int d" by (cases d) auto
  ultimately show ?thesis by (cases d) auto
qed

lemma bfree_new: "bfree d (new_buddy d) n \<longleftrightarrow> n < 2 ^ d"
  by (cases d) auto

lemma touches_null: "d \<le> 50 \<Longrightarrow> n < 2 ^ d \<Longrightarrow> \<not> touches alloc_null sz n"
  using touches_low[of n d alloc_null sz] total_size_less[of d] by (simp add: alloc_null_def)

lemma vma_mmap_cases:
  assumes "vma_mmap d root addr sz = (v, root')"
  obtains "sz = 0 \<or> total_size d < sz" "v = alloc_null" "root' = root"
    | "0 < sz" "is_range_free d root addr sz" "v = addr" "root' = mark_range d root addr sz"
    | root1 where "0 < sz" "get_range d root sz = (v, root1)" "root' = mark_range d root1 v sz"
proof -
  obtain w root1 where g: "get_range d root sz = (w, root1)" by fastforce
  consider "total_size d < sz \<or> sz = 0" | "\<not> (total_size d < sz \<or> sz = 0)" "is_range_free d root addr sz"
    | "\<not> (total_size d < sz \<or> sz = 0)" "\<not> is_range_free d root addr sz" by blast
  then show thesis
  proof cases
    case 1
    with assms that(1) show thesis by (auto simp: vma_mmap_def)
  next
    case 2
    with assms have "v = addr" "root' = mark_range d root addr sz" by (auto simp: vma_mmap_def)
    with 2 that(2) show thesis by blast
  next
    case 3
    with assms g have "v = w" "root' = mark_range d root1 w sz" by (auto simp: vma_mmap_def)
    with 3 g that(3) show thesis by blast
  qed
qed

lemma mmap_spec:
  assumes inv: "buddy_inv d root" and d: "d \<le> 50" and hint: "addr + sz < 2 ^ 64"
    and run: "vma_mmap d root addr sz = (v, root')"
  shows "buddy_inv d root'"
    "v \<noteq> alloc_null \<Longrightarrow> 0 < sz \<and> v + sz \<le> total_size d \<and> (\<forall>n. touches v sz n \<longrightarrow> bfree d root n)"
    "bfree d root' n \<longleftrightarrow> bfree d root n \<and> (v = alloc_null \<or> \<not> touches v sz n)"
    "v = alloc_null \<Longrightarrow> 0 < sz \<Longrightarrow> sz \<le> total_size d \<Longrightarrow> \<not> fits root sz"
proof -
  from run have "buddy_inv d root' \<and>
    (v \<noteq> alloc_null \<longrightarrow> 0 < sz \<and> v + sz \<le> total_size d \<and> (\<forall>n. touches v sz n \<longrightarrow> bfree d root n)) \<and>
    (\<forall>n. bfree d root' n \<longleftrightarrow> bfree d root n \<and> (v = alloc_null \<or> \<not> touches v sz n)) \<and>
    (v = alloc_null \<longrightarrow> 0 < sz \<longrightarrow> sz \<le> total_size d \<longrightarrow> \<not> fits root sz)"
  proof (cases rule: vma_mmap_cases)
    case 1
    then show ?thesis using inv by auto
  next
    case 2
    have "addr \<noteq> alloc_null" using assms(3) 2(1) by (simp add: alloc_null_def)
    moreover have "addr + sz \<le> total_size d"
    proof (cases d)
      case 0
      then show ?thesis using 2(2) inv assms(3) by (cases root) (auto simp: total_size_def)
    next
      case (Suc k)
      then show ?thesis using 2(1,2) inv assms(3) by (cases root) (auto split: if_splits)
    qed
    ultimately show ?thesis
      using mark_range_spec[OF inv d disjI1[OF assms(3)]] is_range_free_sound[OF inv d assms(3) 2(2)] 2
      by blast
  next
    case (3 root1)
    show ?thesis
    proof (cases "fits root sz")
      case True
      with get_range_spec[OF inv d 3(1,2)] have f: "found d root sz v root1"
        by blast
      then have v: "v + sz \<le> total_size d" "root' = mark_range d root v sz"
        "\<And>n. touches v sz n \<Longrightarrow> bfree d root n"
        using 3(3) by (auto simp: found_def)
      moreover have "v + sz < 2 ^ 64" using v(1) total_size_less[OF d] by simp
      moreover have "v \<noteq> alloc_null" using v(1) total_size_less[OF d] 3(1) by (auto simp: alloc_null_def)
      ultimately show ?thesis using mark_range_spec[OF inv d, of v sz] 3(1) by blast
    next
      case False
      with get_range_spec[OF inv d 3(1,2)] 3(3) have v: "v = alloc_null"
        "root' = mark_range d root alloc_null sz" by auto
      have big: "total_size d \<le> alloc_null" using total_size_less[OF d] by (simp add: alloc_null_def)
      from mark_range_spec[OF inv d disjI2[OF big]] have "buddy_inv d root'"
        "\<And>n. bfree d root' n \<longleftrightarrow> bfree d root n \<and> \<not> touches alloc_null sz n"
        using v(2) by auto
      then show ?thesis using False v(1) touches_null[OF d bfree_bound] by blast
    qed
  qed
  then show "buddy_inv d root'"
    "v \<noteq> alloc_null \<Longrightarrow> 0 < sz \<and> v + sz \<le> total_size d \<and> (\<forall>n. touches v sz n \<longrightarrow> bfree d root n)"
    "bfree d root' n \<longleftrightarrow> bfree d root n \<and> (v = alloc_null \<or> \<not> touches v sz n)"
    "v = alloc_null \<Longrightarrow> 0 < sz \<Longrightarrow> sz \<le> total_size d \<Longrightarrow> \<not> fits root sz"
    by blast+
qed

text \<open>
  The kernel's instance has depth 18, one gigabyte. A request is a hint and a size; hints
  that would wrap past the address space are outside the contract.
\<close>

definition kv_alloc :: "nat \<times> nat \<Rightarrow> buddy \<Rightarrow> nat option \<times> buddy" where
  "kv_alloc q root = (if fst q + snd q < 2 ^ 64
     then (case vma_mmap 18 root (fst q) (snd q) of (v, root') \<Rightarrow> (if v = alloc_null then None else Some v, root'))
     else (None, root))"

definition kv_pages :: "nat \<times> nat \<Rightarrow> nat \<Rightarrow> nat set" where
  "kv_pages q v = {n. touches v (snd q) n}"

interpretation kvrange: allocator "buddy_inv 18" "bfree 18" kv_alloc kv_pages
proof
  fix s q r s' assume inv: "buddy_inv 18 s" and run: "kv_alloc q s = (Some r, s')"
  then have w: "fst q + snd q < 2 ^ 64" and m: "vma_mmap 18 s (fst q) (snd q) = (r, s')" "r \<noteq> alloc_null"
    by (auto simp: kv_alloc_def split: prod.splits if_splits)
  from mmap_spec(1-3)[OF inv _ w m(1)] m(2)
  show "buddy_inv 18 s' \<and> (\<forall>n\<in>kv_pages q r. bfree 18 s n) \<and>
      (\<forall>n. bfree 18 s' n \<longleftrightarrow> bfree 18 s n \<and> n \<notin> kv_pages q r)"
    by (auto simp: kv_pages_def)
next
  fix s q s' assume inv: "buddy_inv 18 s" and run: "kv_alloc q s = (None, s')"
  show "buddy_inv 18 s' \<and> (\<forall>n. bfree 18 s' n \<longleftrightarrow> bfree 18 s n)"
  proof (cases "fst q + snd q < 2 ^ 64")
    case True
    with run have "vma_mmap 18 s (fst q) (snd q) = (alloc_null, s')"
      by (auto simp: kv_alloc_def split: prod.splits if_splits)
    from mmap_spec(1,3)[OF inv _ True this] show ?thesis by auto
  next
    case False
    with run inv show ?thesis by (simp add: kv_alloc_def)
  qed
qed

section \<open>Properties\<close>

text \<open>
  C3: a successful \<^verbatim>\<open>mmap(addr, size)\<close> returns a range inside the window all of whose pages
  were free, and afterwards exactly these pages have left the free set; a failing one leaves
  the free set alone, and happens only when the size is zero or exceeds the largest block
  the tree knows to be free. The tree's invariant (stale children only under a fully free or
  fully used node) is kept in all cases.
\<close>

theorem vma_mmap_correct:
  assumes "buddy_inv d root" "d \<le> 50" "addr + sz < 2 ^ 64" "vma_mmap d root addr sz = (v, root')"
  shows "buddy_inv d root' \<and>
    (if v = alloc_null then (\<forall>n. bfree d root' n \<longleftrightarrow> bfree d root n) \<and>
        (sz = 0 \<or> total_size d < sz \<or> \<not> fits root sz)
     else v + sz \<le> total_size d \<and> (\<forall>n. touches v sz n \<longrightarrow> bfree d root n) \<and>
        (\<forall>n. bfree d root' n \<longleftrightarrow> bfree d root n \<and> \<not> touches v sz n))"
  using mmap_spec[OF assms] by auto

lemma vma_mmap_correct_witness:
  "buddy_inv 18 (snd (vma_mmap 18 (new_buddy 18) 0x80000000 8192))"
  using vma_mmap_correct[OF buddy_inv_new _ _ surjective_pairing, of 18 "0x80000000" 8192] by simp

text \<open>
  C4: any sequence of \<^verbatim>\<open>mmap\<close> calls on the kernel's window (failing ones included) grants
  ranges no two of which share a page, and none of which is free at the end.
\<close>

theorem kvmem_ranges_disjoint:
  assumes "buddy_inv 18 root" "serve kv_alloc qs root = (gs, root')"
  shows "sorted_wrt (\<lambda>(q, v) (q', v'). \<nexists>n. touches v (snd q) n \<and> touches v' (snd q') n) gs \<and>
    buddy_inv 18 root' \<and>
    (\<forall>n. bfree 18 root' n \<longleftrightarrow> bfree 18 root n \<and> (\<forall>(q, v) \<in> set gs. \<not> touches v (snd q) n))"
proof -
  note spec = kvrange.serve_spec[OF assms]
  have "sorted_wrt (\<lambda>(q, v) (q', v'). \<nexists>n. touches v (snd q) n \<and> touches v' (snd q') n) gs"
    using spec by (elim conjE, elim sorted_wrt_mono_rel[rotated]) (auto simp: kv_pages_def)
  then show ?thesis using spec by (simp add: kv_pages_def)
qed

lemma kvmem_ranges_disjoint_witness:
  "buddy_inv 18 (snd (serve kv_alloc [(0, 4096), (0x80000000, 8192)] (new_buddy 18)))"
  using kvmem_ranges_disjoint[OF buddy_inv_new surjective_pairing] by blast

text \<open>
  Unmapping (part of) one used page frees that page only and keeps the invariant,
  including the coalescing of fully free buddies on the way up.
\<close>

theorem vma_munmap_page:
  assumes "buddy_inv d root" "d \<le> 50" "0 < sz" "addr mod 4096 + sz \<le> 4096" "addr < total_size d"
    and "\<not> bfree d root (addr div 4096)"
  shows "buddy_inv d (vma_munmap d root addr sz) \<and>
    (\<forall>n. bfree d (vma_munmap d root addr sz) n \<longleftrightarrow> bfree d root n \<or> n = addr div 4096)"
  unfolding vma_munmap_def by (rule free_page_spec[OF assms])

lemma vma_munmap_page_witness:
  "bfree 3 (vma_munmap 3 (vma_mark_used 3 (new_buddy 3) 4096 8192) 4096 4096) 1"
proof -
  have "buddy_inv 3 (vma_mark_used 3 (new_buddy 3) 4096 8192)"
    "\<not> bfree 3 (vma_mark_used 3 (new_buddy 3) 4096 8192) (4096 div 4096)"
    using mark_range_spec[OF buddy_inv_new, of 3 4096 8192]
    by (simp_all add: vma_mark_used_def touches_def)
  from vma_munmap_page[OF this(1) _ _ _ _ this(2), of 4096] show ?thesis
    by (simp add: total_size_def)
qed

text \<open>
  Unmapping a whole block is not correct. \<^verbatim>\<open>free_range\<close> stores \<^verbatim>\<open>depth - 1\<close> instead of
  \<^verbatim>\<open>depth\<close> and leaves the stale children: after two one-page mappings fill a two-page window
  and both pages are unmapped at once, no page is free again, the invariant is broken, and
  the next \<^verbatim>\<open>mmap\<close> succeeds with the address 4095, which is not page-aligned.
\<close>

theorem vma_munmap_block_bug:
  "let full = vma_mark_used 1 (new_buddy 1) 0 4096;
       full = vma_mark_used 1 full 4096 4096;
       freed = vma_munmap 1 full 0 8192
   in \<not> buddy_inv 1 freed \<and> \<not> bfree 1 freed 0 \<and> \<not> bfree 1 freed 1 \<and>
      fst (vma_mmap 1 freed 0x80000000 4096) = 4095"
  by (simp add: vma_mark_used_def vma_munmap_def vma_mmap_def total_size_def joined_def alloc_null_def
    wrap64_def sub64_def Let_def)

text \<open>
  A failing \<^verbatim>\<open>mmap\<close> can make a later one fail. Its \<^verbatim>\<open>mark_used(alloc_null, size)\<close> walks
  to the right and forgets that a free block there is in one piece: with pages 2 and 3 free,
  a request for four pages fails as it must, and then a request for two pages fails too.
\<close>

theorem vma_mmap_failure_fragments:
  "let root = vma_mark_used 2 (new_buddy 2) 0 4096;
       failed = vma_mmap 2 root 0x80000000 16384
   in fst failed = alloc_null \<and> bfree 2 (snd failed) 2 \<and> bfree 2 (snd failed) 3 \<and>
      fst (vma_mmap 2 root 0x80000000 8192) = 8192 \<and>
      fst (vma_mmap 2 (snd failed) 0x80000000 8192) = alloc_null"
  unfolding numeral_2_eq_2
  by (simp add: vma_mark_used_def vma_munmap_def vma_mmap_def total_size_def joined_def alloc_null_def
    wrap64_def sub64_def Let_def)

end
