(* ===== verification/Kheap.thy ===== *)
theory Kheap
  imports Phmem Buddy
begin

text \<open>
  \<^verbatim>\<open>setup_heap\<close> of kernel/kmmap.cc: the initial contents of the kernel's physical page
  allocator and of its virtual address allocator, from the memory map of the boot loader.
\<close>

record memory_map_entry =
  base :: nat
  len :: nat
  mtype :: nat

text \<open>
  The loop \<^verbatim>\<open>for(; mmap[i].length != 0; ++i)\<close>. The first argument is \<^verbatim>\<open>mmap[i-1]\<close>, when
  there is one; reading past the end of the array is \<open>None\<close>. The result is the last entry
  the loop has seen, and the allocator.
\<close>

definition reserve_entry :: "memory_map_entry \<Rightarrow> ph_tree \<Rightarrow> ph_tree" where
  "reserve_entry e alloc =
    (if mtype e \<noteq> 1 \<and> base e < 0x100000000 then
       (let end' = sub64 (wrap64 (base e + len e)) 1;
            end' = (if end' \<ge> 0x100000000 then 0xffffffff else end')
        in mark_used 7 alloc (base e) end')
     else alloc)"

definition reserve_gap :: "memory_map_entry option \<Rightarrow> memory_map_entry \<Rightarrow> ph_tree \<Rightarrow> ph_tree" where
  "reserve_gap prev e alloc = (case prev of
      None \<Rightarrow> alloc
    | Some p \<Rightarrow>
       (let prev_end = wrap64 (base p + len p) in
        if prev_end < base e \<and> prev_end < 0x100000000
        then mark_used 7 alloc prev_end (min (sub64 (base e) 1) 0xffffffff)
        else alloc))"

fun setup_loop ::
  "memory_map_entry option \<Rightarrow> memory_map_entry list \<Rightarrow> ph_tree \<Rightarrow> (memory_map_entry option \<times> ph_tree) option"
where
  "setup_loop prev [] alloc = None"
| "setup_loop prev (e # es) alloc =
    (if len e = 0 then Some (prev, alloc)
     else setup_loop (Some e) es (reserve_gap prev e (reserve_entry e alloc)))"

text \<open>\<open>kb\<close>, \<open>ke\<close>: the linker symbols \<^verbatim>\<open>kernel_begin\<close> and \<^verbatim>\<open>kernel_end\<close>.\<close>

definition setup_heap ::
  "nat \<Rightarrow> nat \<Rightarrow> memory_map_entry list \<Rightarrow> nat \<Rightarrow> (ph_tree \<times> buddy) outcome" where
  "setup_heap kb ke mmap kernel_zero =
    (let kvmem_alloc = vma_mark_used 18 (new_buddy 18) (wrap64 (kb + 0x80000000)) (sub64 ke kb);
         alloc = mark_used 7 (new_ph_tree 7) (wrap64 (kb + 0x80000000 + kernel_zero))
           (wrap64 (ke + 0x80000000 + kernel_zero))
     in case setup_loop None mmap alloc of
          None \<Rightarrow> Fault ''read past the memory map''
        | Some (None, _) \<Rightarrow> Fault ''read before the memory map''
        | Some (Some p, alloc) \<Rightarrow>
           (let last_end = wrap64 (base p + len p) in
            Ret (if last_end < 0x100000000 then mark_used 7 alloc last_end 0xffffffff else alloc, kvmem_alloc)))"

section \<open>Which pages stay free\<close>

definition entry_end :: "memory_map_entry \<Rightarrow> nat" where
  "entry_end e = base e + len e"

definition available_byte :: "memory_map_entry list \<Rightarrow> nat \<Rightarrow> bool" where
  "available_byte es x \<longleftrightarrow> (\<exists>e \<in> set es. mtype e = 1 \<and> base e \<le> x \<and> x < entry_end e)"

text \<open>A memory map in ascending order, without overlaps, that starts at \<open>from\<close>.\<close>

fun ordered_map :: "nat \<Rightarrow> memory_map_entry list \<Rightarrow> bool" where
  "ordered_map from [] = True"
| "ordered_map from (e # es) = (from \<le> base e \<and> 0 < len e \<and> entry_end e < 2 ^ 64 \<and> ordered_map (entry_end e) es)"

definition free_below :: "(nat \<Rightarrow> bool) \<Rightarrow> memory_map_entry list \<Rightarrow> nat \<Rightarrow> ph_tree \<Rightarrow> bool" where
  "free_below K seen lim alloc \<longleftrightarrow> wf_ph 7 alloc \<and> (\<forall>e \<in> set seen. entry_end e \<le> lim) \<and>
    (\<forall>n. free_at 7 alloc n \<longleftrightarrow> n < 2 ^ 20 \<and> K n \<and> (\<forall>x < lim. x div 4096 = n \<longrightarrow> available_byte seen x))"

lemma page_meets_range:
  assumes "b \<le> e"
  shows "(\<exists>x. x div 4096 = n \<and> b \<le> x \<and> x \<le> e) \<longleftrightarrow> b div 4096 \<le> n \<and> n \<le> (e :: nat) div 4096"
proof
  assume "\<exists>x. x div 4096 = n \<and> b \<le> x \<and> x \<le> e"
  then show "b div 4096 \<le> n \<and> n \<le> e div 4096" by (auto intro: div_le_mono)
next
  assume n: "b div 4096 \<le> n \<and> n \<le> e div 4096"
  show "\<exists>x. x div 4096 = n \<and> b \<le> x \<and> x \<le> e"
  proof (cases "b div 4096 = n")
    case True
    with assms show ?thesis by blast
  next
    case False
    with n have "b div 4096 < n" by simp
    then have "b < n * 4096" by (simp add: div_less_iff_less_mult)
    moreover have "n * 4096 \<le> e" using n by (simp add: less_eq_div_iff_mult_less_eq)
    ultimately show ?thesis by (intro exI[of _ "n * 4096"]) simp
  qed
qed

lemma page_in_4G: "(n :: nat) < 2 ^ 20 \<Longrightarrow> x div 4096 = n \<Longrightarrow> x < 2 ^ 32"
  by (auto simp: div_less_iff_less_mult)

text \<open>Marking the bytes from \<open>b\<close> to \<open>e\<close>, clipped to four gigabytes.\<close>

lemma mark_clipped:
  assumes "wf_ph 7 alloc" "b < e" "b < 2 ^ 32"
  shows "wf_ph 7 (mark_used 7 alloc b (min (e - 1) 0xffffffff)) \<and>
    (\<forall>n < 2 ^ 20. free_at 7 (mark_used 7 alloc b (min (e - 1) 0xffffffff)) n \<longleftrightarrow>
      free_at 7 alloc n \<and> (\<forall>x. x div 4096 = n \<longrightarrow> \<not> (b \<le> x \<and> x < e)))"
proof -
  let ?e = "min (e - 1) 0xffffffff"
  have le: "b \<le> ?e" "?e < 2 ^ 64" using assms by auto
  have "(\<exists>x. x div 4096 = n \<and> b \<le> x \<and> x < e) \<longleftrightarrow> (\<exists>x. x div 4096 = n \<and> b \<le> x \<and> x \<le> ?e)" if "n < 2 ^ 20" for n
    using page_in_4G[OF that] assms(2) by fastforce
  with mark_used_spec[OF assms(1) le] page_meets_range[OF le(1)] show ?thesis by blast
qed

lemma free_at_20: "wf_ph 7 alloc \<Longrightarrow> free_at 7 alloc n \<Longrightarrow> n < 2 ^ 20"
  using free_at_bound[of 7 alloc n] by (simp add: npages_def)

lemma reserve_entry_spec:
  assumes "wf_ph 7 alloc" "0 < len e" "entry_end e < 2 ^ 64"
  shows "wf_ph 7 (reserve_entry e alloc) \<and>
    (\<forall>n < 2 ^ 20. free_at 7 (reserve_entry e alloc) n \<longleftrightarrow> free_at 7 alloc n \<and>
      (mtype e \<noteq> 1 \<longrightarrow> (\<forall>x. x div 4096 = n \<longrightarrow> \<not> (base e \<le> x \<and> x < entry_end e))))"
proof (cases "mtype e \<noteq> 1 \<and> base e < 2 ^ 32")
  case True
  have lt: "base e < entry_end e" using assms(2) by (simp add: entry_end_def)
  have "sub64 (wrap64 (base e + len e)) 1 = entry_end e - 1"
    using assms(2,3) by (simp add: entry_end_def)
  then have "reserve_entry e alloc = mark_used 7 alloc (base e) (min (entry_end e - 1) 0xffffffff)"
    using True by (auto simp: reserve_entry_def Let_def min_def)
  with mark_clipped[OF assms(1) lt] True show ?thesis by simp
next
  case False
  then have "reserve_entry e alloc = alloc" by (auto simp: reserve_entry_def)
  moreover have "\<not> (base e \<le> x \<and> x < entry_end e)" if "mtype e \<noteq> 1" "n < 2 ^ 20" "x div 4096 = n" for n x
    using page_in_4G[OF that(2,3)] False that(1) by simp
  ultimately show ?thesis using assms(1) by auto
qed

lemma reserve_gap_spec:
  assumes "wf_ph 7 alloc" "entry_end p \<le> base e" "base e < 2 ^ 64"
  shows "wf_ph 7 (reserve_gap (Some p) e alloc) \<and>
    (\<forall>n < 2 ^ 20. free_at 7 (reserve_gap (Some p) e alloc) n \<longleftrightarrow> free_at 7 alloc n \<and>
      (\<forall>x. x div 4096 = n \<longrightarrow> \<not> (entry_end p \<le> x \<and> x < base e)))"
proof (cases "entry_end p < base e \<and> entry_end p < 2 ^ 32")
  case True
  have "wrap64 (base p + len p) = entry_end p" "sub64 (base e) 1 = base e - 1"
    using True assms(3) by (simp_all add: entry_end_def)
  then have "reserve_gap (Some p) e alloc = mark_used 7 alloc (entry_end p) (min (base e - 1) 0xffffffff)"
    using True by (simp add: reserve_gap_def)
  with mark_clipped[OF assms(1)] True show ?thesis by simp
next
  case False
  have "wrap64 (base p + len p) = entry_end p" using assms(2,3) by (simp add: entry_end_def)
  then have "reserve_gap (Some p) e alloc = alloc" using False by (auto simp: reserve_gap_def Let_def)
  moreover have "\<not> (entry_end p \<le> x \<and> x < base e)" if "n < 2 ^ 20" "x div 4096 = n" for n x
    using page_in_4G[OF that] False by auto
  ultimately show ?thesis using assms(1) by auto
qed

lemma free_below_step:
  assumes "free_below K seen lim alloc" "lim \<le> base e" "0 < len e" "entry_end e < 2 ^ 64"
    and "case prev of None \<Rightarrow> base e = lim | Some p \<Rightarrow> entry_end p = lim"
  shows "free_below K (e # seen) (entry_end e) (reserve_gap prev e (reserve_entry e alloc))"
proof -
  let ?a = "reserve_gap prev e (reserve_entry e alloc)"
  have wf: "wf_ph 7 alloc" and below: "\<And>s. s \<in> set seen \<Longrightarrow> entry_end s \<le> lim"
    and fr: "\<And>n. free_at 7 alloc n \<longleftrightarrow> n < 2 ^ 20 \<and> K n \<and> (\<forall>x < lim. x div 4096 = n \<longrightarrow> available_byte seen x)"
    using assms(1) by (auto simp: free_below_def)
  note E = reserve_entry_spec[OF wf assms(3,4)]
  have lt: "base e < entry_end e" using assms(3) by (simp add: entry_end_def)
  have G: "wf_ph 7 ?a \<and> (\<forall>n < 2 ^ 20. free_at 7 ?a n \<longleftrightarrow> free_at 7 (reserve_entry e alloc) n \<and>
      (\<forall>x. x div 4096 = n \<longrightarrow> \<not> (lim \<le> x \<and> x < base e)))"
  proof (cases prev)
    case None
    with assms(5) E show ?thesis by (simp add: reserve_gap_def)
  next
    case (Some p)
    with assms(2,5) reserve_gap_spec[OF conjunct1[OF E], of p e] lt assms(4) show ?thesis by simp
  qed
  have "free_at 7 ?a n \<longleftrightarrow>
      n < 2 ^ 20 \<and> K n \<and> (\<forall>x < entry_end e. x div 4096 = n \<longrightarrow> available_byte (e # seen) x)" for n
  proof (cases "n < 2 ^ 20")
    case True
    have 1: "available_byte (e # seen) x \<longleftrightarrow> available_byte seen x" if "x < lim" for x
      using that assms(2) by (auto simp: available_byte_def)
    have 2: "\<not> available_byte (e # seen) x" if "lim \<le> x" "x < base e" for x
      using that below by (fastforce simp: available_byte_def)
    have 3: "available_byte (e # seen) x \<longleftrightarrow> mtype e = 1" if "base e \<le> x" "x < entry_end e" for x
      using that below assms(2) by (fastforce simp: available_byte_def)
    have split: "x < entry_end e \<longleftrightarrow> x < lim \<or> (lim \<le> x \<and> x < base e) \<or> (base e \<le> x \<and> x < entry_end e)" for x
      using assms(2) lt by auto
    have "free_at 7 ?a n \<longleftrightarrow> (K n \<and> (\<forall>x < lim. x div 4096 = n \<longrightarrow> available_byte seen x)) \<and>
        (mtype e \<noteq> 1 \<longrightarrow> (\<forall>x. x div 4096 = n \<longrightarrow> \<not> (base e \<le> x \<and> x < entry_end e))) \<and>
        (\<forall>x. x div 4096 = n \<longrightarrow> \<not> (lim \<le> x \<and> x < base e))"
      using G E fr True by blast
    moreover have "(\<forall>x < entry_end e. x div 4096 = n \<longrightarrow> available_byte (e # seen) x) \<longleftrightarrow>
        (\<forall>x < lim. x div 4096 = n \<longrightarrow> available_byte seen x) \<and>
        (mtype e \<noteq> 1 \<longrightarrow> (\<forall>x. x div 4096 = n \<longrightarrow> \<not> (base e \<le> x \<and> x < entry_end e))) \<and>
        (\<forall>x. x div 4096 = n \<longrightarrow> \<not> (lim \<le> x \<and> x < base e))" (is "?l \<longleftrightarrow> ?r")
    proof
      assume l: ?l
      show ?r
      proof (intro conjI allI impI notI)
        fix x assume "x < lim" "x div 4096 = n"
        with l split 1 show "available_byte seen x" by blast
      next
        fix x assume "mtype e \<noteq> 1" "x div 4096 = n" "base e \<le> x \<and> x < entry_end e"
        with l 3 show False by blast
      next
        fix x assume "x div 4096 = n" "lim \<le> x \<and> x < base e"
        with l 2 split show False by blast
      qed
    next
      assume r: ?r
      show ?l
      proof (intro allI impI)
        fix x assume x: "x < entry_end e" "x div 4096 = n"
        from x(1) split consider "x < lim" | "lim \<le> x \<and> x < base e" | "base e \<le> x \<and> x < entry_end e" by blast
        then show "available_byte (e # seen) x" using r x(2) 1 3 by cases blast+
      qed
    qed
    ultimately show ?thesis using True by blast
  next
    case False
    then show ?thesis using free_at_20 G by blast
  qed
  moreover have "\<forall>s \<in> set (e # seen). entry_end s \<le> entry_end e"
    using below assms(2) lt by fastforce
  ultimately show ?thesis using G unfolding free_below_def by blast
qed

lemma setup_loop_spec:
  assumes "free_below K seen lim alloc" "ordered_map lim es" "len z = 0"
    and "case prev of None \<Rightarrow> es \<noteq> [] \<and> base (hd es) = lim | Some p \<Rightarrow> entry_end p = lim \<and> lim < 2 ^ 64"
  shows "\<exists>p alloc'. setup_loop prev (es @ z # rest) alloc = Some (Some p, alloc') \<and>
    free_below K (rev es @ seen) (entry_end p) alloc' \<and> entry_end p < 2 ^ 64"
  using assms
proof (induction es arbitrary: prev seen lim alloc)
  case Nil
  then show ?case by (cases prev) auto
next
  case (Cons e es)
  have o: "lim \<le> base e" "0 < len e" "entry_end e < 2 ^ 64" "ordered_map (entry_end e) es"
    using Cons.prems(2) by auto
  have c: "case prev of None \<Rightarrow> base e = lim | Some p \<Rightarrow> entry_end p = lim"
    using Cons.prems(4) by (auto split: option.splits)
  from Cons.IH[OF free_below_step[OF Cons.prems(1) o(1-3) c] o(4) Cons.prems(3), of "Some e"] o
  show ?case by simp
qed

section \<open>Properties\<close>


definition example_map :: "memory_map_entry list" where
  "example_map = [\<lparr>base = 0, len = 0x9f000, mtype = 1\<rparr>, \<lparr>base = 0x9f000, len = 0x1000, mtype = 2\<rparr>,
    \<lparr>base = 0x100000, len = 0x7f00000, mtype = 1\<rparr>]"


end
