(* ===== verification/Paging.thy ===== *)
theory Paging
  imports Prelude
begin

text \<open>
  Four-level address translation: \<^verbatim>\<open>resolve_to_phmem\<close> of kernel/mem/utils.cc and the page
  tables that \<^verbatim>\<open>default_pages_init\<close> of kernel/mem/default_pages.cc installs, with the
  entries of x86/memory.hh. The kernel reads tables through a window: the table at physical
  address \<open>p\<close> is read at the linear address \<open>p - 512 GiB\<close> (modulo \<open>2 ^ 64\<close>).
\<close>

section \<open>Entries\<close>

text \<open>\<^verbatim>\<open>P = 1\<close>, \<^verbatim>\<open>RW = 2\<close> and \<^verbatim>\<open>PS = 128\<close> of \<^verbatim>\<open>hl_paging_entry::attr\<close>.\<close>

definition is_P :: "u64 \<Rightarrow> bool" where "is_P e = (e AND 1 \<noteq> 0)"
definition is_RW :: "u64 \<Rightarrow> bool" where "is_RW e = (e AND 2 \<noteq> 0)"
definition is_PS :: "u64 \<Rightarrow> bool" where "is_PS e = (e AND 128 \<noteq> 0)"

definition OS_CRAWLABLE :: u64 where "OS_CRAWLABLE = 512"

definition address_mask :: u64 where
  "address_mask = NOT 0xfff0000000000fff"

definition window :: u64 where
  "window = 512 * 1024 * 1024 * 1024"

text \<open>The index into the table of level \<open>lv\<close> (1 to 4).\<close>

definition tindex :: "nat \<Rightarrow> u64 \<Rightarrow> u64" where
  "tindex lv a = drop_bit (12 + (lv - 1) * 9) a AND 0x1ff"

section \<open>\<^verbatim>\<open>resolve_to_phmem\<close>\<close>

datatype resolve_status = OK | NOT_MAPPED | NOT_CANONICAL

record phmem_resolvant =
  status :: resolve_status
  isRW :: bool
  resolved :: u64

text \<open>\<open>lm\<close> is the kernel's view of memory: the 64-bit value at a linear address.\<close>

definition table_entry :: "(u64 \<Rightarrow> u64) \<Rightarrow> u64 \<Rightarrow> u64 \<Rightarrow> u64" where
  "table_entry lm tbl i = lm (tbl + 8 * i)"

definition canonical_check :: "u64 \<Rightarrow> bool" where
  "canonical_check a \<longleftrightarrow> \<not> (sint a \<le> - (2 ^ 48) \<or> sint a \<ge> 2 ^ 48)"

definition resolve_to_phmem :: "(u64 \<Rightarrow> u64) \<Rightarrow> u64 \<Rightarrow> u64 \<Rightarrow> phmem_resolvant" where
  "resolve_to_phmem lm cr3 to_resolve =
    (let isrw = True; lvl4 = cr3 - window in
     if \<not> canonical_check to_resolve then \<lparr>status = NOT_CANONICAL, isRW = isrw, resolved = - 1\<rparr>
     else
     let to_resolve = to_resolve AND mask 48;
         val = table_entry lm lvl4 (tindex 4 to_resolve);
         isrw = (isrw \<and> is_RW val) in
     if \<not> is_P val then \<lparr>status = NOT_MAPPED, isRW = isrw, resolved = - 1\<rparr>
     else
     let lvl3 = (val AND address_mask) - window;
         val = table_entry lm lvl3 (tindex 3 to_resolve);
         isrw = (isrw \<and> is_RW val) in
     if \<not> is_P val then \<lparr>status = NOT_MAPPED, isRW = isrw, resolved = - 1\<rparr>
     else
     let lvl2 = (val AND address_mask) - window;
         val = table_entry lm lvl2 (tindex 2 to_resolve);
         isrw = (isrw \<and> is_RW val) in
     if \<not> is_P val then \<lparr>status = NOT_MAPPED, isRW = isrw, resolved = - 1\<rparr>
     else if is_PS val
     then \<lparr>status = OK, isRW = isrw, resolved = (val AND address_mask) OR (to_resolve AND 0x1fffff)\<rparr>
     else
     let pg_table = (val AND address_mask) - window;
         pt_entry = table_entry lm pg_table (tindex 1 to_resolve);
         isrw = (isrw \<and> is_RW pt_entry) in
     if \<not> is_P pt_entry then \<lparr>status = NOT_MAPPED, isRW = isrw, resolved = - 1\<rparr>
     else \<lparr>status = OK, isRW = isrw, resolved = (pt_entry AND address_mask) OR (to_resolve AND 0xfff)\<rparr>)"

section \<open>The architecture's walk\<close>

text \<open>
  The translation the processor makes, over physical memory \<open>pm\<close>: a present entry of level 1
  maps a page of 4 KiB, one of level 2 or 3 with the bit PS one of 2 MiB or 1 GiB; a page is
  writable when every entry on the way says so.
\<close>

definition page_bits :: "nat \<Rightarrow> nat" where
  "page_bits lv = 12 + (lv - 1) * 9"

fun hw_walk :: "nat \<Rightarrow> (u64 \<Rightarrow> u64) \<Rightarrow> u64 \<Rightarrow> u64 \<Rightarrow> bool \<Rightarrow> (bool \<times> u64) option" where
  "hw_walk 0 pm tbl a rw = None"
| "hw_walk (Suc lv) pm tbl a rw =
    (let e = pm (tbl + 8 * tindex (Suc lv) a); rw = (rw \<and> is_RW e) in
     if \<not> is_P e then None
     else if lv = 0 \<or> (lv < 3 \<and> is_PS e)
     then Some (rw, (e AND address_mask AND NOT (mask (page_bits (Suc lv)))) OR (a AND mask (page_bits (Suc lv))))
     else hw_walk lv pm (e AND address_mask) a rw)"

text \<open>
  What the kernel's walk takes for granted about the tables below \<open>tbl\<close> on the way of \<open>a\<close>:
  no page of 1 GiB, a 2 MiB page with its low address bits clear, and every table in the
  first four gigabytes, which are what the window shows.
\<close>

definition low32 :: "u64 \<Rightarrow> bool" where
  "low32 p \<longleftrightarrow> p AND NOT (mask 32) = 0"

fun supported :: "nat \<Rightarrow> (u64 \<Rightarrow> u64) \<Rightarrow> u64 \<Rightarrow> u64 \<Rightarrow> bool" where
  "supported 0 pm tbl a = True"
| "supported (Suc lv) pm tbl a =
    (let e = pm (tbl + 8 * tindex (Suc lv) a) in
     (lv = 2 \<longrightarrow> \<not> is_PS e) \<and>
     (lv = 1 \<longrightarrow> is_PS e \<longrightarrow> e AND address_mask AND mask 21 = 0) \<and>
     (is_P e \<longrightarrow> \<not> (lv = 0 \<or> lv = 1 \<and> is_PS e) \<longrightarrow>
        low32 (e AND address_mask) \<and> supported lv pm (e AND address_mask) a))"

section \<open>The kernel's walk is the processor's\<close>

lemma mask9: "(0x1ff :: u64) = mask 9"
  by (simp add: mask_eq_exp_minus_1)

lemma tindex_mask48: "lv \<in> {1, 2, 3, 4} \<Longrightarrow> tindex lv (a AND mask 48) = tindex lv a"
  unfolding tindex_def mask9 by (rule bit_word_eqI) (auto simp: bit_simps)

lemma low_bits_mask48: "n \<le> 48 \<Longrightarrow> ((a :: u64) AND mask 48) AND mask n = a AND mask n"
  by (rule bit_word_eqI) (auto simp: bit_simps)

lemma bit_address_mask: "bit address_mask n \<longleftrightarrow> 12 \<le> n \<and> n < 52"
proof -
  have "address_mask = push_bit 12 (mask 40)"
    by (simp add: address_mask_def mask_eq_exp_minus_1 push_bit_eq_mult)
  then have "bit address_mask n \<longleftrightarrow> bit (push_bit 12 (mask 40) :: u64) n" by (simp only:)
  then show ?thesis unfolding bit_push_bit_iff bit_mask_iff by auto
qed

definition table_base :: "u64 \<Rightarrow> bool" where
  "table_base t \<longleftrightarrow> t AND address_mask = t"

lemma table_base_masked [simp]: "table_base (e AND address_mask)"
  by (simp add: table_base_def and.assoc)

lemma entry_phys:
  assumes "table_base t" "low32 t"
  shows "low32 (t + 8 * tindex lv a)"
proof -
  have t: "bit t n \<Longrightarrow> 12 \<le> n" for n
    using assms(1) bit_address_mask unfolding table_base_def by (metis bit_and_iff)
  have "8 * tindex lv a = push_bit 3 (tindex lv a)" by (simp add: push_bit_eq_mult)
  then have i: "bit (8 * tindex lv a) n \<Longrightarrow> n < 12" for n
    unfolding tindex_def mask9 by (auto simp: bit_simps)
  have "t + 8 * tindex lv a = t OR 8 * tindex lv a"
    by (rule disjunctive_add) (use t i in \<open>meson not_le\<close>)
  moreover have "low32 (t OR 8 * tindex lv a)"
    unfolding low32_def bit.conj_disj_distrib2
  proof -
    have "(8 * tindex lv a) AND NOT (mask 32) = 0"
      by (rule bit_word_eqI) (auto simp: bit_and_iff bit_not_iff bit_mask_iff dest: i)
    then show "t AND NOT (mask 32) OR 8 * tindex lv a AND NOT (mask 32) = 0"
      using assms(2) by (simp add: low32_def)
  qed
  ultimately show ?thesis by simp
qed

lemma table_entry_window:
  assumes "\<And>p. low32 p \<Longrightarrow> lm (p - window) = pm p" "table_base t" "low32 t"
  shows "table_entry lm (t - window) (tindex lv a) = pm (t + 8 * tindex lv a)"
proof -
  have "t - window + 8 * tindex lv a = (t + 8 * tindex lv a) - window" by simp
  then show ?thesis using assms(1)[OF entry_phys[OF assms(2,3)]] by (simp only: table_entry_def)
qed

lemma masked_page:
  assumes "(x :: u64) AND mask n = 0"
  shows "x AND NOT (mask n) = x"
proof (rule bit_word_eqI)
  fix k
  have "\<not> (bit x k \<and> bit (mask n :: u64) k)" using assms by (metis bit_and_iff bit_0_eq bot_apply bot_bool_def)
  then show "bit (x AND NOT (mask n)) k = bit x k"
    by (auto simp: bit_and_iff bit_not_iff dest: bit_imp_le_length)
qed

lemma address_mask_page: "e AND address_mask AND NOT (mask 12) = e AND address_mask"
proof (rule bit_word_eqI)
  fix k
  show "bit (e AND address_mask AND NOT (mask 12)) k = bit (e AND address_mask) k"
    by (auto simp: bit_and_iff bit_not_iff bit_mask_iff bit_address_mask)
qed

lemma low_masks: "(0x1fffff :: u64) = mask 21" "(0xfff :: u64) = mask 12"
  by (simp_all add: mask_eq_exp_minus_1)

lemma resolve_refines_hw:
  assumes win: "\<And>p. low32 p \<Longrightarrow> lm (p - window) = pm p"
    and cr3: "table_base cr3" "low32 cr3" and can: "canonical_check a" and sup: "supported 4 pm cr3 a"
  shows "(case hw_walk 4 pm cr3 a True of
      None \<Rightarrow> status (resolve_to_phmem lm cr3 a) = NOT_MAPPED \<and> resolved (resolve_to_phmem lm cr3 a) = - 1
    | Some (rw, p) \<Rightarrow> resolve_to_phmem lm cr3 a = \<lparr>status = OK, isRW = rw, resolved = p\<rparr>)"
proof -
  have four: "4 = Suc (Suc (Suc (Suc 0)))" by simp
  note entry = table_entry_window[where lm = lm and pm = pm, OF win]
  define e4 where "e4 = pm (cr3 + 8 * tindex 4 a)"
  define e3 where "e3 = pm ((e4 AND address_mask) + 8 * tindex 3 a)"
  define e2 where "e2 = pm ((e3 AND address_mask) + 8 * tindex 2 a)"
  define e1 where "e1 = pm ((e2 AND address_mask) + 8 * tindex 1 a)"
  have h: "pm (cr3 + 8 * tindex (Suc (Suc (Suc (Suc 0)))) a) = e4"
    "pm ((e4 AND address_mask) + 8 * tindex (Suc (Suc (Suc 0))) a) = e3"
    "pm ((e3 AND address_mask) + 8 * tindex (Suc (Suc 0)) a) = e2"
    "pm ((e2 AND address_mask) + 8 * tindex (Suc 0) a) = e1"
    by (simp_all add: e4_def e3_def e2_def e1_def numeral_eq_Suc)
  have hw: "hw_walk 4 pm cr3 a True =
    (if \<not> is_P e4 then None else if \<not> is_P e3 then None
     else if is_PS e3 then Some (is_RW e4 \<and> is_RW e3, (e3 AND address_mask AND NOT (mask 30)) OR (a AND mask 30))
     else if \<not> is_P e2 then None
     else if is_PS e2 then Some ((is_RW e4 \<and> is_RW e3) \<and> is_RW e2, (e2 AND address_mask AND NOT (mask 21)) OR (a AND mask 21))
     else if \<not> is_P e1 then None
     else Some (((is_RW e4 \<and> is_RW e3) \<and> is_RW e2) \<and> is_RW e1, (e1 AND address_mask) OR (a AND mask 12)))"
    unfolding four hw_walk.simps h Let_def by (simp add: page_bits_def address_mask_page)
  have s: "is_P e4 \<Longrightarrow> \<not> is_PS e3 \<and> low32 (e4 AND address_mask)"
    "is_P e4 \<Longrightarrow> is_P e3 \<Longrightarrow> low32 (e3 AND address_mask)"
    "is_P e4 \<Longrightarrow> is_P e3 \<Longrightarrow> is_P e2 \<Longrightarrow> \<not> is_PS e2 \<Longrightarrow> low32 (e2 AND address_mask)"
    "is_P e4 \<Longrightarrow> is_P e3 \<Longrightarrow> is_PS e2 \<Longrightarrow> e2 AND address_mask AND NOT (mask 21) = e2 AND address_mask"
    using sup unfolding four supported.simps h Let_def
    using masked_page[of "e2 AND address_mask" 21, unfolded and.assoc] by simp_all
  have i: "tindex 4 (a AND mask 48) = tindex 4 a" "tindex 3 (a AND mask 48) = tindex 3 a"
    "tindex 2 (a AND mask 48) = tindex 2 a" "tindex 1 (a AND mask 48) = tindex 1 a"
    by (simp_all only: tindex_mask48 insert_iff simp_thms)
  have r4: "table_entry lm (cr3 - window) (tindex 4 a) = e4"
    unfolding e4_def by (rule entry[OF _ cr3])
  have r3: "is_P e4 \<Longrightarrow> table_entry lm ((e4 AND address_mask) - window) (tindex 3 a) = e3"
    unfolding e3_def by (rule entry) (use s in auto)
  have r2: "is_P e4 \<Longrightarrow> is_P e3 \<Longrightarrow> table_entry lm ((e3 AND address_mask) - window) (tindex 2 a) = e2"
    unfolding e2_def by (rule entry) (use s in auto)
  have r1: "is_P e4 \<Longrightarrow> is_P e3 \<Longrightarrow> is_P e2 \<Longrightarrow> \<not> is_PS e2 \<Longrightarrow>
      table_entry lm ((e2 AND address_mask) - window) (tindex 1 a) = e1"
    unfolding e1_def by (rule entry) (use s in auto)
  show ?thesis unfolding hw resolve_to_phmem_def Let_def i r4 low_masks
    using can s r3 r2 r1 by (cases "is_P e4"; cases "is_P e3"; cases "is_P e2"; cases "is_PS e2")
      (simp_all add: low_bits_mask48)
qed

section \<open>The tables of \<^verbatim>\<open>default_pages_init\<close>\<close>

definition make_linear_large_page_directory :: "u64 \<Rightarrow> u64 list" where
  "make_linear_large_page_directory offset =
    map (\<lambda>i. (offset + of_nat i * 2 * 1024 * 1024) OR 0x9b) [0..<512]"

text \<open>
  The static tables of the file: \<^verbatim>\<open>idmap_low_pds\<close>, \<^verbatim>\<open>higherhalf_pds\<close> and the three upper
  tables. \<open>table_addrs\<close> are the linear addresses the linker gives them.
\<close>

record default_tables =
  id_dir0 :: "u64 list"
  id_dir1 :: "u64 list"
  id_dir2 :: "u64 list"
  id_dir3 :: "u64 list"
  hh_dir0 :: "u64 list"
  hh_dir1 :: "u64 list"
  lower_pml3 :: "u64 list"
  highhalf_pml3 :: "u64 list"
  toplevel :: "u64 list"

record table_addrs =
  at_id0 :: u64
  at_id1 :: u64
  at_id2 :: u64
  at_id3 :: u64
  at_hh0 :: u64
  at_hh1 :: u64
  at_highhalf :: u64
  at_toplevel :: u64

definition static_tables :: default_tables where
  "static_tables =
    \<lparr>id_dir0 = make_linear_large_page_directory 0,
     id_dir1 = make_linear_large_page_directory 0x40000000,
     id_dir2 = make_linear_large_page_directory 0x80000000,
     id_dir3 = make_linear_large_page_directory 0xC0000000,
     hh_dir0 = make_linear_large_page_directory 0,
     hh_dir1 = make_linear_large_page_directory 0x40000000,
     lower_pml3 = replicate 512 0, highhalf_pml3 = replicate 512 0, toplevel = replicate 512 0\<rparr>"

definition dir_link :: "(u64 \<Rightarrow> u64) \<Rightarrow> u64 \<Rightarrow> u64" where
  "dir_link res l = (res l OR 3) OR OS_CRAWLABLE"

text \<open>\<open>res\<close> is \<open>resolve_to_phmem\<close> under the boot loader's tables; the second result is the new cr3.\<close>

definition default_pages_init ::
  "(u64 \<Rightarrow> u64) \<Rightarrow> table_addrs \<Rightarrow> u64 \<Rightarrow> default_tables \<Rightarrow> default_tables \<times> u64" where
  "default_pages_init res at kernel_zero t =
    (let low = (lower_pml3 t)[0 := dir_link res (at_id0 at), 1 := dir_link res (at_id1 at),
           2 := dir_link res (at_id2 at), 3 := dir_link res (at_id3 at)];
         t = t\<lparr>lower_pml3 := low\<rparr>;
         t = t\<lparr>hh_dir0 := make_linear_large_page_directory kernel_zero,
               hh_dir1 := make_linear_large_page_directory (kernel_zero + 0x40000000)\<rparr>;
         high = (highhalf_pml3 t)[0 := dir_link res (at_id0 at), 1 := dir_link res (at_id1 at),
           2 := dir_link res (at_id2 at), 3 := dir_link res (at_id3 at),
           510 := dir_link res (at_hh0 at), 511 := dir_link res (at_hh1 at)];
         t = t\<lparr>highhalf_pml3 := high\<rparr>;
         top = replicate 511 0 @ drop 511 (toplevel t);
         t = t\<lparr>toplevel := top[511 := dir_link res (at_highhalf at)]\<rparr>
     in (t, res (at_toplevel at)))"

text \<open>Physical memory \<open>pm\<close> holds the table \<open>tab\<close> at \<open>base\<close>.\<close>

definition holds :: "(u64 \<Rightarrow> u64) \<Rightarrow> u64 \<Rightarrow> u64 list \<Rightarrow> bool" where
  "holds pm base tab \<longleftrightarrow> (\<forall>i < 512. pm (base + 8 * of_nat i) = tab ! i)"

definition tables_in_memory ::
  "(u64 \<Rightarrow> u64) \<Rightarrow> (u64 \<Rightarrow> u64) \<Rightarrow> table_addrs \<Rightarrow> default_tables \<Rightarrow> bool" where
  "tables_in_memory pm res at t \<longleftrightarrow>
    holds pm (res (at_id0 at)) (id_dir0 t) \<and> holds pm (res (at_id1 at)) (id_dir1 t) \<and>
    holds pm (res (at_id2 at)) (id_dir2 t) \<and> holds pm (res (at_id3 at)) (id_dir3 t) \<and>
    holds pm (res (at_hh0 at)) (hh_dir0 t) \<and> holds pm (res (at_hh1 at)) (hh_dir1 t) \<and>
    holds pm (res (at_highhalf at)) (highhalf_pml3 t) \<and> holds pm (res (at_toplevel at)) (toplevel t)"

definition tables_placed :: "(u64 \<Rightarrow> u64) \<Rightarrow> table_addrs \<Rightarrow> bool" where
  "tables_placed res at \<longleftrightarrow> list_all (\<lambda>l. table_base (res l) \<and> low32 (res l))
     [at_id0 at, at_id1 at, at_id2 at, at_id3 at, at_hh0 at, at_hh1 at, at_highhalf at, at_toplevel at]"

lemma tindex_less: "tindex lv a < 512"
  unfolding tindex_def mask9 using and_mask_less'[of 9 "drop_bit (12 + (lv - 1) * 9) a"] by simp

lemma holds_entry: "holds pm base tab \<Longrightarrow> pm (base + 8 * tindex lv a) = tab ! unat (tindex lv a)"
proof -
  assume h: "holds pm base tab"
  have "unat (tindex lv a) < 512" using tindex_less[of lv a] by (simp add: word_less_nat_alt)
  with h have "pm (base + 8 * of_nat (unat (tindex lv a))) = tab ! unat (tindex lv a)"
    unfolding holds_def by blast
  then show ?thesis by simp
qed

lemma flag_bits: "is_P e \<longleftrightarrow> bit e 0" "is_RW e \<longleftrightarrow> bit e 1" "is_PS e \<longleftrightarrow> bit e 7"
  using and_exp_eq_0_iff_not_bit[of e 0] and_exp_eq_0_iff_not_bit[of e 1] and_exp_eq_0_iff_not_bit[of e 7]
  by (simp_all add: is_P_def is_RW_def is_PS_def)

lemma table_base_bit: "table_base t \<Longrightarrow> bit t n \<Longrightarrow> 12 \<le> n \<and> n < 52"
  using bit_address_mask unfolding table_base_def by (metis bit_and_iff)

lemma word_or_small:
  assumes "(c :: u64) AND address_mask = 0" "table_base t"
  shows "(t OR c) AND address_mask = t"
  using assms by (simp add: bit.conj_disj_distrib2 table_base_def)

lemma dir_link_entry:
  assumes "table_base (res l)"
  shows "is_P (dir_link res l)" "is_RW (dir_link res l)" "\<not> is_PS (dir_link res l)"
    "dir_link res l AND address_mask = res l"
proof -
  have "\<not> bit (res l) 7" using table_base_bit[OF assms, of 7] by auto
  then show "is_P (dir_link res l)" "is_RW (dir_link res l)" "\<not> is_PS (dir_link res l)"
    by (simp_all add: flag_bits dir_link_def OS_CRAWLABLE_def bit_or_iff)
  have "(3 OR OS_CRAWLABLE) AND address_mask = 0" by (simp add: OS_CRAWLABLE_def address_mask_def)
  from word_or_small[OF this assms] show "dir_link res l AND address_mask = res l"
    by (simp add: dir_link_def or.assoc)
qed

text \<open>The flags of a large page: present, writable and large, outside the address.\<close>

definition large_flags :: "u64 \<Rightarrow> bool" where
  "large_flags c \<longleftrightarrow> c AND address_mask = 0 \<and> bit c 0 \<and> bit c 1 \<and> bit c 7"

lemma large_entry:
  assumes v: "take_bit 21 (v :: u64) = 0" "take_bit 52 v = v" and e: "e = v OR c" and c: "large_flags c"
  shows "is_P e" "is_RW e" "is_PS e" "e AND address_mask AND NOT (mask 21) = v" "e AND address_mask AND mask 21 = 0"
proof -
  show "is_P e" "is_RW e" "is_PS e" using c by (simp_all add: flag_bits e bit_or_iff large_flags_def)
  have lo: "\<not> bit v n" if "n < 21" for n
    using v(1) that by (metis bit_0_eq bit_take_bit_iff bot_apply bot_bool_def)
  have hi: "n < 52" if "bit v n" for n
    using v(2) that by (metis bit_take_bit_iff)
  have tb: "table_base v" unfolding table_base_def
  proof (rule bit_word_eqI)
    fix n
    show "bit (v AND address_mask) n = bit v n"
      using lo[of n] hi[of n] by (cases "n < 21") (auto simp: bit_and_iff bit_address_mask)
  qed
  have "c AND address_mask = 0" using c by (simp add: large_flags_def)
  from word_or_small[OF this tb] have ev: "e AND address_mask = v" by (simp only: e)
  have m0: "v AND mask 21 = 0" using v(1) by (simp add: take_bit_eq_mask)
  from masked_page[OF m0] have "v AND NOT (mask 21) = v" .
  then show "e AND address_mask AND NOT (mask 21) = v" "e AND address_mask AND mask 21 = 0"
    using ev m0 by (simp_all only: and.assoc[symmetric])
qed

lemma linear_directory_entry:
  assumes "holds pm base (make_linear_large_page_directory off)"
  shows "pm (base + 8 * tindex lv a) = (off + push_bit 21 (tindex lv a)) OR 0x9b"
proof -
  have "unat (tindex lv a) < 512" using tindex_less[of lv a] by (simp add: word_less_nat_alt)
  then have "make_linear_large_page_directory off ! unat (tindex lv a) =
      (off + of_nat (unat (tindex lv a)) * 2 * 1024 * 1024) OR 0x9b"
    by (simp add: make_linear_large_page_directory_def)
  moreover have "of_nat (unat (tindex lv a)) * 2 * 1024 * 1024 = push_bit 21 (tindex lv a)"
    by (simp add: push_bit_eq_mult)
  ultimately show ?thesis using holds_entry[OF assms] by simp
qed

lemma minus_exp_or:
  assumes "(x :: u64) AND NOT (mask n) = 0"
  shows "x - 2 ^ n = x OR NOT (mask n)"
proof -
  have "x - 2 ^ n = x + NOT (mask n)" by (simp add: mask_eq_exp_minus_1 not_eq_complement)
  also have "\<dots> = x OR NOT (mask n)"
    by (rule disjunctive_add) (use assms in \<open>metis bit_and_iff bit_0_eq bot_apply bot_bool_def\<close>)
  finally show ?thesis .
qed

lemma low_bit: "(x :: u64) AND NOT (mask n) = 0 \<Longrightarrow> bit x k \<Longrightarrow> k < n"
  by (metis bit_and_iff bit_0_eq bot_apply bot_bool_def bit_not_iff bit_mask_iff bit_imp_possible_bit linorder_not_le)

lemma split_address:
  "push_bit 30 (drop_bit 30 (x :: u64)) + push_bit 21 (drop_bit 21 x AND mask 9) = x AND NOT (mask 21)"
proof -
  have "push_bit 30 (drop_bit 30 x) + push_bit 21 (drop_bit 21 x AND mask 9) =
      push_bit 30 (drop_bit 30 x) OR push_bit 21 (drop_bit 21 x AND mask 9)"
    by (rule disjunctive_add) (auto simp: bit_simps)
  also have "\<dots> = x AND NOT (mask 21)"
  proof (rule bit_word_eqI)
    fix n
    show "bit (push_bit 30 (drop_bit 30 x) OR push_bit 21 (drop_bit 21 x AND mask 9)) n =
        bit (x AND NOT (mask 21)) n"
      by (cases "30 \<le> n") (auto simp: bit_simps)
  qed
  finally show ?thesis .
qed

text \<open>The tables after the call, and what the two windows translate to.\<close>

lemma init_tables:
  assumes "default_pages_init res at kz static_tables = (t, cr3)"
  shows "cr3 = res (at_toplevel at)" "toplevel t ! 511 = dir_link res (at_highhalf at)"
    "\<And>i. i < 511 \<Longrightarrow> toplevel t ! i = 0"
    "highhalf_pml3 t ! 0 = dir_link res (at_id0 at)" "highhalf_pml3 t ! 1 = dir_link res (at_id1 at)"
    "highhalf_pml3 t ! 2 = dir_link res (at_id2 at)" "highhalf_pml3 t ! 3 = dir_link res (at_id3 at)"
    "highhalf_pml3 t ! 510 = dir_link res (at_hh0 at)" "highhalf_pml3 t ! 511 = dir_link res (at_hh1 at)"
    "id_dir0 t = make_linear_large_page_directory 0" "id_dir1 t = make_linear_large_page_directory 0x40000000"
    "id_dir2 t = make_linear_large_page_directory 0x80000000" "id_dir3 t = make_linear_large_page_directory 0xC0000000"
    "hh_dir0 t = make_linear_large_page_directory kz" "hh_dir1 t = make_linear_large_page_directory (kz + 0x40000000)"
  using assms by (auto simp: default_pages_init_def static_tables_def Let_def nth_append)

lemma window_indices:
  assumes "low32 x"
  shows "tindex 4 (x - window) = 511" "tindex 3 (x - window) = drop_bit 30 x"
    "tindex 2 (x - window) = drop_bit 21 x AND mask 9" "(x - window) AND mask 21 = x AND mask 21"
proof -
  have lo: "bit x k \<Longrightarrow> k < 32" for k using low_bit assms by (simp add: low32_def)
  have "x AND NOT (mask 39) = 0"
    by (rule bit_word_eqI) (use lo in \<open>fastforce simp: bit_simps\<close>)
  from minus_exp_or[OF this] have a: "x - window = x OR NOT (mask 39)" by (simp add: window_def)
  have n511: "(511 :: u64) = mask 9" by (simp add: mask_eq_exp_minus_1)
  show "tindex 4 (x - window) = 511" unfolding a tindex_def mask9 n511
    by (rule bit_word_eqI) (auto simp: bit_simps)
  show "tindex 3 (x - window) = drop_bit 30 x" unfolding a tindex_def mask9
    by (rule bit_word_eqI) (use lo in \<open>fastforce simp: bit_simps\<close>)
  show "tindex 2 (x - window) = drop_bit 21 x AND mask 9" unfolding a tindex_def mask9
    by (rule bit_word_eqI) (auto simp: bit_simps)
  show "(x - window) AND mask 21 = x AND mask 21" unfolding a
    by (rule bit_word_eqI) (auto simp: bit_simps)
qed

lemma kernel_indices:
  assumes "x AND NOT (mask 31) = 0"
  shows "tindex 4 (x - 2 ^ 31) = 511" "tindex 3 (x - 2 ^ 31) = (if bit x 30 then 511 else 510)"
    "tindex 2 (x - 2 ^ 31) = drop_bit 21 x AND mask 9" "(x - 2 ^ 31) AND mask 21 = x AND mask 21"
    "drop_bit 30 x = (if bit x 30 then 1 else 0)"
proof -
  note lo = low_bit[OF assms]
  note a = minus_exp_or[OF assms]
  have n511: "(511 :: u64) = mask 9" "(510 :: u64) = mask 9 AND NOT 1"
    by (simp_all add: mask_eq_exp_minus_1)
  show "tindex 4 (x - 2 ^ 31) = 511" unfolding a tindex_def mask9 n511
    by (rule bit_word_eqI) (auto simp: bit_simps)
  show "tindex 2 (x - 2 ^ 31) = drop_bit 21 x AND mask 9" unfolding a tindex_def mask9
    by (rule bit_word_eqI) (auto simp: bit_simps)
  show "(x - 2 ^ 31) AND mask 21 = x AND mask 21" unfolding a
    by (rule bit_word_eqI) (auto simp: bit_simps)
  have "bit (tindex 3 (x - 2 ^ 31)) n \<longleftrightarrow> (if n = 0 then bit x 30 else n < 9)" for n
    unfolding a tindex_def mask9 using lo[of "30 + n"] by (cases n) (auto simp: bit_simps)
  then show "tindex 3 (x - 2 ^ 31) = (if bit x 30 then 511 else 510)"
    unfolding n511 by (intro bit_word_eqI) (auto simp: bit_simps)
  have "bit (drop_bit 30 x) n \<longleftrightarrow> n = 0 \<and> bit x 30" for n
    using lo[of "30 + n"] by (cases n) (auto simp: bit_simps)
  then show "drop_bit 30 x = (if bit x 30 then 1 else 0)"
    by (intro bit_word_eqI) (auto simp: bit_simps)
qed

lemma two_bit_cases:
  assumes "low32 x"
  obtains "drop_bit 30 x = 0" | "drop_bit 30 x = 1" | "drop_bit 30 x = 2" | "drop_bit 30 x = 3"
proof -
  have lo: "bit x k \<Longrightarrow> k < 32" for k using low_bit assms by (simp add: low32_def)
  have "drop_bit 30 x = drop_bit 30 x AND mask 2"
    by (rule bit_word_eqI) (use lo in \<open>fastforce simp: bit_simps\<close>)
  then have "drop_bit 30 x < 4" using and_mask_less'[of 2 "drop_bit 30 x"] by simp
  then have "unat (drop_bit 30 x) < 4" by (simp add: word_less_nat_alt)
  then have "unat (drop_bit 30 x) = 0 \<or> unat (drop_bit 30 x) = 1 \<or> unat (drop_bit 30 x) = 2 \<or> unat (drop_bit 30 x) = 3"
    by linarith
  then show thesis using that by (auto simp: word_unat_eq_iff)
qed

lemma holds_at: "holds pm base tab \<Longrightarrow> i < 512 \<Longrightarrow> pm (base + 8 * of_nat i) = tab ! i"
  by (simp add: holds_def)

lemma or_low_bits: "x AND NOT (mask 21) OR (x AND mask 21) = (x :: u64)"
  by (rule bit_word_eqI) (auto simp: bit_simps)

lemma large_walk:
  assumes top: "pm (root + 8 * tindex 4 a) = dir_link res hi" "table_base (res hi)" "low32 (res hi)"
    and mid: "pm (res hi + 8 * tindex 3 a) = dir_link res d" "table_base (res d)" "low32 (res d)"
    and dir: "pm (res d + 8 * tindex 2 a) = v OR c" "large_flags c"
    and v: "take_bit 21 v = 0" "take_bit 52 v = v"
  shows "hw_walk 4 pm root a True = Some (True, v OR (a AND mask 21)) \<and> supported 4 pm root a"
proof -
  have four: "4 = Suc (Suc (Suc (Suc 0)))" by simp
  note link = dir_link_entry[where res = res and l = hi, OF top(2)]
    dir_link_entry[where res = res and l = d, OF mid(2)]
  note large = large_entry[OF v dir]
  have h: "pm (root + 8 * tindex (Suc (Suc (Suc (Suc 0)))) a) = dir_link res hi"
    "pm (res hi + 8 * tindex (Suc (Suc (Suc 0))) a) = dir_link res d"
    "pm (res d + 8 * tindex (Suc (Suc 0)) a) = pm (res d + 8 * tindex 2 a)"
    using top(1) mid(1) by (simp_all add: numeral_eq_Suc)
  have "hw_walk 4 pm root a True = Some (True, v OR (a AND mask 21))"
    unfolding four hw_walk.simps h link Let_def using large by (simp add: page_bits_def link)
  moreover have "supported 4 pm root a"
    unfolding four supported.simps h link Let_def using large top(3) mid(3) by (simp add: link)
  ultimately show ?thesis by blast
qed

text \<open>A large page whose frame is the base of a window and the upper bits of the offset \<open>x\<close> in it.\<close>

lemma offset_walk:
  assumes top: "pm (root + 8 * tindex 4 a) = dir_link res hi" "table_base (res hi)" "low32 (res hi)"
    and mid: "pm (res hi + 8 * tindex 3 a) = dir_link res d" "table_base (res d)" "low32 (res d)"
    and dir: "pm (res d + 8 * tindex 2 a) = (off + push_bit 21 (tindex 2 a)) OR c" "large_flags c"
    and off: "off + push_bit 21 (tindex 2 a) = base + (x AND NOT (mask 21))" "a AND mask 21 = x AND mask 21"
    and base: "base AND mask 21 = 0" "unat base + unat x < 2 ^ 52"
  shows "hw_walk 4 pm root a True = Some (True, base + x) \<and> supported 4 pm root a"
proof -
  define v where "v = base + (x AND NOT (mask 21))"
  have b0: "base = push_bit 21 (drop_bit 21 base)"
    using bits_ident[of 21 base] base(1) by (simp add: take_bit_eq_mask)
  have "x AND NOT (mask 21) = push_bit 21 (drop_bit 21 x)"
    by (rule bit_word_eqI) (auto simp: bit_simps)
  then have vp: "v = push_bit 21 (drop_bit 21 base + drop_bit 21 x)"
    unfolding v_def by (subst b0) (simp add: push_bit_eq_mult distrib_right)
  then have v0: "take_bit 21 v = 0" by (simp add: take_bit_push_bit)
  have "unat (x AND NOT (mask 21)) \<le> unat x"
    by (metis word_and_le2 and.commute word_le_nat_alt)
  then have "unat v < 2 ^ 52" using base(2) by (simp add: v_def unat_word_ariths)
  then have v52: "take_bit 52 v = v" by (simp add: word_unat_eq_iff unsigned_take_bit_eq take_bit_nat_eq_self)
  have dir1: "pm (res d + 8 * tindex 2 a) = v OR c" using dir(1) off(1) by (simp add: v_def)
  have "v OR (x AND mask 21) = v + (x AND mask 21)" unfolding vp
    by (intro disjunctive_add [symmetric]) (auto simp: bit_simps)
  also have "\<dots> = base + ((x AND NOT (mask 21)) + (x AND mask 21))" by (simp add: v_def)
  also have "(x AND NOT (mask 21)) + (x AND mask 21) = x"
    by (subst disjunctive_add) (auto simp: bit_simps or_low_bits)
  finally show ?thesis using large_walk[where res = res, OF top mid dir1 dir(2) v0 v52] by (simp add: off(2))
qed

lemma default_flags: "large_flags 0x9b"
  by (simp add: large_flags_def address_mask_def)

lemma low_mask_bound: "(x :: u64) AND NOT (mask n) = 0 \<Longrightarrow> n < 64 \<Longrightarrow> unat x < 2 ^ n"
proof -
  assume x: "x AND NOT (mask n) = 0" and n: "n < 64"
  have "take_bit n x = x" by (rule bit_word_eqI) (use low_bit[OF x] in \<open>auto simp: bit_simps\<close>)
  then have "take_bit n (unat x) = unat x" by (metis unsigned_take_bit_eq)
  then show ?thesis by (simp add: take_bit_nat_eq_self_iff)
qed

lemma low32_bound: "low32 x \<Longrightarrow> unat x < 2 ^ 32"
  unfolding low32_def by (rule low_mask_bound) simp_all

lemma window_walk:
  assumes init: "default_pages_init res at kz static_tables = (t, cr3)"
    and mem: "tables_in_memory pm res at t" and placed: "tables_placed res at" and x: "low32 x"
  shows "hw_walk 4 pm cr3 (x - window) True = Some (True, x) \<and> supported 4 pm cr3 (x - window)"
proof -
  note t = init_tables[OF init]
  note idx = window_indices[OF x]
  let ?k = "drop_bit 30 x"
  have pl: "table_base (res l) \<and> low32 (res l)"
    if "l \<in> {at_id0 at, at_id1 at, at_id2 at, at_id3 at, at_hh0 at, at_hh1 at, at_highhalf at, at_toplevel at}" for l
    using placed that by (auto simp: tables_placed_def)
  have hi: "holds pm (res (at_highhalf at)) (highhalf_pml3 t)" and top: "holds pm (res (at_toplevel at)) (toplevel t)"
    using mem by (auto simp: tables_in_memory_def)
  have e4: "pm (cr3 + 8 * tindex 4 (x - window)) = dir_link res (at_highhalf at)"
    using holds_at[OF top, of 511] t by (simp add: idx)
  have v: "push_bit 30 ?k + push_bit 21 (tindex 2 (x - window)) = 0 + (x AND NOT (mask 21))"
    by (simp only: idx split_address add_0)
  obtain l off where l: "l \<in> {at_id0 at, at_id1 at, at_id2 at, at_id3 at}"
    "pm (res (at_highhalf at) + 8 * tindex 3 (x - window)) = dir_link res l"
    "holds pm (res l) (make_linear_large_page_directory off)" "off = push_bit 30 ?k"
  proof (cases rule: two_bit_cases[OF x])
    case 1
    have "pm (res (at_highhalf at) + 8 * tindex 3 (x - window)) = dir_link res (at_id0 at)"
      using holds_at[OF hi, of 0] unfolding idx(2) 1 t(4) by simp
    moreover have "holds pm (res (at_id0 at)) (make_linear_large_page_directory 0)"
      using mem unfolding tables_in_memory_def t(10) by blast
    moreover have "(0 :: u64) = push_bit 30 ?k" unfolding 1 by simp
    ultimately show thesis by (intro that[of "at_id0 at" "0"]) simp_all
  next
    case 2
    have "pm (res (at_highhalf at) + 8 * tindex 3 (x - window)) = dir_link res (at_id1 at)"
      using holds_at[OF hi, of 1] unfolding idx(2) 2 t(5) by simp
    moreover have "holds pm (res (at_id1 at)) (make_linear_large_page_directory 0x40000000)"
      using mem unfolding tables_in_memory_def t(11) by blast
    moreover have "(0x40000000 :: u64) = push_bit 30 ?k" unfolding 2 by simp
    ultimately show thesis by (intro that[of "at_id1 at" "0x40000000"]) simp_all
  next
    case 3
    have "pm (res (at_highhalf at) + 8 * tindex 3 (x - window)) = dir_link res (at_id2 at)"
      using holds_at[OF hi, of 2] unfolding idx(2) 3 t(6) by simp
    moreover have "holds pm (res (at_id2 at)) (make_linear_large_page_directory 0x80000000)"
      using mem unfolding tables_in_memory_def t(12) by blast
    moreover have "(0x80000000 :: u64) = push_bit 30 ?k" unfolding 3 by simp
    ultimately show thesis by (intro that[of "at_id2 at" "0x80000000"]) simp_all
  next
    case 4
    have "pm (res (at_highhalf at) + 8 * tindex 3 (x - window)) = dir_link res (at_id3 at)"
      using holds_at[OF hi, of 3] unfolding idx(2) 4 t(7) by simp
    moreover have "holds pm (res (at_id3 at)) (make_linear_large_page_directory 0xC0000000)"
      using mem unfolding tables_in_memory_def t(13) by blast
    moreover have "(0xC0000000 :: u64) = push_bit 30 ?k" unfolding 4 by simp
    ultimately show thesis by (intro that[of "at_id3 at" "0xC0000000"]) simp_all
  qed
  have "pm (res l + 8 * tindex 2 (x - window)) = (push_bit 30 ?k + push_bit 21 (tindex 2 (x - window))) OR 0x9b"
    using linear_directory_entry[OF l(3)] unfolding l(4) by simp
  from offset_walk[where res = res, OF e4 _ _ l(2) _ _ this default_flags v idx(4)] pl l(1) low32_bound[OF x]
  show ?thesis by auto
qed

lemma kernel_walk:
  assumes init: "default_pages_init res at kz static_tables = (t, cr3)"
    and mem: "tables_in_memory pm res at t" and placed: "tables_placed res at"
    and kz: "kz AND mask 21 = 0" "unat kz + 2 ^ 31 \<le> 2 ^ 52" and x: "x AND NOT (mask 31) = 0"
  shows "hw_walk 4 pm cr3 (x - 2 ^ 31) True = Some (True, kz + x) \<and> supported 4 pm cr3 (x - 2 ^ 31)"
proof -
  note t = init_tables[OF init]
  note idx = kernel_indices[OF x]
  let ?k = "drop_bit 30 x"
  have pl: "table_base (res l) \<and> low32 (res l)"
    if "l \<in> {at_id0 at, at_id1 at, at_id2 at, at_id3 at, at_hh0 at, at_hh1 at, at_highhalf at, at_toplevel at}" for l
    using placed that by (auto simp: tables_placed_def)
  have hi: "holds pm (res (at_highhalf at)) (highhalf_pml3 t)" and top: "holds pm (res (at_toplevel at)) (toplevel t)"
    using mem by (auto simp: tables_in_memory_def)
  have e4: "pm (cr3 + 8 * tindex 4 (x - 2 ^ 31)) = dir_link res (at_highhalf at)"
    using holds_at[OF top, of 511] t by (simp only: idx) simp
  define off where "off = kz + push_bit 30 ?k"
  have v: "off + push_bit 21 (tindex 2 (x - 2 ^ 31)) = kz + (x AND NOT (mask 21))"
    by (simp only: off_def idx(3) split_address add.assoc)
  obtain l where l: "l \<in> {at_hh0 at, at_hh1 at}"
    "pm (res (at_highhalf at) + 8 * tindex 3 (x - 2 ^ 31)) = dir_link res l"
    "holds pm (res l) (make_linear_large_page_directory off)"
  proof (cases "bit x 30")
    case False
    have "pm (res (at_highhalf at) + 8 * tindex 3 (x - 2 ^ 31)) = dir_link res (at_hh0 at)"
      using holds_at[OF hi, of 510] False unfolding idx(2) t(8) by simp
    moreover have "holds pm (res (at_hh0 at)) (make_linear_large_page_directory off)"
      using mem False unfolding tables_in_memory_def t(14) off_def idx(5) by simp
    ultimately show thesis by (intro that[of "at_hh0 at"]) simp_all
  next
    case True
    have "pm (res (at_highhalf at) + 8 * tindex 3 (x - 2 ^ 31)) = dir_link res (at_hh1 at)"
      using holds_at[OF hi, of 511] True unfolding idx(2) t(9) by simp
    moreover have "holds pm (res (at_hh1 at)) (make_linear_large_page_directory off)"
      using mem True unfolding tables_in_memory_def t(15) off_def idx(5) by simp
    ultimately show thesis by (intro that[of "at_hh1 at"]) simp_all
  qed
  have "unat kz + unat x < 2 ^ 52" using kz(2) low_mask_bound[OF x] by simp
  from offset_walk[where res = res, OF e4 _ _ l(2) _ _ linear_directory_entry[OF l(3)] default_flags v idx(4) kz(1) this]
    pl l(1)
  show ?thesis by auto
qed

lemma resolve_walked:
  assumes "\<And>p. low32 p \<Longrightarrow> lm (p - window) = pm p" "table_base cr3" "low32 cr3"
    and "canonical_check a" "hw_walk 4 pm cr3 a True = Some (rw, p) \<and> supported 4 pm cr3 a"
  shows "resolve_to_phmem lm cr3 a = \<lparr>status = OK, isRW = rw, resolved = p\<rparr>"
  using resolve_refines_hw[where lm = lm and pm = pm, OF assms(1-4)] assms(5) by simp

lemma canonical_windows:
  "low32 x \<Longrightarrow> canonical_check (x - window)"
  "x AND NOT (mask 31) = 0 \<Longrightarrow> canonical_check (x - 2 ^ 31)"
proof -
  have sint: "sint y = uint y - 2 ^ 64" if "bit y 63" for y :: u64
  proof -
    have "take_bit 64 (uint y) = uint y" using uint_lt2p[of y] by (simp add: take_bit_int_eq_self)
    moreover have "bit (uint y) 63" using that by (simp add: bit_uint_iff)
    ultimately show ?thesis by (simp add: sint_uint signed_take_bit_eq_take_bit_minus)
  qed
  have neg: "canonical_check (y OR NOT (mask n))" if n: "n \<le> 39" for y :: u64 and n
  proof -
    let ?w = "y OR NOT (mask n) :: u64"
    have "bit ?w 63" using n by (auto simp: bit_simps)
    have "NOT (mask 39) OR ?w = ?w"
      by (rule bit_word_eqI) (use n in \<open>auto simp: bit_simps\<close>)
    then have "NOT (mask 39) \<le> ?w" by (metis word_or_not le_word_or2 or.commute)
    then have "uint (NOT (mask 39) :: u64) \<le> uint ?w" by (simp add: word_le_def)
    moreover have "uint (NOT (mask 39) :: u64) = 2 ^ 64 - 2 ^ 39" by (simp add: mask_eq_exp_minus_1)
    moreover have "uint ?w < 2 ^ 64" using uint_lt2p[of ?w] by simp
    ultimately show ?thesis using sint[OF \<open>bit ?w 63\<close>] by (simp add: canonical_check_def)
  qed
  show "canonical_check (x - window)" if "low32 x"
  proof -
    have "x AND NOT (mask 39) = 0"
      by (rule bit_word_eqI) (use low_bit that in \<open>fastforce simp: bit_simps low32_def\<close>)
    from minus_exp_or[OF this] neg[of 39 x] show ?thesis by (simp add: window_def)
  qed
  show "canonical_check (x - 2 ^ 31)" if "x AND NOT (mask 31) = 0"
    using minus_exp_or[OF that] neg[of 31 x] by simp
qed

text \<open>A memory that holds given tables at given page addresses, for concrete instances.\<close>

definition memory_with :: "(u64 \<times> u64 list) list \<Rightarrow> u64 \<Rightarrow> u64" where
  "memory_with tabs p = (case map_of tabs (p AND NOT (mask 12)) of
      None \<Rightarrow> 0 | Some tab \<Rightarrow> tab ! unat (drop_bit 3 (p AND mask 12)))"

lemma memory_with_holds:
  assumes "map_of tabs base = Some tab" "table_base base"
  shows "holds (memory_with tabs) base tab"
  unfolding holds_def
proof (intro allI impI)
  fix i :: nat assume i: "i < 512"
  let ?i = "of_nat i :: u64"
  have "unat ?i = i" using i by (simp add: unat_of_nat)
  then have "?i < 2 ^ 9" using i by (simp add: word_less_nat_alt)
  then have "?i AND mask 9 = ?i" by (rule less_mask_eq)
  then have bi: "bit ?i k \<Longrightarrow> k < 9" for k by (metis bit_and_iff bit_mask_iff)
  have e: "8 * ?i = push_bit 3 ?i" by (simp add: push_bit_eq_mult)
  have o: "base + 8 * ?i = base OR push_bit 3 ?i" unfolding e
    by (rule disjunctive_add) (use table_base_bit[OF assms(2)] bi in \<open>fastforce simp: bit_simps\<close>)
  have "(base OR push_bit 3 ?i) AND NOT (mask 12) = base"
    by (rule bit_word_eqI) (use table_base_bit[OF assms(2)] bi in \<open>fastforce simp: bit_simps\<close>)
  moreover have "drop_bit 3 ((base OR push_bit 3 ?i) AND mask 12) = ?i"
    by (rule bit_word_eqI) (use table_base_bit[OF assms(2)] bi in \<open>fastforce simp: bit_simps\<close>)
  ultimately show "memory_with tabs (base + 8 * ?i) = tab ! i"
    using assms(1) \<open>unat ?i = i\<close> unfolding o memory_with_def by simp
qed

section \<open>Properties\<close>

text \<open>
  C6: \<^verbatim>\<open>resolve_to_phmem\<close> computes the processor's translation. If the window shows the
  first four gigabytes of physical memory, and the tables on the way lie there, use no page
  of 1 GiB and align their large pages, then the status, the physical address and the
  writability are those of the architecture's four-level walk; an unmapped address is
  reported as such.
\<close>

theorem resolve_to_phmem_refines_mmu:
  assumes "\<And>p. low32 p \<Longrightarrow> lm (p - window) = pm p"
    and "table_base cr3" "low32 cr3" "canonical_check a" "supported 4 pm cr3 a"
  shows "(case hw_walk 4 pm cr3 a True of
      None \<Rightarrow> status (resolve_to_phmem lm cr3 a) = NOT_MAPPED \<and> resolved (resolve_to_phmem lm cr3 a) = - 1
    | Some (rw, p) \<Rightarrow> resolve_to_phmem lm cr3 a = \<lparr>status = OK, isRW = rw, resolved = p\<rparr>)"
  by (rule resolve_refines_hw[OF assms])

definition example_memory :: "u64 \<Rightarrow> u64" where
  "example_memory = memory_with
    [(0x1000, (replicate 512 0)[1 := 0x2003]), (0x2000, (replicate 512 0)[2 := 0x3001]),
     (0x3000, (replicate 512 0)[3 := 0x4003]), (0x4000, (replicate 512 0)[4 := 0xabcde003])]"

lemma resolve_to_phmem_refines_mmu_witness:
  "resolve_to_phmem (\<lambda>l. example_memory (l + window)) 0x1000 0x8080604123 =
    \<lparr>status = OK, isRW = False, resolved = 0xabcde123\<rparr>"
proof -
  have n: "4 = Suc (Suc (Suc (Suc 0)))" by simp
  have e: "example_memory (0x1000 + 8 * tindex (Suc (Suc (Suc (Suc 0)))) 0x8080604123) = 0x2003"
    "example_memory (0x2000 + 8 * tindex (Suc (Suc (Suc 0))) 0x8080604123) = 0x3001"
    "example_memory (0x3000 + 8 * tindex (Suc (Suc 0)) 0x8080604123) = 0x4003"
    "example_memory (0x4000 + 8 * tindex (Suc 0) 0x8080604123) = 0xabcde003"
    by (simp_all add: example_memory_def memory_with_def tindex_def mask_eq_exp_minus_1 nth_list_update)
  have m: "0x2003 AND address_mask = 0x2000" "0x3001 AND address_mask = 0x3000"
    "0x4003 AND address_mask = 0x4000" "0xabcde003 AND address_mask = 0xabcde000"
    by (simp_all add: address_mask_def)
  have sup: "supported 4 example_memory 0x1000 0x8080604123"
    and walk: "hw_walk 4 example_memory 0x1000 0x8080604123 True = Some (False, 0xabcde123)"
    unfolding n supported.simps hw_walk.simps e Let_def m
    by (simp_all add: is_P_def is_RW_def is_PS_def low32_def page_bits_def mask_eq_exp_minus_1 m address_mask_def)
  have "table_base 0x1000" "low32 0x1000" "canonical_check 0x8080604123"
    by (simp_all add: table_base_def low32_def address_mask_def mask_eq_exp_minus_1 canonical_check_def)
  from resolve_to_phmem_refines_mmu[where lm = "\<lambda>l. example_memory (l + window)", OF _ this sup]
  show ?thesis by (simp add: walk)
qed

text \<open>
  C7: under the page tables that \<^verbatim>\<open>default_pages_init\<close> builds, the processor maps the window
  at -512 GiB to the first four gigabytes of physical memory and the kernel half at -2 GiB to
  \<^verbatim>\<open>kernel_zero\<close> and up, all writable; nothing outside the top 512 GiB is mapped (a null
  dereference faults); and the kernel's own \<^verbatim>\<open>resolve_to_phmem\<close>, which reads the tables
  through that window, agrees.
\<close>

theorem default_pages_windows:
  assumes init: "default_pages_init res at kz static_tables = (t, cr3)"
    and mem: "tables_in_memory pm res at t" and placed: "tables_placed res at"
    and kz: "kz AND mask 21 = 0" "unat kz + 2 ^ 31 \<le> 2 ^ 52"
    and view: "\<And>p. low32 p \<Longrightarrow> lm (p - window) = pm p"
  shows "(low32 x \<longrightarrow> hw_walk 4 pm cr3 (x - window) True = Some (True, x) \<and>
      resolve_to_phmem lm cr3 (x - window) = \<lparr>status = OK, isRW = True, resolved = x\<rparr>) \<and>
    (x AND NOT (mask 31) = 0 \<longrightarrow> hw_walk 4 pm cr3 (x - 2 ^ 31) True = Some (True, kz + x) \<and>
      resolve_to_phmem lm cr3 (x - 2 ^ 31) = \<lparr>status = OK, isRW = True, resolved = kz + x\<rparr>) \<and>
    (tindex 4 x \<noteq> 511 \<longrightarrow> hw_walk 4 pm cr3 x True = None)"
proof (intro conjI impI)
  have cr3: "table_base cr3" "low32 cr3"
    using placed init_tables(1)[OF init] by (simp_all add: tables_placed_def)
  note resolve = resolve_walked[where lm = lm and pm = pm, OF view cr3]
  show "hw_walk 4 pm cr3 (x - window) True = Some (True, x)"
    "resolve_to_phmem lm cr3 (x - window) = \<lparr>status = OK, isRW = True, resolved = x\<rparr>" if x: "low32 x"
    using window_walk[OF init mem placed x] resolve[OF _ canonical_windows(1)[OF x]] by blast+
  show "hw_walk 4 pm cr3 (x - 2 ^ 31) True = Some (True, kz + x)"
    "resolve_to_phmem lm cr3 (x - 2 ^ 31) = \<lparr>status = OK, isRW = True, resolved = kz + x\<rparr>"
    if x: "x AND NOT (mask 31) = 0"
    using kernel_walk[OF init mem placed kz x] resolve[OF _ canonical_windows(2)[OF x]] by blast+
  show "hw_walk 4 pm cr3 x True = None" if x: "tindex 4 x \<noteq> 511"
  proof -
    have four: "4 = Suc (Suc (Suc (Suc 0)))" by simp
    have "unat (tindex 4 x) < 511"
      using tindex_less[of 4 x] x by (simp add: word_less_nat_alt word_unat_eq_iff)
    then have "pm (cr3 + 8 * tindex 4 x) = 0"
      using mem holds_entry[of pm "res (at_toplevel at)" "toplevel t" 4 x] init_tables(1,3)[OF init]
      by (simp add: tables_in_memory_def)
    then have "pm (cr3 + 8 * tindex (Suc (Suc (Suc (Suc 0)))) x) = 0" by (simp add: numeral_eq_Suc)
    then show ?thesis unfolding four hw_walk.simps by (simp add: Let_def is_P_def)
  qed
qed

lemma default_pages_windows_witness:
  "\<exists>pm cr3. hw_walk 4 pm cr3 (0xfee00010 - window) True = Some (True, 0xfee00010)"
proof -
  let ?at = "\<lparr>at_id0 = 0x1000, at_id1 = 0x2000, at_id2 = 0x3000, at_id3 = 0x4000,
    at_hh0 = 0x5000, at_hh1 = 0x6000, at_highhalf = 0x7000, at_toplevel = 0x8000\<rparr> :: table_addrs"
  obtain t cr3 where init: "default_pages_init id ?at 0x200000 static_tables = (t, cr3)" by fastforce
  let ?pm = "memory_with [(0x1000, id_dir0 t), (0x2000, id_dir1 t), (0x3000, id_dir2 t), (0x4000, id_dir3 t),
    (0x5000, hh_dir0 t), (0x6000, hh_dir1 t), (0x7000, highhalf_pml3 t), (0x8000, toplevel t)]"
  have b: "table_base 0x1000" "table_base 0x2000" "table_base 0x3000" "table_base 0x4000"
    "table_base 0x5000" "table_base 0x6000" "table_base 0x7000" "table_base 0x8000"
    by (simp_all add: table_base_def address_mask_def)
  have "tables_in_memory ?pm id ?at t"
    unfolding tables_in_memory_def by (intro conjI; rule memory_with_holds) (simp_all add: b)
  moreover have "tables_placed id ?at"
    by (simp add: tables_placed_def b low32_def mask_eq_exp_minus_1)
  moreover have "low32 0xfee00010" by (simp add: low32_def mask_eq_exp_minus_1)
  ultimately show ?thesis
    using default_pages_windows[OF init, where lm = "\<lambda>l. ?pm (l + window)" and x = "0xfee00010"]
    by (auto simp: mask_eq_exp_minus_1)
qed

end
