(* ===== verification/Heap.thy ===== *)
theory Heap
  imports Prelude
begin

text \<open>
  The kernel's \<^verbatim>\<open>operator new\<close> and \<^verbatim>\<open>operator delete\<close>, kstdlib/new.cc. A \<^verbatim>\<open>_smallpage\<close> has 502
  slots of eight bytes and a bitmap of 512 bits (set: slot used; bit 511: end of a large
  allocation). Pages are threaded on 503 doubly linked lists: \<^verbatim>\<open>_head.entry[k]\<close> starts the
  list of the pages whose longest run of free slots is \<open>k\<close>. Pointers are addresses, 0 is
  \<^verbatim>\<open>nullptr\<close>.
\<close>

record smallpage =
  bitmap :: "u64 list"
  nxt :: nat
  prv :: nat

record heap =
  pages :: "nat \<Rightarrow> smallpage option"
  entry :: "nat list"

section \<open>Bitmaps\<close>

definition used :: "u64 list \<Rightarrow> nat \<Rightarrow> bool" where
  "used bm k \<longleftrightarrow> (drop_bit (k mod 64) (bm ! (k div 64))) AND 1 \<noteq> 0"

definition set_used :: "u64 list \<Rightarrow> nat \<Rightarrow> u64 list" where
  "set_used bm k = bm[k div 64 := bm ! (k div 64) OR push_bit (k mod 64) 1]"

definition set_clear :: "u64 list \<Rightarrow> nat \<Rightarrow> u64 list" where
  "set_clear bm k = bm[k div 64 := bm ! (k div 64) AND NOT (push_bit (k mod 64) 1)]"

text \<open>The inner loops: free slots from \<open>pos\<close> on, at most \<open>n\<close> of them.\<close>

fun free_run :: "u64 list \<Rightarrow> nat \<Rightarrow> nat \<Rightarrow> nat" where
  "free_run bm pos 0 = 0"
| "free_run bm pos (Suc n) = (if pos < 502 \<and> \<not> used bm pos then Suc (free_run bm (Suc pos) n) else 0)"

function aperture_loop :: "u64 list \<Rightarrow> nat \<Rightarrow> nat \<Rightarrow> nat" where
  "aperture_loop bm slotlen offset =
    (if offset < 502 then
       (let j = free_run bm offset slotlen in
        if j = slotlen then offset else aperture_loop bm slotlen (offset + j + 1))
     else offset)"
  by pat_completeness auto
termination by (relation "measure (\<lambda>(bm, slotlen, offset). 502 - offset)") auto

definition find_aperture :: "nat \<Rightarrow> smallpage \<Rightarrow> nat" where
  "find_aperture slotlen pg =
    (let offset = aperture_loop (bitmap pg) slotlen 0
     in if offset + slotlen \<le> 502 then offset else 503)"

function apertsize_loop :: "u64 list \<Rightarrow> nat \<Rightarrow> nat \<Rightarrow> nat" where
  "apertsize_loop bm maxsize offset =
    (if offset < 502 then
       (let j = free_run bm offset (502 - offset);
            maxsize = (if j > maxsize then j else maxsize)
        in apertsize_loop bm maxsize (offset + j + 1))
     else maxsize)"
  by pat_completeness auto
termination by (relation "measure (\<lambda>(bm, maxsize, offset). 502 - offset)") auto

definition find_max_apertsize :: "smallpage \<Rightarrow> nat" where
  "find_max_apertsize pg = apertsize_loop (bitmap pg) 0 0"

declare aperture_loop.simps [simp del] apertsize_loop.simps [simp del]

section \<open>\<^verbatim>\<open>operator new\<close>\<close>

definition slot_count :: "nat \<Rightarrow> nat" where
  "slot_count len = (len + 7) div 8"

definition page_count :: "nat \<Rightarrow> nat" where
  "page_count len = (len + 16 + 64 + 4095) div 4096"

definition last_slots :: "nat \<Rightarrow> nat" where
  "last_slots len = (len mod 4096 + 7) div 8"

text \<open>The loop \<^verbatim>\<open>for(unsigned i = slotlen; i < 503; ++i)\<close>: the first list that has a page.\<close>

definition first_list :: "nat \<Rightarrow> heap \<Rightarrow> nat option" where
  "first_list slotlen h = find (\<lambda>i. entry h ! i \<noteq> 0) [slotlen..<503]"

definition upd_page :: "nat \<Rightarrow> (smallpage \<Rightarrow> smallpage) \<Rightarrow> heap \<Rightarrow> heap" where
  "upd_page a f h = h\<lparr>pages := (pages h)(a := map_option f (pages h a))\<rparr>"

text \<open>Linking a page at the front of a list.\<close>

definition link_page :: "nat \<Rightarrow> nat \<Rightarrow> heap \<Rightarrow> heap" where
  "link_page a k h =
    (let h = (if entry h ! k \<noteq> 0 then upd_page (entry h ! k) (\<lambda>pg. pg\<lparr>prv := a\<rparr>) h else h);
         h = upd_page a (\<lambda>pg. pg\<lparr>nxt := entry h ! k, prv := 0\<rparr>) h
     in h\<lparr>entry := (entry h)[k := a]\<rparr>)"

text \<open>
  The branch that serves the request from the page at the front of list \<open>i\<close>. \<open>Fault\<close> stands for
  a failed \<^verbatim>\<open>assert\<close> or a dereference of an address that is no page.
\<close>

definition new_from_page :: "nat \<Rightarrow> nat \<Rightarrow> heap \<Rightarrow> nat outcome \<times> heap" where
  "new_from_page slotlen i h =
    (let a = entry h ! i in
     case pages h a of
       None \<Rightarrow> (Fault ''dereference'', h)
     | Some pg \<Rightarrow>
       (let offset = find_aperture slotlen pg in
        if offset = 503 then (Fault ''[new] Aperture promised but not found'', h)
        else if list_ex (\<lambda>j. used (bitmap pg) (offset + j)) [0..<slotlen]
        then (Fault ''[new] overwriting alloc'', h)
        else
          (let bm = fold (\<lambda>j bm. set_used bm (offset + j)) [0..<slotlen] (bitmap pg);
               h = upd_page a (\<lambda>pg. pg\<lparr>bitmap := bm\<rparr>) h;
               new_maxapert = find_max_apertsize (pg\<lparr>bitmap := bm\<rparr>);
               h = (if nxt pg \<noteq> 0 then upd_page (nxt pg) (\<lambda>pg. pg\<lparr>prv := 0\<rparr>) h else h);
               h = h\<lparr>entry := (entry h)[i := nxt pg]\<rparr>
           in (Ret (a + 8 * offset), link_page a new_maxapert h))))"

text \<open>
  The branch that maps new pages: \<open>mapped\<close> is the result of \<^verbatim>\<open>kmmap(NULL, numpage*4096)\<close> and
  \<open>junk\<close> what its last page holds where the header is going to be; \<^verbatim>\<open>kmmap\<close> does not clear it.
\<close>

definition new_from_kernel :: "nat outcome \<Rightarrow> smallpage \<Rightarrow> nat \<Rightarrow> heap \<Rightarrow> nat outcome \<times> heap" where
  "new_from_kernel mapped junk len h =
    (case mapped of
       Ret p \<Rightarrow>
         (let numpage = page_count len;
              a = p + 4096 * (numpage - 1);
              num_lastpg = last_slots len;
              bm = fold (\<lambda>i bm. set_used bm i) [0..<num_lastpg] (bitmap junk);
              bm = fold (\<lambda>i bm. set_clear bm i) [num_lastpg..<502] bm;
              bm = (if numpage > 1 then set_used bm 511 else bm)
          in if num_lastpg > 502 then (Fault ''_head.entry out of bounds'', h)
             else (Ret p, link_page a (502 - num_lastpg)
               (h\<lparr>pages := (pages h)(a \<mapsto> junk\<lparr>bitmap := bm\<rparr>)\<rparr>)))
     | e \<Rightarrow> (e, h))"

definition operator_new :: "nat outcome \<Rightarrow> smallpage \<Rightarrow> nat \<Rightarrow> heap \<Rightarrow> nat outcome \<times> heap" where
  "operator_new mapped junk len h =
    (case first_list (slot_count len) h of
       Some i \<Rightarrow> new_from_page (slot_count len) i h
     | None \<Rightarrow> new_from_kernel mapped junk len h)"

section \<open>\<^verbatim>\<open>operator delete\<close>\<close>

text \<open>
  Clearing bits, with the test for a double delete before each; the calls to \<^verbatim>\<open>kmunmap\<close> are
  returned as a list of ranges.
\<close>

fun clear_slots :: "nat list \<Rightarrow> u64 list \<Rightarrow> u64 list option" where
  "clear_slots [] bm = Some bm"
| "clear_slots (i # is') bm = (if used bm i then clear_slots is' (set_clear bm i) else None)"

definition unlink_page :: "nat \<Rightarrow> nat \<Rightarrow> heap \<Rightarrow> heap" where
  "unlink_page a prev_conseq h =
    (case pages h a of
       None \<Rightarrow> h
     | Some pg \<Rightarrow>
         if prv pg = 0 then
           (let h = (if nxt pg \<noteq> 0 then upd_page (nxt pg) (\<lambda>q. q\<lparr>prv := 0\<rparr>) h else h)
            in h\<lparr>entry := (entry h)[prev_conseq := nxt pg]\<rparr>)
         else
           (let h = (if nxt pg \<noteq> 0 then upd_page (nxt pg) (\<lambda>q. q\<lparr>prv := prv pg\<rparr>) h else h)
            in upd_page (prv pg) (\<lambda>q. q\<lparr>nxt := nxt pg\<rparr>) h))"

definition operator_delete :: "nat \<Rightarrow> nat \<Rightarrow> heap \<Rightarrow> unit outcome \<times> heap \<times> (nat \<times> nat) list" where
  "operator_delete ptr len h =
    (if len = 0 \<or> ptr = 0 then (Ret (), h, [])
     else
       let numpage = page_count len;
           big = (ptr mod 4096 = 0);
           a = (if big then ptr + 4096 * (numpage - 1) else ptr - ptr mod 4096);
           unmaps = (if big \<and> numpage > 1 then [(ptr, (numpage - 1) * 4096)] else []);
           slots = (if big then [0..<last_slots len]
             else [ptr mod 4096 div 8..<ptr mod 4096 div 8 + slot_count len])
       in case pages h a of
            None \<Rightarrow> (Fault ''dereference'', h, unmaps)
          | Some pg \<Rightarrow>
            if list_ex (\<lambda>i. i \<ge> 512) slots then (Fault ''bitmap out of bounds'', h, unmaps)
            else
            (case clear_slots slots (bitmap pg) of
               None \<Rightarrow> (Fault ''double delete ?'', h, unmaps)
             | Some bm \<Rightarrow>
               (let bm = (if big \<and> numpage > 1 then set_clear bm 511 else bm);
                    h = upd_page a (\<lambda>q. q\<lparr>bitmap := bm\<rparr>) h;
                    h = unlink_page a (find_max_apertsize pg) h;
                    curr_conseq = find_max_apertsize (pg\<lparr>bitmap := bm\<rparr>)
                in if list_ex (\<lambda>i. bm ! i \<noteq> 0) [0..<8]
                   then (Ret (), link_page a curr_conseq h, unmaps)
                   else (Ret (), h\<lparr>pages := (pages h)(a := None)\<rparr>, unmaps @ [(a, 4096)]))))"

text \<open>The array forms keep the length in the word before the array.\<close>

type_synonym words = "nat \<Rightarrow> nat"

definition operator_new_array :: "nat outcome \<Rightarrow> smallpage \<Rightarrow> nat \<Rightarrow> words \<times> heap \<Rightarrow> nat outcome \<times> words \<times> heap" where
  "operator_new_array mapped junk len m =
    (case operator_new mapped junk (wrap64 (len + 8)) (snd m) of
       (Ret p, h) \<Rightarrow> (Ret (p + 8), (fst m)(p := len), h)
     | (r, h) \<Rightarrow> (r, fst m, h))"

definition operator_delete_array :: "nat \<Rightarrow> words \<times> heap \<Rightarrow> unit outcome \<times> (words \<times> heap) \<times> (nat \<times> nat) list" where
  "operator_delete_array ptr m =
    (if ptr = 0 then (Ret (), m, [])
     else let s = fst m (sub64 ptr 8) in
       case operator_delete (sub64 ptr 8) (wrap64 (s + 8)) (snd m) of (r, h, unmaps) \<Rightarrow> (r, (fst m, h), unmaps))"

text \<open>\<^verbatim>\<open>malloc\<close> and \<^verbatim>\<open>free\<close> of kstdlib/cstdlib.cc, on arrays of characters.\<close>

definition malloc :: "nat outcome \<Rightarrow> smallpage \<Rightarrow> nat \<Rightarrow> words \<times> heap \<Rightarrow> nat outcome \<times> words \<times> heap" where
  "malloc mapped junk size' = operator_new_array mapped junk size'"

definition malloc_free :: "nat \<Rightarrow> words \<times> heap \<Rightarrow> unit outcome \<times> (words \<times> heap) \<times> (nat \<times> nat) list" where
  "malloc_free ptr = operator_delete_array ptr"

section \<open>Bits\<close>

lemma used_bit: "used bm k \<longleftrightarrow> bit (bm ! (k div 64)) (k mod 64)"
  by (simp add: used_def)

lemma slot_eq: "(j :: nat) = k \<longleftrightarrow> j div 64 = k div 64 \<and> j mod 64 = k mod 64"
  by (metis div_mult_mod_eq)

lemma word_index: "k < 512 \<Longrightarrow> k div 64 < (8 :: nat)"
  by (simp add: div_less_iff_less_mult)

lemma used_set_used:
  assumes "length bm = 8" "k < 512" "j < 512"
  shows "used (set_used bm k) j \<longleftrightarrow> j = k \<or> used bm j"
proof (cases "j div 64 = k div 64")
  case True
  then have "used (set_used bm k) j \<longleftrightarrow> bit (bm ! (k div 64) OR push_bit (k mod 64) 1) (j mod 64)"
    using assms word_index[OF assms(2)] by (simp add: used_bit set_used_def)
  also have "\<dots> \<longleftrightarrow> bit (bm ! (k div 64)) (j mod 64) \<or> (j mod 64 = k mod 64 \<and> j mod 64 < 64)"
    by (rule bit_set_u64)
  also have "\<dots> \<longleftrightarrow> j = k \<or> used bm j" using True slot_eq[of j k] by (auto simp: used_bit)
  finally show ?thesis .
next
  case False
  then show ?thesis by (auto simp: used_bit set_used_def)
qed

lemma used_set_clear:
  assumes "length bm = 8" "k < 512" "j < 512"
  shows "used (set_clear bm k) j \<longleftrightarrow> j \<noteq> k \<and> used bm j"
proof (cases "j div 64 = k div 64")
  case True
  then have "used (set_clear bm k) j \<longleftrightarrow> bit (bm ! (k div 64) AND NOT (push_bit (k mod 64) 1)) (j mod 64)"
    using assms word_index[OF assms(2)] by (simp add: used_bit set_clear_def)
  also have "\<dots> \<longleftrightarrow> bit (bm ! (k div 64)) (j mod 64) \<and> j mod 64 \<noteq> k mod 64"
    by (rule bit_clear_u64)
  also have "\<dots> \<longleftrightarrow> j \<noteq> k \<and> used bm j" using True slot_eq[of j k] by (auto simp: used_bit)
  finally show ?thesis .
next
  case False
  then show ?thesis by (auto simp: used_bit set_clear_def)
qed

lemma length_set_used [simp]: "length (set_used bm k) = length bm" "length (set_clear bm k) = length bm"
  by (simp_all add: set_used_def set_clear_def)

lemma fold_set_used:
  assumes "length bm = 8" "\<forall>k \<in> set ks. f k < 512"
  shows "length (fold (\<lambda>k bm. set_used bm (f k)) ks bm) = 8 \<and>
    (\<forall>j < 512. used (fold (\<lambda>k bm. set_used bm (f k)) ks bm) j \<longleftrightarrow> j \<in> f ` set ks \<or> used bm j)"
  using assms by (induction ks arbitrary: bm) (auto simp: used_set_used)

lemma fold_set_clear:
  assumes "length bm = 8" "\<forall>k \<in> set ks. k < 512"
  shows "length (fold (\<lambda>k bm. set_clear bm k) ks bm) = 8 \<and>
    (\<forall>j < 512. used (fold (\<lambda>k bm. set_clear bm k) ks bm) j \<longleftrightarrow> j \<notin> set ks \<and> used bm j)"
  using assms by (induction ks arbitrary: bm) (auto simp: used_set_clear)

lemma clear_slots_spec:
  assumes "length bm = 8" "\<forall>k \<in> set ks. k < 512" "distinct ks" "clear_slots ks bm = Some bm'"
  shows "length bm' = 8 \<and> (\<forall>k \<in> set ks. used bm k) \<and> (\<forall>j < 512. used bm' j \<longleftrightarrow> j \<notin> set ks \<and> used bm j)"
  using assms
proof (induction ks arbitrary: bm)
  case (Cons a ks)
  then have a: "a < 512" "used bm a" and run: "clear_slots ks (set_clear bm a) = Some bm'"
    by (auto split: if_splits)
  have u: "used (set_clear bm a) j \<longleftrightarrow> j \<noteq> a \<and> used bm j" if "j < 512" for j
    using used_set_clear[OF Cons.prems(1) a(1) that] .
  have "length (set_clear bm a) = 8" using Cons.prems(1) by simp
  from Cons.IH[OF this _ _ run] Cons.prems(2,3) have IH: "length bm' = 8"
    "\<forall>k \<in> set ks. used (set_clear bm a) k"
    "\<forall>j < 512. used bm' j \<longleftrightarrow> j \<notin> set ks \<and> used (set_clear bm a) j" by auto
  then show ?case using u a Cons.prems(2) by auto
qed simp

lemma clear_slots_Some:
  assumes "length bm = 8" "\<forall>k \<in> set ks. k < 512" "distinct ks" "\<forall>k \<in> set ks. used bm k"
  shows "\<exists>bm'. clear_slots ks bm = Some bm'"
  using assms
proof (induction ks arbitrary: bm)
  case (Cons a ks)
  have "\<forall>k \<in> set ks. used (set_clear bm a) k"
    using Cons.prems used_set_clear[OF Cons.prems(1), of a] by (metis distinct.simps(2) list.set_intros)
  with Cons.IH[of "set_clear bm a"] Cons.prems show ?case by simp
qed simp

section \<open>Searching\<close>

text \<open>\<open>n\<close> consecutive free slots from \<open>pos\<close> on, inside the page.\<close>

definition free_block :: "u64 list \<Rightarrow> nat \<Rightarrow> nat \<Rightarrow> bool" where
  "free_block bm pos n \<longleftrightarrow> pos + n \<le> 502 \<and> (\<forall>i < n. \<not> used bm (pos + i))"

lemma free_run_spec:
  "free_run bm pos n \<le> n \<and> (pos \<le> 502 \<longrightarrow> free_block bm pos (free_run bm pos n)) \<and>
    (free_run bm pos n < n \<longrightarrow> 502 \<le> pos + free_run bm pos n \<or> used bm (pos + free_run bm pos n))"
proof (induction bm pos n rule: free_run.induct)
  case (2 bm pos n)
  show ?case
  proof (cases "pos < 502 \<and> \<not> used bm pos")
    case True
    with 2 have IH: "free_run bm (Suc pos) n \<le> n" "free_block bm (Suc pos) (free_run bm (Suc pos) n)"
      "free_run bm (Suc pos) n < n \<longrightarrow> 502 \<le> Suc pos + free_run bm (Suc pos) n \<or> used bm (Suc pos + free_run bm (Suc pos) n)"
      by auto
    have "free_block bm pos (Suc (free_run bm (Suc pos) n))"
      using IH(2) True by (auto simp: free_block_def less_Suc_eq_0_disj)
    with IH True show ?thesis by simp
  next
    case False
    then show ?thesis by (auto simp: free_block_def)
  qed
qed (simp add: free_block_def)

lemma blocked_start:
  assumes "502 \<le> pos + j \<or> used bm (pos + j)" "pos \<le> s" "s \<le> pos + j" "pos + j < s + n"
  shows "\<not> free_block bm s n"
proof
  assume f: "free_block bm s n"
  then have "s + n \<le> 502" and free: "\<And>i. i < n \<Longrightarrow> \<not> used bm (s + i)" by (auto simp: free_block_def)
  with assms(4) have "pos + j < 502" by linarith
  with assms(1) have "used bm (pos + j)" by auto
  moreover have "\<not> used bm (s + (pos + j - s))" using free assms(3,4) by (intro free) linarith
  ultimately show False using assms(3) by simp
qed

lemma aperture_loop_spec:
  assumes "offset \<le> 503"
  shows "offset \<le> aperture_loop bm slotlen offset \<and> aperture_loop bm slotlen offset \<le> 503 \<and>
    (aperture_loop bm slotlen offset < 502 \<longrightarrow> free_block bm (aperture_loop bm slotlen offset) slotlen) \<and>
    (\<forall>s. offset \<le> s \<longrightarrow> s < aperture_loop bm slotlen offset \<longrightarrow> s < 502 \<longrightarrow> \<not> free_block bm s slotlen)"
  using assms
proof (induction bm slotlen offset rule: aperture_loop.induct)
  case (1 bm slotlen offset)
  let ?j = "free_run bm offset slotlen"
  note run = free_run_spec[of bm offset slotlen]
  show ?case
  proof (cases "offset < 502 \<and> ?j \<noteq> slotlen")
    case True
    with run have lt: "?j < slotlen" and stop: "502 \<le> offset + ?j \<or> used bm (offset + ?j)"
      and fb: "offset + ?j \<le> 502" by (auto simp: free_block_def)
    have eq: "aperture_loop bm slotlen offset = aperture_loop bm slotlen (offset + ?j + 1)"
      using True by (subst aperture_loop.simps) (simp add: Let_def)
    have IH: "offset + ?j + 1 \<le> aperture_loop bm slotlen (offset + ?j + 1) \<and>
        aperture_loop bm slotlen (offset + ?j + 1) \<le> 503 \<and>
        (aperture_loop bm slotlen (offset + ?j + 1) < 502 \<longrightarrow>
          free_block bm (aperture_loop bm slotlen (offset + ?j + 1)) slotlen) \<and>
        (\<forall>s. offset + ?j + 1 \<le> s \<longrightarrow> s < aperture_loop bm slotlen (offset + ?j + 1) \<longrightarrow> s < 502 \<longrightarrow>
          \<not> free_block bm s slotlen)"
      using 1(1)[of ?j] True fb by simp
    have "\<not> free_block bm s slotlen" if "offset \<le> s" "s \<le> offset + ?j" for s
      by (rule blocked_start[OF stop that]) (use lt that in linarith)
    then show ?thesis unfolding eq using IH by (metis Suc_eq_plus1 le_trans not_less_eq_eq le_add1 le_SucI)
  next
    case False
    then have "aperture_loop bm slotlen offset = offset"
      by (subst aperture_loop.simps) (auto simp: Let_def)
    with False run 1(2) show ?thesis by auto
  qed
qed

lemma find_aperture_spec:
  assumes "0 < n"
  shows "(find_aperture n pg = 503 \<and> (\<forall>s. \<not> free_block (bitmap pg) s n)) \<or>
    (find_aperture n pg < 502 \<and> free_block (bitmap pg) (find_aperture n pg) n \<and>
     (\<forall>s < find_aperture n pg. \<not> free_block (bitmap pg) s n))"
proof -
  let ?o = "aperture_loop (bitmap pg) n 0"
  note L = aperture_loop_spec[of 0 "bitmap pg" n]
  have s502: "s < 502" if "free_block (bitmap pg) s n" for s
    using that assms by (simp add: free_block_def)
  show ?thesis
  proof (cases "?o < 502")
    case True
    with L have "free_block (bitmap pg) ?o n" by simp
    then have "find_aperture n pg = ?o" by (simp add: find_aperture_def free_block_def)
    with L True s502 show ?thesis by auto
  next
    case False
    then have "find_aperture n pg = 503" using assms by (simp add: find_aperture_def Let_def)
    with L False s502 show ?thesis by fastforce
  qed
qed

lemma apertsize_loop_spec:
  assumes "offset \<le> 503"
  shows "m \<le> apertsize_loop bm m offset \<and>
    (apertsize_loop bm m offset = m \<or> (\<exists>s. free_block bm s (apertsize_loop bm m offset))) \<and>
    (\<forall>s n. offset \<le> s \<longrightarrow> 0 < n \<longrightarrow> free_block bm s n \<longrightarrow> n \<le> apertsize_loop bm m offset)"
  using assms
proof (induction bm m offset rule: apertsize_loop.induct)
  case (1 bm m offset)
  let ?j = "free_run bm offset (502 - offset)"
  let ?m = "if ?j > m then ?j else m"
  note run = free_run_spec[of bm offset "502 - offset"]
  show ?case
  proof (cases "offset < 502")
    case True
    with run have fb: "free_block bm offset ?j" and le: "?j \<le> 502 - offset"
      and stop: "502 \<le> offset + ?j \<or> used bm (offset + ?j)" by auto
    have eq: "apertsize_loop bm m offset = apertsize_loop bm ?m (offset + ?j + 1)"
      using True by (subst apertsize_loop.simps) (simp add: Let_def)
    have o: "offset + ?j + 1 \<le> 503" using le True by linarith
    note IH = 1(1)[OF True refl refl o]
    have short: "n \<le> ?m" if "offset \<le> s" "s \<le> offset + ?j" "free_block bm s n" for s n
    proof (rule ccontr)
      assume "\<not> n \<le> ?m"
      then have "offset + ?j < s + n" using that by (auto split: if_splits)
      from blocked_start[OF stop that(1,2) this] that(3) show False by blast
    qed
    have "n \<le> apertsize_loop bm ?m (offset + ?j + 1)" if "offset \<le> s" "0 < n" "free_block bm s n" for s n
    proof (cases "s \<le> offset + ?j")
      case True
      from short[OF that(1) True that(3)] IH show ?thesis by linarith
    next
      case False
      then have "offset + ?j + 1 \<le> s" by simp
      with IH that show ?thesis by blast
    qed
    then show ?thesis unfolding eq using IH fb by (auto split: if_splits)
  next
    case False
    then have "apertsize_loop bm m offset = m" by (subst apertsize_loop.simps) simp
    with False show ?thesis by (auto simp: free_block_def)
  qed
qed

lemma find_max_spec:
  "(\<exists>s. free_block (bitmap pg) s (find_max_apertsize pg)) \<and>
    (\<forall>s n. free_block (bitmap pg) s n \<longrightarrow> n \<le> find_max_apertsize pg)"
proof -
  note L = apertsize_loop_spec[of 0 0 "bitmap pg"]
  have "\<exists>s. free_block (bitmap pg) s 0" by (auto simp: free_block_def)
  moreover have "n \<le> find_max_apertsize pg" if "free_block (bitmap pg) s n" for s n
    using L that unfolding find_max_apertsize_def by (cases "n = 0") auto
  moreover have "apertsize_loop (bitmap pg) 0 0 = 0 \<or>
      (\<exists>s. free_block (bitmap pg) s (apertsize_loop (bitmap pg) 0 0))" using L by simp
  ultimately show ?thesis unfolding find_max_apertsize_def by auto
qed

lemma find_max_bound: "find_max_apertsize pg \<le> 502"
  using find_max_spec[of pg] by (auto simp: free_block_def)

section \<open>The lists of pages\<close>

fun chain :: "(nat \<Rightarrow> smallpage option) \<Rightarrow> nat \<Rightarrow> nat \<Rightarrow> nat list \<Rightarrow> bool" where
  "chain pg prev x [] = (x = 0)"
| "chain pg prev x (y # ys) =
     (x = y \<and> x \<noteq> 0 \<and> (\<exists>q. pg x = Some q \<and> prv q = prev \<and> chain pg x (nxt q) ys))"

definition links :: "(nat \<Rightarrow> smallpage option) \<Rightarrow> nat \<Rightarrow> (nat \<times> nat) option" where
  "links pg a = map_option (\<lambda>q. (nxt q, prv q)) (pg a)"

lemma chain_cong:
  "(\<And>y. y \<in> set ys \<Longrightarrow> links pg y = links pg' y) \<Longrightarrow> chain pg prev x ys \<longleftrightarrow> chain pg' prev x ys"
proof (induction ys arbitrary: prev x)
  case (Cons y ys)
  have "links pg y = links pg' y" using Cons.prems by simp
  then have "(\<exists>q. pg y = Some q \<and> prv q = prev \<and> chain pg y (nxt q) ys) \<longleftrightarrow>
      (\<exists>q. pg' y = Some q \<and> prv q = prev \<and> chain pg y (nxt q) ys)"
    by (cases "pg y"; cases "pg' y") (auto simp: links_def)
  moreover have "chain pg p z ys \<longleftrightarrow> chain pg' p z ys" for p z
    using Cons.IH Cons.prems by simp
  ultimately show ?case by (cases "x = y") auto
qed simp

lemma chain_nonzero: "chain pg prev x ys \<Longrightarrow> y \<in> set ys \<Longrightarrow> y \<noteq> 0 \<and> pg y \<noteq> None"
  by (induction ys arbitrary: prev x) auto

lemma chain_head: "chain pg prev x ys \<Longrightarrow> x = (case ys of [] \<Rightarrow> 0 | y # _ \<Rightarrow> y)"
  by (cases ys) auto

lemma chain_set_prv:
  assumes "chain pg prev x (c # ys)" "distinct (c # ys)"
    and "\<And>y. y \<in> set ys \<Longrightarrow> links pg' y = links pg y" "pg' c = map_option (\<lambda>q. q\<lparr>prv := p\<rparr>) (pg c)"
  shows "chain pg' p x (c # ys)"
  using assms chain_cong[of ys pg' pg] by auto

lemma chain_unlink:
  assumes "chain pg prev x (us @ b # a # vs)" "distinct (us @ b # a # vs)" "pg a = Some q"
    and "\<And>y. y \<in> set us \<union> set (tl vs) \<Longrightarrow> links pg' y = links pg y"
    and "pg' b = map_option (\<lambda>r. r\<lparr>nxt := nxt q\<rparr>) (pg b)"
    and "vs \<noteq> [] \<Longrightarrow> pg' (hd vs) = map_option (\<lambda>r. r\<lparr>prv := b\<rparr>) (pg (hd vs))"
  shows "chain pg' prev x (us @ b # vs)"
  using assms
proof (induction us arbitrary: prev x)
  case Nil
  then have b: "x = b" "x \<noteq> 0" and a: "\<exists>r. pg b = Some r \<and> prv r = prev \<and> nxt r = a"
    and rest: "chain pg a (nxt q) vs" by auto
  have "chain pg' b (nxt q) vs"
  proof (cases vs)
    case Nil
    with rest show ?thesis by simp
  next
    case (Cons c ws)
    show ?thesis unfolding Cons
    proof (rule chain_set_prv[where pg = pg and prev = a])
      show "chain pg a (nxt q) (c # ws)" using rest Cons by auto
      show "distinct (c # ws)" using Nil.prems(2) Cons by simp
      show "links pg' y = links pg y" if "y \<in> set ws" for y using Nil.prems(4)[of y] that Cons by simp
      show "pg' c = map_option (\<lambda>r. r\<lparr>prv := b\<rparr>) (pg c)" using Nil.prems(6) Cons by simp
    qed
  qed
  with a b Nil.prems(5) show ?case by auto
next
  case (Cons u us)
  then obtain r where r: "pg u = Some r" "prv r = prev" "chain pg u (nxt r) (us @ b # a # vs)" "x = u" "x \<noteq> 0"
    by auto
  have "chain pg' u (nxt r) (us @ b # vs)"
    using Cons.IH[OF r(3)] Cons.prems by auto
  moreover have "links pg' u = links pg u" using Cons.prems(4) by simp
  ultimately show ?case using r by (auto simp: links_def)
qed

lemma chain_middle:
  "chain pg prev x (us @ a # vs) \<Longrightarrow> \<exists>q. pg a = Some q \<and> a \<noteq> 0 \<and>
    prv q = (if us = [] then prev else last us) \<and> chain pg a (nxt q) vs \<and> (us = [] \<longrightarrow> x = a)"
proof (induction us arbitrary: prev x)
  case (Cons u us)
  from Cons.prems obtain r :: smallpage where "chain pg u (nxt r) (us @ a # vs)" by auto
  from Cons.IH[OF this] show ?case by (auto split: if_splits)
qed auto

definition linked :: "heap \<Rightarrow> (nat \<Rightarrow> nat list) \<Rightarrow> bool" where
  "linked h L \<longleftrightarrow> length (entry h) = 503 \<and>
    (\<forall>k < 503. chain (pages h) 0 (entry h ! k) (L k) \<and> distinct (L k)) \<and>
    (\<forall>k < 503. \<forall>k' < 503. k \<noteq> k' \<longrightarrow> set (L k) \<inter> set (L k') = {})"

definition same_bitmaps :: "heap \<Rightarrow> heap \<Rightarrow> bool" where
  "same_bitmaps h h' \<longleftrightarrow> (\<forall>a. map_option bitmap (pages h' a) = map_option bitmap (pages h a))"

lemma pages_upd: "pages (upd_page a f h) = (pages h)(a := map_option f (pages h a))"
  "entry (upd_page a f h) = entry h"
  by (simp_all add: upd_page_def)

lemma link_page_spec:
  assumes L: "linked h L" and k: "k < 503" and a: "a \<noteq> 0" "pages h a \<noteq> None" "\<And>j. j < 503 \<Longrightarrow> a \<notin> set (L j)"
  shows "linked (link_page a k h) (L(k := a # L k)) \<and> same_bitmaps h (link_page a k h)"
proof -
  let ?h = "link_page a k h"
  obtain q where q: "pages h a = Some q" using a(2) by blast
  have ck: "chain (pages h) 0 (entry h ! k) (L k)" "distinct (L k)" and len: "length (entry h) = 503"
    using L k by (auto simp: linked_def)
  define y where "y = entry h ! k"
  have ya: "y \<noteq> a" using chain_head[OF ck(1)] a(1) a(3)[OF k] by (cases "L k") (auto simp: y_def)
  have pg: "pages ?h = (\<lambda>z. if z = a then Some (q\<lparr>nxt := y, prv := 0\<rparr>)
      else if z = y \<and> y \<noteq> 0 then map_option (\<lambda>r. r\<lparr>prv := a\<rparr>) (pages h y) else pages h z)"
    and en: "entry ?h = (entry h)[k := a]"
    using q ya by (auto simp: link_page_def Let_def pages_upd y_def[symmetric] fun_eq_iff)
  have ynew: "y \<noteq> 0 \<Longrightarrow> y \<in> set (L k)" using chain_head[OF ck(1)] by (auto simp: y_def split: list.splits)
  have other: "links (pages ?h) z = links (pages h) z" if "z \<noteq> a" "z \<noteq> y \<or> y = 0" for z
    using that by (auto simp: pg links_def)
  have "chain (pages ?h) 0 (entry ?h ! j) ((L(k := a # L k)) j)" if j: "j < 503" for j
  proof (cases "j = k")
    case True
    have "chain (pages ?h) a y (L k)"
    proof (cases "L k")
      case Nil
      with ck(1) show ?thesis by (simp add: y_def)
    next
      case (Cons c cs)
      then have c: "c = y" "y \<noteq> 0" using ck(1) by (auto simp: y_def)
      show ?thesis unfolding Cons
      proof (rule chain_set_prv[where pg = "pages h" and prev = 0])
        show "chain (pages h) 0 y (c # cs)" "distinct (c # cs)" using ck Cons by (auto simp: y_def)
        show "links (pages ?h) z = links (pages h) z" if z: "z \<in> set cs" for z
        proof (rule other)
          show "z \<noteq> a" using z a(3)[OF k] Cons by auto
          show "z \<noteq> y \<or> y = 0" using z ck(2) c Cons by auto
        qed
        show "pages ?h c = map_option (\<lambda>q. q\<lparr>prv := a\<rparr>) (pages h c)" using c ya by (simp add: pg)
      qed
    qed
    then show ?thesis using True len k a(1) by (simp add: en pg)
  next
    case False
    have "y \<notin> set (L j) \<or> y = 0" using ynew L j k False by (auto simp: linked_def)
    then have "links (pages ?h) z = links (pages h) z" if "z \<in> set (L j)" for z
      using other[of z] that a(3)[OF j] by auto
    then have "chain (pages ?h) 0 (entry h ! j) (L j)"
      using chain_cong[of "L j" "pages ?h" "pages h"] L j by (simp add: linked_def)
    then show ?thesis using False by (simp add: en)
  qed
  moreover have "distinct ((L(k := a # L k)) j)" if "j < 503" for j
    using L that a(3)[OF k] by (simp add: linked_def)
  moreover have "set ((L(k := a # L k)) i) \<inter> set ((L(k := a # L k)) j) = {}"
    if "i < 503" "j < 503" "i \<noteq> j" for i j
    using L that a(3) by (auto simp: linked_def)
  ultimately have "linked ?h (L(k := a # L k))"
    using len unfolding linked_def en by simp
  moreover have "same_bitmaps h ?h"
    by (auto simp: same_bitmaps_def pg q option.map_comp comp_def)
  ultimately show ?thesis ..
qed

lemma unlink_page_spec:
  assumes L: "linked h L" and k: "k < 503" and a: "a \<in> set (L k)"
  shows "linked (unlink_page a k h) (L(k := remove1 a (L k))) \<and> same_bitmaps h (unlink_page a k h) \<and>
    length (remove1 a (L k)) < length (L k)"
proof -
  let ?h = "unlink_page a k h"
  have ck: "chain (pages h) 0 (entry h ! k) (L k)" "distinct (L k)" and len: "length (entry h) = 503"
    using L k by (auto simp: linked_def)
  obtain us vs where split: "L k = us @ a # vs" using a by (meson split_list)
  have rem: "remove1 a (L k) = us @ vs" using split ck(2) by (simp add: remove1_append)
  obtain q where q: "pages h a = Some q" "a \<noteq> 0" "prv q = (if us = [] then 0 else last us)"
    "chain (pages h) a (nxt q) vs" "us = [] \<longrightarrow> entry h ! k = a"
    using chain_middle[OF ck(1)[unfolded split]] by blast
  have us0: "us \<noteq> [] \<Longrightarrow> last us \<noteq> 0"
    using chain_nonzero[OF ck(1), of "last us"] split by auto
  have vs0: "nxt q = 0 \<longleftrightarrow> vs = []" "vs \<noteq> [] \<Longrightarrow> hd vs = nxt q"
    using chain_head[OF q(4)] chain_nonzero[OF q(4)] by (auto split: list.splits)
  define p where "p = prv q"
  have pg: "pages ?h = (\<lambda>z. if p \<noteq> 0 \<and> z = p then map_option (\<lambda>r. r\<lparr>nxt := nxt q\<rparr>) (pages h z)
      else if nxt q \<noteq> 0 \<and> z = nxt q then map_option (\<lambda>r. r\<lparr>prv := p\<rparr>) (pages h z) else pages h z)"
  proof (cases "p = 0")
    case True
    then show ?thesis using q(1) by (auto simp: unlink_page_def pages_upd p_def fun_eq_iff)
  next
    case False
    then have "us \<noteq> []" using q(3) by (auto simp: p_def)
    then have "p \<in> set us" using q(3) by (simp add: p_def)
    moreover have "nxt q \<noteq> 0 \<Longrightarrow> nxt q \<in> set vs" using vs0 by (metis hd_in_set)
    ultimately have "nxt q = 0 \<or> p \<noteq> nxt q" using ck(2) split by auto
    then show ?thesis using q(1) False by (auto simp: unlink_page_def pages_upd p_def fun_eq_iff)
  qed
  have en: "entry ?h = (if us = [] then (entry h)[k := nxt q] else entry h)"
    using q(1,3) us0 by (cases "us = []") (auto simp: unlink_page_def pages_upd)
  have other: "links (pages ?h) z = links (pages h) z" if "z \<noteq> p \<or> p = 0" "z \<noteq> nxt q \<or> nxt q = 0" for z
    using that by (auto simp: pg links_def)
  have nq: "nxt q \<noteq> 0 \<Longrightarrow> nxt q \<in> set vs" using vs0 by (metis hd_in_set)
  have pq: "p \<noteq> 0 \<Longrightarrow> p \<in> set us \<and> p = last us \<and> us \<noteq> []" using q(3) by (auto simp: p_def split: if_splits)
  have mine: "chain (pages ?h) 0 (entry ?h ! k) (us @ vs)"
  proof (cases "us = []")
    case True
    then have p0: "p = 0" using q(3) by (simp add: p_def)
    have "chain (pages ?h) 0 (nxt q) vs"
    proof (cases vs)
      case Nil
      then show ?thesis using vs0 by simp
    next
      case (Cons c cs)
      show ?thesis unfolding Cons
      proof (rule chain_set_prv[where pg = "pages h" and prev = a])
        show "chain (pages h) a (nxt q) (c # cs)" "distinct (c # cs)" using q(4) Cons split ck(2) by auto
        show "links (pages ?h) z = links (pages h) z" if "z \<in> set cs" for z
          using that vs0 Cons ck(2) split p0 by (intro other) auto
        show "pages ?h c = map_option (\<lambda>q. q\<lparr>prv := 0\<rparr>) (pages h c)" using vs0 Cons p0 by (simp add: pg)
      qed
    qed
    then show ?thesis using True en len k by simp
  next
    case False
    then obtain us' b where us: "us = us' @ [b]" by (metis append_butlast_last_id)
    then have b: "p = b" "b \<noteq> 0" using q(3) us0 by (auto simp: p_def)
    have "chain (pages ?h) 0 (entry h ! k) (us' @ b # vs)"
    proof (rule chain_unlink[where pg = "pages h" and a = a and q = q])
      show "chain (pages h) 0 (entry h ! k) (us' @ b # a # vs)" "distinct (us' @ b # a # vs)"
        using ck split us by auto
      show "pages h a = Some q" by (rule q(1))
      show "links (pages ?h) z = links (pages h) z" if z: "z \<in> set us' \<union> set (tl vs)" for z
      proof (rule other)
        have "set (tl vs) \<subseteq> set vs" by (cases vs) auto
        then show "z \<noteq> p \<or> p = 0" using z ck(2) split us b by auto
        have "hd vs \<notin> set (tl vs)" if "vs \<noteq> []" using ck(2) split that by (cases vs) auto
        then show "z \<noteq> nxt q \<or> nxt q = 0" using z ck(2) split us vs0 nq by auto
      qed
      show "pages ?h b = map_option (\<lambda>r. r\<lparr>nxt := nxt q\<rparr>) (pages h b)" using b by (simp add: pg)
      show "pages ?h (hd vs) = map_option (\<lambda>r. r\<lparr>prv := b\<rparr>) (pages h (hd vs))" if "vs \<noteq> []"
        using that vs0 nq b ck(2) split us by (auto simp: pg)
    qed
    then show ?thesis using False us en by simp
  qed
  have "chain (pages ?h) 0 (entry ?h ! j) ((L(k := us @ vs)) j)" if j: "j < 503" for j
  proof (cases "j = k")
    case False
    have "links (pages ?h) z = links (pages h) z" if "z \<in> set (L j)" for z
    proof (rule other)
      have "z \<notin> set (L k)" using that L j k False by (auto simp: linked_def)
      then show "z \<noteq> p \<or> p = 0" "z \<noteq> nxt q \<or> nxt q = 0" using pq nq split by auto
    qed
    then have "chain (pages ?h) 0 (entry h ! j) (L j)"
      using chain_cong[of "L j" "pages ?h" "pages h"] L j by (simp add: linked_def)
    then show ?thesis using False en by simp
  qed (use mine in simp)
  moreover have "distinct ((L(k := us @ vs)) j)" if "j < 503" for j
    using L that ck(2) split by (simp add: linked_def)
  moreover have "set ((L(k := us @ vs)) i) \<inter> set ((L(k := us @ vs)) j) = {}"
    if "i < 503" "j < 503" "i \<noteq> j" for i j
  proof -
    have "set ((L(k := us @ vs)) n) \<subseteq> set (L n)" for n using split by auto
    then show ?thesis using L that unfolding linked_def by blast
  qed
  ultimately have "linked ?h (L(k := us @ vs))"
    using len unfolding linked_def en by simp
  moreover have "same_bitmaps h ?h"
    by (auto simp: same_bitmaps_def pg option.map_comp comp_def)
  ultimately show ?thesis using rem split by simp
qed

section \<open>The invariant of the heap\<close>

definition page_ok :: "nat \<Rightarrow> nat \<Rightarrow> heap \<Rightarrow> bool" where
  "page_ok k a h \<longleftrightarrow> a mod 4096 = 0 \<and>
    (\<exists>pg. pages h a = Some pg \<and> length (bitmap pg) = 8 \<and> find_max_apertsize pg = k)"

definition heap_lists :: "heap \<Rightarrow> (nat \<Rightarrow> nat list) \<Rightarrow> bool" where
  "heap_lists h L \<longleftrightarrow> linked h L \<and> (\<forall>k < 503. \<forall>a \<in> set (L k). page_ok k a h) \<and>
    (\<forall>a. pages h a \<noteq> None \<longrightarrow> (\<exists>k < 503. a \<in> set (L k)))"

definition heap_inv :: "heap \<Rightarrow> bool" where
  "heap_inv h \<longleftrightarrow> (\<exists>L. heap_lists h L)"

definition slot_used :: "heap \<Rightarrow> nat \<Rightarrow> nat \<Rightarrow> bool" where
  "slot_used h a j \<longleftrightarrow> (\<exists>pg. pages h a = Some pg \<and> used (bitmap pg) j)"

lemma find_max_bitmap: "find_max_apertsize (pg\<lparr>nxt := x, prv := y\<rparr>) = find_max_apertsize pg"
  "bitmap pg = bitmap pg' \<Longrightarrow> find_max_apertsize pg = find_max_apertsize pg'"
  by (simp_all add: find_max_apertsize_def)

lemma same_bitmaps_page_ok:
  assumes "same_bitmaps h h'"
  shows "page_ok k a h' \<longleftrightarrow> page_ok k a h"
proof -
  have "map_option bitmap (pages h' a) = map_option bitmap (pages h a)"
    using assms by (simp add: same_bitmaps_def)
  then show ?thesis
    by (cases "pages h a"; cases "pages h' a") (auto simp: page_ok_def find_max_apertsize_def)
qed

lemma same_bitmaps_None: "same_bitmaps h h' \<Longrightarrow> pages h' a = None \<longleftrightarrow> pages h a = None"
  unfolding same_bitmaps_def by (metis map_option_is_None)

lemma same_bitmaps_used:
  assumes "same_bitmaps h h'"
  shows "slot_used h' a j = slot_used h a j"
proof -
  have "map_option bitmap (pages h' a) = map_option bitmap (pages h a)"
    using assms by (simp add: same_bitmaps_def)
  then show ?thesis by (cases "pages h a"; cases "pages h' a") (auto simp: slot_used_def)
qed

text \<open>Taking a page out of its list, with a new bitmap.\<close>

definition detached :: "heap \<Rightarrow> (nat \<Rightarrow> nat list) \<Rightarrow> nat \<Rightarrow> u64 list \<Rightarrow> bool" where
  "detached h L a bm \<longleftrightarrow> linked h L \<and> a \<noteq> 0 \<and> a mod 4096 = 0 \<and> map_option bitmap (pages h a) = Some bm \<and>
    (\<forall>k < 503. a \<notin> set (L k) \<and> (\<forall>b \<in> set (L k). page_ok k b h)) \<and>
    (\<forall>b. b \<noteq> a \<longrightarrow> pages h b \<noteq> None \<longrightarrow> (\<exists>k < 503. b \<in> set (L k)))"

lemma detach_page:
  assumes inv: "heap_lists h L" and a: "pages h a = Some pg"
    and h': "h' = unlink_page a (find_max_apertsize pg) (upd_page a (\<lambda>q. q\<lparr>bitmap := bm\<rparr>) h)"
  shows "\<exists>L'. detached h' L' a bm \<and> (\<forall>b. b \<noteq> a \<longrightarrow> (\<forall>j. slot_used h' b j = slot_used h b j) \<and>
    (pages h' b = None \<longleftrightarrow> pages h b = None))"
proof -
  let ?k = "find_max_apertsize pg" and ?h1 = "upd_page a (\<lambda>q. q\<lparr>bitmap := bm\<rparr>) h"
  have k: "?k < 503" using find_max_bound[of pg] by simp
  have L: "linked h L" and ok: "\<And>k b. k < 503 \<Longrightarrow> b \<in> set (L k) \<Longrightarrow> page_ok k b h"
    and all: "\<And>b. pages h b \<noteq> None \<Longrightarrow> \<exists>k < 503. b \<in> set (L k)"
    using inv by (auto simp: heap_lists_def)
  obtain k' where k': "k' < 503" "a \<in> set (L k')" using all a by blast
  with ok[OF k'] a have "k' = ?k" by (auto simp: page_ok_def)
  with k' have ak: "a \<in> set (L ?k)" by simp
  have "links (pages ?h1) z = links (pages h) z" for z
    by (cases "pages h z") (auto simp: links_def pages_upd)
  then have "chain (pages ?h1) p x ys = chain (pages h) p x ys" for p x ys
    by (intro chain_cong) auto
  then have L1: "linked ?h1 L" using L by (simp add: linked_def pages_upd)
  let ?L' = "L(?k := remove1 a (L ?k))"
  note U = unlink_page_spec[OF L1 k ak]
  have SB: "same_bitmaps ?h1 h'" using U h' by blast
  have dist: "distinct (L ?k)" and disj: "\<And>j. j < 503 \<Longrightarrow> j \<noteq> ?k \<Longrightarrow> a \<notin> set (L j)"
    using L k ak by (auto simp: linked_def)
  have "a \<noteq> 0" using chain_nonzero L k ak unfolding linked_def by metis
  have sub: "set (?L' j) \<subseteq> set (L j)" for j using set_remove1_subset[of a "L ?k"] by auto
  have na: "a \<notin> set (?L' j)" if "j < 503" for j using dist disj that by auto
  have "page_ok j b h'" if "j < 503" "b \<in> set (?L' j)" for j b
  proof -
    have "b \<noteq> a" "page_ok j b h" using that na sub ok by blast+
    then have "page_ok j b ?h1" by (simp add: page_ok_def pages_upd)
    then show ?thesis using same_bitmaps_page_ok U h' by blast
  qed
  moreover have "\<exists>j < 503. b \<in> set (?L' j)" if "b \<noteq> a" "pages h' b \<noteq> None" for b
  proof -
    have "pages ?h1 b \<noteq> None" using that(2) same_bitmaps_None[OF SB, of b] by simp
    then have "pages h b \<noteq> None" using that(1) by (simp add: pages_upd)
    then obtain j where j: "j < 503" "b \<in> set (L j)" using all by blast
    then have "b \<in> set (?L' j)" using that(1) by auto
    with j show ?thesis by blast
  qed
  moreover have "map_option bitmap (pages h' a) = Some bm"
    using U h' a by (simp add: same_bitmaps_def pages_upd)
  moreover have "a mod 4096 = 0" using ok[OF k ak] by (simp add: page_ok_def)
  ultimately have "detached h' ?L' a bm" using U na h' \<open>a \<noteq> 0\<close> unfolding detached_def by blast
  moreover have "slot_used h' b j = slot_used h b j \<and> (pages h' b = None \<longleftrightarrow> pages h b = None)" if "b \<noteq> a" for b j
    using same_bitmaps_used[of ?h1 h'] same_bitmaps_None[of ?h1 h'] U h' that
    by (simp add: slot_used_def pages_upd)
  ultimately show ?thesis by blast
qed

lemma attach_page:
  assumes d: "detached h L a bm" and bm: "length bm = 8" and k: "k = find_max_apertsize pg" "bitmap pg = bm"
  shows "heap_inv (link_page a k h) \<and> same_bitmaps h (link_page a k h)"
proof -
  have k503: "k < 503" using find_max_bound[of pg] k by simp
  have L: "linked h L" and a: "a \<noteq> 0" "pages h a \<noteq> None" "\<And>j. j < 503 \<Longrightarrow> a \<notin> set (L j)"
    and ok: "\<And>j b. j < 503 \<Longrightarrow> b \<in> set (L j) \<Longrightarrow> page_ok j b h"
    and all: "\<And>b. b \<noteq> a \<Longrightarrow> pages h b \<noteq> None \<Longrightarrow> \<exists>k < 503. b \<in> set (L k)"
    using d by (auto simp: detached_def)
  have S: "linked (link_page a k h) (L(k := a # L k))" "same_bitmaps h (link_page a k h)"
    using link_page_spec[OF L k503 a] by blast+
  have "page_ok k a h" using d bm k by (auto simp: page_ok_def detached_def find_max_apertsize_def)
  then have ok': "page_ok j b (link_page a k h)" if "j < 503" "b \<in> set ((L(k := a # L k)) j)" for j b
    using same_bitmaps_page_ok[OF S(2)] ok that by (auto split: if_splits)
  have all': "\<exists>j < 503. b \<in> set ((L(k := a # L k)) j)" if "pages (link_page a k h) b \<noteq> None" for b
  proof (cases "b = a")
    case True
    then show ?thesis using k503 by (intro exI[of _ k]) simp
  next
    case False
    have "pages h b \<noteq> None" using that same_bitmaps_None[OF S(2), of b] by simp
    then obtain j where "j < 503" "b \<in> set (L j)" using all False by blast
    then show ?thesis by (intro exI[of _ j]) auto
  qed
  show ?thesis using S ok' all' unfolding heap_inv_def heap_lists_def by blast
qed

section \<open>Allocation\<close>

lemma first_list_Some:
  "first_list n h = Some i \<Longrightarrow> n \<le> i \<and> i < 503 \<and> entry h ! i \<noteq> 0"
  unfolding first_list_def find_Some_iff by auto

text \<open>
  \<open>takes_slots\<close>: slots \<open>off\<close> to \<open>off + n - 1\<close> of page \<open>a\<close>, all free before, are used after;
  no other slot of any page that existed has changed.
\<close>

definition takes_slots :: "heap \<Rightarrow> nat \<Rightarrow> nat \<Rightarrow> nat \<Rightarrow> heap \<Rightarrow> bool" where
  "takes_slots h a off n h' \<longleftrightarrow> off + n \<le> 502 \<and>
    (\<forall>j. off \<le> j \<and> j < off + n \<longrightarrow> \<not> slot_used h a j) \<and>
    (\<forall>j < 512. slot_used h' a j \<longleftrightarrow> slot_used h a j \<or> (off \<le> j \<and> j < off + n)) \<and>
    (\<forall>b. b \<noteq> a \<longrightarrow> (\<forall>j. slot_used h' b j = slot_used h b j)) \<and>
    (\<forall>b. pages h' b = None \<longleftrightarrow> pages h b = None)"

lemma new_from_page_spec:
  assumes inv: "heap_inv h" and n: "0 < n" and fl: "first_list n h = Some i"
  shows "\<exists>off h'. new_from_page n i h = (Ret (entry h ! i + 8 * off), h') \<and> heap_inv h' \<and>
    entry h ! i mod 4096 = 0 \<and> pages h (entry h ! i) \<noteq> None \<and> takes_slots h (entry h ! i) off n h'"
proof -
  obtain L where L: "heap_lists h L" using inv by (auto simp: heap_inv_def)
  note i = first_list_Some[OF fl]
  let ?a = "entry h ! i"
  have ck: "chain (pages h) 0 ?a (L i)" using L i by (simp add: heap_lists_def linked_def)
  then obtain vs pg where vs: "L i = ?a # vs" "pages h ?a = Some pg" "prv pg = 0"
    using i by (cases "L i") auto
  have ok: "page_ok i ?a h" using L i vs(1) by (simp add: heap_lists_def)
  then have pg: "length (bitmap pg) = 8" "find_max_apertsize pg = i" "?a mod 4096 = 0"
    using vs(2) by (auto simp: page_ok_def)
  obtain s where "free_block (bitmap pg) s i" using find_max_spec[of pg] pg(2) by auto
  then have "free_block (bitmap pg) s n" using i by (auto simp: free_block_def)
  with find_aperture_spec[OF n, of pg] have off: "find_aperture n pg \<noteq> 503"
    "free_block (bitmap pg) (find_aperture n pg) n" by auto
  define off where "off = find_aperture n pg"
  have fb: "off + n \<le> 502" "\<And>j. j < n \<Longrightarrow> \<not> used (bitmap pg) (off + j)"
    using off by (auto simp: off_def free_block_def)
  define bm where "bm = fold (\<lambda>j bm. set_used bm (off + j)) [0..<n] (bitmap pg)"
  have bm: "length bm = 8" "\<And>j. j < 512 \<Longrightarrow> used bm j \<longleftrightarrow> (off \<le> j \<and> j < off + n) \<or> used (bitmap pg) j"
  proof -
    have F: "length bm = 8 \<and> (\<forall>j < 512. used bm j \<longleftrightarrow> j \<in> (\<lambda>j. off + j) ` set [0..<n] \<or> used (bitmap pg) j)"
      unfolding bm_def by (rule fold_set_used) (use pg(1) fb(1) in auto)
    then show "length bm = 8" by blast
    have "j \<in> (\<lambda>j. off + j) ` set [0..<n] \<longleftrightarrow> off \<le> j \<and> j < off + n" for j
      by (auto intro!: image_eqI[of _ _ "j - off"])
    with F show "\<And>j. j < 512 \<Longrightarrow> used bm j \<longleftrightarrow> (off \<le> j \<and> j < off + n) \<or> used (bitmap pg) j"
      by simp
  qed
  define h1 where "h1 = unlink_page ?a i (upd_page ?a (\<lambda>q. q\<lparr>bitmap := bm\<rparr>) h)"
  let ?k = "find_max_apertsize (pg\<lparr>bitmap := bm\<rparr>)"
  have "\<not> list_ex (\<lambda>j. used (bitmap pg) (off + j)) [0..<n]" using fb(2) by (auto simp: list_ex_iff)
  then have run: "new_from_page n i h = (Ret (?a + 8 * off), link_page ?a ?k h1)"
    using vs(2,3) off(1) unfolding new_from_page_def Let_def h1_def unlink_page_def
    by (simp add: off_def[symmetric] bm_def[symmetric] pages_upd)
  have "\<exists>L'. detached h1 L' ?a bm \<and> (\<forall>b. b \<noteq> ?a \<longrightarrow> (\<forall>j. slot_used h1 b j = slot_used h b j) \<and>
      (pages h1 b = None \<longleftrightarrow> pages h b = None))"
    by (rule detach_page[OF L vs(2)]) (simp add: h1_def pg(2))
  then obtain L' where d: "detached h1 L' ?a bm"
    "\<And>b j. b \<noteq> ?a \<Longrightarrow> slot_used h1 b j = slot_used h b j"
    "\<And>b. b \<noteq> ?a \<Longrightarrow> pages h1 b = None \<longleftrightarrow> pages h b = None"
    by blast
  have A: "heap_inv (link_page ?a ?k h1)" "same_bitmaps h1 (link_page ?a ?k h1)"
    using attach_page[OF d(1) bm(1) refl] by simp_all
  have u1: "slot_used h1 ?a j \<longleftrightarrow> used bm j" "pages h1 ?a \<noteq> None" for j
    using d(1) by (auto simp: detached_def slot_used_def)
  have u: "slot_used h ?a j \<longleftrightarrow> used (bitmap pg) j" for j using vs(2) by (simp add: slot_used_def)
  have "\<not> used (bitmap pg) j" if "off \<le> j" "j < off + n" for j
    using fb(2)[of "j - off"] that by simp
  moreover have "pages h1 b = None \<longleftrightarrow> pages h b = None" for b
    using d(3)[of b] u1(2) vs(2) by (cases "b = ?a") auto
  ultimately have "takes_slots h ?a off n (link_page ?a ?k h1)"
    unfolding takes_slots_def same_bitmaps_used[OF A(2)] same_bitmaps_None[OF A(2)]
    using d(2) u1(1) u bm(2) fb(1) by auto
  then show ?thesis using run A(1) pg(3) vs(2) by auto
qed

text \<open>A fresh page at the end of a mapping.\<close>

lemma new_from_kernel_spec:
  assumes inv: "heap_inv h" and p: "p \<noteq> 0" "p mod 4096 = 0"
    and a: "a = p + 4096 * (page_count len - 1)" "pages h a = None"
    and junk: "length (bitmap junk) = 8" and l: "last_slots len \<le> 502"
  shows "\<exists>h'. new_from_kernel (Ret p) junk len h = (Ret p, h') \<and> heap_inv h' \<and>
    (\<forall>j < 502. slot_used h' a j \<longleftrightarrow> j < last_slots len) \<and>
    (\<forall>b. b \<noteq> a \<longrightarrow> (\<forall>j. slot_used h' b j = slot_used h b j) \<and> (pages h' b = None \<longleftrightarrow> pages h b = None))"
proof -
  obtain L where L: "heap_lists h L" using inv by (auto simp: heap_inv_def)
  let ?l = "last_slots len"
  define bm1 where "bm1 = fold (\<lambda>i bm. set_used bm i) [0..<?l] (bitmap junk)"
  define bm2 where "bm2 = fold (\<lambda>i bm. set_clear bm i) [?l..<502] bm1"
  define bm where "bm = (if page_count len > 1 then set_used bm2 511 else bm2)"
  have 1: "length bm1 = 8 \<and> (\<forall>j < 512. used bm1 j \<longleftrightarrow> j \<in> (\<lambda>i. i) ` set [0..<?l] \<or> used (bitmap junk) j)"
    unfolding bm1_def by (rule fold_set_used) (use junk l in auto)
  have 2: "length bm2 = 8 \<and> (\<forall>j < 512. used bm2 j \<longleftrightarrow> j \<notin> set [?l..<502] \<and> used bm1 j)"
    unfolding bm2_def by (rule fold_set_clear) (use 1 l in auto)
  have bm: "length bm = 8" "\<And>j. j < 502 \<Longrightarrow> used bm j \<longleftrightarrow> j < ?l"
    using 1 2 l used_set_used[of bm2 511] by (auto simp: bm_def)
  have max: "find_max_apertsize (junk\<lparr>bitmap := bm\<rparr>) = 502 - ?l"
  proof -
    obtain s where s: "free_block bm s (find_max_apertsize (junk\<lparr>bitmap := bm\<rparr>))"
      and m: "\<And>s n. free_block bm s n \<Longrightarrow> n \<le> find_max_apertsize (junk\<lparr>bitmap := bm\<rparr>)"
      using find_max_spec[of "junk\<lparr>bitmap := bm\<rparr>"] by auto
    have "free_block bm ?l (502 - ?l)" using bm(2) l by (auto simp: free_block_def)
    from m[OF this] have ge: "502 - ?l \<le> find_max_apertsize (junk\<lparr>bitmap := bm\<rparr>)" .
    show ?thesis
    proof (cases "find_max_apertsize (junk\<lparr>bitmap := bm\<rparr>) = 0")
      case True
      with ge show ?thesis by simp
    next
      case False
      with s have "s < 502" "\<not> used bm s" by (auto simp: free_block_def dest: spec[of _ 0])
      then have "?l \<le> s" using bm(2) by (simp add: not_less)
      with s ge show ?thesis by (auto simp: free_block_def)
    qed
  qed
  define h1 where "h1 = h\<lparr>pages := (pages h)(a \<mapsto> junk\<lparr>bitmap := bm\<rparr>)\<rparr>"
  have run: "new_from_kernel (Ret p) junk len h = (Ret p, link_page a (502 - ?l) h1)"
    using l by (simp add: new_from_kernel_def Let_def h1_def bm1_def bm2_def bm_def a(1))
  have ll: "linked h L" and ok: "\<And>k b. k < 503 \<Longrightarrow> b \<in> set (L k) \<Longrightarrow> page_ok k b h"
    and all: "\<And>b. pages h b \<noteq> None \<Longrightarrow> \<exists>k < 503. b \<in> set (L k)"
    using L by (auto simp: heap_lists_def)
  have na: "a \<notin> set (L k)" if "k < 503" for k using ok[OF that, of a] a(2) by (auto simp: page_ok_def)
  have "linked h1 L"
  proof -
    have "chain (pages h1) 0 (entry h ! k) (L k) = chain (pages h) 0 (entry h ! k) (L k)" if "k < 503" for k
      by (rule chain_cong) (use na[OF that] in \<open>auto simp: links_def h1_def\<close>)
    then show ?thesis using ll by (simp add: linked_def h1_def)
  qed
  moreover have "page_ok k b h1" if "k < 503" "b \<in> set (L k)" for k b
    using ok[OF that] na[OF that(1)] that(2) by (auto simp: page_ok_def h1_def)
  ultimately have d: "detached h1 L a bm" using na all p a(1) by (auto simp: detached_def h1_def)
  from attach_page[OF d bm(1) max[symmetric]] have A: "heap_inv (link_page a (502 - ?l) h1)"
    "same_bitmaps h1 (link_page a (502 - ?l) h1)" by simp_all
  let ?h = "link_page a (502 - ?l) h1"
  have u1: "slot_used h1 a j \<longleftrightarrow> used bm j" for j by (simp add: slot_used_def h1_def)
  have "\<forall>j < 502. slot_used ?h a j \<longleftrightarrow> j < ?l"
    unfolding same_bitmaps_used[OF A(2)] u1 using bm(2) by blast
  moreover have "\<forall>b. b \<noteq> a \<longrightarrow> (\<forall>j. slot_used ?h b j = slot_used h b j) \<and> (pages ?h b = None \<longleftrightarrow> pages h b = None)"
    unfolding same_bitmaps_used[OF A(2)] same_bitmaps_None[OF A(2)] by (simp add: slot_used_def h1_def)
  ultimately show ?thesis using run A(1) by blast
qed

section \<open>Deallocation\<close>

lemma drop_page:
  assumes d: "detached h L a bm"
  shows "heap_inv (h\<lparr>pages := (pages h)(a := None)\<rparr>)"
proof -
  let ?h = "h\<lparr>pages := (pages h)(a := None)\<rparr>"
  have L: "linked h L" and na: "\<And>j. j < 503 \<Longrightarrow> a \<notin> set (L j)"
    and ok: "\<And>j b. j < 503 \<Longrightarrow> b \<in> set (L j) \<Longrightarrow> page_ok j b h"
    and all: "\<And>b. b \<noteq> a \<Longrightarrow> pages h b \<noteq> None \<Longrightarrow> \<exists>k < 503. b \<in> set (L k)"
    using d by (auto simp: detached_def)
  have "linked ?h L"
  proof -
    have "chain (pages ?h) 0 (entry h ! k) (L k) = chain (pages h) 0 (entry h ! k) (L k)" if "k < 503" for k
      by (rule chain_cong) (use na[OF that] in \<open>auto simp: links_def\<close>)
    then show ?thesis using L by (simp add: linked_def)
  qed
  moreover have "page_ok k b ?h" if "k < 503" "b \<in> set (L k)" for k b
    using ok[OF that] na[OF that(1)] that(2) by (auto simp: page_ok_def)
  ultimately show ?thesis using all by (auto simp: heap_inv_def heap_lists_def)
qed

definition delete_slots :: "nat \<Rightarrow> nat \<Rightarrow> nat list" where
  "delete_slots ptr len = (if ptr mod 4096 = 0 then [0..<last_slots len]
     else [ptr mod 4096 div 8..<ptr mod 4096 div 8 + slot_count len])"

definition delete_page :: "nat \<Rightarrow> nat \<Rightarrow> nat" where
  "delete_page ptr len = (if ptr mod 4096 = 0 then ptr + 4096 * (page_count len - 1) else ptr - ptr mod 4096)"

lemma operator_delete_spec:
  assumes inv: "heap_inv h" and arg: "len \<noteq> 0" "ptr \<noteq> 0" "a = delete_page ptr len" "S = delete_slots ptr len"
    and page: "pages h a \<noteq> None" and S: "\<forall>k \<in> set S. k < 502 \<and> slot_used h a k"
  shows "\<exists>h' unmaps. operator_delete ptr len h = (Ret (), h', unmaps) \<and> heap_inv h' \<and>
    (\<forall>j < 502. slot_used h' a j \<longleftrightarrow> slot_used h a j \<and> j \<notin> set S) \<and>
    (\<forall>b. b \<noteq> a \<longrightarrow> (\<forall>j. slot_used h' b j = slot_used h b j) \<and> (pages h' b = None \<longleftrightarrow> pages h b = None))"
proof -
  obtain L where L: "heap_lists h L" using inv by (auto simp: heap_inv_def)
  obtain pg where pg: "pages h a = Some pg" using page by blast
  obtain k where "k < 503" "a \<in> set (L k)" using L pg by (auto simp: heap_lists_def)
  then have "page_ok k a h" using L by (auto simp: heap_lists_def)
  then have len8: "length (bitmap pg) = 8" using pg by (auto simp: page_ok_def)
  have u: "slot_used h a j \<longleftrightarrow> used (bitmap pg) j" for j using pg by (simp add: slot_used_def)
  have dist: "distinct S" using arg(4) by (simp add: delete_slots_def)
  have S512: "\<forall>k \<in> set S. k < 512" using S by fastforce
  have "\<forall>k \<in> set S. used (bitmap pg) k" using S u by blast
  from clear_slots_Some[OF len8 S512 dist this] obtain bm1 where bm1: "clear_slots S (bitmap pg) = Some bm1" by blast
  note C = clear_slots_spec[OF len8 S512 dist bm1]
  define bm where "bm = (if ptr mod 4096 = 0 \<and> page_count len > 1 then set_clear bm1 511 else bm1)"
  have bm: "length bm = 8" "\<And>j. j < 502 \<Longrightarrow> used bm j \<longleftrightarrow> j \<notin> set S \<and> used (bitmap pg) j"
    using C used_set_clear[of bm1 511] by (auto simp: bm_def)
  define h1 where "h1 = unlink_page a (find_max_apertsize pg) (upd_page a (\<lambda>q. q\<lparr>bitmap := bm\<rparr>) h)"
  let ?k = "find_max_apertsize (pg\<lparr>bitmap := bm\<rparr>)"
  let ?um = "if ptr mod 4096 = 0 \<and> page_count len > 1 then [(ptr, (page_count len - 1) * 4096)] else []"
  have range: "\<not> list_ex (\<lambda>i. i \<ge> 512) S" using S512 by (auto simp: list_ex_iff)
  have run: "operator_delete ptr len h =
      (if list_ex (\<lambda>i. bm ! i \<noteq> 0) [0..<8] then (Ret (), link_page a ?k h1, ?um)
       else (Ret (), h1\<lparr>pages := (pages h1)(a := None)\<rparr>, ?um @ [(a, 4096)]))"
    unfolding operator_delete_def Let_def
    unfolding delete_slots_def[symmetric] delete_page_def[symmetric] arg(3,4)[symmetric]
    using arg(1,2) pg bm1 range by (simp add: bm_def h1_def)
  from detach_page[OF L pg h1_def] obtain L' where d: "detached h1 L' a bm"
    "\<And>b j. b \<noteq> a \<Longrightarrow> slot_used h1 b j = slot_used h b j"
    "\<And>b. b \<noteq> a \<Longrightarrow> pages h1 b = None \<longleftrightarrow> pages h b = None" by blast
  have u1: "slot_used h1 a j \<longleftrightarrow> used bm j" for j using d(1) by (auto simp: detached_def slot_used_def)
  show ?thesis
  proof (cases "list_ex (\<lambda>i. bm ! i \<noteq> 0) [0..<8]")
    case True
    have A: "heap_inv (link_page a ?k h1)" "same_bitmaps h1 (link_page a ?k h1)"
      using attach_page[OF d(1) bm(1) refl] by simp_all
    have "\<forall>j < 502. slot_used (link_page a ?k h1) a j \<longleftrightarrow> slot_used h a j \<and> j \<notin> set S"
      unfolding same_bitmaps_used[OF A(2)] u1 u using bm(2) by blast
    moreover have "\<forall>b. b \<noteq> a \<longrightarrow> (\<forall>j. slot_used (link_page a ?k h1) b j = slot_used h b j) \<and>
        (pages (link_page a ?k h1) b = None \<longleftrightarrow> pages h b = None)"
      unfolding same_bitmaps_used[OF A(2)] same_bitmaps_None[OF A(2)] using d(2,3) by blast
    ultimately show ?thesis using run True A(1) by simp
  next
    case False
    then have "bm ! i = 0" if "i < 8" for i using that by (auto simp: list_ex_iff)
    then have "\<not> used bm j" if "j < 512" for j using word_index[OF that] by (simp add: used_bit)
    then have z: "\<forall>j < 502. slot_used h a j \<longrightarrow> j \<in> set S" using bm(2) u by fastforce
    let ?h = "h1\<lparr>pages := (pages h1)(a := None)\<rparr>"
    have "\<not> slot_used ?h a j" for j by (simp add: slot_used_def)
    moreover have "\<forall>b. b \<noteq> a \<longrightarrow> (\<forall>j. slot_used ?h b j = slot_used h b j) \<and> (pages ?h b = None \<longleftrightarrow> pages h b = None)"
      using d(2,3) by (simp add: slot_used_def)
    ultimately show ?thesis using run False drop_page[OF d(1)] z by auto
  qed
qed

section \<open>Properties\<close>

lemma operator_new_cases:
  assumes inv: "heap_inv h" and len: "0 < len" "len mod 4096 \<le> 4016"
    and p: "p \<noteq> 0" "p mod 4096 = 0" "pages h (p + 4096 * (page_count len - 1)) = None"
    and junk: "length (bitmap junk) = 8"
  obtains (page) a off h' where "operator_new (Ret p) junk len h = (Ret (a + 8 * off), h')" "heap_inv h'"
      "a mod 4096 = 0" "pages h a \<noteq> None" "takes_slots h a off (slot_count len) h'"
    | (fresh) h' where "operator_new (Ret p) junk len h = (Ret p, h')" "heap_inv h'"
      "\<forall>j < 502. slot_used h' (p + 4096 * (page_count len - 1)) j \<longleftrightarrow> j < last_slots len"
      "\<forall>b. b \<noteq> p + 4096 * (page_count len - 1) \<longrightarrow>
        (\<forall>j. slot_used h' b j = slot_used h b j) \<and> (pages h' b = None \<longleftrightarrow> pages h b = None)"
proof (cases "first_list (slot_count len) h")
  case (Some i)
  have "0 < slot_count len" using len(1) by (simp add: slot_count_def div_greater_zero_iff)
  from new_from_page_spec[OF inv this Some] Some page show thesis
    unfolding operator_new_def by fastforce
next
  case None
  have "last_slots len \<le> 502" using len(2) by (simp add: last_slots_def)
  from new_from_kernel_spec[OF inv p(1,2) refl p(3) junk this] None fresh show thesis
    unfolding operator_new_def by fastforce
qed

text \<open>
  C10: \<^verbatim>\<open>find_aperture\<close> returns the least offset at which the requested number of slots is
  free, or 503 when there is none, and \<^verbatim>\<open>find_max_apertsize\<close> returns the length of the
  longest run of free slots; so the second promises what the first finds.
\<close>

theorem aperture_search_correct:
  assumes "0 < n"
  shows "(if n \<le> find_max_apertsize pg
      then free_block (bitmap pg) (find_aperture n pg) n \<and> (\<forall>s < find_aperture n pg. \<not> free_block (bitmap pg) s n)
      else find_aperture n pg = 503) \<and>
    (\<exists>s. free_block (bitmap pg) s (find_max_apertsize pg)) \<and>
    (\<forall>s m. free_block (bitmap pg) s m \<longrightarrow> m \<le> find_max_apertsize pg)"
proof -
  note F = find_aperture_spec[OF assms, of pg] and M = find_max_spec[of pg]
  obtain s where s: "free_block (bitmap pg) s (find_max_apertsize pg)" using M by blast
  have "free_block (bitmap pg) s n" if "n \<le> find_max_apertsize pg" using s that by (auto simp: free_block_def)
  with F M show ?thesis by fastforce
qed

lemma aperture_search_correct_witness:
  "find_max_apertsize \<lparr>bitmap = replicate 8 0, nxt = 0, prv = 0\<rparr> \<ge> 502"
proof -
  have "free_block (replicate 8 0) 0 502"
    by (auto simp: free_block_def used_bit word_index)
  then show ?thesis
    using aperture_search_correct[of 1 "\<lparr>bitmap = replicate 8 0, nxt = 0, prv = 0\<rparr>"] by simp
qed


definition empty_heap :: heap where
  "empty_heap = \<lparr>pages = (\<lambda>_. None), entry = replicate 503 0\<rparr>"

lemma heap_inv_empty: "heap_inv empty_heap"
  unfolding heap_inv_def heap_lists_def linked_def empty_heap_def
  by (intro exI[of _ "\<lambda>_. []"]) simp


lemma new_delete_slots:
  assumes inv: "heap_inv h" and len: "0 < len" "len \<le> 4016"
    and p: "p \<noteq> 0" "p mod 4096 = 0" "pages h p = None" and junk: "length (bitmap junk) = 8"
    and run: "operator_new (Ret p) junk len h = (Ret q, h')"
  shows "\<exists>h'' unmaps. operator_delete q len h' = (Ret (), h'', unmaps) \<and> heap_inv h'' \<and>
    (\<forall>b. \<forall>j < 502. slot_used h'' b j = slot_used h b j)"
proof -
  have cnt: "page_count len = 1" "last_slots len = slot_count len"
  proof -
    show "page_count len = 1" unfolding page_count_def by (rule div_nat_eqI) (use len in simp_all)
    show "last_slots len = slot_count len" using len by (simp add: last_slots_def slot_count_def)
  qed
  have n: "0 < slot_count len" using len(1) by (simp add: slot_count_def div_greater_zero_iff)
  have side: "len mod 4096 \<le> 4016" "pages h (p + 4096 * (page_count len - 1)) = None"
    using len p(3) cnt by simp_all
  show ?thesis using operator_new_cases[OF inv len(1) side(1) p(1,2) side(2) junk]
  proof cases
    case (1 a off h1)
    note page = this
    have q: "q = a + 8 * off" "h' = h1" using run page(1) by simp_all
    have off: "off + slot_count len \<le> 502" using page(5) by (simp add: takes_slots_def)
    then have "off * 8 < 4096" by simp
    then have qm: "q mod 4096 = 8 * off" using page(3) q(1) by (metis mod_add_left_eq add_0 mod_less mult.commute)
    have a0: "a \<noteq> 0"
    proof -
      obtain L where "heap_lists h L" using inv by (auto simp: heap_inv_def)
      then obtain k where "k < 503" "a \<in> set (L k)" "linked h L" using page(4) by (auto simp: heap_lists_def)
      then show ?thesis using chain_nonzero unfolding linked_def by metis
    qed
    have dp: "a = delete_page q len" using qm q(1) cnt by (simp add: delete_page_def)
    have ds: "set (delete_slots q len) = {off..<off + slot_count len}"
      using qm cnt by (simp add: delete_slots_def)
    have P: "pages h1 a \<noteq> None" using page(4,5) by (simp add: takes_slots_def)
    have S: "\<forall>k \<in> set (delete_slots q len). k < 502 \<and> slot_used h1 a k"
      using page(5) off unfolding ds takes_slots_def by auto
    have "len \<noteq> 0" "q \<noteq> 0" using len q a0 by auto
    from operator_delete_spec[OF page(2) this dp refl P S] obtain h'' unmaps where
      D: "operator_delete q len h1 = (Ret (), h'', unmaps)" "heap_inv h''"
      "\<forall>j < 502. slot_used h'' a j \<longleftrightarrow> slot_used h1 a j \<and> j \<notin> set (delete_slots q len)"
      "\<forall>b. b \<noteq> a \<longrightarrow> (\<forall>j. slot_used h'' b j = slot_used h1 b j)" by blast
    have "slot_used h'' b j = slot_used h b j" if "j < 502" for b j
      using D(3,4) page(5) ds that by (cases "b = a") (auto simp: takes_slots_def)
    then show ?thesis using D(1,2) q(2) by blast
  next
    case (2 h1)
    note fresh = this
    have q: "q = p" "h' = h1" using run fresh(1) by simp_all
    have dp: "p = delete_page q len" using p(2) q cnt by (simp add: delete_page_def)
    have ds: "set (delete_slots q len) = {0..<slot_count len}"
      using p(2) q cnt by (simp add: delete_slots_def atLeast0LessThan)
    have le: "slot_count len \<le> 502" using len(2) by (simp add: slot_count_def)
    have f: "\<forall>j < 502. slot_used h1 p j \<longleftrightarrow> j < slot_count len" using fresh(3) cnt by simp
    then have S: "\<forall>k \<in> set (delete_slots q len). k < 502 \<and> slot_used h1 p k" using le by (auto simp: ds)
    have "slot_used h1 p 0" using f n by auto
    then have P: "pages h1 p \<noteq> None" by (auto simp: slot_used_def)
    have "len \<noteq> 0" "q \<noteq> 0" using len q p by auto
    from operator_delete_spec[OF fresh(2) this dp refl P S] obtain h'' unmaps where
      D: "operator_delete q len h1 = (Ret (), h'', unmaps)" "heap_inv h''"
      "\<forall>j < 502. slot_used h'' p j \<longleftrightarrow> slot_used h1 p j \<and> j \<notin> set (delete_slots q len)"
      "\<forall>b. b \<noteq> p \<longrightarrow> (\<forall>j. slot_used h'' b j = slot_used h1 b j)" by blast
    have "\<not> slot_used h p j" for j using p(3) by (simp add: slot_used_def)
    then have "slot_used h'' b j = slot_used h b j" if "j < 502" for b j
      using D(3,4) f ds that fresh(4) cnt by (cases "b = p") auto
    then show ?thesis using D(1,2) q(2) by blast
  qed
qed

text \<open>
  C9: deleting what \<^verbatim>\<open>new\<close> has just returned (up to a page of slots) never reports a double
  delete, keeps the heap well-formed, and leaves every slot of every page as it was before
  the \<^verbatim>\<open>new\<close>; so does \<^verbatim>\<open>free\<close> of what \<^verbatim>\<open>malloc\<close> has returned, which keeps the size in the word
  before the block.
\<close>

theorem new_delete_roundtrip:
  assumes inv: "heap_inv h" and len: "0 < len" "len \<le> 4016"
    and p: "p \<noteq> 0" "p mod 4096 = 0" "pages h p = None" and junk: "length (bitmap junk) = 8"
    and run: "operator_new (Ret p) junk len h = (Ret q, h')"
  shows "(\<exists>h'' unmaps. operator_delete q len h' = (Ret (), h'', unmaps) \<and> heap_inv h'' \<and>
      (\<forall>b. \<forall>j < 502. slot_used h'' b j = slot_used h b j)) \<and>
    (8 \<le> len \<and> q + 8 < 2 ^ 64 \<longrightarrow>
      malloc (Ret p) junk (len - 8) (w, h) = (Ret (q + 8), w(q := len - 8), h') \<and>
      (\<exists>h'' unmaps. malloc_free (q + 8) (w(q := len - 8), h') = (Ret (), (w(q := len - 8), h''), unmaps) \<and>
        heap_inv h'' \<and> (\<forall>b. \<forall>j < 502. slot_used h'' b j = slot_used h b j)))"
proof -
  from new_delete_slots[OF assms] obtain h'' unmaps where d: "operator_delete q len h' = (Ret (), h'', unmaps)"
    and h: "heap_inv h''" "\<forall>b. \<forall>j < 502. slot_used h'' b j = slot_used h b j" by blast
  have "malloc (Ret p) junk (len - 8) (w, h) = (Ret (q + 8), w(q := len - 8), h')" if "8 \<le> len"
    using len(2) that run by (simp add: malloc_def operator_new_array_def)
  moreover have "malloc_free (q + 8) (w(q := len - 8), h') = (Ret (), (w(q := len - 8), h''), unmaps)"
    if "8 \<le> len" "q + 8 < 2 ^ 64"
  proof -
    have "sub64 (q + 8) 8 = q" using that(2) by simp
    moreover have "wrap64 (len - 8 + 8) = len" using that(1) len(2) by simp
    ultimately show ?thesis using d by (simp only: malloc_free_def operator_delete_array_def Let_def fst_conv snd_conv
        fun_upd_same prod.case) simp
  qed
  ultimately show ?thesis using d h by blast
qed

lemma new_delete_roundtrip_witness:
  "\<exists>q h' h'' unmaps. operator_new (Ret 0x10000) \<lparr>bitmap = replicate 8 0, nxt = 0, prv = 0\<rparr> 100 empty_heap = (Ret q, h') \<and>
    operator_delete q 100 h' = (Ret (), h'', unmaps) \<and> heap_inv h''"
proof -
  let ?junk = "\<lparr>bitmap = replicate 8 0, nxt = 0, prv = 0\<rparr> :: smallpage"
  have none: "pages empty_heap a = None" for a by (simp add: empty_heap_def)
  have "\<exists>q h'. operator_new (Ret 0x10000) ?junk 100 empty_heap = (Ret q, h')"
    by (rule operator_new_cases[OF heap_inv_empty, of 100 "0x10000" ?junk]) (simp_all add: none)
  then obtain q h' where run: "operator_new (Ret 0x10000) ?junk 100 empty_heap = (Ret q, h')" by blast
  have "\<exists>h'' unmaps. operator_delete q 100 h' = (Ret (), h'', unmaps) \<and> heap_inv h''"
    using new_delete_roundtrip[OF heap_inv_empty _ _ _ _ none _ run, of "\<lambda>_. 0"] by auto
  with run show ?thesis by blast
qed

text \<open>
  A length in the last bytes before a page boundary indexes \<^verbatim>\<open>_head.entry\<close> out of bounds.
  For 4020 bytes two pages are mapped, but the number of slots used in the last page is
  computed from \<^verbatim>\<open>len % 4096\<close> alone, which gives 503, and \<^verbatim>\<open>502 - num_lastpg\<close> wraps.
\<close>

theorem operator_new_boundary_bug:
  "last_slots 4020 = 503 \<and> page_count 4020 = 2 \<and>
    operator_new (Ret 0x10000) \<lparr>bitmap = replicate 8 0, nxt = 0, prv = 0\<rparr> 4020 empty_heap =
      (Fault ''_head.entry out of bounds'', empty_heap)"
proof -
  have "first_list (slot_count 4020) empty_heap = None"
    by (simp add: first_list_def find_None_iff empty_heap_def slot_count_def)
  then show ?thesis
    by (simp add: operator_new_def new_from_kernel_def last_slots_def page_count_def Let_def)
qed

end
