(* ===== verification/RbMap.thy ===== *)
theory RbMap
  imports Prelude
begin

text \<open>
  The red-black tree and the map of kstdlib/map.hh. A node's parent pointer is the path from
  the node to the root: a location is a subtree with the list of the steps above it, the
  nearest first, and \<^verbatim>\<open>n->parent == nullptr\<close> is the empty path. Storing a subtree into the
  parent's child field (or into \<^verbatim>\<open>root\<close>) is filling the hole of the path. \<^verbatim>\<open>nullptr\<close> is
  \<open>Leaf\<close>; dereferencing it is a fault. The values are pairs, compared by their keys.
\<close>

datatype color = RED | BLACK

datatype 'a node = Leaf | Node (colo: color) (left: "'a node") (val: 'a) (right: "'a node")

datatype 'a crumb =
    InLeft color 'a "'a node"
  | InRight color "'a node" 'a

type_synonym 'a path = "'a crumb list"

definition pair_less :: "'k :: linorder \<times> 'v \<Rightarrow> 'k \<times> 'v \<Rightarrow> bool" where
  "pair_less p q \<longleftrightarrow> fst p < fst q"

fun fill :: "'a node \<Rightarrow> 'a crumb \<Rightarrow> 'a node" where
  "fill n (InLeft c v r) = Node c n v r"
| "fill n (InRight c l v) = Node c l v n"

fun plug :: "'a node \<Rightarrow> 'a path \<Rightarrow> 'a node" where
  "plug n [] = n"
| "plug n (s # path) = plug (fill n s) path"

fun crumb_colo :: "'a crumb \<Rightarrow> color" where
  "crumb_colo (InLeft c v r) = c"
| "crumb_colo (InRight c l v) = c"

fun paint :: "color \<Rightarrow> 'a node \<Rightarrow> 'a node" where
  "paint c Leaf = Leaf"
| "paint c (Node _ l v r) = Node c l v r"

fun paint_crumb :: "color \<Rightarrow> 'a crumb \<Rightarrow> 'a crumb" where
  "paint_crumb c (InLeft _ v r) = InLeft c v r"
| "paint_crumb c (InRight _ l v) = InRight c l v"

definition red :: "'a node \<Rightarrow> bool" where
  "red n \<longleftrightarrow> n \<noteq> Leaf \<and> colo n = RED"

section \<open>Rotations, insertion\<close>

text \<open>The subtree that takes the place of \<open>n\<close>; \<open>None\<close> where the code dereferences null.\<close>

fun rotate_left :: "'a node \<Rightarrow> 'a node option" where
  "rotate_left (Node c a n (Node c' b y d)) = Some (Node c' (Node c a n b) y d)"
| "rotate_left _ = None"

fun rotate_right :: "'a node \<Rightarrow> 'a node option" where
  "rotate_right (Node c (Node c' a y b) n d) = Some (Node c' a y (Node c b n d))"
| "rotate_right _ = None"

text \<open>\<^verbatim>\<open>root->colo = BLACK\<close>\<close>

fun blacken :: "'a node option \<Rightarrow> 'a path \<Rightarrow> 'a node outcome" where
  "blacken None path = Fault ''null node''"
| "blacken (Some n) path =
    (case plug n path of Leaf \<Rightarrow> Fault ''null node'' | Node c l v r \<Rightarrow> Ret (Node BLACK l v r))"

text \<open>
  One turn of the loop, \<open>s\<close> being the step from \<open>n\<close> to its parent. After the rotations
  \<open>n\<close>'s parent is black and the loop ends.
\<close>

definition rotate_under_left :: "'a node \<Rightarrow> 'a crumb \<Rightarrow> 'a \<Rightarrow> 'a node \<Rightarrow> 'a node option" where
  "rotate_under_left n s g y =
    (case (case s of InRight c l p \<Rightarrow> rotate_left (Node c l p n) | InLeft c p r \<Rightarrow> Some (Node c n p r)) of
       None \<Rightarrow> None
     | Some p \<Rightarrow> rotate_right (Node RED (paint BLACK p) g y))"

definition rotate_under_right :: "'a node \<Rightarrow> 'a crumb \<Rightarrow> 'a node \<Rightarrow> 'a \<Rightarrow> 'a node option" where
  "rotate_under_right n s y g =
    (case (case s of InLeft c p r \<Rightarrow> rotate_right (Node c n p r) | InRight c l p \<Rightarrow> Some (Node c l p n)) of
       None \<Rightarrow> None
     | Some p \<Rightarrow> rotate_left (Node RED y g (paint BLACK p)))"

fun insert_fixup :: "'a node \<Rightarrow> 'a path \<Rightarrow> 'a node outcome" where
  "insert_fixup n [] = blacken (Some n) []"
| "insert_fixup n [s] = (if crumb_colo s = RED then Fault ''null node'' else blacken (Some n) [s])"
| "insert_fixup n (s # InLeft c g y # path) =
    (if crumb_colo s = RED then
       if red y then insert_fixup (Node RED (fill n (paint_crumb BLACK s)) g (paint BLACK y)) path
       else blacken (rotate_under_left n s g y) path
     else blacken (Some n) (s # InLeft c g y # path))"
| "insert_fixup n (s # InRight c y g # path) =
    (if crumb_colo s = RED then
       if red y then insert_fixup (Node RED (paint BLACK y) g (fill n (paint_crumb BLACK s))) path
       else blacken (rotate_under_right n s y g) path
     else blacken (Some n) (s # InRight c y g # path))"

text \<open>The walk down to the place of the new node.\<close>

fun insert_place :: "'k :: linorder \<times> 'v \<Rightarrow> ('k \<times> 'v) node \<Rightarrow> ('k \<times> 'v) path \<Rightarrow> ('k \<times> 'v) path" where
  "insert_place v Leaf path = path"
| "insert_place v (Node c l y r) path =
    (if pair_less v y then insert_place v l (InLeft c y r # path)
     else insert_place v r (InRight c l y # path))"

definition tree_insert :: "'k :: linorder \<times> 'v \<Rightarrow> ('k \<times> 'v) node \<Rightarrow> ('k \<times> 'v) node outcome" where
  "tree_insert v root = insert_fixup (Node RED Leaf v Leaf) (insert_place v root [])"

fun find_node :: "'k :: linorder \<times> 'v \<Rightarrow> ('k \<times> 'v) node \<Rightarrow> ('k \<times> 'v) path \<Rightarrow>
    (('k \<times> 'v) node \<times> ('k \<times> 'v) path) option" where
  "find_node v Leaf path = None"
| "find_node v (Node c l y r) path =
    (if pair_less v y then find_node v l (InLeft c y r # path)
     else if pair_less y v then find_node v r (InRight c l y # path)
     else Some (Node c l y r, path))"

section \<open>Erasing\<close>

text \<open>
  One turn of \<^verbatim>\<open>erase_fixup\<close> below its parent, after a red sibling has been rotated away:
  \<open>Up p\<close> is \<^verbatim>\<open>n = n->parent\<close> with the parent's subtree \<open>p\<close>, \<open>Top p\<close> is \<^verbatim>\<open>n = root\<close>.
\<close>

datatype 'a turn = Up "'a node" | Top "'a node"

definition sibling_right :: "'a node \<Rightarrow> color \<Rightarrow> 'a \<Rightarrow> 'a node \<Rightarrow> 'a turn option" where
  "sibling_right n pc p w =
    (case w of
       Leaf \<Rightarrow> None
     | Node wc wl wv wr \<Rightarrow>
         if wl = Leaf then None
         else if colo wl = BLACK \<and> wr = Leaf then None
         else if colo wl = BLACK \<and> colo wr = BLACK then Some (Up (Node pc n p (Node RED wl wv wr)))
         else if wr = Leaf then None
         else
           (case (if colo wr = BLACK then rotate_right (Node RED (paint BLACK wl) wv wr) else Some w) of
              None \<Rightarrow> None
            | Some w \<Rightarrow>
                (case w of
                   Leaf \<Rightarrow> None
                 | Node wc wl wv wr \<Rightarrow>
                     if wr = Leaf then None
                     else (case rotate_left (Node BLACK n p (Node pc wl wv (paint BLACK wr))) of
                         None \<Rightarrow> None | Some t \<Rightarrow> Some (Top t)))))"

definition sibling_left :: "'a node \<Rightarrow> color \<Rightarrow> 'a \<Rightarrow> 'a node \<Rightarrow> 'a turn option" where
  "sibling_left n pc p w =
    (case w of
       Leaf \<Rightarrow> None
     | Node wc wl wv wr \<Rightarrow>
         if wr = Leaf then None
         else if colo wr = BLACK \<and> wl = Leaf then None
         else if colo wr = BLACK \<and> colo wl = BLACK then Some (Up (Node pc (Node RED wl wv wr) p n))
         else if wl = Leaf then None
         else
           (case (if colo wl = BLACK then rotate_left (Node RED wl wv (paint BLACK wr)) else Some w) of
              None \<Rightarrow> None
            | Some w \<Rightarrow>
                (case w of
                   Leaf \<Rightarrow> None
                 | Node wc wl wv wr \<Rightarrow>
                     if wl = Leaf then None
                     else (case rotate_right (Node BLACK (Node pc (paint BLACK wl) wv wr) p n) of
                         None \<Rightarrow> None | Some t \<Rightarrow> Some (Top t)))))"

text \<open>
  The whole turn. With a red sibling \<open>w\<close>, the parent is first rotated below \<open>w\<close>, so that
  \<open>n\<close> has one more step above it.
\<close>

definition erase_turn :: "'a node \<Rightarrow> 'a crumb \<Rightarrow> 'a path \<Rightarrow> ('a turn \<times> 'a path) option" where
  "erase_turn n s path =
    (case s of
       InLeft pc p w \<Rightarrow>
         if w = Leaf then None
         else if colo w = RED then
           (case rotate_left (Node RED n p (paint BLACK w)) of
              Some (Node c (Node pc' n' p' w') v r) \<Rightarrow>
                map_option (\<lambda>t. (t, InLeft c v r # path)) (sibling_right n' pc' p' w')
            | _ \<Rightarrow> None)
         else map_option (\<lambda>t. (t, path)) (sibling_right n pc p w)
     | InRight pc w p \<Rightarrow>
         if w = Leaf then None
         else if colo w = RED then
           (case rotate_right (Node RED (paint BLACK w) p n) of
              Some (Node c l v (Node pc' w' p' n')) \<Rightarrow>
                map_option (\<lambda>t. (t, InRight c l v # path)) (sibling_left n' pc' p' w')
            | _ \<Rightarrow> None)
         else map_option (\<lambda>t. (t, path)) (sibling_left n pc p w))"

lemma rotate_left_Some: "rotate_left t = Some u \<Longrightarrow>
    \<exists>c a n c' b y d. t = Node c a n (Node c' b y d) \<and> u = Node c' (Node c a n b) y d"
  by (cases t rule: rotate_left.cases) auto

lemma rotate_right_Some: "rotate_right t = Some u \<Longrightarrow>
    \<exists>c a y b n c' d. t = Node c (Node c' a y b) n d \<and> u = Node c' a y (Node c b n d)"
  by (cases t rule: rotate_right.cases) auto

lemma sibling_right_Up: "sibling_right n pc p w = Some (Up t) \<Longrightarrow> t \<noteq> Leaf \<and> colo t = pc"
  by (auto simp: sibling_right_def split: node.splits if_splits option.splits)

lemma sibling_left_Up: "sibling_left n pc p w = Some (Up t) \<Longrightarrow> t \<noteq> Leaf \<and> colo t = pc"
  by (auto simp: sibling_left_def split: node.splits if_splits option.splits)

lemma erase_turn_Up:
  assumes "erase_turn n s path = Some (Up t, path')"
  shows "length path' \<le> length path \<or> length path' = Suc (length path) \<and> t \<noteq> Leaf \<and> colo t = RED"
  using assms by (auto simp: erase_turn_def split: crumb.splits if_splits option.splits node.splits
      dest!: rotate_left_Some rotate_right_Some dest: sibling_right_Up sibling_left_Up)

function erase_fixup :: "'a node \<Rightarrow> 'a path \<Rightarrow> 'a node outcome" where
  "erase_fixup n path =
    (if n = Leaf then Fault ''null node''
     else if path \<noteq> [] \<and> colo n = BLACK then
       (case erase_turn n (hd path) (tl path) of
          None \<Rightarrow> Fault ''null node''
        | Some (Up p, path') \<Rightarrow> erase_fixup p path'
        | Some (Top t, path') \<Rightarrow> blacken (Some t) path')
     else Ret (plug (paint BLACK n) path))"
  by pat_completeness auto
termination
proof (relation "measure (\<lambda>(n, path). 2 * length path + (if n \<noteq> Leaf \<and> colo n = BLACK then 1 else 0))", goal_cases)
  case (2 n path xa x y p)
  then have "erase_turn n (hd path) (tl path) = Some (Up p, y)" by simp
  from erase_turn_Up[OF this] 2 show ?case by (cases path) auto
qed simp

declare erase_fixup.simps [simp del]

fun leftmost :: "'a node \<Rightarrow> 'a path \<Rightarrow> 'a node \<times> 'a path" where
  "leftmost (Node c (Node c' l' v' r') v r) path = leftmost (Node c' l' v' r') (InLeft c v r # path)"
| "leftmost n path = (n, path)"

text \<open>
  \<^verbatim>\<open>transplant\<close> fills the hole of the removed node; the in-order successor \<open>y\<close> takes over the
  node's children and colour.
\<close>

definition tree_erase :: "'k :: linorder \<times> 'v \<Rightarrow> ('k \<times> 'v) node \<Rightarrow> ('k \<times> 'v) node outcome" where
  "tree_erase v root =
    (case find_node v root [] of
       None \<Rightarrow> Ret root
     | Some (n, path) \<Rightarrow>
         (case
            (if left n = Leaf then (colo n, right n, path)
             else if right n = Leaf then (colo n, left n, path)
             else (case leftmost (right n) [] of (y, ypath) \<Rightarrow>
               (colo y, right y, ypath @ InRight (colo n) (left n) (val y) # path)))
          of (y_original_color, x, xpath) \<Rightarrow>
            if y_original_color = BLACK then erase_fixup x xpath else Ret (plug x xpath)))"

section \<open>The map\<close>

definition map_insert :: "'k :: linorder \<Rightarrow> 'v \<Rightarrow> ('k \<times> 'v) node \<Rightarrow> ('k \<times> 'v) node outcome" where
  "map_insert k v tree = tree_insert (k, v) tree"

definition map_erase :: "'k :: linorder \<Rightarrow> ('k \<times> 'v) node \<Rightarrow> ('k \<times> 'v) node outcome" where
  "map_erase k tree = tree_erase (k, undefined) tree"

definition map_at :: "'k :: linorder \<Rightarrow> ('k \<times> 'v) node \<Rightarrow> 'v outcome" where
  "map_at k tree =
    (case find_node (k, undefined) tree [] of
       None \<Rightarrow> Throw (Logic_error ''Key not found'')
     | Some (n, _) \<Rightarrow> Ret (snd (val n)))"

definition map_contains :: "'k :: linorder \<Rightarrow> ('k \<times> 'v) node \<Rightarrow> bool" where
  "map_contains k tree \<longleftrightarrow> find_node (k, undefined) tree [] \<noteq> None"

definition map_empty :: "('k \<times> 'v) node \<Rightarrow> bool" where
  "map_empty tree \<longleftrightarrow> tree = Leaf"

text \<open>
  \<^verbatim>\<open>operator[]\<close>: the tree afterwards and the location of the entry; a new entry's value is
  not initialised, \<open>junk\<close>. Assigning through the reference stores at the location.
\<close>

definition map_index :: "'v \<Rightarrow> 'k :: linorder \<Rightarrow> ('k \<times> 'v) node \<Rightarrow>
    (('k \<times> 'v) node \<times> ('k \<times> 'v) path) outcome" where
  "map_index junk k tree =
    (case find_node (k, junk) tree [] of
       Some loc \<Rightarrow> Ret loc
     | None \<Rightarrow>
         (case tree_insert (k, junk) tree of
            Ret tree \<Rightarrow>
              (case find_node (k, junk) tree [] of None \<Rightarrow> Fault ''null node'' | Some loc \<Rightarrow> Ret loc)
          | Throw e \<Rightarrow> Throw e | Fault f \<Rightarrow> Fault f | Hang \<Rightarrow> Hang))"

fun store_at :: "'v \<Rightarrow> ('k \<times> 'v) node \<times> ('k \<times> 'v) path \<Rightarrow> ('k \<times> 'v) node" where
  "store_at v (Leaf, path) = plug Leaf path"
| "store_at v (Node c l kv r, path) = plug (Node c l (fst kv, v) r) path"

definition map_assign :: "'v \<Rightarrow> 'k :: linorder \<Rightarrow> 'v \<Rightarrow> ('k \<times> 'v) node \<Rightarrow> ('k \<times> 'v) node outcome" where
  "map_assign junk k v tree =
    (case map_index junk k tree of
       Ret loc \<Rightarrow> Ret (store_at v loc) | Throw e \<Rightarrow> Throw e | Fault f \<Rightarrow> Fault f | Hang \<Rightarrow> Hang)"

section \<open>Order and colours\<close>

fun inorder :: "'a node \<Rightarrow> 'a list" where
  "inorder Leaf = []"
| "inorder (Node c l v r) = inorder l @ v # inorder r"

fun before :: "'a path \<Rightarrow> 'a list" where
  "before [] = []"
| "before (InLeft c v r # path) = before path"
| "before (InRight c l v # path) = before path @ inorder l @ [v]"

fun after :: "'a path \<Rightarrow> 'a list" where
  "after [] = []"
| "after (InLeft c v r # path) = v # inorder r @ after path"
| "after (InRight c l v # path) = after path"

lemma inorder_fill: "inorder (fill n s) = before [s] @ inorder n @ after [s]"
  by (cases s) auto

lemma before_Cons: "before (s # path) = before path @ before [s]"
  by (cases s) auto

lemma after_Cons: "after (s # path) = after [s] @ after path"
  by (cases s) auto

lemma before_append: "before (p @ q) = before q @ before p"
proof (induction p)
  case (Cons a p)
  then show ?case using before_Cons[of a p] before_Cons[of a "p @ q"] by simp
qed simp

lemma after_append: "after (p @ q) = after p @ after q"
proof (induction p)
  case (Cons a p)
  then show ?case using after_Cons[of a p] after_Cons[of a "p @ q"] by simp
qed simp

lemma inorder_plug: "inorder (plug n path) = before path @ inorder n @ after path"
proof (induction path arbitrary: n)
  case (Cons s path)
  then show ?case using before_Cons[of s path] after_Cons[of s path] by (simp add: inorder_fill)
qed simp

lemma plug_append: "plug n (p @ q) = plug (plug n p) q"
  by (induction p arbitrary: n) auto

lemma inorder_paint [simp]: "inorder (paint c n) = inorder n"
  by (cases n) auto

fun bheight :: "'a node \<Rightarrow> nat" where
  "bheight Leaf = 0"
| "bheight (Node c l v r) = bheight l + (if c = BLACK then 1 else 0)"

fun invh :: "'a node \<Rightarrow> bool" where
  "invh Leaf = True"
| "invh (Node c l v r) \<longleftrightarrow> invh l \<and> invh r \<and> bheight l = bheight r"

fun invc :: "'a node \<Rightarrow> bool" where
  "invc Leaf = True"
| "invc (Node c l v r) \<longleftrightarrow> invc l \<and> invc r \<and> (c = RED \<longrightarrow> \<not> red l \<and> \<not> red r)"

definition rbt :: "'a node \<Rightarrow> bool" where
  "rbt t \<longleftrightarrow> invc t \<and> invh t \<and> \<not> red t"

text \<open>The parent exists and is black, or there is none and it does not matter.\<close>

definition under_black :: "'a path \<Rightarrow> bool" where
  "under_black path \<longleftrightarrow> path \<noteq> [] \<and> crumb_colo (hd path) = BLACK"

fun sibling :: "'a crumb \<Rightarrow> 'a node" where
  "sibling (InLeft c v r) = r"
| "sibling (InRight c l v) = l"

fun path_ok :: "nat \<Rightarrow> 'a path \<Rightarrow> bool" where
  "path_ok h [] = True"
| "path_ok h (s # path) \<longleftrightarrow> invc (sibling s) \<and> invh (sibling s) \<and> bheight (sibling s) = h \<and>
    (crumb_colo s = RED \<longrightarrow> \<not> red (sibling s) \<and> under_black path) \<and>
    path_ok (if crumb_colo s = BLACK then Suc h else h) path"

lemma red_simps [simp]: "\<not> red Leaf" "red (Node c l v r) \<longleftrightarrow> c = RED"
  by (simp_all add: red_def)

lemma colo_BLACK [simp]: "c \<noteq> RED \<longleftrightarrow> c = BLACK" "c \<noteq> BLACK \<longleftrightarrow> c = RED"
  by (cases c; simp)+

lemma under_black_simps [simp]:
  "\<not> under_black []" "under_black (s # path) \<longleftrightarrow> crumb_colo s = BLACK"
  by (simp_all add: under_black_def)

lemma paint_red [simp]: "red (paint c n) \<longleftrightarrow> n \<noteq> Leaf \<and> c = RED"
  by (cases n) auto

lemma plug_rbt:
  assumes "path_ok (bheight n) path" "invc n" "invh n" "red n \<longrightarrow> under_black path"
  shows "rbt (plug n path)"
  using assms
proof (induction path arbitrary: n)
  case Nil
  then show ?case by (simp add: rbt_def)
next
  case (Cons s path)
  show ?case unfolding plug.simps
    by (rule Cons.IH) (use Cons.prems in \<open>cases s; auto split: if_splits\<close>)+
qed

lemma blacken_rbt:
  assumes "path_ok (bheight n) path" "invc n" "invh n" "n \<noteq> Leaf" "red n \<longrightarrow> path = [] \<or> under_black path"
  shows "\<exists>t. blacken (Some n) path = Ret t \<and> rbt t \<and> inorder t = before path @ inorder n @ after path"
proof (cases "path = []")
  case True
  then show ?thesis using assms by (cases n) (auto simp: rbt_def)
next
  case False
  have r: "rbt (plug n path)" by (rule plug_rbt) (use assms False in auto)
  have "plug n path \<noteq> Leaf"
    using inorder_plug[of n path] assms(4) by (cases n) auto
  then obtain c l v r where t: "plug n path = Node c l v r" by (cases "plug n path") auto
  then show ?thesis using r inorder_plug[of n path] by (auto simp: rbt_def)
qed

lemma rotate_under_left_spec:
  assumes "invc n" "invh n" "red n" "bheight n = h" "n \<noteq> Leaf" "path_ok h (s # InLeft c g y # path)"
    "crumb_colo s = RED" "\<not> red y"
  shows "\<exists>t. rotate_under_left n s g y = Some t \<and> invc t \<and> invh t \<and> \<not> red t \<and> t \<noteq> Leaf \<and> bheight t = Suc h \<and>
    inorder t = before [s] @ inorder n @ after [s] @ g # inorder y"
  using assms by (cases s; cases n) (auto simp: rotate_under_left_def split: if_splits)

lemma rotate_under_right_spec:
  assumes "invc n" "invh n" "red n" "bheight n = h" "n \<noteq> Leaf" "path_ok h (s # InRight c y g # path)"
    "crumb_colo s = RED" "\<not> red y"
  shows "\<exists>t. rotate_under_right n s y g = Some t \<and> invc t \<and> invh t \<and> \<not> red t \<and> t \<noteq> Leaf \<and> bheight t = Suc h \<and>
    inorder t = inorder y @ g # before [s] @ inorder n @ after [s]"
  using assms by (cases s; cases n) (auto simp: rotate_under_right_def split: if_splits)

lemma insert_fixup_spec:
  assumes "path_ok (bheight n) path" "invc n" "invh n" "red n" "n \<noteq> Leaf"
  shows "\<exists>t. insert_fixup n path = Ret t \<and> rbt t \<and> inorder t = before path @ inorder n @ after path"
  using assms
proof (induction n path rule: insert_fixup.induct)
  case (1 n)
  then show ?case using blacken_rbt[of n "[]"] by auto
next
  case (2 n s)
  then show ?case using blacken_rbt[of n "[s]"] by auto
next
  case (3 n s c g y path)
  let ?up = "Node RED (fill n (paint_crumb BLACK s)) g (paint BLACK y)"
  consider "crumb_colo s = BLACK" | "crumb_colo s = RED" "red y" | "crumb_colo s = RED" "\<not> red y"
    by (cases "crumb_colo s") auto
  then show ?case
  proof cases
    case 1
    then show ?thesis using blacken_rbt[of n "s # InLeft c g y # path"] "3.prems" by auto
  next
    case 2
    have "path_ok (bheight ?up) path \<and> invc ?up \<and> invh ?up"
      using "3.prems" 2 by (cases s; cases y; auto)
    then obtain t where "insert_fixup ?up path = Ret t" "rbt t" "inorder t = before path @ inorder ?up @ after path"
      using "3.IH"[OF 2] by auto
    then show ?thesis using 2 by (cases s) auto
  next
    case b: 3
    from rotate_under_left_spec[OF "3.prems"(2-4) refl "3.prems"(5,1) b] obtain t where
      t: "rotate_under_left n s g y = Some t" "invc t" "invh t" "\<not> red t" "t \<noteq> Leaf" "bheight t = Suc (bheight n)"
      "inorder t = before [s] @ inorder n @ after [s] @ g # inorder y" by blast
    have "path_ok (bheight t) path" using "3.prems"(1) b t(6) by auto
    from blacken_rbt[OF this t(2,3,5)] t b show ?thesis
      using before_Cons[of s "InLeft c g y # path"] after_Cons[of s "InLeft c g y # path"] by auto
  qed
next
  case (4 n s c y g path)
  let ?up = "Node RED (paint BLACK y) g (fill n (paint_crumb BLACK s))"
  consider "crumb_colo s = BLACK" | "crumb_colo s = RED" "red y" | "crumb_colo s = RED" "\<not> red y"
    by (cases "crumb_colo s") auto
  then show ?case
  proof cases
    case 1
    then show ?thesis using blacken_rbt[of n "s # InRight c y g # path"] "4.prems" by auto
  next
    case 2
    have "path_ok (bheight ?up) path \<and> invc ?up \<and> invh ?up"
      using "4.prems" 2 by (cases s; cases y; auto)
    then obtain t where "insert_fixup ?up path = Ret t" "rbt t" "inorder t = before path @ inorder ?up @ after path"
      using "4.IH"[OF 2] by auto
    then show ?thesis using 2 by (cases s) auto
  next
    case b: 3
    from rotate_under_right_spec[OF "4.prems"(2-4) refl "4.prems"(5,1) b] obtain t where
      t: "rotate_under_right n s y g = Some t" "invc t" "invh t" "\<not> red t" "t \<noteq> Leaf" "bheight t = Suc (bheight n)"
      "inorder t = inorder y @ g # before [s] @ inorder n @ after [s]" by blast
    have "path_ok (bheight t) path" using "4.prems"(1) b t(6) by auto
    from blacken_rbt[OF this t(2,3,5)] t b show ?thesis
      using before_Cons[of s "InRight c y g # path"] after_Cons[of s "InRight c y g # path"] by auto
  qed
qed

section \<open>Places in a search tree\<close>

definition loc_ok :: "'a node \<Rightarrow> 'a path \<Rightarrow> bool" where
  "loc_ok n path \<longleftrightarrow> path_ok (bheight n) path \<and> invc n \<and> invh n \<and> (red n \<longrightarrow> under_black path)"

lemma loc_ok_root: "rbt t \<Longrightarrow> loc_ok t []"
  by (simp add: rbt_def loc_ok_def)

lemma loc_ok_left: "loc_ok (Node c l y r) path \<Longrightarrow> loc_ok l (InLeft c y r # path)"
  by (cases c) (auto simp: loc_ok_def)

lemma loc_ok_right: "loc_ok (Node c l y r) path \<Longrightarrow> loc_ok r (InRight c l y # path)"
  by (cases c) (auto simp: loc_ok_def)

definition bst :: "('k :: linorder \<times> 'v) node \<Rightarrow> bool" where
  "bst t \<longleftrightarrow> sorted_wrt pair_less (inorder t)"

lemma pair_less_trans: "pair_less x y \<Longrightarrow> pair_less y z \<Longrightarrow> pair_less x z"
  by (simp add: pair_less_def)

lemma bst_Node: "bst (Node c l v r) \<longleftrightarrow> bst l \<and> bst r \<and> (\<forall>x \<in> set (inorder l). pair_less x v) \<and>
    (\<forall>x \<in> set (inorder r). pair_less v x)"
  by (auto simp: bst_def sorted_wrt_append intro: pair_less_trans)

lemma insert_place_spec:
  assumes "loc_ok t path" "bst t"
  shows "path_ok 0 (insert_place v t path) \<and>
    before (insert_place v t path) = before path @ takeWhile (\<lambda>y. \<not> pair_less v y) (inorder t) \<and>
    after (insert_place v t path) = dropWhile (\<lambda>y. \<not> pair_less v y) (inorder t) @ after path"
  using assms
proof (induction v t path rule: insert_place.induct)
  case (1 v path)
  then show ?case by (simp add: loc_ok_def)
next
  case (2 v c l y r path)
  have b: "bst l" "bst r" "\<And>x. x \<in> set (inorder l) \<Longrightarrow> pair_less x y" "\<And>x. x \<in> set (inorder r) \<Longrightarrow> pair_less y x"
    using 2(4) by (auto simp: bst_Node)
  show ?case
  proof (cases "pair_less v y")
    case True
    then show ?thesis using 2(1)[OF True loc_ok_left[OF 2(3)] b(1)]
      by (simp add: takeWhile_append dropWhile_append)
  next
    case False
    then have "\<forall>x \<in> set (inorder l). \<not> pair_less v x" using b(3) pair_less_trans by blast
    then show ?thesis using 2(2)[OF False loc_ok_right[OF 2(3)] b(2)] False
      by (simp add: takeWhile_append2 dropWhile_append2)
  qed
qed

lemma tree_insert_spec:
  assumes "rbt t" "bst t"
  shows "\<exists>t'. tree_insert v t = Ret t' \<and> rbt t' \<and> inorder t' =
    takeWhile (\<lambda>y. \<not> pair_less v y) (inorder t) @ v # dropWhile (\<lambda>y. \<not> pair_less v y) (inorder t)"
proof -
  note I = insert_place_spec[OF loc_ok_root[OF assms(1)] assms(2), of v]
  have "\<exists>t'. insert_fixup (Node RED Leaf v Leaf) (insert_place v t []) = Ret t' \<and> rbt t' \<and>
      inorder t' = before (insert_place v t []) @ inorder (Node RED Leaf v Leaf) @ after (insert_place v t [])"
    by (rule insert_fixup_spec) (use I in simp_all)
  then show ?thesis using I by (simp add: tree_insert_def)
qed

lemma sorted_middle:
  "sorted_wrt R (a @ b) \<Longrightarrow> (\<And>x. x \<in> set a \<Longrightarrow> R x m) \<Longrightarrow> (\<And>x. x \<in> set b \<Longrightarrow> R m x) \<Longrightarrow>
    sorted_wrt R (a @ m # b)"
  by (auto simp: sorted_wrt_append)

lemma map_of_filter_key: "map_of (filter (\<lambda>e. fst e \<noteq> k) xs) = (map_of xs)(k := None)"
  by (induction xs) (auto simp: fun_eq_iff)

definition entries :: "('k \<times> 'v) node \<Rightarrow> 'k \<Rightarrow> 'v option" where
  "entries t = map_of (inorder t)"

lemma bst_distinct: "bst t \<Longrightarrow> distinct (map fst (inorder t))"
proof -
  have "sorted_wrt pair_less xs \<Longrightarrow> distinct (map fst xs)" for xs :: "('a \<times> 'b) list"
    by (induction xs) (force simp: pair_less_def)+
  then show "bst t \<Longrightarrow> ?thesis" unfolding bst_def by blast
qed

lemma map_of_middle:
  "k \<notin> fst ` set a \<Longrightarrow> map_of (a @ (k, u) # b) = (map_of (a @ b))(k \<mapsto> u)"
  by (induction a) (auto simp: fun_eq_iff)

lemma find_node_Some:
  assumes "find_node v t path = Some (n, path')"
  shows "plug n path' = plug t path \<and> n \<noteq> Leaf \<and> fst (val n) = fst v \<and> (loc_ok t path \<longrightarrow> loc_ok n path')"
  using assms
proof (induction v t path rule: find_node.induct)
  case (2 v c l y r path)
  then show ?case
    by (auto simp: pair_less_def split: if_splits dest: loc_ok_left loc_ok_right)
qed simp

lemma find_node_None: "bst t \<Longrightarrow> find_node v t path = None \<longleftrightarrow> fst v \<notin> fst ` set (inorder t)"
proof (induction v t path rule: find_node.induct)
  case (2 v c l y r path)
  have b: "bst l" "bst r" "\<And>x. x \<in> set (inorder l) \<Longrightarrow> pair_less x y" "\<And>x. x \<in> set (inorder r) \<Longrightarrow> pair_less y x"
    using 2(3) by (auto simp: bst_Node)
  consider "pair_less v y" | "pair_less y v" | "fst v = fst y" unfolding pair_less_def by (rule linorder_cases)
  then show ?case
  proof cases
    case 1
    then have "fst v \<noteq> fst y" "fst v \<notin> fst ` set (inorder r)" using b(4) by (force simp: pair_less_def)+
    then show ?thesis using 1 2(1)[OF 1 b(1)] by auto
  next
    case 2: 2
    then have "\<not> pair_less v y" "fst v \<noteq> fst y" "fst v \<notin> fst ` set (inorder l)"
      using b(3) by (force simp: pair_less_def)+
    then show ?thesis using 2 "2.IH"(2)[OF _ 2 b(2)] by auto
  qed (auto simp: pair_less_def)
qed simp

lemma find_node_entries:
  assumes "bst t" "find_node (k, x) t [] = Some (n, path)"
  shows "entries t k = Some (snd (val n))"
proof -
  have f: "plug n path = t" "n \<noteq> Leaf" "fst (val n) = k" using find_node_Some[OF assms(2)] by auto
  then have "(k, snd (val n)) \<in> set (inorder t)"
    using inorder_plug[of n path] by (cases n) (auto simp: prod_eq_iff)
  then show ?thesis using bst_distinct[OF assms(1)] by (simp add: entries_def map_of_eq_Some_iff)
qed

lemma entries_None: "bst t \<Longrightarrow> entries t k = None \<longleftrightarrow> find_node (k, x) t [] = None"
  by (auto simp: entries_def map_of_eq_None_iff find_node_None)

lemma map_at_spec:
  assumes "bst t"
  shows "map_at k t = (case entries t k of None \<Rightarrow> Throw (Logic_error ''Key not found'') | Some v \<Rightarrow> Ret v)"
  using assms entries_None[OF assms, of k undefined] find_node_entries[OF assms, of k undefined]
  by (auto simp: map_at_def split: option.splits)

lemma map_contains_spec: "bst t \<Longrightarrow> map_contains k t \<longleftrightarrow> entries t k \<noteq> None"
  by (simp add: map_contains_def entries_None[of _ _ undefined])

section \<open>Assigning an entry\<close>

text \<open>Painting and storing keep the shape; a stored value keeps its key.\<close>

lemma store_shape:
  "bheight (Node c l kv r) = bheight (Node c l kv' r)" "invc (Node c l kv r) = invc (Node c l kv' r)"
  "invh (Node c l kv r) = invh (Node c l kv' r)"
  by simp_all

lemma map_index_spec:
  assumes "rbt t" "bst t"
  shows "\<exists>n path. map_index junk k t = Ret (n, path) \<and> loc_ok n path \<and> n \<noteq> Leaf \<and> fst (val n) = k \<and>
    bst (plug n path) \<and> entries (plug n path) = (case entries t k of None \<Rightarrow> (entries t)(k \<mapsto> junk) | Some _ \<Rightarrow> entries t)"
proof (cases "find_node (k, junk) t []")
  case (Some loc)
  then obtain n path where loc: "loc = (n, path)" "find_node (k, junk) t [] = Some (n, path)" by (cases loc) auto
  from find_node_Some[OF loc(2)] have F: "plug n path = t" "n \<noteq> Leaf" "fst (val n) = k" "loc_ok n path"
    using loc_ok_root[OF assms(1)] by auto
  then show ?thesis using assms loc find_node_entries[OF assms(2) loc(2)] by (simp add: map_index_def)
next
  case None
  then have no: "k \<notin> fst ` set (inorder t)" using find_node_None[OF assms(2), of "(k, junk)" "[]"] by simp
  from tree_insert_spec[OF assms, of "(k, junk)"] obtain t' where
    T: "tree_insert (k, junk) t = Ret t'" "rbt t'" and io: "inorder t' = takeWhile (\<lambda>y. \<not> pair_less (k, junk) y) (inorder t) @
      (k, junk) # dropWhile (\<lambda>y. \<not> pair_less (k, junk) y) (inorder t)" by blast
  let ?a = "takeWhile (\<lambda>y. \<not> pair_less (k, junk) y) (inorder t)" and ?b = "dropWhile (\<lambda>y. \<not> pair_less (k, junk) y) (inorder t)"
  have ab: "inorder t = ?a @ ?b" by simp
  have srt: "sorted_wrt pair_less (?a @ ?b)" using assms(2) by (simp add: bst_def)
  have "pair_less x (k, junk)" if "x \<in> set ?a" for x
  proof -
    have "\<not> pair_less (k, junk) x" "x \<in> set (inorder t)" using that by (auto dest: set_takeWhileD)
    moreover from this(2) no have "fst x \<noteq> k" by force
    ultimately show ?thesis by (auto simp: pair_less_def)
  qed
  moreover have "pair_less (k, junk) x" if "x \<in> set ?b" for x
  proof (cases ?b)
    case (Cons y ys)
    then have y: "pair_less (k, junk) y" using hd_dropWhile[of "\<lambda>y. \<not> pair_less (k, junk) y" "inorder t"] by force
    have "sorted_wrt pair_less (y # ys)" using srt unfolding sorted_wrt_append Cons by blast
    then have "\<forall>z \<in> set ys. pair_less y z" by simp
    then have "x = y \<or> pair_less y x" using that unfolding Cons by (metis set_ConsD)
    then show ?thesis using y pair_less_trans[OF y] by blast
  next
    case Nil
    show ?thesis using that unfolding Nil by simp
  qed
  ultimately have b': "bst t'" unfolding bst_def io by (intro sorted_middle[OF srt]) blast+
  have "entries t' = (entries t)(k \<mapsto> junk)"
  proof -
    have "k \<notin> fst ` set ?a" using no ab by (metis Un_iff image_Un set_append)
    then have "map_of (?a @ (k, junk) # ?b) = (map_of (?a @ ?b))(k \<mapsto> junk)" by (rule map_of_middle)
    then show ?thesis unfolding entries_def io ab[symmetric] .
  qed
  moreover from this obtain n path where F: "find_node (k, junk) t' [] = Some (n, path)"
    using entries_None[OF b', of k junk] by (cases "find_node (k, junk) t' []") auto
  moreover from find_node_Some[OF F] have "plug n path = t'" "n \<noteq> Leaf" "fst (val n) = k" "loc_ok n path"
    using loc_ok_root[OF T(2)] by auto
  moreover have "entries t k = None" using None entries_None[OF assms(2)] by blast
  ultimately show ?thesis using None T b' by (simp add: map_index_def)
qed

lemma map_assign_spec:
  assumes "rbt t" "bst t"
  shows "\<exists>t'. map_assign junk k v t = Ret t' \<and> rbt t' \<and> bst t' \<and> entries t' = (entries t)(k \<mapsto> v)"
proof -
  from map_index_spec[OF assms, of junk k] obtain n path where
    I: "map_index junk k t = Ret (n, path)" "loc_ok n path" "n \<noteq> Leaf" "fst (val n) = k" "bst (plug n path)"
    "entries (plug n path) = (case entries t k of None \<Rightarrow> (entries t)(k \<mapsto> junk) | Some _ \<Rightarrow> entries t)" by blast
  obtain c l w r where n: "n = Node c l (k, w) r" using I(3,4) by (cases n) auto
  let ?n' = "Node c l (k, v) r"
  have r: "rbt (plug ?n' path)"
    by (rule plug_rbt) (use I(2) n in \<open>auto simp: loc_ok_def\<close>)
  let ?a = "before path @ inorder l" and ?b = "inorder r @ after path"
  have io: "inorder (plug n path) = ?a @ (k, w) # ?b" "inorder (plug ?n' path) = ?a @ (k, v) # ?b"
    by (simp_all add: inorder_plug n)
  have pl: "pair_less x (k, w) = pair_less x (k, v)" "pair_less (k, w) x = pair_less (k, v) x" for x
    by (simp_all add: pair_less_def)
  have b: "bst (plug ?n' path)" using I(5) unfolding bst_def io sorted_wrt_append by (auto simp: pl)
  have "k \<notin> fst ` set ?a" using I(5) unfolding bst_def io by (force simp: sorted_wrt_append pair_less_def)
  then have mid: "map_of (?a @ (k, u) # ?b) = (map_of (?a @ ?b))(k \<mapsto> u)" for u by (rule map_of_middle)
  have "entries (plug ?n' path) = (entries (plug n path))(k \<mapsto> v)"
    unfolding entries_def io mid by simp
  also have "\<dots> = (entries t)(k \<mapsto> v)" by (simp add: I(6) split: option.split)
  finally show ?thesis using I(1) r b n by (simp add: map_assign_def)
qed

section \<open>Erasing an entry\<close>

text \<open>The node that is unlinked: the entry's own, or its in-order successor's.\<close>

definition unlinked :: "'a node \<Rightarrow> 'a node" where
  "unlinked n = (if left n = Leaf \<or> right n = Leaf then n else fst (leftmost (right n) []))"

definition black_childless :: "'a node \<Rightarrow> bool" where
  "black_childless n \<longleftrightarrow> colo n = BLACK \<and> left n = Leaf \<and> right n = Leaf"

lemma leftmost_spec:
  assumes "n \<noteq> Leaf" "leftmost n path = (y, ypath)"
  shows "plug y ypath = plug n path \<and> y \<noteq> Leaf \<and> left y = Leaf \<and> before ypath = before path \<and>
    (loc_ok n (path @ up) \<longrightarrow> loc_ok y (ypath @ up)) \<and> (\<exists>p. ypath = p @ path)"
  using assms
proof (induction n path rule: leftmost.induct)
  case (1 c c' l' v' r' v r path)
  then show ?case using loc_ok_left[of c "Node c' l' v' r'" v r "path @ up"] by auto
qed auto

text \<open>Taking a node with at most one child out of a red-black tree.\<close>

definition unlink_result :: "color \<Rightarrow> 'a node \<Rightarrow> 'a path \<Rightarrow> 'a node outcome" where
  "unlink_result c x path = (if c = BLACK then erase_fixup x path else Ret (plug x path))"

lemma unlink_result_spec:
  assumes ok: "loc_ok (Node c l v r) path" and x: "l = Leaf \<and> x = r \<or> r = Leaf \<and> x = l"
  shows "if c = BLACK \<and> x = Leaf then unlink_result c x path = Fault ''null node''
    else \<exists>t. unlink_result c x path = Ret t \<and> rbt t \<and> inorder t = before path @ inorder x @ after path"
proof -
  have o: "path_ok (bheight (Node c l v r)) path" "invc x" "invh x" "bheight x = 0" "bheight l = 0"
    "c = RED \<Longrightarrow> under_black path \<and> \<not> red x"
    using ok x by (auto simp: loc_ok_def)
  show ?thesis
  proof (cases "c = RED")
    case True
    then have "rbt (plug x path)" using o by (intro plug_rbt) auto
    then show ?thesis using True by (simp add: unlink_result_def inorder_plug)
  next
    case False
    then have c: "c = BLACK" by simp
    show ?thesis
    proof (cases x)
      case Leaf
      then show ?thesis using c by (simp add: unlink_result_def erase_fixup.simps)
    next
      case (Node xc xl xv xr)
      then have xc: "xc = RED" using o(4) by (cases xc) auto
      have "erase_fixup x path = Ret (plug (paint BLACK x) path)" using Node xc by (simp add: erase_fixup.simps)
      moreover have "rbt (plug (paint BLACK x) path)"
        using o Node xc c by (intro plug_rbt) auto
      ultimately show ?thesis using c Node by (simp add: unlink_result_def inorder_plug)
    qed
  qed
qed

text \<open>After the successor has moved up, the path below and above its new place.\<close>

lemma path_ok_same_shape:
  assumes "path_ok h (p @ InRight c l v # path)"
  shows "path_ok h (p @ InRight c l w # path)"
  using assms
proof (induction p arbitrary: h)
  case (Cons s p)
  then show ?case by (cases p) auto
qed auto

lemma loc_ok_same_shape: "loc_ok n (p @ InRight c l v # path) \<Longrightarrow> loc_ok n (p @ InRight c l w # path)"
  unfolding loc_ok_def using path_ok_same_shape[of "bheight n" p c l v path w]
  by (cases p) (auto simp: under_black_def)

lemma map_erase_spec:
  assumes "rbt t" "bst t"
  shows "(case find_node (k, undefined) t [] of
      None \<Rightarrow> map_erase k t = Ret t
    | Some (n, path) \<Rightarrow>
        if black_childless (unlinked n) then map_erase k t = Fault ''null node''
        else \<exists>t'. map_erase k t = Ret t' \<and> rbt t' \<and> inorder t' = filter (\<lambda>e. fst e \<noteq> k) (inorder t))"
proof (cases "find_node (k, undefined) t []")
  case (Some loc)
  then obtain n path where loc: "loc = (n, path)" "find_node (k, undefined) t [] = Some (n, path)" by (cases loc) auto
  from find_node_Some[OF loc(2)] have F: "plug n path = t" "n \<noteq> Leaf" "fst (val n) = k" "loc_ok n path"
    using loc_ok_root[OF assms(1)] by auto
  obtain c l e r where n: "n = Node c l e r" using F(2) by (cases n) auto
  let ?a = "before path @ inorder l" and ?b = "inorder r @ after path"
  have io: "inorder t = ?a @ e # ?b" using F(1) inorder_plug[of n path] n by simp
  have "k \<notin> fst ` set ?a \<and> k \<notin> fst ` set ?b"
    using bst_distinct[OF assms(2)] F(3) n unfolding io by auto
  then have "\<forall>x \<in> set ?a. fst x \<noteq> k" "\<forall>x \<in> set ?b. fst x \<noteq> k" by (metis image_eqI)+
  then have fl: "filter (\<lambda>e. fst e \<noteq> k) (inorder t) = ?a @ ?b"
    using F(3) n unfolding io filter_append by simp
  show ?thesis
  proof (cases "l = Leaf \<or> r = Leaf")
    case True
    let ?x = "if l = Leaf then r else l"
    have "map_erase k t = unlink_result c ?x path"
      using True loc n by (auto simp: map_erase_def tree_erase_def unlink_result_def)
    moreover have "l = Leaf \<and> ?x = r \<or> r = Leaf \<and> ?x = l" using True by auto
    moreover have "black_childless (unlinked n) \<longleftrightarrow> c = BLACK \<and> ?x = Leaf"
      using True n by (auto simp: black_childless_def unlinked_def)
    moreover have "before path @ inorder ?x @ after path = ?a @ ?b" using True by auto
    ultimately show ?thesis using unlink_result_spec[OF F(4)[unfolded n], of ?x] loc(2) fl by auto
  next
    case False
    obtain y ypath where y: "leftmost r [] = (y, ypath)" by fastforce
    obtain r' where r': "r = r'" "r' \<noteq> Leaf" using False by blast
    have "loc_ok r (InRight c l e # path)" by (rule loc_ok_right) (use F(4) n in simp)
    with leftmost_spec[of r "[]" y ypath "InRight c l e # path"] False y
    have L: "plug y ypath = r" "y \<noteq> Leaf" "left y = Leaf" "before ypath = []" "loc_ok y (ypath @ InRight c l e # path)"
      by auto
    obtain yc yr ye where yn: "y = Node yc Leaf ye yr" using L(2,3) by (cases y) auto
    let ?up = "ypath @ InRight c l ye # path"
    have ok: "loc_ok (Node yc Leaf ye yr) ?up" using loc_ok_same_shape[OF L(5)] yn by simp
    have "map_erase k t = unlink_result yc yr ?up"
      using False loc n y yn by (simp add: map_erase_def tree_erase_def unlink_result_def)
    moreover have "black_childless (unlinked n) \<longleftrightarrow> yc = BLACK \<and> yr = Leaf"
      using False n y yn by (auto simp: black_childless_def unlinked_def)
    moreover have "before ?up @ inorder yr @ after ?up = ?a @ ?b"
      using inorder_plug[of y ypath] L(1,4) yn by (simp add: before_append after_append)
    ultimately show ?thesis using unlink_result_spec[OF ok, of yr] loc(2) fl by auto
  qed
qed (simp add: map_erase_def tree_erase_def)

section \<open>Height\<close>

fun depth :: "'a node \<Rightarrow> nat" where
  "depth Leaf = 0"
| "depth (Node c l v r) = Suc (max (depth l) (depth r))"

lemma depth_bheight: "invc t \<Longrightarrow> invh t \<Longrightarrow> depth t \<le> 2 * bheight t + (if red t then 1 else 0)"
proof (induction t)
  case (Node c l v r)
  then show ?case by (cases c; cases "red l"; cases "red r") auto
qed simp

lemma bheight_size: "invh t \<Longrightarrow> 2 ^ bheight t \<le> length (inorder t) + 1"
proof (induction t)
  case (Node c l v r)
  then show ?case by (cases c) auto
qed simp

lemma depth_log:
  assumes "rbt t"
  shows "2 ^ (depth t div 2) \<le> length (inorder t) + 1"
proof -
  have "depth t div 2 \<le> bheight t" using depth_bheight[of t] assms by (auto simp: rbt_def split: if_splits)
  then have "(2 :: nat) ^ (depth t div 2) \<le> 2 ^ bheight t" by (rule power_increasing) simp
  then show ?thesis using bheight_size[of t] assms unfolding rbt_def by (meson order_trans)
qed

text \<open>The nodes that the search visits.\<close>

fun find_steps :: "'k :: linorder \<times> 'v \<Rightarrow> ('k \<times> 'v) node \<Rightarrow> nat" where
  "find_steps v Leaf = 0"
| "find_steps v (Node c l y r) =
    (if pair_less v y then Suc (find_steps v l) else if pair_less y v then Suc (find_steps v r) else 1)"

lemma find_steps_depth: "find_steps v t \<le> depth t"
  by (induction v t rule: find_steps.induct) auto

section \<open>Properties\<close>

text \<open>
  C11: assigning through \<^verbatim>\<open>operator[]\<close> never dereferences null, keeps the red-black invariant
  (black root, no red node with a red child, equal black heights) and the search order, and
  is a map update: \<^verbatim>\<open>at\<close> returns the new value at the key and its old result elsewhere, and
  \<^verbatim>\<open>contains\<close> grows by exactly the key.
\<close>

theorem map_assign_correct:
  fixes t :: "('k :: linorder \<times> 'v) node"
  assumes "rbt t" "bst t"
  shows "\<exists>t'. map_assign junk k v t = Ret t' \<and> rbt t' \<and> bst t' \<and>
    (\<forall>k'. map_at k' t' = (if k' = k then Ret v else map_at k' t)) \<and>
    (\<forall>k'. map_contains k' t' \<longleftrightarrow> k' = k \<or> map_contains k' t)"
proof -
  from map_assign_spec[OF assms, of junk k v] obtain t' where
    "map_assign junk k v t = Ret t'" "rbt t'" "bst t'" "entries t' = (entries t)(k \<mapsto> v)" by blast
  then show ?thesis using assms by (intro exI[of _ t']) (simp add: map_at_spec map_contains_spec)
qed

theorem map_assign_correct_witness:
  "\<exists>t'. map_assign (0 :: nat) (7 :: nat) 5 (Node BLACK Leaf (3, 1) (Node RED Leaf (9, 2) Leaf)) = Ret t' \<and> rbt t' \<and> bst t'"
  using map_assign_correct[of "Node BLACK Leaf (3 :: nat, 1 :: nat) (Node RED Leaf (9, 2) Leaf)" 0 7 5]
  by (auto simp: rbt_def bst_def pair_less_def)

text \<open>
  C12: \<^verbatim>\<open>erase\<close> leaves the map alone when the key is absent. When it is present, let \<open>u\<close> be
  the node that gets unlinked (the entry's own, or its in-order successor's when it has two
  children). If \<open>u\<close> is black and has no child, \<^verbatim>\<open>erase_fixup(nullptr)\<close> dereferences null;
  in every other case exactly the entry disappears and the invariants are kept.
\<close>

theorem map_erase_correct:
  fixes t :: "('k :: linorder \<times> 'v) node"
  assumes "rbt t" "bst t"
  shows "(case find_node (k, undefined) t [] of
      None \<Rightarrow> \<not> map_contains k t \<and> map_erase k t = Ret t
    | Some (n, path) \<Rightarrow> map_contains k t \<and>
       (if black_childless (unlinked n) then map_erase k t = Fault ''null node''
        else \<exists>t'. map_erase k t = Ret t' \<and> rbt t' \<and> bst t' \<and>
          (\<forall>k'. map_at k' t' = (if k' = k then Throw (Logic_error ''Key not found'') else map_at k' t))))"
proof (cases "find_node (k, undefined) t []")
  case None
  then show ?thesis using map_erase_spec[OF assms, of k] by (simp add: map_contains_def)
next
  case (Some loc)
  obtain n path where loc: "loc = (n, path)" by fastforce
  have b: "bst t' \<and> entries t' = (entries t)(k := None)"
    if "inorder t' = filter (\<lambda>e. fst e \<noteq> k) (inorder t)" for t'
    using that assms(2) by (simp add: bst_def sorted_wrt_filter entries_def map_of_filter_key)
  show ?thesis using map_erase_spec[OF assms, of k] Some assms(2)
    by (fastforce simp: map_contains_def map_at_spec loc dest!: b)
qed

theorem map_erase_correct_witness:
  "\<exists>t'. map_erase (9 :: nat) (Node BLACK Leaf (3, 1 :: nat) (Node RED Leaf (9, 2) Leaf)) = Ret t' \<and> rbt t' \<and> bst t'"
  using map_erase_correct[of "Node BLACK Leaf (3 :: nat, 1 :: nat) (Node RED Leaf (9, 2) Leaf)" 9]
  by (auto simp: rbt_def bst_def pair_less_def black_childless_def unlinked_def)

text \<open>
  Erasing the only entry of a map is always a null dereference.
\<close>

theorem map_erase_last_entry_bug:
  "map_assign junk (k :: 'k :: linorder) v Leaf = Ret t \<longrightarrow> map_erase k t = Fault ''null node''"
  by (auto simp: map_assign_def map_index_def tree_insert_def pair_less_def map_erase_def tree_erase_def erase_fixup.simps)

theorem map_erase_last_entry_bug_witness:
  "map_assign 0 (4 :: nat) (1 :: nat) Leaf = Ret (Node BLACK Leaf (4, 1) Leaf) \<and>
   map_erase (4 :: nat) (Node BLACK Leaf (4, 1 :: nat) Leaf) = Fault ''null node''"
  using map_erase_last_entry_bug[of 0 "4 :: nat" "1 :: nat" "Node BLACK Leaf (4, 1) Leaf"]
  by (simp add: map_assign_def map_index_def tree_insert_def pair_less_def)



text \<open>
  \<^verbatim>\<open>map::insert\<close> of a key that is present adds a second entry for it, and \<^verbatim>\<open>at\<close> still
  returns the old value.
\<close>

theorem map_insert_duplicate_bug:
  "\<exists>t1 t2. map_insert (1 :: nat) (10 :: nat) Leaf = Ret t1 \<and> map_insert 1 20 t1 = Ret t2 \<and>
    map_at 1 t2 = Ret 10 \<and> length (inorder t2) = 2"
  by (simp add: map_insert_def tree_insert_def pair_less_def map_at_def)

end
