(* ===== verification/Sched.thy ===== *)
theory Sched
  imports Prelude RbMap
begin

text \<open>
  The process scheduler, kernel/proc/sched.hh and kernel/proc/sched.cpp. Graph nodes are
  named by the pid of their process; a list of graph nodes is the list of these names, and
  the iterator into the ready queue is the suffix it points to (\<^verbatim>\<open>nullptr\<close>: empty). The maps
  from pids to graph nodes are the trees of kstdlib/map.hh; a pointer to a tree node
  (\<^verbatim>\<open>rb_tree_root\<close>) is the key of that node. The two maps to \<^verbatim>\<open>bool\<close> are functions.
\<close>

type_synonym rb_node = "(nat \<times> nat) node"

record graphnode =
  weight :: nat
  how_long :: nat
  balance :: nat
  weight_fixed :: bool
  new_process :: bool

record hl_sched =
  nodes :: "nat \<Rightarrow> graphnode option"
  forward_edges :: "nat \<Rightarrow> rb_node"
  backward_edges :: "nat \<Rightarrow> rb_node"
  pid_to_node_pointer :: rb_node
  rb_tree_root :: "nat option"
  visited :: "nat \<Rightarrow> bool"
  in_recursion_stack :: "nat \<Rightarrow> bool"
  ready_queue :: "nat list"
  ready_queue_iterator :: "nat list"
  current_node :: nat
  cycle_counter :: nat
  initial_weight :: nat
  number_of_cycles_per_update :: nat
  graph_is_up_to_date :: bool
  weights_are_up_to_date :: bool
  waiting_for_report :: bool

record command =
  to_exec :: nat
  run_for :: nat
  spin_after :: bool

section \<open>Integer square root\<close>

text \<open>\<^verbatim>\<open>uint16_t isqrt(uint8_t x)\<close>; no intermediate value exceeds 16 bits.\<close>

fun shrink_one :: "nat \<Rightarrow> nat \<Rightarrow> nat" where
  "shrink_one op one = (if one > op \<and> one \<noteq> 0 then shrink_one op (one div 4) else one)"

fun isqrt_loop :: "nat \<Rightarrow> nat \<Rightarrow> nat \<Rightarrow> nat" where
  "isqrt_loop op res one =
    (if one = 0 then res
     else if op \<ge> res + one then isqrt_loop (op - (res + one)) ((res + 2 * one) div 2) (one div 4)
     else isqrt_loop op (res div 2) (one div 4))"

declare shrink_one.simps [simp del] isqrt_loop.simps [simp del]

definition isqrt :: "nat \<Rightarrow> nat" where
  "isqrt x = isqrt_loop x 0 (shrink_one x (2 ^ 10))"

section \<open>\<^verbatim>\<open>update_weights\<close>\<close>

text \<open>The graph nodes of the queue are read and written in queue order.\<close>

definition node_at :: "(nat \<Rightarrow> graphnode option) \<Rightarrow> nat \<Rightarrow> graphnode" where
  "node_at ns p = (case ns p of Some n \<Rightarrow> n
     | None \<Rightarrow> \<lparr>weight = 0, how_long = 0, balance = 0, weight_fixed = False, new_process = False\<rparr>)"

definition set_node :: "nat \<Rightarrow> graphnode \<Rightarrow> (nat \<Rightarrow> graphnode option) \<Rightarrow> (nat \<Rightarrow> graphnode option)" where
  "set_node p n ns = ns(p \<mapsto> n)"

text \<open>First loop: balances of the non-fixed nodes; the two sums.\<close>

fun balance_loop :: "nat \<Rightarrow> nat list \<Rightarrow> (nat \<Rightarrow> graphnode option) \<Rightarrow> nat \<Rightarrow> nat \<Rightarrow>
    (nat \<Rightarrow> graphnode option) \<times> nat \<times> nat" where
  "balance_loop cc [] ns sb nf = (ns, sb, nf)"
| "balance_loop cc (p # ps) ns sb nf =
    (let n = node_at ns p in
     if weight_fixed n then balance_loop cc ps ns sb nf
     else
       let n = (if new_process n then n\<lparr>balance := cc div 2 mod 256, new_process := False\<rparr> else n);
           n = n\<lparr>balance := isqrt (balance n)\<rparr>
       in balance_loop cc ps (set_node p n ns) (wrap64 (sb + balance n)) (wrap64 (nf + weight n)))"

text \<open>Second loop: new weights of the non-fixed nodes; their sum and the last such node.\<close>

fun weight_loop :: "nat \<Rightarrow> nat \<Rightarrow> nat list \<Rightarrow> (nat \<Rightarrow> graphnode option) \<Rightarrow> nat \<Rightarrow> nat option \<Rightarrow>
    (nat \<Rightarrow> graphnode option) \<times> nat \<times> nat option" where
  "weight_loop nf sb [] ns ta a = (ns, ta, a)"
| "weight_loop nf sb (p # ps) ns ta a =
    (let n = node_at ns p in
     if weight_fixed n then weight_loop nf sb ps ns ta a
     else
       let n = n\<lparr>weight := wrap64 (nf * balance n) div sb\<rparr>
       in weight_loop nf sb ps (set_node p n ns) (wrap64 (ta + weight n)) (Some p))"

fun total_loop :: "nat list \<Rightarrow> (nat \<Rightarrow> graphnode option) \<Rightarrow> nat \<Rightarrow> (nat \<Rightarrow> graphnode option) \<times> nat" where
  "total_loop [] ns tw = (ns, tw)"
| "total_loop (p # ps) ns tw =
    (let n = node_at ns p
     in total_loop ps (set_node p (n\<lparr>balance := 0\<rparr>) ns) (wrap64 (tw + weight n)))"

fun time_loop :: "nat \<Rightarrow> nat list \<Rightarrow> (nat \<Rightarrow> graphnode option) \<Rightarrow> nat \<Rightarrow> (nat \<Rightarrow> graphnode option) \<times> nat" where
  "time_loop tw [] ns tt = (ns, tt)"
| "time_loop tw (p # ps) ns tt =
    (let n = node_at ns p; n = n\<lparr>how_long := wrap64 (weight n * 2 ^ 32) div tw\<rparr>
     in time_loop tw ps (set_node p n ns) (wrap64 (tt + how_long n)))"

definition reassign_weights :: "nat list \<Rightarrow> (nat \<Rightarrow> graphnode option) \<Rightarrow> nat \<Rightarrow> nat \<Rightarrow>
    (nat \<Rightarrow> graphnode option) outcome" where
  "reassign_weights q ns sb nf =
    (if sb \<noteq> 0 then
       (case weight_loop nf sb q ns 0 None of (ns, ta, a) \<Rightarrow>
         if ta < nf then
           (case a of
              None \<Rightarrow> Throw (Runtime_error ''No node with non-fixed weight found'')
            | Some p \<Rightarrow> Ret (set_node p ((node_at ns p)\<lparr>weight := wrap64 (weight (node_at ns p) + (nf - ta))\<rparr>) ns))
         else Ret ns)
     else Ret ns)"

definition update_weights :: "hl_sched \<Rightarrow> unit outcome \<times> hl_sched" where
  "update_weights s =
    (if weights_are_up_to_date s then (Ret (), s\<lparr>cycle_counter := 0\<rparr>)
     else if ready_queue s = [] then (Throw (Runtime_error ''Ready queue is empty''), s)
     else
       (case balance_loop (cycle_counter s) (ready_queue s) (nodes s) 0 0 of (ns, sb, nf) \<Rightarrow>
         (case reassign_weights (ready_queue s) ns sb nf of
            Ret ns \<Rightarrow>
              (case total_loop (ready_queue s) ns 0 of (ns, tw) \<Rightarrow>
                if tw = 0 then (Fault ''division by zero'', s\<lparr>nodes := ns\<rparr>)
                else
                  (case time_loop tw (ready_queue s) ns 0 of (ns, tt) \<Rightarrow>
                    let tl = last (ready_queue s);
                        ns = (if tt \<noteq> 2 ^ 32
                          then set_node tl ((node_at ns tl)\<lparr>how_long := wrap64 (how_long (node_at ns tl) + sub64 (2 ^ 32) tt)\<rparr>) ns
                          else ns)
                    in (Ret (), s\<lparr>nodes := ns, cycle_counter := 0, weights_are_up_to_date := True\<rparr>)))
          | Throw e \<Rightarrow> (Throw e, s\<lparr>nodes := ns\<rparr>)
          | Fault f \<Rightarrow> (Fault f, s\<lparr>nodes := ns\<rparr>)
          | Hang \<Rightarrow> (Hang, s\<lparr>nodes := ns\<rparr>))))"

section \<open>Building the ready queue\<close>

definition add_to_ready_queue_at_the_front :: "nat \<Rightarrow> hl_sched \<Rightarrow> hl_sched" where
  "add_to_ready_queue_at_the_front p s = s\<lparr>ready_queue := p # ready_queue s\<rparr>"

text \<open>
  \<^verbatim>\<open>delete ready_queue_head\<close> runs the destructor, which already deletes the whole rest of the
  list; the loop then goes on with the freed second element.
\<close>

definition delete_queue :: "hl_sched \<Rightarrow> unit outcome \<times> hl_sched" where
  "delete_queue s =
    (if length (ready_queue s) \<ge> 2 then (Fault ''use after free in delete_queue'', s)
     else (Ret (), s\<lparr>ready_queue := [], ready_queue_iterator := []\<rparr>))"

text \<open>The two mutually recursive traversals; the first argument is fuel.\<close>

fun dfs :: "nat \<Rightarrow> rb_node \<Rightarrow> hl_sched \<Rightarrow> unit outcome \<times> hl_sched"
and dfs_over_forward_edges :: "nat \<Rightarrow> rb_node \<Rightarrow> hl_sched \<Rightarrow> unit outcome \<times> hl_sched" where
  "dfs 0 n s = (Hang, s)"
| "dfs (Suc fuel) Leaf s = (Ret (), s)"
| "dfs (Suc fuel) (Node c l (pid, g) r) s =
    (if visited s pid then (Ret (), s)
     else
       let s = s\<lparr>visited := (visited s)(pid := True)\<rparr> in
       if in_recursion_stack s pid
       then (Throw (Runtime_error ''Cycle detected in the scheduler's graph of processes''), s)
       else
         andthen (dfs_over_forward_edges fuel (forward_edges s g))
           (\<lambda>_ s.
              let s = add_to_ready_queue_at_the_front g s;
                  s = s\<lparr>in_recursion_stack := (in_recursion_stack s)(pid := False)\<rparr>
              in andthen (dfs fuel l) (\<lambda>_. dfs fuel r) s)
           (s\<lparr>in_recursion_stack := (in_recursion_stack s)(pid := True)\<rparr>))"
| "dfs_over_forward_edges 0 n s = (Hang, s)"
| "dfs_over_forward_edges (Suc fuel) Leaf s = (Ret (), s)"
| "dfs_over_forward_edges (Suc fuel) (Node c l (pid, g) r) s =
    (if visited s pid then (Ret (), s)
     else
       let s = s\<lparr>visited := (visited s)(pid := True)\<rparr> in
       if in_recursion_stack s pid
       then (Throw (Runtime_error ''Cycle detected in the scheduler's graph of processes''), s)
       else
         andthen (dfs fuel (Node c l (pid, g) r))
           (\<lambda>_ s.
              let s = add_to_ready_queue_at_the_front g s;
                  s = s\<lparr>in_recursion_stack := (in_recursion_stack s)(pid := False)\<rparr>
              in andthen (dfs_over_forward_edges fuel l) (\<lambda>_. dfs_over_forward_edges fuel r) s)
           (s\<lparr>in_recursion_stack := (in_recursion_stack s)(pid := True)\<rparr>))"

section \<open>\<^verbatim>\<open>next\<close>, \<^verbatim>\<open>exec_report\<close> and the changes of the graph\<close>

text \<open>\<^verbatim>\<open>dfs(rb_tree_root)\<close>; the node may have been freed since the pointer was taken.\<close>

definition dfs_root :: "nat \<Rightarrow> hl_sched \<Rightarrow> unit outcome \<times> hl_sched" where
  "dfs_root fuel s =
    (case rb_tree_root s of
       None \<Rightarrow> dfs fuel Leaf s
     | Some k \<Rightarrow>
         (case find_node (k, k) (pid_to_node_pointer s) [] of
            None \<Rightarrow> (Fault ''freed tree node'', s)
          | Some (n, _) \<Rightarrow> dfs fuel n s))"

definition rebuild_queue :: "nat \<Rightarrow> hl_sched \<Rightarrow> unit outcome \<times> hl_sched" where
  "rebuild_queue fuel =
    andthen delete_queue (\<lambda>_.
    andthen (dfs_root fuel) (\<lambda>_ s.
      update_weights (s\<lparr>visited := (\<lambda>_. False), in_recursion_stack := (\<lambda>_. False),
        graph_is_up_to_date := True\<rparr>)))"

definition refresh_queue :: "nat \<Rightarrow> hl_sched \<Rightarrow> unit outcome \<times> hl_sched" where
  "refresh_queue fuel s =
    (if ready_queue_iterator s = [] then
       andthen (\<lambda>s. if \<not> graph_is_up_to_date s then rebuild_queue fuel s else (Ret (), s)) (\<lambda>_.
       andthen (\<lambda>s. if cycle_counter s \<ge> number_of_cycles_per_update s then update_weights s else (Ret (), s)) (\<lambda>_ s.
         (Ret (), s\<lparr>ready_queue_iterator := ready_queue s\<rparr>))) s
     else (Ret (), s))"

definition next_command :: "nat \<Rightarrow> hl_sched \<Rightarrow> command outcome \<times> hl_sched" where
  "next_command fuel s =
    (if waiting_for_report s then (Throw (Runtime_error ''Not ready for next command, waiting for report''), s)
     else andthen (refresh_queue fuel) (\<lambda>_ s.
       case ready_queue_iterator s of
         [] \<Rightarrow> (Throw (Runtime_error ''Ready queue is empty''), s)
       | p # rest \<Rightarrow>
           let s = s\<lparr>ready_queue_iterator := rest\<rparr>;
               c = \<lparr>to_exec = p, run_for = how_long (node_at (nodes s) p), spin_after = (rest = [])\<rparr>;
               s = (if rest = [] then s\<lparr>cycle_counter := (cycle_counter s + 1) mod 2 ^ 16\<rparr> else s)
           in (Ret c, s\<lparr>waiting_for_report := True, current_node := p\<rparr>)) s)"

definition exec_report :: "bool \<Rightarrow> hl_sched \<Rightarrow> unit outcome \<times> hl_sched" where
  "exec_report graceful_yield s =
    (if \<not> waiting_for_report s then (Throw (Runtime_error ''Not waiting for report''), s)
     else
       let n = node_at (nodes s) (current_node s);
           s = (if \<not> graceful_yield \<and> \<not> weight_fixed n
             then s\<lparr>nodes := set_node (current_node s) (n\<lparr>balance := (balance n + 1) mod 256\<rparr>) (nodes s),
                    weights_are_up_to_date := False\<rparr>
             else s)
       in (Ret (), s\<lparr>waiting_for_report := False\<rparr>))"

text \<open>
  Changing the graph. \<^verbatim>\<open>operator[]\<close> with an absent pid makes an entry whose pointer is not
  initialised; using that pointer is a fault. A fault of the map is passed on.
\<close>

definition from_map :: "rb_node outcome \<Rightarrow> (rb_node \<Rightarrow> hl_sched \<Rightarrow> hl_sched) \<Rightarrow> hl_sched \<Rightarrow> unit outcome \<times> hl_sched" where
  "from_map m f s =
    (case m of Ret t \<Rightarrow> (Ret (), f t s) | Throw e \<Rightarrow> (Throw e, s) | Fault e \<Rightarrow> (Fault e, s) | Hang \<Rightarrow> (Hang, s))"

definition root_pointer :: "rb_node \<Rightarrow> nat option" where
  "root_pointer t = (case t of Leaf \<Rightarrow> None | Node c l e r \<Rightarrow> Some (fst e))"

definition add_process :: "nat \<Rightarrow> nat \<Rightarrow> bool \<Rightarrow> hl_sched \<Rightarrow> unit outcome \<times> hl_sched" where
  "add_process pid w fixed s =
    (let w = (if w = null64 then initial_weight s else w);
         s = s\<lparr>nodes := set_node pid \<lparr>weight = w, how_long = 0, balance = 0, weight_fixed = fixed, new_process = True\<rparr> (nodes s),
             forward_edges := (forward_edges s)(pid := Leaf), backward_edges := (backward_edges s)(pid := Leaf)\<rparr>
     in from_map (map_assign 0 pid pid (pid_to_node_pointer s))
          (\<lambda>t s. s\<lparr>pid_to_node_pointer := t, graph_is_up_to_date := False, weights_are_up_to_date := False,
            rb_tree_root := root_pointer t\<rparr>) s)"

definition remove_process :: "nat \<Rightarrow> hl_sched \<Rightarrow> unit outcome \<times> hl_sched" where
  "remove_process pid s =
    (if \<not> map_contains pid (pid_to_node_pointer s) then (Fault ''uninitialised pointer'', s)
     else
       from_map (map_erase pid (pid_to_node_pointer s))
         (\<lambda>t s. s\<lparr>pid_to_node_pointer := t, graph_is_up_to_date := False, weights_are_up_to_date := False\<rparr>)
         (s\<lparr>nodes := (nodes s)(pid := None)\<rparr>))"

definition both_known :: "nat \<Rightarrow> nat \<Rightarrow> hl_sched \<Rightarrow> bool" where
  "both_known pid1 pid2 s \<longleftrightarrow> map_contains pid1 (pid_to_node_pointer s) \<and> map_contains pid2 (pid_to_node_pointer s)"

definition add_edge :: "nat \<Rightarrow> nat \<Rightarrow> hl_sched \<Rightarrow> unit outcome \<times> hl_sched" where
  "add_edge pid1 pid2 s =
    (if \<not> both_known pid1 pid2 s then (Fault ''uninitialised pointer'', s)
     else
       andthen (from_map (map_assign 0 pid2 pid2 (forward_edges s pid1))
           (\<lambda>t s. s\<lparr>forward_edges := (forward_edges s)(pid1 := t)\<rparr>))
         (\<lambda>_ s. from_map (map_assign 0 pid1 pid1 (backward_edges s pid2))
           (\<lambda>t s. s\<lparr>backward_edges := (backward_edges s)(pid2 := t), graph_is_up_to_date := False\<rparr>) s) s)"

definition remove_edge :: "nat \<Rightarrow> nat \<Rightarrow> hl_sched \<Rightarrow> unit outcome \<times> hl_sched" where
  "remove_edge pid1 pid2 s =
    (if \<not> both_known pid1 pid2 s then (Fault ''uninitialised pointer'', s)
     else
       andthen (from_map (map_erase pid2 (forward_edges s pid1))
           (\<lambda>t s. s\<lparr>forward_edges := (forward_edges s)(pid1 := t)\<rparr>))
         (\<lambda>_ s. from_map (map_erase pid1 (backward_edges s pid2))
           (\<lambda>t s. s\<lparr>backward_edges := (backward_edges s)(pid2 := t), graph_is_up_to_date := False\<rparr>) s) s)"

text \<open>The constructor does not set \<^verbatim>\<open>rb_tree_root\<close>: \<open>junk\<close>.\<close>

definition new_sched :: "nat option \<Rightarrow> nat \<Rightarrow> nat \<Rightarrow> hl_sched" where
  "new_sched junk ini_weight cycles =
    \<lparr>nodes = (\<lambda>_. None), forward_edges = (\<lambda>_. Leaf), backward_edges = (\<lambda>_. Leaf), pid_to_node_pointer = Leaf,
     rb_tree_root = junk, visited = (\<lambda>_. False), in_recursion_stack = (\<lambda>_. False), ready_queue = [],
     ready_queue_iterator = [], current_node = 0, cycle_counter = 0, initial_weight = ini_weight,
     number_of_cycles_per_update = cycles, graph_is_up_to_date = True, weights_are_up_to_date = True,
     waiting_for_report = False\<rparr>"

section \<open>The integer square root\<close>

lemma isqrt_loop_spec:
  assumes "R * R \<le> x" "x < (R + 2 ^ Suc k) * (R + 2 ^ Suc k)"
  shows "isqrt_loop (x - R * R) (R * 2 ^ Suc k) (4 ^ k) * isqrt_loop (x - R * R) (R * 2 ^ Suc k) (4 ^ k) \<le> x \<and>
    x < (isqrt_loop (x - R * R) (R * 2 ^ Suc k) (4 ^ k) + 1) * (isqrt_loop (x - R * R) (R * 2 ^ Suc k) (4 ^ k) + 1)"
  using assms
proof (induction k arbitrary: R)
  case 0
  have unf: "isqrt_loop (x - R * R) (R * 2) 1 = (if R * 2 + 1 \<le> x - R * R then R + 1 else R)"
    by (subst isqrt_loop.simps) (simp add: isqrt_loop.simps[of _ _ 0])
  have n: "R * 2 ^ Suc 0 = R * 2" "(4 :: nat) ^ 0 = 1" by simp_all
  have sq: "(R + 1) * (R + 1) = R * R + (R * 2 + 1)" "(R + 2 ^ Suc 0) * (R + 2 ^ Suc 0) = (R + 1 + 1) * (R + 1 + 1)"
    by simp_all
  show ?case
  proof (cases "R * 2 + 1 \<le> x - R * R")
    case True
    then have "(R + 1) * (R + 1) \<le> x" unfolding sq(1) using 0(1) by linarith
    with 0(2) show ?thesis unfolding n unf if_P[OF True] sq(2) by blast
  next
    case False
    then have "x < (R + 1) * (R + 1)" unfolding sq(1) using 0(1) by linarith
    with 0(1) show ?thesis unfolding n unf if_not_P[OF False] by blast
  qed
next
  case (Suc k)
  let ?b = "(2 :: nat) ^ Suc k"
  have four: "(4 :: nat) ^ Suc k = ?b * ?b" by (simp flip: power_mult_distrib)
  have d4: "(4 :: nat) ^ Suc k div 4 = 4 ^ k" by simp
  have step: "isqrt_loop op (2 * c) one = (if 2 * c + one \<le> op then isqrt_loop (op - (2 * c + one)) (c + one) (one div 4)
      else isqrt_loop op c (one div 4))" if "one \<noteq> 0" for op c one
    using that by (subst isqrt_loop.simps) simp
  have arg: "R * 2 ^ Suc (Suc k) = 2 * (R * ?b)" "R * ?b + 4 ^ Suc k = (R + ?b) * ?b"
    unfolding four by (simp_all add: algebra_simps)
  have "isqrt_loop (x - R * R) (R * 2 ^ Suc (Suc k)) (4 ^ Suc k) =
      (if 2 * (R * ?b) + 4 ^ Suc k \<le> x - R * R
       then isqrt_loop (x - R * R - (2 * (R * ?b) + 4 ^ Suc k)) (R * ?b + 4 ^ Suc k) (4 ^ Suc k div 4)
       else isqrt_loop (x - R * R) (R * ?b) (4 ^ Suc k div 4))"
    unfolding arg(1) by (rule step) simp
  note unf = this[unfolded arg(2) d4]
  have sq: "(R + ?b) * (R + ?b) = R * R + (2 * (R * ?b) + 4 ^ Suc k)"
    unfolding four by (simp add: algebra_simps)
  show ?case
  proof (cases "2 * (R * ?b) + 4 ^ Suc k \<le> x - R * R")
    case True
    then have le: "(R + ?b) * (R + ?b) \<le> x" using Suc.prems(1) unfolding sq by linarith
    have "R + ?b + ?b = R + 2 ^ Suc (Suc k)" by simp
    with Suc.prems(2) have "x < (R + ?b + ?b) * (R + ?b + ?b)" by metis
    from Suc.IH[OF le this]
    have IH: "isqrt_loop (x - (R + ?b) * (R + ?b)) ((R + ?b) * ?b) (4 ^ k) *
        isqrt_loop (x - (R + ?b) * (R + ?b)) ((R + ?b) * ?b) (4 ^ k) \<le> x \<and>
      x < (isqrt_loop (x - (R + ?b) * (R + ?b)) ((R + ?b) * ?b) (4 ^ k) + 1) *
        (isqrt_loop (x - (R + ?b) * (R + ?b)) ((R + ?b) * ?b) (4 ^ k) + 1)" .
    have "x - R * R - (2 * (R * ?b) + 4 ^ Suc k) = x - (R + ?b) * (R + ?b)" unfolding sq by simp
    then show ?thesis unfolding unf if_P[OF True] using IH by metis
  next
    case False
    then have "x < (R + ?b) * (R + ?b)" using Suc.prems(1) unfolding sq by linarith
    from Suc.IH[OF Suc.prems(1) this] show ?thesis unfolding unf if_not_P[OF False] .
  qed
qed

lemma shrink_one_spec:
  "0 < x \<Longrightarrow> x < 4 ^ Suc j \<Longrightarrow> \<exists>k. shrink_one x (4 ^ j) = 4 ^ k \<and> x < 4 ^ Suc k"
proof (induction j)
  case 0
  then have "shrink_one x (4 ^ 0) = 4 ^ 0" by (subst shrink_one.simps) simp
  with 0 show ?case by blast
next
  case (Suc j)
  show ?case
  proof (cases "x < 4 ^ Suc j")
    case True
    then have "shrink_one x (4 ^ Suc j) = shrink_one x (4 ^ j)"
      by (subst shrink_one.simps) simp
    with Suc True show ?thesis by simp
  next
    case False
    then have "shrink_one x (4 ^ Suc j) = 4 ^ Suc j" by (subst shrink_one.simps) simp
    with Suc.prems show ?thesis by blast
  qed
qed

lemma isqrt_spec:
  assumes "x < 256"
  shows "isqrt x * isqrt x \<le> x \<and> x < (isqrt x + 1) * (isqrt x + 1)"
proof (cases "x = 0")
  case True
  have "shrink_one 0 n = 0" for n
    by (induction n rule: less_induct) (subst shrink_one.simps, auto)
  then show ?thesis using True by (simp add: isqrt_def isqrt_loop.simps)
next
  case False
  have "(2 :: nat) ^ 10 = 4 ^ 5" by simp
  with shrink_one_spec[of x 5] assms False obtain k where
    k: "shrink_one x (2 ^ 10) = 4 ^ k" "x < 4 ^ Suc k" by auto
  have "(4 :: nat) ^ Suc k = (0 + 2 ^ Suc k) * (0 + 2 ^ Suc k)" by (simp flip: power_mult_distrib)
  with isqrt_loop_spec[of 0 x k] k show ?thesis by (simp add: isqrt_def)
qed

lemma isqrt_le: "x < 256 \<Longrightarrow> isqrt x \<le> 15"
proof (rule ccontr)
  assume "x < 256" "\<not> isqrt x \<le> 15"
  then have "16 * 16 \<le> isqrt x * isqrt x" by (intro mult_le_mono) auto
  with isqrt_spec[OF \<open>x < 256\<close>] \<open>x < 256\<close> show False by linarith
qed

section \<open>The loops of \<^verbatim>\<open>update_weights\<close>\<close>

lemma node_at_set [simp]: "node_at (set_node p n ns) r = (if r = p then n else node_at ns r)"
  by (simp add: node_at_def set_node_def)

definition new_balance :: "nat \<Rightarrow> graphnode \<Rightarrow> graphnode" where
  "new_balance cc n =
    (let n = (if new_process n then n\<lparr>balance := cc div 2 mod 256, new_process := False\<rparr> else n)
     in n\<lparr>balance := isqrt (balance n)\<rparr>)"

lemma new_balance_simps [simp]:
  "weight (new_balance cc n) = weight n" "weight_fixed (new_balance cc n) = weight_fixed n"
  by (simp_all add: new_balance_def Let_def)

definition free_nodes :: "(nat \<Rightarrow> graphnode option) \<Rightarrow> nat list \<Rightarrow> nat list" where
  "free_nodes ns ps = filter (\<lambda>p. \<not> weight_fixed (node_at ns p)) ps"

definition sum_over :: "(graphnode \<Rightarrow> nat) \<Rightarrow> (nat \<Rightarrow> graphnode option) \<Rightarrow> nat list \<Rightarrow> nat" where
  "sum_over f ns ps = sum_list (map (\<lambda>p. f (node_at ns p)) ps)"

lemma sum_over_simps [simp]:
  "sum_over f ns [] = 0" "sum_over f ns (p # ps) = f (node_at ns p) + sum_over f ns ps"
  by (simp_all add: sum_over_def)

lemma sum_over_cong: "(\<And>p. p \<in> set ps \<Longrightarrow> f (node_at ns p) = g (node_at ns' p)) \<Longrightarrow> sum_over f ns ps = sum_over g ns' ps"
  unfolding sum_over_def by (intro arg_cong[where f = sum_list]) simp

lemma balance_loop_spec:
  assumes "distinct ps" "balance_loop cc ps ns sb nf = (ns', sb', nf')" "sb < 2 ^ 64" "nf < 2 ^ 64"
  shows "(\<forall>p. node_at ns' p = (if p \<in> set (free_nodes ns ps) then new_balance cc (node_at ns p) else node_at ns p)) \<and>
    sb' = wrap64 (sb + sum_over balance ns' (free_nodes ns ps)) \<and>
    nf' = wrap64 (nf + sum_over weight ns (free_nodes ns ps))"
  using assms
proof (induction ps arbitrary: ns sb nf)
  case (Cons p ps)
  let ?n = "node_at ns p"
  show ?case
  proof (cases "weight_fixed ?n")
    case True
    then have "free_nodes ns (p # ps) = free_nodes ns ps" by (simp add: free_nodes_def)
    with True Cons show ?thesis by simp
  next
    case False
    let ?ns = "set_node p (new_balance cc ?n) ns"
    have run: "balance_loop cc ps ?ns (wrap64 (sb + balance (new_balance cc ?n))) (wrap64 (nf + weight ?n)) = (ns', sb', nf')"
      using Cons.prems(2) False by (cases "new_process ?n") (simp_all add: new_balance_def Let_def)
    have fr: "free_nodes ?ns ps = free_nodes ns ps"
      using Cons.prems(1) by (auto simp: free_nodes_def intro!: filter_cong)
    have np: "p \<notin> set (free_nodes ns ps)" using Cons.prems(1) by (simp add: free_nodes_def)
    have fr2: "free_nodes ns (p # ps) = p # free_nodes ns ps" using False by (simp add: free_nodes_def)
    from Cons.IH[OF _ run] Cons.prems(1) have IH:
      "\<And>r. node_at ns' r = (if r \<in> set (free_nodes ns ps) then new_balance cc (node_at ?ns r) else node_at ?ns r)"
      "sb' = wrap64 (sb + balance (new_balance cc ?n) + sum_over balance ns' (free_nodes ns ps))"
      "nf' = wrap64 (nf + weight ?n + sum_over weight ?ns (free_nodes ns ps))"
      by (auto simp: fr)
    have "sum_over weight ?ns (free_nodes ns ps) = sum_over weight ns (free_nodes ns ps)"
      by (rule sum_over_cong) (use np in auto)
    with IH fr2 np show ?thesis by (auto simp: add.assoc)
  qed
qed (simp add: free_nodes_def)

lemma weight_loop_spec:
  assumes "distinct ps" "weight_loop nf sb ps ns ta a = (ns', ta', a')" "ta < 2 ^ 64"
  shows "(\<forall>p. node_at ns' p = (if p \<in> set (free_nodes ns ps)
        then (node_at ns p)\<lparr>weight := wrap64 (nf * balance (node_at ns p)) div sb\<rparr> else node_at ns p)) \<and>
    ta' = wrap64 (ta + sum_over weight ns' (free_nodes ns ps)) \<and>
    a' = (if free_nodes ns ps = [] then a else Some (last (free_nodes ns ps)))"
  using assms
proof (induction ps arbitrary: ns ta a)
  case (Cons p ps)
  let ?n = "node_at ns p"
  show ?case
  proof (cases "weight_fixed ?n")
    case True
    then have "free_nodes ns (p # ps) = free_nodes ns ps" by (simp add: free_nodes_def)
    with True Cons.IH[of ns ta a] Cons.prems show ?thesis by simp
  next
    case False
    let ?m = "?n\<lparr>weight := wrap64 (nf * balance ?n) div sb\<rparr>"
    let ?ns = "set_node p ?m ns"
    have run: "weight_loop nf sb ps ?ns (wrap64 (ta + weight ?m)) (Some p) = (ns', ta', a')"
      using Cons.prems(2) False by (simp add: Let_def)
    have fr: "free_nodes ?ns ps = free_nodes ns ps"
      using Cons.prems(1) by (auto simp: free_nodes_def intro!: filter_cong)
    have np: "p \<notin> set (free_nodes ns ps)" using Cons.prems(1) by (simp add: free_nodes_def)
    have fr2: "free_nodes ns (p # ps) = p # free_nodes ns ps" using False by (simp add: free_nodes_def)
    from Cons.IH[OF _ run] Cons.prems(1) have IH:
      "\<And>r. node_at ns' r = (if r \<in> set (free_nodes ns ps)
        then (node_at ?ns r)\<lparr>weight := wrap64 (nf * balance (node_at ?ns r)) div sb\<rparr> else node_at ?ns r)"
      "ta' = wrap64 (ta + weight ?m + sum_over weight ns' (free_nodes ns ps))"
      "a' = (if free_nodes ns ps = [] then Some p else Some (last (free_nodes ns ps)))"
      by (auto simp: fr)
    show ?thesis using IH fr2 np by (auto simp: add.assoc)
  qed
qed (simp add: free_nodes_def)

lemma total_loop_spec:
  assumes "distinct ps" "total_loop ps ns tw = (ns', tw')" "tw < 2 ^ 64"
  shows "(\<forall>p. node_at ns' p = (if p \<in> set ps then (node_at ns p)\<lparr>balance := 0\<rparr> else node_at ns p)) \<and>
    tw' = wrap64 (tw + sum_over weight ns ps)"
  using assms
proof (induction ps arbitrary: ns tw)
  case (Cons p ps)
  let ?ns = "set_node p ((node_at ns p)\<lparr>balance := 0\<rparr>) ns"
  have run: "total_loop ps ?ns (wrap64 (tw + weight (node_at ns p))) = (ns', tw')"
    using Cons.prems(2) by (simp add: Let_def)
  have "sum_over weight ?ns ps = sum_over weight ns ps"
    by (rule sum_over_cong) (use Cons.prems(1) in auto)
  with Cons.IH[OF _ run] Cons.prems(1) show ?case by (auto simp: add.assoc)
qed simp

lemma time_loop_spec:
  assumes "distinct ps" "time_loop tw ps ns tt = (ns', tt')" "tt < 2 ^ 64"
  shows "(\<forall>p. node_at ns' p = (if p \<in> set ps
        then (node_at ns p)\<lparr>how_long := wrap64 (weight (node_at ns p) * 2 ^ 32) div tw\<rparr> else node_at ns p)) \<and>
    tt' = wrap64 (tt + sum_over how_long ns' ps)"
  using assms
proof (induction ps arbitrary: ns tt)
  case (Cons p ps)
  let ?m = "(node_at ns p)\<lparr>how_long := wrap64 (weight (node_at ns p) * 2 ^ 32) div tw\<rparr>"
  have run: "time_loop tw ps (set_node p ?m ns) (wrap64 (tt + how_long ?m)) = (ns', tt')"
    using Cons.prems(2) by (simp add: Let_def)
  from Cons.IH[OF _ run] Cons.prems(1) show ?case by (auto simp: add.assoc)
qed simp

section \<open>What \<^verbatim>\<open>update_weights\<close> achieves\<close>

lemma sum_over_div_le: "d * sum_over (\<lambda>n. f n div d) ns ps \<le> sum_over f ns ps"
  by (induction ps) (auto simp: distrib_left intro!: add_mono)

lemma sum_over_mult: "sum_over (\<lambda>n. c * f n) ns ps = c * sum_over f ns ps"
  by (induction ps) (auto simp: algebra_simps)

lemma sum_over_le: "(\<And>p. p \<in> set ps \<Longrightarrow> f (node_at ns p) \<le> b) \<Longrightarrow> sum_over f ns ps \<le> b * length ps"
  by (induction ps) (auto intro!: add_mono)

lemma sum_over_member: "p \<in> set ps \<Longrightarrow> f (node_at ns p) \<le> sum_over f ns ps"
  by (induction ps) auto

lemma sum_over_filter_le: "sum_over f ns (filter P ps) \<le> sum_over f ns ps"
  by (induction ps) auto

lemma sum_over_split:
  "sum_over f ns ps = sum_over f ns (filter P ps) + sum_over f ns (filter (\<lambda>p. \<not> P p) ps)"
  by (induction ps) auto

lemma sum_over_upd_last:
  assumes "distinct ps" "ps \<noteq> []"
    and "\<And>p. p \<in> set ps \<Longrightarrow> p \<noteq> last ps \<Longrightarrow> f (node_at ns' p) = f (node_at ns p)"
    and "f (node_at ns' (last ps)) = f (node_at ns (last ps)) + c"
  shows "sum_over f ns' ps = sum_over f ns ps + c"
proof -
  have split: "ps = butlast ps @ [last ps]" using assms(2) by simp
  have app: "sum_over f m (xs @ ys) = sum_over f m xs + sum_over f m ys" for m xs ys
    by (simp add: sum_over_def)
  have "last ps \<notin> set (butlast ps)" using assms(1) split by (metis distinct_append distinct_singleton not_distinct_conv_prefix)
  then have "sum_over f ns' (butlast ps) = sum_over f ns (butlast ps)"
    by (intro sum_over_cong assms(3)) (auto dest: in_set_butlastD)
  then show ?thesis using assms(4) app[of ns' "butlast ps" "[last ps]"] app[of ns "butlast ps" "[last ps]"] split
    by simp
qed

text \<open>
  The precondition under which no sum or product wraps: balances are bytes, the weights of
  the queue sum to less than \<open>2 ^ 32\<close>, and no process is queued twice.
\<close>

definition weights_ok :: "hl_sched \<Rightarrow> bool" where
  "weights_ok s \<longleftrightarrow> distinct (ready_queue s) \<and> ready_queue s \<noteq> [] \<and> length (ready_queue s) < 2 ^ 32 \<and>
    (\<forall>p. balance (node_at (nodes s) p) < 256) \<and>
    0 < sum_over weight (nodes s) (ready_queue s) \<and> sum_over weight (nodes s) (ready_queue s) < 2 ^ 32"

text \<open>Reassigning: the non-fixed nodes share out the same total again.\<close>

lemma reassign_weights_spec:
  assumes d: "distinct q" and sb: "sb = sum_over balance ns (free_nodes ns q)" "sb < 2 ^ 64"
    and nf: "nf = sum_over weight ns (free_nodes ns q)" "nf < 2 ^ 32"
    and bal: "\<And>p. p \<in> set (free_nodes ns q) \<Longrightarrow> balance (node_at ns p) \<le> 15"
  shows "\<exists>ns'. reassign_weights q ns sb nf = Ret ns' \<and>
    (\<forall>p. p \<notin> set (free_nodes ns q) \<longrightarrow> node_at ns' p = node_at ns p) \<and>
    (\<forall>p. weight_fixed (node_at ns' p) = weight_fixed (node_at ns p)) \<and>
    sum_over weight ns' (free_nodes ns q) = nf"
proof (cases "sb = 0")
  case True
  then show ?thesis using nf by (simp add: reassign_weights_def)
next
  case False
  let ?F = "free_nodes ns q"
  have dF: "distinct ?F" using d by (simp add: free_nodes_def)
  obtain ns1 ta a where run: "weight_loop nf sb q ns 0 None = (ns1, ta, a)" by (metis prod_cases3)
  note W = weight_loop_spec[OF d run, simplified]
  have F0: "?F \<noteq> []" using False sb by auto
  have nowrap: "nf * balance (node_at ns p) < 2 ^ 64" if "p \<in> set ?F" for p
  proof -
    have "nf * balance (node_at ns p) \<le> nf * 15" using bal[OF that] by (rule mult_le_mono2)
    also have "nf * 15 < 2 ^ 64" using nf(2) by simp
    finally show ?thesis .
  qed
  have w1: "weight (node_at ns1 p) = nf * balance (node_at ns p) div sb" if "p \<in> set ?F" for p
    using W that wrap64_small[OF nowrap[OF that]] by simp
  have "sum_over weight ns1 ?F = sum_over (\<lambda>n. nf * balance n div sb) ns ?F"
    by (rule sum_over_cong) (rule w1)
  then have "sb * sum_over weight ns1 ?F \<le> nf * sb"
    using sum_over_div_le[of sb "\<lambda>n. nf * balance n" ns ?F] by (simp add: sum_over_mult sb(1))
  then have le: "sum_over weight ns1 ?F \<le> nf" using False by (simp add: mult.commute)
  then have ta: "ta = sum_over weight ns1 ?F" using W nf(2) by simp
  have a: "a = Some (last ?F)" using W F0 by simp
  have lastF: "last ?F \<in> set ?F" using F0 by simp
  show ?thesis
  proof (cases "ta < nf")
    case True
    let ?w = "wrap64 (weight (node_at ns1 (last ?F)) + (nf - ta))"
    let ?ns = "set_node (last ?F) ((node_at ns1 (last ?F))\<lparr>weight := ?w\<rparr>) ns1"
    have "weight (node_at ns1 (last ?F)) \<le> ta" unfolding ta using lastF by (rule sum_over_member)
    then have "weight (node_at ns1 (last ?F)) + (nf - ta) \<le> nf" using True by linarith
    also have "nf < 2 ^ 64" using nf(2) by simp
    finally have "?w = weight (node_at ns1 (last ?F)) + (nf - ta)" by (rule wrap64_small)
    then have "sum_over weight ?ns ?F = sum_over weight ns1 ?F + (nf - ta)"
      by (intro sum_over_upd_last[OF dF F0]) simp_all
    then have "sum_over weight ?ns ?F = nf" using ta True by simp
    moreover have "reassign_weights q ns sb nf = Ret ?ns"
      using False True run a by (simp add: reassign_weights_def)
    ultimately show ?thesis using W lastF by (intro exI[of _ ?ns]) auto
  next
    case False2: False
    then have "sum_over weight ns1 ?F = nf" using le ta by simp
    moreover have "reassign_weights q ns sb nf = Ret ns1"
      using False False2 run by (simp add: reassign_weights_def)
    ultimately show ?thesis using W by (intro exI[of _ ns1]) auto
  qed
qed

lemma free_nodes_subset: "set (free_nodes ns q) \<subseteq> set q"
  by (auto simp: free_nodes_def)

lemma sum_over_fixed_split:
  "sum_over f ns q = sum_over f ns (free_nodes ns q) + sum_over f ns (filter (\<lambda>p. weight_fixed (node_at ns p)) q)"
  using sum_over_split[of f ns q "\<lambda>p. \<not> weight_fixed (node_at ns p)"] by (simp add: free_nodes_def)

text \<open>The nodes after the first two stages: weights shared out anew, everything else kept.\<close>

lemma stages_spec:
  assumes d: "distinct q" and len: "length q < 2 ^ 32" and bal: "\<And>p. balance (node_at ns p) < 256"
    and tot: "sum_over weight ns q < 2 ^ 32"
    and run: "balance_loop cc q ns 0 0 = (ns1, sb, nf)"
  shows "\<exists>ns2. reassign_weights q ns1 sb nf = Ret ns2 \<and>
    (\<forall>p. weight_fixed (node_at ns2 p) = weight_fixed (node_at ns p)) \<and>
    (\<forall>p. p \<notin> set (free_nodes ns q) \<longrightarrow> weight (node_at ns2 p) = weight (node_at ns p)) \<and>
    sum_over weight ns2 (free_nodes ns q) = sum_over weight ns (free_nodes ns q) \<and>
    sum_over weight ns2 q = sum_over weight ns q"
proof -
  let ?F = "free_nodes ns q"
  note B = balance_loop_spec[OF d run, simplified]
  have fixed1: "weight_fixed (node_at ns1 p) = weight_fixed (node_at ns p)"
    and weight1: "weight (node_at ns1 p) = weight (node_at ns p)" for p
    using B by auto
  have F1: "free_nodes ns1 q = ?F" by (simp add: free_nodes_def fixed1)
  have w1: "sum_over weight ns1 ps = sum_over weight ns ps" for ps by (rule sum_over_cong) (rule weight1)
  have b15: "balance (node_at ns1 p) \<le> 15" if "p \<in> set ?F" for p
    using B that bal[of p] isqrt_le by (auto simp: new_balance_def Let_def)
  have "sum_over balance ns1 ?F \<le> 15 * length ?F" by (rule sum_over_le) (rule b15)
  also have "\<dots> \<le> 15 * length q" by (simp add: free_nodes_def)
  also have "\<dots> < 2 ^ 64" using len by simp
  finally have sbnd: "sum_over balance ns1 ?F < 2 ^ 64" .
  then have sb: "sb = sum_over balance ns1 ?F" using B by simp
  have nfle: "sum_over weight ns ?F < 2 ^ 32"
    using sum_over_filter_le[of weight ns _ q] tot unfolding free_nodes_def by (rule le_less_trans)
  then have nf: "nf = sum_over weight ns1 ?F" using B by (simp add: w1)
  have args: "sb = sum_over balance ns1 (free_nodes ns1 q)" "sb < 2 ^ 64"
    "nf = sum_over weight ns1 (free_nodes ns1 q)" "nf < 2 ^ 32"
    "\<And>p. p \<in> set (free_nodes ns1 q) \<Longrightarrow> balance (node_at ns1 p) \<le> 15"
    unfolding F1 using sb nf sbnd nfle b15 by (simp_all add: w1)
  from reassign_weights_spec[OF d args] obtain ns2 where R: "reassign_weights q ns1 sb nf = Ret ns2"
    "\<And>p. p \<notin> set ?F \<Longrightarrow> node_at ns2 p = node_at ns1 p"
    "\<And>p. weight_fixed (node_at ns2 p) = weight_fixed (node_at ns1 p)"
    "sum_over weight ns2 ?F = nf" unfolding F1 by blast
  have f: "free_nodes ns2 q = ?F" by (simp add: free_nodes_def R(3) fixed1)
  have "sum_over weight ns2 (filter (\<lambda>p. weight_fixed (node_at ns2 p)) q) =
      sum_over weight ns (filter (\<lambda>p. weight_fixed (node_at ns2 p)) q)"
    by (rule sum_over_cong) (auto simp: R fixed1 weight1 free_nodes_def)
  then have "sum_over weight ns2 q = sum_over weight ns q"
    using sum_over_fixed_split[of weight ns2 q] sum_over_fixed_split[of weight ns q] R(3,4) nf w1 f fixed1
    by simp
  then show ?thesis using R nf w1 fixed1 weight1 by (intro exI[of _ ns2]) auto
qed

lemma times_spec:
  assumes d: "distinct q" and q: "q \<noteq> []" and tw: "tw = sum_over weight ns q" "0 < tw" "tw < 2 ^ 32"
    and run: "time_loop tw q ns 0 = (ns', tt)"
    and ns2: "ns2 = (if tt \<noteq> 2 ^ 32 then set_node (last q) ((node_at ns' (last q))
      \<lparr>how_long := wrap64 (how_long (node_at ns' (last q)) + sub64 (2 ^ 32) tt)\<rparr>) ns' else ns')"
  shows "sum_over how_long ns2 q = 2 ^ 32 \<and>
    (\<forall>p. weight (node_at ns2 p) = weight (node_at ns p) \<and> weight_fixed (node_at ns2 p) = weight_fixed (node_at ns p) \<and>
      balance (node_at ns2 p) = balance (node_at ns p)) \<and>
    (\<forall>p \<in> set q. weight (node_at ns p) * 2 ^ 32 div tw \<le> how_long (node_at ns2 p))"
proof -
  note T = time_loop_spec[OF d run, simplified]
  have hl: "how_long (node_at ns' p) = weight (node_at ns p) * 2 ^ 32 div tw" if "p \<in> set q" for p
  proof -
    have "weight (node_at ns p) \<le> tw" unfolding tw(1) using that by (rule sum_over_member)
    then have "weight (node_at ns p) * 2 ^ 32 < 2 ^ 64" using tw(3) by simp
    then show ?thesis using T that by simp
  qed
  have "sum_over how_long ns' q = sum_over (\<lambda>n. weight n * 2 ^ 32 div tw) ns q"
    by (rule sum_over_cong) (rule hl)
  then have "tw * sum_over how_long ns' q \<le> 2 ^ 32 * tw"
    using sum_over_div_le[of tw "\<lambda>n. weight n * 2 ^ 32" ns q] sum_over_mult[of "2 ^ 32" weight ns q] tw(1)
    by (simp add: mult.commute)
  then have le: "sum_over how_long ns' q \<le> 2 ^ 32" using tw(2) by (simp add: mult.commute)
  then have tt: "tt = sum_over how_long ns' q" using T by simp
  have keep: "weight (node_at ns' p) = weight (node_at ns p)" "weight_fixed (node_at ns' p) = weight_fixed (node_at ns p)"
    "balance (node_at ns' p) = balance (node_at ns p)" for p using T by auto
  show ?thesis
  proof (cases "tt = 2 ^ 32")
    case True
    then show ?thesis using ns2 tt keep hl by simp
  next
    case False
    then have lt: "tt < 2 ^ 32" using le tt by simp
    have lq: "last q \<in> set q" using q by simp
    have "how_long (node_at ns' (last q)) \<le> tt" unfolding tt using lq by (rule sum_over_member)
    then have small: "how_long (node_at ns' (last q)) + (2 ^ 32 - tt) \<le> 2 ^ 32" using lt by linarith
    have sub: "sub64 (2 ^ 32) tt = 2 ^ 32 - tt" using lt by simp
    have "wrap64 (how_long (node_at ns' (last q)) + sub64 (2 ^ 32) tt) = how_long (node_at ns' (last q)) + (2 ^ 32 - tt)"
      unfolding sub by (rule wrap64_small) (use small in simp)
    then have n2: "ns2 = set_node (last q) ((node_at ns' (last q))
        \<lparr>how_long := how_long (node_at ns' (last q)) + (2 ^ 32 - tt)\<rparr>) ns'" using ns2 False by simp
    have "sum_over how_long ns2 q = sum_over how_long ns' q + (2 ^ 32 - tt)"
      by (rule sum_over_upd_last[OF d q]) (simp_all add: n2)
    then have "sum_over how_long ns2 q = 2 ^ 32" using tt lt by simp
    moreover have "\<forall>p \<in> set q. weight (node_at ns p) * 2 ^ 32 div tw \<le> how_long (node_at ns2 p)"
      using hl lq by (auto simp: n2)
    ultimately show ?thesis using keep by (simp add: n2)
  qed
qed

lemma update_weights_spec:
  assumes ok: "weights_ok s" and stale: "\<not> weights_are_up_to_date s"
  shows "\<exists>s'. update_weights s = (Ret (), s') \<and> ready_queue s' = ready_queue s \<and>
    cycle_counter s' = 0 \<and> weights_are_up_to_date s' \<and>
    sum_over how_long (nodes s') (ready_queue s) = 2 ^ 32 \<and>
    (\<forall>p. p \<notin> set (free_nodes (nodes s) (ready_queue s)) \<longrightarrow> weight (node_at (nodes s') p) = weight (node_at (nodes s) p)) \<and>
    sum_over weight (nodes s') (free_nodes (nodes s) (ready_queue s)) =
      sum_over weight (nodes s) (free_nodes (nodes s) (ready_queue s)) \<and>
    (\<forall>p \<in> set (ready_queue s). weight (node_at (nodes s') p) * 2 ^ 32 div sum_over weight (nodes s) (ready_queue s)
      \<le> how_long (node_at (nodes s') p)) \<and>
    (\<exists>ns. s' = s\<lparr>nodes := ns, cycle_counter := 0, weights_are_up_to_date := True\<rparr>)"
proof -
  let ?q = "ready_queue s" and ?ns = "nodes s"
  have q: "distinct ?q" "?q \<noteq> []" "length ?q < 2 ^ 32" "\<And>p. balance (node_at ?ns p) < 256"
    "0 < sum_over weight ?ns ?q" "sum_over weight ?ns ?q < 2 ^ 32"
    using ok by (auto simp: weights_ok_def)
  obtain ns1 sb nf where r1: "balance_loop (cycle_counter s) ?q ?ns 0 0 = (ns1, sb, nf)" by (metis prod_cases3)
  from stages_spec[OF q(1,3,4,6) r1] obtain ns2 where S: "reassign_weights ?q ns1 sb nf = Ret ns2"
    "\<And>p. p \<notin> set (free_nodes ?ns ?q) \<Longrightarrow> weight (node_at ns2 p) = weight (node_at ?ns p)"
    "sum_over weight ns2 (free_nodes ?ns ?q) = sum_over weight ?ns (free_nodes ?ns ?q)"
    "sum_over weight ns2 ?q = sum_over weight ?ns ?q" by blast
  obtain ns3 tw where r3: "total_loop ?q ns2 0 = (ns3, tw)" by fastforce
  note T = total_loop_spec[OF q(1) r3, simplified]
  have w3: "weight (node_at ns3 p) = weight (node_at ns2 p)" for p using T by simp
  have s3: "sum_over weight ns3 ps = sum_over weight ns2 ps" for ps by (rule sum_over_cong) (rule w3)
  have "sum_over weight ns2 ?q < 2 ^ 64" using S(4) q(6) by simp
  then have tw: "tw = sum_over weight ns3 ?q" "0 < tw" "tw < 2 ^ 32"
    using T S(4) q(5,6) by (simp_all add: s3)
  obtain ns4 tt where r4: "time_loop tw ?q ns3 0 = (ns4, tt)" by fastforce
  define ns5 where "ns5 = (if tt \<noteq> 2 ^ 32 then set_node (last ?q) ((node_at ns4 (last ?q))
      \<lparr>how_long := wrap64 (how_long (node_at ns4 (last ?q)) + sub64 (2 ^ 32) tt)\<rparr>) ns4 else ns4)"
  note H = times_spec[OF q(1,2) tw r4 ns5_def]
  have w5: "weight (node_at ns5 p) = weight (node_at ns2 p)" for p using H w3 by simp
  have s5: "sum_over weight ns5 ps = sum_over weight ns2 ps" for ps by (rule sum_over_cong) (rule w5)
  have "tw \<noteq> 0" using tw(2) by simp
  then have run: "update_weights s = (Ret (), s\<lparr>nodes := ns5, cycle_counter := 0, weights_are_up_to_date := True\<rparr>)"
    using stale q(2) r1 S(1) r3 r4 by (simp add: update_weights_def Let_def ns5_def)
  have tweq: "tw = sum_over weight ?ns ?q" using tw(1) by (simp only: s3 S(4))
  show ?thesis unfolding run tweq[symmetric]
    using H S w5 w3 by (intro exI[of _ "s\<lparr>nodes := ns5, cycle_counter := 0, weights_are_up_to_date := True\<rparr>"]) (auto simp: s5)
qed

section \<open>The traversal without edges\<close>

fun preorder :: "rb_node \<Rightarrow> nat list" where
  "preorder Leaf = []"
| "preorder (Node c l e r) = fst e # preorder l @ preorder r"

lemma set_preorder: "set (preorder t) = fst ` set (inorder t)"
  by (induction t) auto

lemma distinct_preorder: "distinct (map fst (inorder t)) \<Longrightarrow> distinct (preorder t)"
  by (induction t) (auto simp: set_preorder)

definition queued :: "nat list \<Rightarrow> hl_sched \<Rightarrow> hl_sched" where
  "queued ps s = s\<lparr>visited := (\<lambda>p. visited s p \<or> p \<in> set ps), ready_queue := rev ps @ ready_queue s\<rparr>"

lemma queued_simps:
  "visited (queued ps s) = (\<lambda>p. visited s p \<or> p \<in> set ps)" "in_recursion_stack (queued ps s) = in_recursion_stack s"
  "forward_edges (queued ps s) = forward_edges s" "queued qs (queued ps s) = queued (ps @ qs) s"
  by (auto simp: queued_def fun_eq_iff)

lemma dfs_no_edges:
  assumes "distinct (preorder n)" "\<forall>(p, g) \<in> set (inorder n). g = p \<and> \<not> visited s p \<and> forward_edges s p = Leaf"
    and "\<And>p. \<not> in_recursion_stack s p" "depth n < fuel"
  shows "dfs fuel n s = (Ret (), queued (preorder n) s)"
  using assms
proof (induction n arbitrary: s fuel)
  case Leaf
  then obtain f where "fuel = Suc f" by (cases fuel) auto
  then show ?case by (simp add: queued_def)
next
  case (Node c l e r)
  from Node.prems(4) obtain f where f: "fuel = Suc f" "depth l < f" "depth r < f" "0 < f"
    by (cases fuel) auto
  then obtain f' where f': "f = Suc f'" by (cases f) auto
  obtain p where e: "e = (p, p)" using Node.prems(2) by (cases e) auto
  let ?s1 = "queued [p] s"
  have d: "distinct (preorder l)" "distinct (preorder r)" "p \<notin> set (preorder l)" "p \<notin> set (preorder r)"
    "set (preorder l) \<inter> set (preorder r) = {}" using Node.prems(1) e by auto
  have al: "g = x \<and> \<not> visited s x \<and> forward_edges s x = Leaf"
    if "(x, g) \<in> set (inorder l) \<union> set (inorder r)" for x g
    using bspec[OF Node.prems(2), of "(x, g)"] that by auto
  have fr: "x \<noteq> p \<and> x \<notin> set (preorder l)" if "(x, g) \<in> set (inorder r)" for x g
    using that d(4,5) by (force simp: set_preorder)
  have fl: "x \<noteq> p" if "(x, g) \<in> set (inorder l)" for x g
    using that d(3) by (force simp: set_preorder)
  have L: "dfs f l ?s1 = (Ret (), queued (preorder l) ?s1)"
    by (rule Node.IH(1)) (use d f Node.prems(3) in \<open>auto simp: queued_simps dest: al[OF UnI1] fl\<close>)
  have R: "dfs f r (queued (preorder l) ?s1) = (Ret (), queued (preorder r) (queued (preorder l) ?s1))"
    by (rule Node.IH(2)) (use d f Node.prems(3) in \<open>auto simp: queued_simps dest: al[OF UnI2] fr\<close>)
  have p: "\<not> visited s p" "forward_edges s p = Leaf" "\<not> in_recursion_stack s p"
    using Node.prems(2,3) e by auto
  have upd: "(in_recursion_stack s)(p := True, p := False) = in_recursion_stack s"
    "(in_recursion_stack s)(p := False) = in_recursion_stack s"
    "(visited s)(p := True) = (\<lambda>x. visited s x \<or> x = p)"
    using p by (auto simp: fun_eq_iff)
  have "dfs fuel (Node c l e r) s = andthen (dfs f l) (\<lambda>_. dfs f r) ?s1"
    using p upd by (simp add: e f(1) f' andthen_def[of "dfs_over_forward_edges _ _"] Let_def
      add_to_ready_queue_at_the_front_def queued_def fun_upd_def[symmetric])
  also have "\<dots> = (Ret (), queued (preorder (Node c l e r)) s)"
    by (subst andthen_Ret[where m = "dfs f l"], rule L, subst R) (simp add: queued_simps e)
  finally show ?case .
qed

section \<open>A cycle of commands and reports\<close>

text \<open>The kernel's loop: ask for a command, run it, report whether the process yielded.\<close>

fun run_turns :: "nat \<Rightarrow> bool list \<Rightarrow> hl_sched \<Rightarrow> command list outcome \<times> hl_sched" where
  "run_turns fuel [] s = (Ret [], s)"
| "run_turns fuel (g # gs) s =
    andthen (next_command fuel) (\<lambda>c. andthen (exec_report g) (\<lambda>_.
      andthen (run_turns fuel gs) (\<lambda>cs. ret (c # cs)))) s"

definition reported :: "bool \<Rightarrow> nat \<Rightarrow> hl_sched \<Rightarrow> hl_sched" where
  "reported g p s = snd (exec_report g (s\<lparr>waiting_for_report := True, current_node := p\<rparr>))"

lemma exec_report_Ret:
  "exec_report g (s\<lparr>waiting_for_report := True, current_node := p\<rparr>) = (Ret (), reported g p s)"
  by (simp add: reported_def exec_report_def Let_def)

lemma reported_keeps:
  "ready_queue (reported g p s) = ready_queue s" "ready_queue_iterator (reported g p s) = ready_queue_iterator s"
  "cycle_counter (reported g p s) = cycle_counter s" "\<not> waiting_for_report (reported g p s)"
  "how_long (node_at (nodes (reported g p s)) r) = how_long (node_at (nodes s) r)"
  "graph_is_up_to_date (reported g p s) = graph_is_up_to_date s"
  "number_of_cycles_per_update (reported g p s) = number_of_cycles_per_update s"
  by (auto simp: reported_def exec_report_def Let_def)

lemma turn_step:
  assumes "ready_queue_iterator s = p # rest" "\<not> waiting_for_report s"
  shows "\<exists>s'. run_turns fuel (g # gs) s =
      andthen (run_turns fuel gs) (\<lambda>cs. ret (\<lparr>to_exec = p, run_for = how_long (node_at (nodes s) p),
        spin_after = (rest = [])\<rparr> # cs)) s' \<and>
    ready_queue_iterator s' = rest \<and> \<not> waiting_for_report s' \<and> ready_queue s' = ready_queue s \<and>
    (\<forall>r. how_long (node_at (nodes s') r) = how_long (node_at (nodes s) r)) \<and>
    cycle_counter s' = (if rest = [] then (cycle_counter s + 1) mod 2 ^ 16 else cycle_counter s)"
proof -
  let ?s1 = "s\<lparr>ready_queue_iterator := rest\<rparr>"
  let ?s2 = "if rest = [] then ?s1\<lparr>cycle_counter := (cycle_counter s + 1) mod 2 ^ 16\<rparr> else ?s1"
  have "next_command fuel s = (Ret \<lparr>to_exec = p, run_for = how_long (node_at (nodes s) p), spin_after = (rest = [])\<rparr>,
      ?s2\<lparr>waiting_for_report := True, current_node := p\<rparr>)"
    using assms by (simp add: next_command_def andthen_def refresh_queue_def Let_def)
  then have "run_turns fuel (g # gs) s = andthen (run_turns fuel gs)
      (\<lambda>cs. ret (\<lparr>to_exec = p, run_for = how_long (node_at (nodes s) p), spin_after = (rest = [])\<rparr> # cs)) (reported g p ?s2)"
    by (simp add: andthen_Ret exec_report_Ret)
  then show ?thesis by (intro exI[of _ "reported g p ?s2"]) (simp add: reported_keeps)
qed

lemma run_rest:
  assumes "ready_queue_iterator s = rest" "rest \<noteq> []" "\<not> waiting_for_report s" "length gs = length rest"
  shows "\<exists>s'. run_turns fuel gs s = (Ret (map (\<lambda>i. \<lparr>to_exec = rest ! i, run_for = how_long (node_at (nodes s) (rest ! i)),
      spin_after = (Suc i = length rest)\<rparr>) [0..<length rest]), s') \<and>
    ready_queue_iterator s' = [] \<and> \<not> waiting_for_report s' \<and> ready_queue s' = ready_queue s \<and>
    cycle_counter s' = (cycle_counter s + 1) mod 2 ^ 16 \<and>
    (\<forall>r. how_long (node_at (nodes s') r) = how_long (node_at (nodes s) r))"
  using assms
proof (induction rest arbitrary: s gs)
  case (Cons p rest)
  then obtain g gs' where gs: "gs = g # gs'" "length gs' = length rest" by (cases gs) auto
  from turn_step[OF Cons.prems(1,3), of fuel g gs'] obtain s1 where
    T: "run_turns fuel (g # gs') s = andthen (run_turns fuel gs') (\<lambda>cs. ret (\<lparr>to_exec = p,
        run_for = how_long (node_at (nodes s) p), spin_after = (rest = [])\<rparr> # cs)) s1"
    "ready_queue_iterator s1 = rest" "\<not> waiting_for_report s1" "ready_queue s1 = ready_queue s"
    "\<And>r. how_long (node_at (nodes s1) r) = how_long (node_at (nodes s) r)"
    "cycle_counter s1 = (if rest = [] then (cycle_counter s + 1) mod 2 ^ 16 else cycle_counter s)" by blast
  show ?case
  proof (cases "rest = []")
    case True
    then have "gs' = []" using gs(2) by simp
    then have "run_turns fuel gs s = (Ret [\<lparr>to_exec = p, run_for = how_long (node_at (nodes s) p), spin_after = True\<rparr>], s1)"
      unfolding gs(1) T(1) by (simp add: True ret_apply andthen_Ret[of "run_turns fuel []" s1 "[]" s1])
    then show ?thesis using T True by (intro exI[of _ s1]) simp
  next
    case False
    from Cons.IH[OF T(2) False T(3) gs(2)] obtain s2 where
      R: "run_turns fuel gs' s1 = (Ret (map (\<lambda>i. \<lparr>to_exec = rest ! i, run_for = how_long (node_at (nodes s) (rest ! i)),
        spin_after = (Suc i = length rest)\<rparr>) [0..<length rest]), s2)"
      "ready_queue_iterator s2 = []" "\<not> waiting_for_report s2" "ready_queue s2 = ready_queue s"
      "cycle_counter s2 = (cycle_counter s + 1) mod 2 ^ 16"
      "\<And>r. how_long (node_at (nodes s2) r) = how_long (node_at (nodes s) r)"
      using T(4,5,6) False by auto
    have up: "[0..<length (p # rest)] = 0 # map Suc [0..<length rest]"
      by (simp add: upt_conv_Cons map_Suc_upt del: upt_Suc)
    have "run_turns fuel gs s = (Ret (\<lparr>to_exec = p, run_for = how_long (node_at (nodes s) p), spin_after = False\<rparr> #
        map (\<lambda>i. \<lparr>to_exec = rest ! i, run_for = how_long (node_at (nodes s) (rest ! i)),
          spin_after = (Suc i = length rest)\<rparr>) [0..<length rest]), s2)"
      unfolding gs(1) T(1) by (subst andthen_Ret[where m = "run_turns fuel gs'"], rule R(1)) (simp add: ret_apply False)
    then show ?thesis using R False unfolding up by (intro exI[of _ s2]) (simp add: comp_def)
  qed
qed simp

section \<open>From an empty scheduler to the first cycle\<close>

fun add_all :: "(nat \<times> nat \<times> bool) list \<Rightarrow> hl_sched \<Rightarrow> unit outcome \<times> hl_sched" where
  "add_all [] s = (Ret (), s)"
| "add_all ((p, w, fixed) # ps) s = andthen (add_process p w fixed) (\<lambda>_. add_all ps) s"

text \<open>A scheduler before its first command, holding the processes \<open>ps\<close> and no edges.\<close>

definition idle :: "nat set \<Rightarrow> hl_sched \<Rightarrow> bool" where
  "idle ps s \<longleftrightarrow> rbt (pid_to_node_pointer s) \<and> bst (pid_to_node_pointer s) \<and>
    entries (pid_to_node_pointer s) = (\<lambda>p. if p \<in> ps then Some p else None) \<and>
    (ps \<noteq> {} \<longrightarrow> rb_tree_root s = root_pointer (pid_to_node_pointer s) \<and>
      \<not> graph_is_up_to_date s \<and> \<not> weights_are_up_to_date s) \<and>
    (\<forall>p. forward_edges s p = Leaf) \<and> (\<forall>p. \<not> visited s p) \<and> (\<forall>p. \<not> in_recursion_stack s p) \<and>
    ready_queue s = [] \<and> ready_queue_iterator s = [] \<and> \<not> waiting_for_report s \<and>
    (\<forall>p. balance (node_at (nodes s) p) < 256)"

lemma idle_new_sched: "idle {} (new_sched junk w n)"
  by (simp add: idle_def new_sched_def rbt_def bst_def entries_def fun_eq_iff node_at_def)

lemma add_process_idle:
  assumes "idle ps s"
  shows "\<exists>s'. add_process p w fixed s = (Ret (), s') \<and> idle (insert p ps) s' \<and>
    weight (node_at (nodes s') p) = (if w = null64 then initial_weight s else w) \<and>
    (\<forall>q. q \<noteq> p \<longrightarrow> node_at (nodes s') q = node_at (nodes s) q) \<and> initial_weight s' = initial_weight s"
proof -
  from assms have "rbt (pid_to_node_pointer s)" "bst (pid_to_node_pointer s)" by (simp_all add: idle_def)
  from map_assign_spec[OF this, of 0 p p] obtain t where
    "map_assign 0 p p (pid_to_node_pointer s) = Ret t" "rbt t" "bst t" "entries t = (entries (pid_to_node_pointer s))(p \<mapsto> p)"
    by blast
  then show ?thesis using assms by (simp add: add_process_def from_map_def idle_def Let_def fun_eq_iff)
qed

definition asked_weight :: "nat \<Rightarrow> nat \<Rightarrow> nat" where
  "asked_weight ini w = (if w = null64 then ini else w)"

lemma add_all_idle:
  assumes "idle ps s" "distinct (map fst qs)"
  shows "\<exists>s'. add_all qs s = (Ret (), s') \<and> idle (ps \<union> fst ` set qs) s' \<and>
    (\<forall>(p, w, fx) \<in> set qs. weight (node_at (nodes s') p) = asked_weight (initial_weight s) w) \<and>
    (\<forall>q. q \<notin> fst ` set qs \<longrightarrow> node_at (nodes s') q = node_at (nodes s) q)"
  using assms
proof (induction qs arbitrary: s ps)
  case (Cons a qs)
  obtain p w fx where a: "a = (p, w, fx)" by (cases a)
  from add_process_idle[OF Cons.prems(1), of p w fx] obtain s1 where
    S: "add_process p w fx s = (Ret (), s1)" "idle (insert p ps) s1"
    "weight (node_at (nodes s1) p) = asked_weight (initial_weight s) w"
    "\<And>q. q \<noteq> p \<Longrightarrow> node_at (nodes s1) q = node_at (nodes s) q" "initial_weight s1 = initial_weight s"
    by (auto simp: asked_weight_def)
  from Cons.IH[OF S(2)] Cons.prems(2) obtain s2 where
    T: "add_all qs s1 = (Ret (), s2)" "idle (insert p ps \<union> fst ` set qs) s2"
    "\<forall>(p, w, fx) \<in> set qs. weight (node_at (nodes s2) p) = asked_weight (initial_weight s1) w"
    "\<forall>q. q \<notin> fst ` set qs \<longrightarrow> node_at (nodes s2) q = node_at (nodes s1) q" by auto
  have "add_all (a # qs) s = (Ret (), s2)"
    unfolding a add_all.simps by (subst andthen_Ret[where m = "add_process p w fx"], rule S(1), rule T(1))
  moreover have "idle (ps \<union> fst ` set (a # qs)) s2" using T(2) by (simp add: a)
  moreover have "p \<notin> fst ` set qs" using Cons.prems(2) by (auto simp: a)
  ultimately show ?case using T(3,4) S(3,4,5) by (auto simp: a)
qed simp

lemma depth_le_length: "depth t \<le> length (inorder t)"
  by (induction t) auto

lemma length_preorder [simp]: "length (preorder t) = length (inorder t)"
  by (induction t) auto

lemma run_turns_refresh:
  assumes "refresh_queue fuel s = (Ret (), s1)" "ready_queue_iterator s1 \<noteq> []"
    "\<not> waiting_for_report s" "\<not> waiting_for_report s1" "gs \<noteq> []"
  shows "run_turns fuel gs s = run_turns fuel gs s1"
proof -
  have "refresh_queue fuel s1 = (Ret (), s1)" using assms(2) by (simp add: refresh_queue_def)
  then have "next_command fuel s = next_command fuel s1"
    using assms(1,3,4) by (simp add: next_command_def andthen_def)
  then show ?thesis using assms(5) by (cases gs) (simp_all add: andthen_def)
qed

text \<open>The queue after the first refresh: every process once, the shares of a cycle.\<close>

lemma first_refresh:
  assumes idle: "idle ps s" and ps: "finite ps" "ps \<noteq> {}" "card ps < fuel" "card ps < 2 ^ 32"
    and w: "0 < (\<Sum>p \<in> ps. weight (node_at (nodes s) p))" "(\<Sum>p \<in> ps. weight (node_at (nodes s) p)) < 2 ^ 32"
  shows "\<exists>s'. refresh_queue fuel s = (Ret (), s') \<and> ready_queue_iterator s' = ready_queue s' \<and>
    distinct (ready_queue s') \<and> set (ready_queue s') = ps \<and> \<not> waiting_for_report s' \<and>
    sum_over how_long (nodes s') (ready_queue s') = 2 ^ 32"
proof -
  let ?t = "pid_to_node_pointer s"
  have t: "rbt ?t" "bst ?t" "entries ?t = (\<lambda>p. if p \<in> ps then Some p else None)" using idle by (simp_all add: idle_def)
  note d = bst_distinct[OF t(2)]
  have io: "(p, g) \<in> set (inorder ?t) \<longleftrightarrow> p \<in> ps \<and> g = p" for p g
    using t(3) map_of_eq_Some_iff[OF d, of p g] by (auto simp: entries_def split: if_splits)
  have "fst ` set (inorder ?t) = ps"
  proof (intro equalityI subsetI)
    fix p assume "p \<in> ps"
    then have "(p, p) \<in> set (inorder ?t)" using io by blast
    then show "p \<in> fst ` set (inorder ?t)" by force
  qed (use io in auto)
  then have pre: "distinct (preorder ?t)" "set (preorder ?t) = ps"
    using distinct_preorder[OF d] by (simp_all only: set_preorder)
  have "card ps = length (preorder ?t)" using distinct_card[OF pre(1)] pre(2) by simp
  then have len: "length (inorder ?t) = card ps" by simp
  then obtain c l k g r where node: "?t = Node c l (k, g) r" using ps(1,2) by (cases ?t) auto
  have root: "rb_tree_root s = Some k" using idle ps(2) by (simp add: idle_def root_pointer_def node)
  have "find_node (k, k) ?t [] = Some (?t, [])" by (simp add: node pair_less_def)
  moreover have D: "dfs fuel ?t s = (Ret (), queued (preorder ?t) s)"
  proof (rule dfs_no_edges[OF pre(1)])
    have "\<forall>p. forward_edges s p = Leaf" "\<forall>p. \<not> visited s p" using idle by (simp_all add: idle_def)
    then show "\<forall>(p, g) \<in> set (inorder ?t). g = p \<and> \<not> visited s p \<and> forward_edges s p = Leaf" using io by blast
    show "\<not> in_recursion_stack s p" for p using idle by (simp add: idle_def)
    show "depth ?t < fuel" using depth_le_length[of ?t] len ps(3) by linarith
  qed
  ultimately have droot: "dfs_root fuel s = (Ret (), queued (preorder ?t) s)"
    by (simp add: dfs_root_def root)
  let ?s1 = "queued (preorder ?t) s\<lparr>visited := (\<lambda>_. False), in_recursion_stack := (\<lambda>_. False), graph_is_up_to_date := True\<rparr>"
  have rq: "ready_queue s = []" "ready_queue_iterator s = []" "\<not> waiting_for_report s" "\<not> graph_is_up_to_date s"
    "\<not> weights_are_up_to_date s" "delete_queue s = (Ret (), s)"
    using idle ps(2) by (auto simp: idle_def delete_queue_def)
  have q1: "ready_queue ?s1 = rev (preorder ?t)" "nodes ?s1 = nodes s" "\<not> weights_are_up_to_date ?s1"
    using rq by (simp_all add: queued_def)
  have "(\<Sum>p\<leftarrow>rev (preorder ?t). weight (node_at (nodes s) p)) = (\<Sum>p \<in> ps. weight (node_at (nodes s) p))"
    using sum_list_distinct_conv_sum_set[of "rev (preorder ?t)" "\<lambda>p. weight (node_at (nodes s) p)"] pre by simp
  then have so: "sum_over weight (nodes s) (rev (preorder ?t)) = (\<Sum>p \<in> ps. weight (node_at (nodes s) p))"
    by (simp only: sum_over_def)
  have bal: "\<forall>p. balance (node_at (nodes s) p) < 256" using idle by (simp add: idle_def)
  have "weights_ok ?s1"
    unfolding weights_ok_def q1 so using pre ps(2,4) w len bal by auto
  from update_weights_spec[OF this q1(3)] obtain s2 where
    U: "update_weights ?s1 = (Ret (), s2)" "ready_queue s2 = rev (preorder ?t)" "cycle_counter s2 = 0"
    "weights_are_up_to_date s2" "sum_over how_long (nodes s2) (rev (preorder ?t)) = 2 ^ 32"
    "\<exists>ns. s2 = ?s1\<lparr>nodes := ns, cycle_counter := 0, weights_are_up_to_date := True\<rparr>"
    unfolding q1 by blast
  have "rebuild_queue fuel s = update_weights ?s1"
    unfolding rebuild_queue_def
    by (subst andthen_Ret[where m = delete_queue], rule rq(6),
        subst andthen_Ret[where m = "dfs_root fuel"], rule droot, rule refl)
  then have rb: "rebuild_queue fuel s = (Ret (), s2)" using U(1) by simp
  have "update_weights s2 = (Ret (), s2)" using U(3,4) by (simp add: update_weights_def)
  then have "refresh_queue fuel s = (Ret (), s2\<lparr>ready_queue_iterator := ready_queue s2\<rparr>)"
    by (simp add: refresh_queue_def rq andthen_def rb)
  moreover have "\<not> waiting_for_report s2" using U(6) rq(3) by (auto simp: queued_def)
  ultimately show ?thesis using U(2,5) pre by (intro exI[of _ "s2\<lparr>ready_queue_iterator := ready_queue s2\<rparr>"]) simp
qed

section \<open>The cycle check\<close>

definition stack_visited :: "hl_sched \<Rightarrow> bool" where
  "stack_visited s \<longleftrightarrow> (\<forall>p. in_recursion_stack s p \<longrightarrow> visited s p)"

lemma no_throw_andthen:
  assumes "(\<forall>e. fst (m s) \<noteq> Throw e) \<and> stack_visited (snd (m s))"
    and "\<And>s'. stack_visited s' \<Longrightarrow> (\<forall>e. fst (k () s') \<noteq> Throw e) \<and> stack_visited (snd (k () s'))"
  shows "(\<forall>e. fst (andthen m k s) \<noteq> Throw e) \<and> stack_visited (snd (andthen m k s))"
  using assms by (cases "m s"; cases "fst (m s)") (auto simp: andthen_def)

lemma stack_visited_simps:
  "stack_visited s \<Longrightarrow> stack_visited (s\<lparr>in_recursion_stack := (in_recursion_stack s)(p := False)\<rparr>)"
  "stack_visited s \<Longrightarrow> stack_visited (add_to_ready_queue_at_the_front p s)"
  "stack_visited s \<Longrightarrow> stack_visited (s\<lparr>visited := (visited s)(p := True), in_recursion_stack := (in_recursion_stack s)(p := True)\<rparr>)"
  by (auto simp: stack_visited_def add_to_ready_queue_at_the_front_def)

lemma dfs_never_throws:
  "stack_visited s \<Longrightarrow> (\<forall>e. fst (dfs fuel n s) \<noteq> Throw e) \<and> stack_visited (snd (dfs fuel n s))"
  "stack_visited s \<Longrightarrow> (\<forall>e. fst (dfs_over_forward_edges fuel n s) \<noteq> Throw e) \<and>
    stack_visited (snd (dfs_over_forward_edges fuel n s))"
proof (induction fuel arbitrary: n s)
  case 0
  {
    case 1
    then show ?case by simp
  next
    case 2
    then show ?case by simp
  }
next
  case (Suc fuel)
  {
    case 1
    show ?case
    proof (cases n)
      case (Node c l e r)
      obtain p g where e: "e = (p, g)" by fastforce
      have "\<not> visited s p \<Longrightarrow> \<not> in_recursion_stack s p" using 1 by (auto simp: stack_visited_def)
      then show ?thesis using 1 unfolding Node e
        by (auto simp: Let_def simp del: split_paired_All intro!: no_throw_andthen Suc.IH stack_visited_simps)
    qed (use 1 in simp)
  next
    case 2
    show ?case
    proof (cases n)
      case (Node c l e r)
      obtain p g where e: "e = (p, g)" by fastforce
      have "\<not> visited s p \<Longrightarrow> \<not> in_recursion_stack s p" using 2 by (auto simp: stack_visited_def)
      then show ?thesis using 2 unfolding Node e
        by (auto simp: Let_def simp del: split_paired_All intro!: no_throw_andthen Suc.IH stack_visited_simps)
    qed (use 2 in simp)
  }
qed

section \<open>Properties\<close>

text \<open>
  \<^verbatim>\<open>isqrt\<close> returns the integer square root of every byte.
\<close>

theorem isqrt_floor:
  "x < 256 \<Longrightarrow> isqrt x * isqrt x \<le> x \<and> x < (isqrt x + 1) * (isqrt x + 1)"
  by (rule isqrt_spec)

theorem isqrt_floor_witness: "isqrt 200 * isqrt 200 \<le> 200"
  using isqrt_floor[of 200] by simp

text \<open>
  C15: a stale \<^verbatim>\<open>update_weights\<close> on a queue of distinct processes whose weights sum to
  something between 1 and \<open>2 ^ 32 - 1\<close> returns; the time shares then sum to exactly
  \<open>2 ^ 32\<close> and give each process at least its rounded-down proportion; fixed weights do not
  change and the non-fixed processes share out the same total as before.
\<close>

theorem update_weights_shares:
  assumes "weights_ok s" "\<not> weights_are_up_to_date s"
  shows "\<exists>s'. update_weights s = (Ret (), s') \<and> weights_are_up_to_date s' \<and> ready_queue s' = ready_queue s \<and>
    sum_over how_long (nodes s') (ready_queue s) = 2 ^ 32 \<and>
    (\<forall>p \<in> set (ready_queue s). weight (node_at (nodes s') p) * 2 ^ 32 div sum_over weight (nodes s) (ready_queue s)
      \<le> how_long (node_at (nodes s') p)) \<and>
    (\<forall>p. p \<notin> set (free_nodes (nodes s) (ready_queue s)) \<longrightarrow> weight (node_at (nodes s') p) = weight (node_at (nodes s) p)) \<and>
    sum_over weight (nodes s') (free_nodes (nodes s) (ready_queue s)) =
      sum_over weight (nodes s) (free_nodes (nodes s) (ready_queue s))"
  using update_weights_spec[OF assms] by blast

definition two_processes :: hl_sched where
  "two_processes = (new_sched None 100 10)\<lparr>ready_queue := [1, 2], weights_are_up_to_date := False,
    nodes := [1 \<mapsto> \<lparr>weight = 30, how_long = 0, balance = 4, weight_fixed = False, new_process = False\<rparr>,
      2 \<mapsto> \<lparr>weight = 70, how_long = 0, balance = 9, weight_fixed = True, new_process = False\<rparr>]\<rparr>"

theorem update_weights_shares_witness:
  "\<exists>s'. update_weights two_processes = (Ret (), s') \<and> sum_over how_long (nodes s') [1, 2] = 2 ^ 32"
proof -
  have "weights_ok two_processes" "\<not> weights_are_up_to_date two_processes"
    by (simp_all add: two_processes_def weights_ok_def node_at_def)
  from update_weights_shares[OF this] show ?thesis by (auto simp: two_processes_def)
qed

text \<open>
  C14: after distinct processes have been added to a new scheduler, with weights that sum to
  something between 1 and \<open>2 ^ 32 - 1\<close>, as many turns of next and report as there are
  processes succeed whatever the reports say: they run every process exactly once, the time
  shares sum to a whole cycle, and only the last command asks to wait for the next cycle.
  Fuel above the number of processes is enough for the traversal.
\<close>

theorem first_cycle_runs_every_process:
  assumes "distinct (map fst qs)" "qs \<noteq> []" "length qs < 2 ^ 32" "length qs < fuel"
    and "0 < (\<Sum>(p, w, fx) \<leftarrow> qs. asked_weight ini w)" "(\<Sum>(p, w, fx) \<leftarrow> qs. asked_weight ini w) < 2 ^ 32"
    and "length gs = length qs"
  shows "\<exists>s cs s'. add_all qs (new_sched junk ini cycles) = (Ret (), s) \<and>
    run_turns fuel gs s = (Ret cs, s') \<and> distinct (map to_exec cs) \<and> set (map to_exec cs) = fst ` set qs \<and>
    sum_list (map run_for cs) = 2 ^ 32 \<and> map spin_after cs = replicate (length qs - 1) False @ [True]"
proof -
  let ?ps = "fst ` set qs"
  have ini: "initial_weight (new_sched junk ini cycles) = ini" by (simp add: new_sched_def)
  from add_all_idle[OF idle_new_sched assms(1), of junk ini cycles, unfolded ini] obtain s where
    A: "add_all qs (new_sched junk ini cycles) = (Ret (), s)" "idle ?ps s"
    "\<forall>(p, w, fx) \<in> set qs. weight (node_at (nodes s) p) = asked_weight ini w"
    by auto
  have card: "card ?ps = length qs" using distinct_card[OF assms(1)] by simp
  have "(\<Sum>p \<in> ?ps. weight (node_at (nodes s) p)) = (\<Sum>p \<leftarrow> map fst qs. weight (node_at (nodes s) p))"
    using sum_list_distinct_conv_sum_set[OF assms(1), of "\<lambda>p. weight (node_at (nodes s) p)"] by simp
  also have "\<dots> = (\<Sum>(p, w, fx) \<leftarrow> qs. asked_weight ini w)"
    unfolding map_map comp_def by (intro arg_cong[where f = sum_list] map_cong refl) (use A(3) in \<open>fastforce split: prod.split\<close>)
  finally have sums: "(\<Sum>p \<in> ?ps. weight (node_at (nodes s) p)) = (\<Sum>(p, w, fx) \<leftarrow> qs. asked_weight ini w)" .
  from first_refresh[OF A(2), of fuel, unfolded sums card] assms obtain s1 where
    R: "refresh_queue fuel s = (Ret (), s1)" "ready_queue_iterator s1 = ready_queue s1" "distinct (ready_queue s1)"
    "set (ready_queue s1) = ?ps" "\<not> waiting_for_report s1" "sum_over how_long (nodes s1) (ready_queue s1) = 2 ^ 32"
    by auto
  have len: "length (ready_queue s1) = length qs" using distinct_card[OF R(3)] R(4) card by simp
  then have ne: "ready_queue s1 \<noteq> []" "length gs = length (ready_queue s1)" using assms by auto
  have run: "run_turns fuel gs s = run_turns fuel gs s1"
    by (rule run_turns_refresh[OF R(1)]) (use R ne A(2) assms in \<open>auto simp: idle_def\<close>)
  let ?cs = "map (\<lambda>i. \<lparr>to_exec = ready_queue s1 ! i, run_for = how_long (node_at (nodes s1) (ready_queue s1 ! i)),
      spin_after = (Suc i = length (ready_queue s1))\<rparr>) [0..<length (ready_queue s1)]"
  from run_rest[OF R(2) ne(1) R(5) ne(2), of fuel] obtain s2 where r2: "run_turns fuel gs s1 = (Ret ?cs, s2)" by blast
  have "map to_exec ?cs = ready_queue s1" by (simp add: comp_def map_nth)
  moreover have "map run_for ?cs = map (\<lambda>p. how_long (node_at (nodes s1) p)) (ready_queue s1)"
    by (rule nth_equalityI) simp_all
  moreover have "map spin_after ?cs = replicate (length qs - 1) False @ [True]"
    by (rule nth_equalityI) (use len assms(2) in \<open>auto simp: nth_append\<close>)
  ultimately show ?thesis using A(1) run r2 R(3,4,6)
    unfolding sum_over_def by (metis (no_types, lifting))
qed

theorem first_cycle_runs_every_process_witness:
  "\<exists>s cs s'. add_all [(7, 30, False), (4, 70, True)] (new_sched None 100 10) = (Ret (), s) \<and>
    run_turns 9 [True, False] s = (Ret cs, s') \<and> set (map to_exec cs) = {7, 4} \<and> sum_list (map run_for cs) = 2 ^ 32"
  using first_cycle_runs_every_process[of "[(7, 30, False), (4, 70, True)]" 9 100 "[True, False]" None 10]
  by (auto simp: asked_weight_def)

text \<open>
  The cycle check of the traversal never fires: a node on the recursion stack has been
  visited, and visited nodes are left out before the check. So \<^verbatim>\<open>dfs\<close> throws no exception,
  whatever the graph.
\<close>

theorem cycle_check_is_dead:
  assumes "\<forall>p. in_recursion_stack s p \<longrightarrow> visited s p"
  shows "fst (dfs fuel n s) \<noteq> Throw e"
  using dfs_never_throws(1)[of s fuel n] assms by (auto simp: stack_visited_def)

definition cyclic_graph :: hl_sched where
  "cyclic_graph = (new_sched (Some 1) 100 10)\<lparr>
    forward_edges := (\<lambda>p. if p = 1 then Node BLACK Leaf (2, 2) Leaf else Node BLACK Leaf (1, 1) Leaf)\<rparr>"

theorem cycle_check_is_dead_witness:
  "fst (dfs 9 (Node BLACK Leaf (1, 1) (Node RED Leaf (2, 2) Leaf)) cyclic_graph) \<noteq>
    Throw (Runtime_error ''Cycle detected in the scheduler's graph of processes'')"
  by (rule cycle_check_is_dead) (simp add: cyclic_graph_def new_sched_def)

text \<open>
  A traversal that follows an edge loses processes. Processes 1 to 4 are added with one
  edge from 2 to 3: process 3 is marked as visited when the edge is followed, so that the
  walk over the tree of all processes stops at it and never reaches 4 below it.
\<close>

theorem dfs_loses_process:
  "\<exists>s s'. andthen (add_all [(1, 10, False), (2, 10, False), (3, 10, False), (4, 10, False)]) (\<lambda>_. add_edge 2 3)
      (new_sched None 100 10) = (Ret (), s) \<and>
    dfs_root 9 s = (Ret (), s') \<and> set (ready_queue s') = {1, 2, 3}"
proof -
  note ev = action_simps from_map_def map_assign_def map_index_def tree_insert_def pair_less_def
    rotate_under_right_def rotate_under_left_def root_pointer_def both_known_def map_contains_def new_sched_def
  let ?t = "Node BLACK (Node BLACK Leaf (1, 1) Leaf) (2, 2) (Node BLACK Leaf (3, 3) (Node RED Leaf (4, 4) Leaf))"
  obtain s where s: "andthen (add_all [(1, 10, False), (2, 10, False), (3, 10, False), (4, 10, False)]) (\<lambda>_. add_edge 2 3)
      (new_sched None 100 10) = (Ret (), s)" "pid_to_node_pointer s = ?t" "rb_tree_root s = Some 2"
    "forward_edges s = (\<lambda>p. if p = 2 then Node BLACK Leaf (3, 3) Leaf else Leaf)"
    "visited s = (\<lambda>_. False)" "in_recursion_stack s = (\<lambda>_. False)" "ready_queue s = []"
    by (simp add: andthen_def add_process_def add_edge_def ev fun_eq_iff)
  have nine: "(9 :: nat) = Suc (Suc (Suc (Suc (Suc (Suc (Suc (Suc (Suc 0))))))))" by simp
  have "\<exists>s'. dfs_root 9 s = (Ret (), s') \<and> set (ready_queue s') = {1, 2, 3}"
    unfolding dfs_root_def nine
    by (simp add: s pair_less_def andthen_def add_to_ready_queue_at_the_front_def)
  then show ?thesis using s(1) by blast
qed

text \<open>
  Once two processes are queued, the next change of the graph is fatal: at the end of
  the cycle \<^verbatim>\<open>next\<close> deletes the old queue, whose destructor has already freed the second
  element when the loop reads it.
\<close>

theorem requeue_use_after_free:
  assumes "length (ready_queue s) \<ge> 2" "ready_queue_iterator s = []" "\<not> graph_is_up_to_date s" "\<not> waiting_for_report s"
  shows "next_command fuel s = (Fault ''use after free in delete_queue'', s)"
  using assms by (simp add: next_command_def refresh_queue_def rebuild_queue_def delete_queue_def andthen_def)

theorem requeue_use_after_free_witness:
  "next_command 9 (two_processes\<lparr>graph_is_up_to_date := False\<rparr>) =
    (Fault ''use after free in delete_queue'', two_processes\<lparr>graph_is_up_to_date := False\<rparr>)"
  by (rule requeue_use_after_free) (simp_all add: two_processes_def new_sched_def)

text \<open>
  C16: \<^verbatim>\<open>next\<close> and \<^verbatim>\<open>exec_report\<close> alternate. Out of turn each throws and changes nothing; a
  \<^verbatim>\<open>next\<close> that returns leaves the scheduler waiting for a report, and a report in turn ends
  the waiting and touches neither the queue nor the shares.
\<close>

theorem next_report_alternate:
  "(if waiting_for_report s
    then (\<exists>m. next_command fuel s = (Throw (Runtime_error m), s)) \<and>
      (\<exists>s'. exec_report g s = (Ret (), s') \<and> \<not> waiting_for_report s' \<and> ready_queue s' = ready_queue s \<and>
        ready_queue_iterator s' = ready_queue_iterator s \<and>
        (\<forall>p. how_long (node_at (nodes s') p) = how_long (node_at (nodes s) p)))
    else (\<exists>m. exec_report g s = (Throw (Runtime_error m), s)) \<and>
      (case next_command fuel s of (Ret c, s') \<Rightarrow> waiting_for_report s' \<and> current_node s' = to_exec c | _ \<Rightarrow> True))"
  by (auto simp: next_command_def exec_report_def Let_def andthen_def split: prod.splits outcome.splits list.splits)

end
