(* ===== verification/FatFs.thy ===== *)
theory FatFs
  imports Prelude
begin

text \<open>
  The FAT volume, drivers/fat/fat_fs.cc and fat.hh. The file handle the volume lives on is an
  ideal one: bytes and a cursor, reads and writes never fall short. \<^verbatim>\<open>size_t\<close> values are
  naturals; \<open>x AND 0x0FFF\<close> is written \<open>x mod 0x1000\<close>, and an \<open>OR\<close> of disjoint bit ranges is a
  sum. A signed overflow (undefined in C++) of the root directory's address is not modelled.
\<close>

datatype seekref = SET | CUR | END

datatype fat_type = FAT12 | FAT16 | FAT32

record fat_fs =
  FATSz :: nat
  FATType :: fat_type
  BPB_RsvdSecCnt :: nat
  BPB_SecPerClus :: nat
  BPB_BytsPerSec :: nat
  BPB_RootEntCnt :: nat
  BPB_NumFATs :: nat
  BPB_RootClus :: nat
  cluster_size :: nat
  number_of_entries_per_cluster :: nat
  number_of_clusters :: nat
  number_of_FAT_entries :: nat
  root_directory_begin :: nat
  first_data_sector :: nat
  BAD_CLUSTER :: nat
  LAST_CLUSTER :: nat
  fh_bytes :: "nat \<Rightarrow> u8"
  fh_cursor :: nat
  lock :: bool
  token_copied :: bool

section \<open>The file handle\<close>

fun le_value :: "u8 list \<Rightarrow> nat" where
  "le_value [] = 0"
| "le_value (b # bs) = unat b + 256 * le_value bs"

fun le_bytes :: "nat \<Rightarrow> nat \<Rightarrow> u8 list" where
  "le_bytes 0 v = []"
| "le_bytes (Suc n) v = of_nat v # le_bytes n (v div 256)"

definition bytes_at :: "(nat \<Rightarrow> u8) \<Rightarrow> nat \<Rightarrow> nat \<Rightarrow> u8 list" where
  "bytes_at m a n = map (\<lambda>i. m (a + i)) [0..<n]"

definition store_bytes :: "nat \<Rightarrow> u8 list \<Rightarrow> (nat \<Rightarrow> u8) \<Rightarrow> nat \<Rightarrow> u8" where
  "store_bytes a bs m = (\<lambda>x. if a \<le> x \<and> x < a + length bs then bs ! (x - a) else m x)"

definition fh_set :: "nat \<Rightarrow> (fat_fs, nat) action" where
  "fh_set a s = (Ret a, s\<lparr>fh_cursor := a\<rparr>)"

definition fh_move :: "int \<Rightarrow> (fat_fs, nat) action" where
  "fh_move off s =
    (let a = int (fh_cursor s) + off
     in if a < 0 then (Throw (Einval ''seek before the beginning''), s)
        else (Ret (nat a), s\<lparr>fh_cursor := nat a\<rparr>))"

definition fh_read :: "nat \<Rightarrow> (fat_fs, u8 list) action" where
  "fh_read n s = (Ret (bytes_at (fh_bytes s) (fh_cursor s) n), s\<lparr>fh_cursor := fh_cursor s + n\<rparr>)"

definition fh_write :: "u8 list \<Rightarrow> (fat_fs, unit) action" where
  "fh_write bs s =
    (Ret (), s\<lparr>fh_bytes := store_bytes (fh_cursor s) bs (fh_bytes s), fh_cursor := fh_cursor s + length bs\<rparr>)"

section \<open>Mounting\<close>

definition field :: "(nat \<Rightarrow> u8) \<Rightarrow> nat \<Rightarrow> nat \<Rightarrow> nat" where
  "field m a n = le_value (bytes_at m a n)"

definition wrap32 :: "nat \<Rightarrow> nat" where
  "wrap32 n = n mod 2 ^ 32"

definition sub32 :: "nat \<Rightarrow> nat \<Rightarrow> nat" where
  "sub32 a b = (a + (2 ^ 32 - b mod 2 ^ 32)) mod 2 ^ 32"

definition corrupted :: "'a outcome" where
  "corrupted = Throw (Logic_error ''Corrupted FAT filesystem'')"

text \<open>
  What the two branches of the constructor compute: type, sectors per FAT, clusters, root
  cluster and root directory address. The second one is not set for FAT32.
\<close>

definition mount_fat12_16 :: "(nat \<Rightarrow> u8) \<Rightarrow> (fat_type \<times> nat \<times> nat) outcome" where
  "mount_fat12_16 m =
    (let BytsPerSec = field m 0x0B 2; SecPerClus = field m 0x0D 1; RsvdSecCnt = field m 0x0E 2;
         NumFATs = field m 0x10 1; RootEntCnt = field m 0x11 2; TotSec16 = field m 0x13 2;
         FATSz16 = field m 0x16 2; TotSec32 = field m 0x20 4
     in
     if RootEntCnt = 0 then corrupted
     else if SecPerClus = 0 then Fault ''division by zero''
     else
       let clusters = sub32 (if TotSec16 \<noteq> 0 then TotSec16 else TotSec32) (RsvdSecCnt + NumFATs * FATSz16) div SecPerClus
       in if clusters < 4085 then Ret (FAT12, FATSz16, clusters)
          else if clusters < 65525 then Ret (FAT16, FATSz16, clusters)
          else corrupted)"

definition mount_fat32 :: "(nat \<Rightarrow> u8) \<Rightarrow> (fat_type \<times> nat \<times> nat) outcome" where
  "mount_fat32 m =
    (let SecPerClus = field m 0x0D 1; RsvdSecCnt = field m 0x0E 2; NumFATs = field m 0x10 1;
         RootEntCnt = field m 0x11 2; TotSec32 = field m 0x20 4; FATSz32 = field m 0x24 4
     in
     if RootEntCnt \<noteq> 0 then corrupted
     else if FATSz32 = 0 then corrupted
     else if field m 0x2A 2 \<noteq> 0 then corrupted
     else if field m 0x32 2 \<noteq> 0 \<and> field m 0x32 2 \<noteq> 6 then corrupted
     else if field m 0x34 4 \<noteq> 0 \<or> field m 0x38 4 \<noteq> 0 \<or> field m 0x3C 4 \<noteq> 0 then corrupted
     else if SecPerClus = 0 then Fault ''division by zero''
     else Ret (FAT32, FATSz32, sub32 TotSec32 (wrap32 (RsvdSecCnt + NumFATs * FATSz32)) div SecPerClus))"

fun bad_and_last :: "fat_type \<Rightarrow> nat \<times> nat" where
  "bad_and_last FAT12 = (0x0FF7, 0x0FFF)"
| "bad_and_last FAT16 = (0xFFF7, 0xFFFF)"
| "bad_and_last FAT32 = (0x0FFFFFF7, 0x0FFFFFFF)"

definition mount :: "bool \<Rightarrow> nat \<Rightarrow> (nat \<Rightarrow> u8) \<Rightarrow> fat_fs outcome" where
  "mount copied junk m =
    (let BytsPerSec = field m 0x0B 2; SecPerClus = field m 0x0D 1; RsvdSecCnt = field m 0x0E 2;
         NumFATs = field m 0x10 1; RootEntCnt = field m 0x11 2; TotSec16 = field m 0x13 2;
         FATSz16 = field m 0x16 2; TotSec32 = field m 0x20 4
     in
     if BytsPerSec \<notin> {512, 1024, 2048, 4096} then corrupted
     else if RsvdSecCnt = 0 then corrupted
     else if NumFATs = 0 then corrupted
     else if TotSec32 \<noteq> 0 \<and> TotSec16 \<noteq> 0 then corrupted
     else if TotSec32 = 0 \<and> TotSec16 = 0 then corrupted
     else
       case (if FATSz16 \<noteq> 0 then mount_fat12_16 m else mount_fat32 m) of
         Ret (ty, sz, clusters) \<Rightarrow>
           Ret \<lparr>FATSz = sz, FATType = ty, BPB_RsvdSecCnt = RsvdSecCnt, BPB_SecPerClus = SecPerClus,
             BPB_BytsPerSec = BytsPerSec, BPB_RootEntCnt = RootEntCnt, BPB_NumFATs = NumFATs,
             BPB_RootClus = (if FATSz16 \<noteq> 0 then 0 else field m 0x2C 4),
             cluster_size = SecPerClus * BytsPerSec,
             number_of_entries_per_cluster = SecPerClus * BytsPerSec div 32,
             number_of_clusters = clusters,
             number_of_FAT_entries = sz * BytsPerSec div 4,
             root_directory_begin = (if FATSz16 \<noteq> 0 then RsvdSecCnt * BytsPerSec + NumFATs * FATSz16 * BytsPerSec else junk),
             first_data_sector = RsvdSecCnt + NumFATs * sz +
               (if ty = FAT32 then 0 else (RootEntCnt * 32 + (BytsPerSec - 1)) div BytsPerSec),
             BAD_CLUSTER = fst (bad_and_last ty), LAST_CLUSTER = snd (bad_and_last ty),
             fh_bytes = m, fh_cursor = (if FATSz16 \<noteq> 0 then 0x24 else 0x40), lock = False, token_copied = copied\<rparr>
       | Throw e \<Rightarrow> Throw e | Fault f \<Rightarrow> Fault f | Hang \<Rightarrow> Hang)"

section \<open>The table\<close>

definition bad_number :: "(fat_fs, 'a) action" where
  "bad_number = throw (Logic_error ''Invalid cluster number'')"

definition cluster_number_to_address :: "nat \<Rightarrow> (fat_fs, nat) action" where
  "cluster_number_to_address c s =
    (if c < 2 then bad_number s
     else (Ret (wrap64 (((c - 2) * BPB_SecPerClus s + first_data_sector s) * BPB_BytsPerSec s)), s))"

definition cluster_number_to_fat_entry_index :: "nat \<Rightarrow> nat \<Rightarrow> (fat_fs, nat) action" where
  "cluster_number_to_fat_entry_index c FatNumber s =
    (if c < 2 then bad_number s
     else
       let FAT_Offset = (case FATType s of FAT12 \<Rightarrow> c + c div 2 | FAT16 \<Rightarrow> c * 2 | FAT32 \<Rightarrow> c * 4)
       in (Ret (wrap64 (FAT_Offset + (BPB_RsvdSecCnt s + FatNumber * FATSz s) * BPB_BytsPerSec s)), s))"

definition find_fat_entry :: "nat \<Rightarrow> nat \<Rightarrow> (fat_fs, nat) action" where
  "find_fat_entry c FatNumber s =
    (if c < 2 then bad_number s
     else
       andthen (cluster_number_to_fat_entry_index c FatNumber) (\<lambda>i.
       andthen (fh_set i) (\<lambda>_ s.
         case FATType s of
           FAT12 \<Rightarrow> andthen (fh_read 2) (\<lambda>bs.
             ret (if odd c then le_value bs div 16 else le_value bs mod 0x1000)) s
         | FAT16 \<Rightarrow> andthen (fh_read 2) (\<lambda>bs. ret (le_value bs)) s
         | FAT32 \<Rightarrow> andthen (fh_read 4) (\<lambda>bs. ret (le_value bs mod 0x10000000)) s)) s)"

definition write_fat_entry :: "nat \<Rightarrow> nat \<Rightarrow> nat \<Rightarrow> (fat_fs, unit) action" where
  "write_fat_entry c FATEntry FatNumber s =
    (if c < 2 then bad_number s
     else
       andthen (cluster_number_to_fat_entry_index c FatNumber) (\<lambda>i.
       andthen (fh_set i) (\<lambda>_ s.
         case FATType s of
           FAT12 \<Rightarrow>
             andthen (fh_read 2) (\<lambda>old.
               let v = (if odd c then wrap64 (FATEntry * 16) + le_value old mod 16
                        else FATEntry mod 0x1000 + le_value old div 0x1000 mod 16 * 0x1000)
               in andthen (fh_move (- 2)) (\<lambda>_. fh_write (le_bytes 2 v))) s
         | FAT16 \<Rightarrow> fh_write (le_bytes 2 FATEntry) s
         | FAT32 \<Rightarrow>
             andthen (fh_read 4) (\<lambda>old.
             andthen (fh_move (- 4)) (\<lambda>_.
               fh_write (le_bytes 4 (FATEntry mod 0x10000000 + le_value old div 0x10000000 mod 16 * 0x10000000)))) s)) s)"

text \<open>The search reads on from the beginning of the table; the count of entries left.\<close>

fun free_scan :: "nat \<Rightarrow> nat \<Rightarrow> (fat_fs, nat) action" where
  "free_scan 0 i s = (Ret 0, s)"
| "free_scan (Suc left) i s =
    andthen (\<lambda>s. case FATType s of
        FAT12 \<Rightarrow> andthen (fh_read 2) (\<lambda>bs. ret (if odd i then le_value bs div 16 else le_value bs mod 0x1000)) s
      | FAT16 \<Rightarrow> andthen (fh_read 2) (\<lambda>bs. ret (le_value bs)) s
      | FAT32 \<Rightarrow> andthen (fh_read 4) (\<lambda>bs. ret (le_value bs mod 0x10000000)) s)
      (\<lambda>v. if v = 0 then ret i else free_scan left (Suc i)) s"

fun link_in_fats :: "nat \<Rightarrow> nat \<Rightarrow> nat list \<Rightarrow> (fat_fs, unit) action" where
  "link_in_fats last_cluster nxt [] s = (Ret (), s)"
| "link_in_fats last_cluster nxt (i # is) s =
    andthen (\<lambda>s. if last_cluster \<noteq> 0 then write_fat_entry last_cluster nxt i s else (Ret (), s)) (\<lambda>_.
    andthen (\<lambda>s. write_fat_entry nxt (LAST_CLUSTER s) i s) (\<lambda>_.
      link_in_fats last_cluster nxt is)) s"

definition find_free_cluster :: "nat \<Rightarrow> (fat_fs, nat) action" where
  "find_free_cluster last_cluster s =
    andthen (fh_set (BPB_RsvdSecCnt s * BPB_BytsPerSec s)) (\<lambda>_.
    andthen (free_scan (number_of_FAT_entries s) 0) (\<lambda>nxt.
      if nxt \<noteq> 0
      then andthen (link_in_fats last_cluster nxt [0..<BPB_NumFATs s]) (\<lambda>_. ret nxt)
      else ret nxt)) s"

section \<open>The lock\<close>

text \<open>
  The token returned by \<^verbatim>\<open>acquire_lock\<close> releases the lock when it is destroyed. Whether the
  returned object is a copy of the local one is left to the compiler (\<open>token_copied\<close>): then
  the local one is destroyed, and the lock released, before the function returns.
\<close>

definition acquire_lock :: "(fat_fs, unit) action" where
  "acquire_lock s = (if lock s then (Hang, s) else (Ret (), s\<lparr>lock := \<not> token_copied s\<rparr>))"

definition release_lock :: "fat_fs \<Rightarrow> fat_fs" where
  "release_lock s = s\<lparr>lock := False\<rparr>"

text \<open>
  Objects that work on a volume keep their own state beside it. A method body runs under
  the token, which is destroyed on return and on an exception.
\<close>

definition on_fs :: "(fat_fs, 'a) action \<Rightarrow> ('o \<times> fat_fs, 'a) action" where
  "on_fs m = (\<lambda>(f, s). case m s of (r, s') \<Rightarrow> (r, (f, s')))"

definition locked :: "('o \<times> fat_fs, 'a) action \<Rightarrow> ('o \<times> fat_fs, 'a) action" where
  "locked body =
    andthen (on_fs acquire_lock) (\<lambda>_ fs.
      case body fs of
        (Ret a, (f, s)) \<Rightarrow> (Ret a, (f, release_lock s))
      | (Throw e, (f, s)) \<Rightarrow> (Throw e, (f, release_lock s))
      | (Fault x, fs) \<Rightarrow> (Fault x, fs)
      | (Hang, fs) \<Rightarrow> (Hang, fs))"

lemma locked_free:
  assumes "\<not> lock s" "token_copied s"
  shows "locked body (f, s) = (case body (f, s) of
        (Ret a, (f, s)) \<Rightarrow> (Ret a, (f, release_lock s))
      | (Throw e, (f, s)) \<Rightarrow> (Throw e, (f, release_lock s))
      | (Fault x, fs) \<Rightarrow> (Fault x, fs)
      | (Hang, fs) \<Rightarrow> (Hang, fs))"
proof -
  have eq: "s\<lparr>lock := False\<rparr> = s" using assms(1) by (cases s) simp
  show ?thesis using assms by (simp add: locked_def andthen_def on_fs_def acquire_lock_def eq)
qed

section \<open>Bytes of an entry\<close>

lemma le_value_le_bytes: "le_value (le_bytes n v) = v mod 256 ^ n"
proof (induction n arbitrary: v)
  case (Suc n)
  have "v mod (256 * 256 ^ n) = 256 * (v div 256 mod 256 ^ n) + v mod 256" by (rule mod_mult2_eq)
  then show ?case by (simp add: Suc unsigned_of_nat take_bit_eq_mod)
qed simp

lemma length_le_bytes [simp]: "length (le_bytes n v) = n"
  by (induction n arbitrary: v) auto

lemma length_bytes_at [simp]: "length (bytes_at m a n) = n"
  by (simp add: bytes_at_def)

lemma bytes_at_cong: "(\<And>x. a \<le> x \<Longrightarrow> x < a + n \<Longrightarrow> m x = m' x) \<Longrightarrow> bytes_at m a n = bytes_at m' a n"
  by (simp add: bytes_at_def)

lemma bytes_at_store: "bytes_at (store_bytes a bs m) a (length bs) = bs"
  by (rule nth_equalityI) (simp_all add: bytes_at_def store_bytes_def)

lemma bytes_at_store_other:
  "a + length bs \<le> p \<or> p + n \<le> a \<Longrightarrow> bytes_at (store_bytes a bs m) p n = bytes_at m p n"
  by (rule bytes_at_cong) (auto simp: store_bytes_def)

lemma bytes_at_Suc: "bytes_at m a (Suc n) = m a # bytes_at m (Suc a) n"
  unfolding bytes_at_def by (simp add: upt_conv_Cons map_Suc_upt[symmetric] comp_def del: upt_Suc)

lemma le_value_2: "le_value (bytes_at m p 2) = unat (m p) + 256 * unat (m (Suc p))"
  by (simp add: numeral_2_eq_2 bytes_at_Suc) (simp add: bytes_at_def)

lemma u8_bound: "unat (b :: u8) < 256"
  using unsigned_less[of b] by simp

text \<open>The twelve-bit entries: two share their middle byte.\<close>

definition entry12 :: "bool \<Rightarrow> (nat \<Rightarrow> u8) \<Rightarrow> nat \<Rightarrow> nat" where
  "entry12 o12 m p = (let w = le_value (bytes_at m p 2) in if o12 then w div 16 else w mod 0x1000)"

definition word12 :: "bool \<Rightarrow> nat \<Rightarrow> (nat \<Rightarrow> u8) \<Rightarrow> nat \<Rightarrow> nat" where
  "word12 o12 v m p = (let old = le_value (bytes_at m p 2) in
    if o12 then wrap64 (v * 16) + old mod 16 else v mod 0x1000 + old div 0x1000 mod 16 * 0x1000)"

lemma mod_div_nat: "(a :: nat) mod (b * c) div b = a div b mod c" if "0 < b"
proof -
  have "a mod (b * c) = b * (a div b mod c) + a mod b" by (rule mod_mult2_eq)
  then show ?thesis using that by simp
qed

lemma wrap64_mod: "wrap64 a mod 65536 = a mod 65536"
  unfolding wrap64_def by (rule mod_mod_cancel) simp

lemma wrap64_mod16: "wrap64 a mod 16 = a mod 16"
  unfolding wrap64_def by (rule mod_mod_cancel) simp

lemma two_bytes_value: "unat (of_nat v :: u8) + 256 * unat (of_nat (v div 256) :: u8) = v mod 65536"
  using le_value_le_bytes[of 2 v] by (simp add: numeral_2_eq_2)

lemma store_two:
  "store_bytes p (le_bytes 2 w) m p = of_nat w" "store_bytes p (le_bytes 2 w) m (Suc p) = of_nat (w div 256)"
  "x \<noteq> p \<Longrightarrow> x \<noteq> Suc p \<Longrightarrow> store_bytes p (le_bytes 2 w) m x = m x"
  by (auto simp: store_bytes_def numeral_2_eq_2 less_Suc_eq)

lemma entry12_own: "entry12 o12 (store_bytes p (le_bytes 2 (word12 o12 v m p)) m) p = v mod 0x1000"
proof -
  let ?w = "word12 o12 v m p"
  have val: "le_value (bytes_at (store_bytes p (le_bytes 2 ?w) m) p 2) = ?w mod 65536"
    by (simp only: le_value_2 store_two two_bytes_value)
  show ?thesis
  proof (cases o12)
    case True
    define r where "r = le_value (bytes_at m p 2) mod 16"
    have "?w mod 65536 = (wrap64 (v * 16) mod 65536 + r) mod 65536"
      using True by (simp only: word12_def Let_def if_True r_def mod_add_left_eq)
    also have "\<dots> = (v * 16 + r) mod 65536" by (simp only: wrap64_mod mod_add_left_eq)
    finally have "?w mod 65536 div 16 = (v * 16 + r) div 16 mod 4096"
      using mod_div_nat[of 16 "v * 16 + r" 4096] by simp
    moreover have "(v * 16 + r) div 16 = v" by (simp add: r_def)
    ultimately have "?w mod 65536 div 16 = v mod 4096" by simp
    moreover have "entry12 o12 (store_bytes p (le_bytes 2 ?w) m) p = ?w mod 65536 div 16"
      unfolding entry12_def Let_def val using True by simp
    ultimately show ?thesis by simp
  next
    case False
    have "?w mod 65536 mod 4096 = ?w mod 4096" by (rule mod_mod_cancel) simp
    moreover have "?w mod 4096 = v mod 4096" using False by (simp add: word12_def Let_def)
    moreover have "entry12 o12 (store_bytes p (le_bytes 2 ?w) m) p = ?w mod 65536 mod 4096"
      unfolding entry12_def Let_def val using False by simp
    ultimately show ?thesis by simp
  qed
qed

lemma entry12_next: "entry12 True (store_bytes p (le_bytes 2 (word12 False v m p)) m) (Suc p) = entry12 True m (Suc p)"
proof -
  let ?w = "word12 False v m p"
  define a where "a = v mod 4096"
  define b0 b1 where "b0 = unat (m p)" and "b1 = unat (m (Suc p))"
  have bounds: "a < 4096" "b0 < 256" "b1 < 256" using u8_bound by (simp_all add: a_def b0_def b1_def)
  have "(b0 + 256 * b1) div (256 * 16) = b1 div 16"
    using bounds by (simp add: div_mult2_eq)
  then have "(b0 + 256 * b1) div 4096 mod 16 = b1 div 16" using bounds by simp
  then have w: "?w = a + b1 div 16 * 4096" by (simp add: word12_def le_value_2 a_def b0_def b1_def)
  define q where "q = b1 div 16"
  have q: "q < 16" using bounds by (simp add: q_def)
  have "a + q * 4096 = a + 256 * (16 * q)" by simp
  then have "(a + q * 4096) div 256 = a div 256 + 16 * q" using div_mult_self4[of 256 a "16 * q"] by (simp add: add.commute)
  moreover have "a div 256 < 16" using bounds(1) by simp
  ultimately have "?w div 256 mod 256 div 16 = b1 div 16"
    using q unfolding w q_def[symmetric] by simp
  moreover have "unat (of_nat (?w div 256) :: u8) = ?w div 256 mod 256" by (simp add: unsigned_of_nat take_bit_eq_mod)
  ultimately have y: "unat (of_nat (?w div 256) :: u8) div 16 = b1 div 16" by simp
  have d: "(x + 256 * z) div 16 = x div 16 + 16 * z" for x z :: nat
    using div_mult_self4[of 16 x "16 * z"] by simp
  show ?thesis using y by (simp add: entry12_def le_value_2 store_two d b1_def)
qed

lemma entry12_prev: "entry12 False (store_bytes (Suc p) (le_bytes 2 (word12 True v m (Suc p))) m) p = entry12 False m p"
proof -
  let ?w = "word12 True v m (Suc p)"
  define b0 b1 where "b0 = unat (m (Suc p))" and "b1 = unat (m (Suc (Suc p)))"
  have old: "le_value (bytes_at m (Suc p) 2) mod 16 = b0 mod 16"
    using mod_mult_self4[of 16 "16 * b1" b0] unfolding le_value_2 b0_def b1_def by (simp add: add.commute)
  have "?w mod 16 = (wrap64 (v * 16) mod 16 + b0 mod 16) mod 16"
    by (simp add: word12_def old mod_add_left_eq)
  then have w: "?w mod 16 = b0 mod 16" by (simp add: wrap64_mod16)
  have "unat (of_nat ?w :: u8) = ?w mod 256" by (simp add: unsigned_of_nat take_bit_eq_mod)
  moreover have "?w mod 256 mod 16 = ?w mod 16" by (rule mod_mod_cancel) simp
  ultimately have y: "unat (of_nat ?w :: u8) mod 16 = b0 mod 16" using w by simp
  have d: "(x + 256 * z) mod 4096 = (x + 256 * (z mod 16)) mod 4096" for x z :: nat
    using mult_mod_right[of 256 z 16] by (simp add: mod_add_right_eq)
  show ?thesis
    using y d[of "unat (m p)" "unat (of_nat ?w :: u8)"] d[of "unat (m p)" b0]
    by (simp add: entry12_def le_value_2 store_two b0_def)
qed

lemma entry12_far:
  "p + 2 \<le> q \<or> q + 2 \<le> p \<Longrightarrow> entry12 o12 (store_bytes p (le_bytes 2 w) m) q = entry12 o12 m q"
  by (simp add: entry12_def bytes_at_store_other)

section \<open>Entries as a table\<close>

definition fat_offset :: "fat_type \<Rightarrow> nat \<Rightarrow> nat" where
  "fat_offset ty c = (case ty of FAT12 \<Rightarrow> c + c div 2 | FAT16 \<Rightarrow> c * 2 | FAT32 \<Rightarrow> c * 4)"

definition entry_width :: "fat_type \<Rightarrow> nat" where
  "entry_width ty = (if ty = FAT32 then 4 else 2)"

definition fat_begin :: "fat_fs \<Rightarrow> nat \<Rightarrow> nat" where
  "fat_begin s k = (BPB_RsvdSecCnt s + k * FATSz s) * BPB_BytsPerSec s"

definition entry_pos :: "fat_fs \<Rightarrow> nat \<Rightarrow> nat \<Rightarrow> nat" where
  "entry_pos s c k = fat_offset (FATType s) c + fat_begin s k"

definition fat_entry :: "fat_fs \<Rightarrow> nat \<Rightarrow> nat \<Rightarrow> nat" where
  "fat_entry s c k =
    (case FATType s of
       FAT12 \<Rightarrow> entry12 (odd c) (fh_bytes s) (entry_pos s c k)
     | FAT16 \<Rightarrow> le_value (bytes_at (fh_bytes s) (entry_pos s c k) 2)
     | FAT32 \<Rightarrow> le_value (bytes_at (fh_bytes s) (entry_pos s c k) 4) mod 0x10000000)"

definition entry_bits :: "fat_type \<Rightarrow> nat" where
  "entry_bits ty = (case ty of FAT12 \<Rightarrow> 12 | FAT16 \<Rightarrow> 16 | FAT32 \<Rightarrow> 28)"

text \<open>The ranges of the fields of a mounted volume.\<close>

definition geometry :: "fat_fs \<Rightarrow> bool" where
  "geometry s \<longleftrightarrow> BPB_RsvdSecCnt s < 2 ^ 16 \<and> FATSz s < 2 ^ 32 \<and> BPB_NumFATs s < 2 ^ 8 \<and>
    BPB_BytsPerSec s \<le> 4096 \<and> 0 < BPB_NumFATs s \<and>
    (BAD_CLUSTER s, LAST_CLUSTER s) = bad_and_last (FATType s)"

text \<open>The entry of a cluster lies inside the table.\<close>

definition in_fat :: "fat_fs \<Rightarrow> nat \<Rightarrow> bool" where
  "in_fat s c \<longleftrightarrow> fat_offset (FATType s) c + entry_width (FATType s) \<le> FATSz s * BPB_BytsPerSec s"

lemma fat_begin_eq: "fat_begin s k = BPB_RsvdSecCnt s * BPB_BytsPerSec s + k * (FATSz s * BPB_BytsPerSec s)"
  by (simp add: fat_begin_def algebra_simps)

lemma fat_begin_bound:
  assumes "geometry s" "k < BPB_NumFATs s"
  shows "fat_begin s k + FATSz s * BPB_BytsPerSec s < 2 ^ 64"
proof -
  have "BPB_RsvdSecCnt s * BPB_BytsPerSec s \<le> 2 ^ 16 * 4096"
    by (rule mult_le_mono) (use assms in \<open>auto simp: geometry_def\<close>)
  moreover have "FATSz s * BPB_BytsPerSec s \<le> 2 ^ 32 * 4096"
    by (rule mult_le_mono) (use assms in \<open>auto simp: geometry_def\<close>)
  moreover have "k * (FATSz s * BPB_BytsPerSec s) \<le> 2 ^ 8 * (2 ^ 32 * 4096)"
    by (rule mult_le_mono[OF _ calculation(2)]) (use assms in \<open>auto simp: geometry_def\<close>)
  ultimately show ?thesis unfolding fat_begin_eq by simp
qed

lemma index_eq:
  assumes "geometry s" "k < BPB_NumFATs s" "2 \<le> c" "in_fat s c"
  shows "cluster_number_to_fat_entry_index c k s = (Ret (entry_pos s c k), s)"
proof -
  have "entry_pos s c k < 2 ^ 64" using fat_begin_bound[OF assms(1,2)] assms(4) by (simp add: entry_pos_def in_fat_def)
  then show ?thesis using assms(3)
    by (simp add: cluster_number_to_fat_entry_index_def entry_pos_def fat_offset_def fat_begin_def)
qed

lemma find_fat_entry_eq:
  assumes "geometry s" "k < BPB_NumFATs s" "2 \<le> c" "in_fat s c"
  shows "find_fat_entry c k s =
    (Ret (fat_entry s c k), s\<lparr>fh_cursor := entry_pos s c k + entry_width (FATType s)\<rparr>)"
  using assms(3)
  by (cases "FATType s")
    (simp_all add: find_fat_entry_def andthen_def index_eq[OF assms] fh_set_def fh_read_def ret_def fat_entry_def
      entry12_def entry_width_def Let_def)

definition put_entry :: "fat_fs \<Rightarrow> nat \<Rightarrow> nat \<Rightarrow> nat \<Rightarrow> nat \<Rightarrow> u8" where
  "put_entry s c k v =
    (let p = entry_pos s c k; m = fh_bytes s in
     case FATType s of
       FAT12 \<Rightarrow> store_bytes p (le_bytes 2 (word12 (odd c) v m p)) m
     | FAT16 \<Rightarrow> store_bytes p (le_bytes 2 v) m
     | FAT32 \<Rightarrow> store_bytes p (le_bytes 4 (v mod 0x10000000 +
         le_value (bytes_at m p 4) div 0x10000000 mod 16 * 0x10000000)) m)"

lemma write_fat_entry_eq:
  assumes "geometry s" "k < BPB_NumFATs s" "2 \<le> c" "in_fat s c"
  shows "write_fat_entry c v k s =
    (Ret (), s\<lparr>fh_bytes := put_entry s c k v, fh_cursor := entry_pos s c k + entry_width (FATType s)\<rparr>)"
  using assms(3)
  by (cases "FATType s")
    (simp_all add: write_fat_entry_def andthen_def index_eq[OF assms] fh_set_def fh_read_def fh_write_def fh_move_def
      ret_def put_entry_def word12_def entry_width_def Let_def)

text \<open>Two entries lie apart unless they are neighbours of a twelve-bit table.\<close>

lemma begin_apart:
  assumes "k < k'"
  shows "fat_begin s k + FATSz s * BPB_BytsPerSec s \<le> fat_begin s k'"
proof -
  have "Suc k * (FATSz s * BPB_BytsPerSec s) \<le> k' * (FATSz s * BPB_BytsPerSec s)"
    by (rule mult_le_mono1) (use assms in simp)
  then show ?thesis unfolding fat_begin_eq by simp
qed

lemma tables_apart:
  assumes "k \<noteq> k'" "in_fat s c" "in_fat s c'"
  shows "entry_pos s c k + entry_width (FATType s) \<le> entry_pos s c' k' \<or>
    entry_pos s c' k' + entry_width (FATType s) \<le> entry_pos s c k"
proof (cases "k < k'")
  case True
  then show ?thesis using begin_apart[of k k' s] assms(2) by (simp add: entry_pos_def in_fat_def)
next
  case False
  then show ?thesis using begin_apart[of k' k s] assms by (simp add: entry_pos_def in_fat_def)
qed

lemma entry12_put:
  assumes "(c', k') \<noteq> (c, k)" "in_fat s c" "in_fat s c'" "FATType s = FAT12"
  shows "entry12 (odd c') (put_entry s c k v) (entry_pos s c' k') = entry12 (odd c') (fh_bytes s) (entry_pos s c' k')"
proof -
  let ?p = "entry_pos s c k" and ?q = "entry_pos s c' k'"
  consider "?p + 2 \<le> ?q \<or> ?q + 2 \<le> ?p" | "?q = Suc ?p" "even c" "odd c'" | "?p = Suc ?q" "odd c" "even c'"
  proof (cases "k = k'")
    case False
    from tables_apart[OF False assms(2,3)] show ?thesis using that(1) assms(4) by (simp add: entry_width_def)
  next
    case True
    then have ne: "c \<noteq> c'" using assms(1) by auto
    have p: "?q = c' + c' div 2 + fat_begin s k" "?p = c + c div 2 + fat_begin s k"
      by (simp_all add: entry_pos_def fat_offset_def assms(4) True)
    consider "c' = Suc c" | "c = Suc c'" | "c' \<ge> c + 2" | "c \<ge> c' + 2" using ne by linarith
    then show ?thesis
    proof cases
      case 1
      then show ?thesis using that p by (cases "even c") (auto elim!: evenE oddE)
    next
      case 2
      then show ?thesis using that p by (cases "even c'") (auto elim!: evenE oddE)
    next
      case 3
      then have "c div 2 + 1 \<le> c' div 2" by linarith
      then show ?thesis using that(1) p 3 by linarith
    next
      case 4
      then have "c' div 2 + 1 \<le> c div 2" by linarith
      then show ?thesis using that(1) p 4 by linarith
    qed
  qed
  then show ?thesis
  proof cases
    case 1
    then show ?thesis by (simp add: put_entry_def assms(4) Let_def entry12_far)
  next
    case 2
    then show ?thesis by (simp add: put_entry_def assms(4) Let_def entry12_next)
  next
    case 3
    then show ?thesis by (simp add: put_entry_def assms(4) Let_def entry12_prev)
  qed
qed

lemma fat_entry_put:
  assumes "in_fat s c" "in_fat s c'"
  shows "fat_entry (s\<lparr>fh_bytes := put_entry s c k v, fh_cursor := x\<rparr>) c' k' =
    (if (c', k') = (c, k) then v mod 2 ^ entry_bits (FATType s) else fat_entry s c' k')"
proof -
  have pos: "entry_pos (s\<lparr>fh_bytes := b, fh_cursor := x\<rparr>) c' k' = entry_pos s c' k'" for b
    by (simp add: entry_pos_def fat_begin_def)
  show ?thesis
  proof (cases "FATType s")
    case FAT12
    then show ?thesis using entry12_put[OF _ assms FAT12]
      by (auto simp: fat_entry_def pos put_entry_def Let_def entry12_own entry_bits_def)
  next
    case FAT16
    have "(c', k') \<noteq> (c, k) \<Longrightarrow> entry_pos s c k + 2 \<le> entry_pos s c' k' \<or> entry_pos s c' k' + 2 \<le> entry_pos s c k"
      using tables_apart[of k k' s c c'] assms FAT16
      by (cases "k = k'") (auto simp: entry_width_def entry_pos_def fat_offset_def)
    then show ?thesis using FAT16 bytes_at_store[of "entry_pos s c k" "le_bytes 2 v" "fh_bytes s"]
      by (auto simp: fat_entry_def pos put_entry_def Let_def bytes_at_store_other le_value_le_bytes entry_bits_def)
  next
    case FAT32
    let ?w = "v mod 0x10000000 + le_value (bytes_at (fh_bytes s) (entry_pos s c k) 4) div 0x10000000 mod 16 * 0x10000000"
    have "(c', k') \<noteq> (c, k) \<Longrightarrow> entry_pos s c k + 4 \<le> entry_pos s c' k' \<or> entry_pos s c' k' + 4 \<le> entry_pos s c k"
      using tables_apart[of k k' s c c'] assms FAT32
      by (cases "k = k'") (auto simp: entry_width_def entry_pos_def fat_offset_def)
    moreover have "?w mod 256 ^ 4 mod 0x10000000 = ?w mod 0x10000000" by (rule mod_mod_cancel) simp
    ultimately show ?thesis using FAT32 bytes_at_store[of "entry_pos s c k" "le_bytes 4 ?w" "fh_bytes s"]
      by (auto simp: fat_entry_def pos put_entry_def Let_def bytes_at_store_other le_value_le_bytes entry_bits_def)
  qed
qed

section \<open>The search for a free cluster\<close>

fun first_free :: "fat_fs \<Rightarrow> nat \<Rightarrow> nat \<Rightarrow> nat" where
  "first_free s 0 i = 0"
| "first_free s (Suc left) i = (if fat_entry s i 0 = 0 then i else first_free s left (Suc i))"

lemma fat_entry_cursor [simp]: "fat_entry (s\<lparr>fh_cursor := x\<rparr>) c k = fat_entry s c k"
  by (simp add: fat_entry_def entry_pos_def fat_begin_def cong: fat_type.case_cong)

lemma free_scan_eq:
  assumes "FATType s \<noteq> FAT12" "fh_cursor s = entry_pos s i 0"
  shows "\<exists>x. free_scan n i s = (Ret (first_free s n i), s\<lparr>fh_cursor := x\<rparr>)"
  using assms
proof (induction n arbitrary: i s)
  case 0
  then show ?case by (intro exI[of _ "fh_cursor s"]) simp
next
  case (Suc n)
  let ?s = "s\<lparr>fh_cursor := entry_pos s (Suc i) 0\<rparr>"
  have step: "free_scan (Suc n) i s = (if fat_entry s i 0 = 0 then (Ret i, ?s) else free_scan n (Suc i) ?s)"
  proof (cases "FATType s")
    case FAT16
    then show ?thesis using Suc.prems(2)
      by (simp add: andthen_def fh_read_def ret_def fat_entry_def entry_pos_def fat_offset_def)
  next
    case FAT32
    then show ?thesis using Suc.prems(2)
      by (simp add: add.commute add.left_commute andthen_def fh_read_def ret_def fat_entry_def entry_pos_def fat_offset_def)
  qed (use Suc.prems(1) in simp)
  show ?case
  proof (cases "fat_entry s i 0 = 0")
    case True
    then show ?thesis using step by auto
  next
    case False
    have "\<exists>x. free_scan n (Suc i) ?s = (Ret (first_free ?s n (Suc i)), ?s\<lparr>fh_cursor := x\<rparr>)"
      by (rule Suc.IH) (use Suc.prems in \<open>simp_all add: entry_pos_def fat_begin_def\<close>)
    moreover have "first_free ?s n (Suc i) = first_free s n (Suc i)" for n
    proof -
      have "first_free ?s n j = first_free s n j" for j by (induction n arbitrary: j) auto
      then show ?thesis .
    qed
    ultimately show ?thesis using step False by simp
  qed
qed

lemma first_free_spec:
  "if \<exists>j. i \<le> j \<and> j < i + n \<and> fat_entry s j 0 = 0
   then i \<le> first_free s n i \<and> first_free s n i < i + n \<and> fat_entry s (first_free s n i) 0 = 0 \<and>
     (\<forall>j. i \<le> j \<and> j < first_free s n i \<longrightarrow> fat_entry s j 0 \<noteq> 0)
   else first_free s n i = 0"
proof (induction n arbitrary: i)
  case (Suc n)
  show ?case
  proof (cases "fat_entry s i 0 = 0")
    case True
    then have "\<exists>j. i \<le> j \<and> j < i + Suc n \<and> fat_entry s j 0 = 0" by (intro exI[of _ i]) simp
    then show ?thesis using True by simp
  next
    case False
    let ?f = "first_free s n (Suc i)"
    have f: "first_free s (Suc n) i = ?f" using False by simp
    have e: "(i \<le> j \<and> j < i + Suc n \<and> fat_entry s j 0 = 0) = (Suc i \<le> j \<and> j < Suc i + n \<and> fat_entry s j 0 = 0)" for j
      using False by (cases "j = i") auto
    have al: "(i \<le> j \<and> j < ?f \<longrightarrow> fat_entry s j 0 \<noteq> 0) = (Suc i \<le> j \<and> j < ?f \<longrightarrow> fat_entry s j 0 \<noteq> 0)" for j
      using False by (cases "j = i") auto
    show ?thesis
    proof (cases "\<exists>j. Suc i \<le> j \<and> j < Suc i + n \<and> fat_entry s j 0 = 0")
      case True
      have "Suc i \<le> ?f \<and> ?f < Suc i + n \<and> fat_entry s ?f 0 = 0 \<and>
        (\<forall>j. Suc i \<le> j \<and> j < ?f \<longrightarrow> fat_entry s j 0 \<noteq> 0)"
        using Suc[of "Suc i"] unfolding if_P[OF True] .
      then have "Suc i \<le> ?f" "?f < Suc i + n" "fat_entry s ?f 0 = 0"
        "\<forall>j. Suc i \<le> j \<and> j < ?f \<longrightarrow> fat_entry s j 0 \<noteq> 0" by blast+
      moreover from this(1,2) have "i \<le> ?f" "?f < i + Suc n" by simp_all
      ultimately show ?thesis unfolding f e al if_P[OF True] by blast
    next
      case none: False
      show ?thesis using Suc[of "Suc i"] unfolding f e if_not_P[OF none] .
    qed
  qed
qed auto

lemma fat_entry_geometry:
  "geometry (s\<lparr>fh_bytes := m, fh_cursor := x\<rparr>) = geometry s" "in_fat (s\<lparr>fh_bytes := m, fh_cursor := x\<rparr>) c = in_fat s c"
  by (simp_all add: geometry_def in_fat_def)

lemma write_fat_entry_table:
  assumes "geometry s" "k < BPB_NumFATs s" "2 \<le> c" "in_fat s c"
  shows "\<exists>m x. write_fat_entry c v k s = (Ret (), s\<lparr>fh_bytes := m, fh_cursor := x\<rparr>) \<and>
    (\<forall>c' k'. in_fat s c' \<longrightarrow> fat_entry (s\<lparr>fh_bytes := m, fh_cursor := x\<rparr>) c' k' =
      (if (c', k') = (c, k) then v mod 2 ^ entry_bits (FATType s) else fat_entry s c' k'))"
  using write_fat_entry_eq[OF assms, of v] fat_entry_put[OF assms(4)] by blast

lemma last_cluster_bits: "geometry s \<Longrightarrow> LAST_CLUSTER s mod 2 ^ entry_bits (FATType s) = LAST_CLUSTER s"
  by (cases "FATType s") (auto simp: geometry_def entry_bits_def)

definition linked_entry :: "fat_fs \<Rightarrow> nat \<Rightarrow> nat \<Rightarrow> nat set \<Rightarrow> nat \<Rightarrow> nat \<Rightarrow> nat" where
  "linked_entry s prev nxt ks c k =
    (if k \<in> ks \<and> c = nxt then LAST_CLUSTER s
     else if k \<in> ks \<and> c = prev \<and> prev \<noteq> 0 then nxt mod 2 ^ entry_bits (FATType s)
     else fat_entry s c k)"

lemma link_in_fats_eq:
  assumes "geometry s" "2 \<le> nxt" "in_fat s nxt" "prev = 0 \<or> 2 \<le> prev \<and> in_fat s prev"
    and "\<And>k. k \<in> set ks \<Longrightarrow> k < BPB_NumFATs s"
  shows "\<exists>m x. link_in_fats prev nxt ks s = (Ret (), s\<lparr>fh_bytes := m, fh_cursor := x\<rparr>) \<and>
    (\<forall>c k. in_fat s c \<longrightarrow> fat_entry (s\<lparr>fh_bytes := m, fh_cursor := x\<rparr>) c k = linked_entry s prev nxt (set ks) c k)"
  using assms
proof (induction ks arbitrary: s)
  case Nil
  then show ?case by (intro exI[of _ "fh_bytes s"] exI[of _ "fh_cursor s"]) (simp add: linked_entry_def)
next
  case (Cons k ks)
  have k: "k < BPB_NumFATs s" using Cons.prems(5) by simp
  obtain m1 x1 where W1: "(if prev \<noteq> 0 then write_fat_entry prev nxt k s else (Ret (), s)) =
      (Ret (), s\<lparr>fh_bytes := m1, fh_cursor := x1\<rparr>)"
    "\<And>c' k'. in_fat s c' \<Longrightarrow> fat_entry (s\<lparr>fh_bytes := m1, fh_cursor := x1\<rparr>) c' k' =
      (if prev \<noteq> 0 \<and> (c', k') = (prev, k) then nxt mod 2 ^ entry_bits (FATType s) else fat_entry s c' k')"
  proof (cases "prev = 0")
    case True
    then show ?thesis using that[of "fh_cursor s" "fh_bytes s"] by simp
  next
    case False
    then show ?thesis using write_fat_entry_table[OF Cons.prems(1) k, of prev nxt] Cons.prems(4) that by auto
  qed
  let ?s1 = "s\<lparr>fh_bytes := m1, fh_cursor := x1\<rparr>"
  have g1: "geometry ?s1" "k < BPB_NumFATs ?s1" "in_fat ?s1 nxt" using Cons.prems(1,3) k by (simp_all add: fat_entry_geometry)
  from write_fat_entry_table[OF g1(1,2) Cons.prems(2) g1(3), of "LAST_CLUSTER s"] obtain m2 x2 where
    W2: "write_fat_entry nxt (LAST_CLUSTER s) k ?s1 = (Ret (), s\<lparr>fh_bytes := m2, fh_cursor := x2\<rparr>)"
    "\<And>c' k'. in_fat s c' \<Longrightarrow> fat_entry (s\<lparr>fh_bytes := m2, fh_cursor := x2\<rparr>) c' k' =
      (if (c', k') = (nxt, k) then LAST_CLUSTER s else fat_entry ?s1 c' k')"
    using last_cluster_bits[OF Cons.prems(1)] by (auto simp: fat_entry_geometry)
  let ?s2 = "s\<lparr>fh_bytes := m2, fh_cursor := x2\<rparr>"
  have "\<exists>m x. link_in_fats prev nxt ks ?s2 = (Ret (), ?s2\<lparr>fh_bytes := m, fh_cursor := x\<rparr>) \<and>
    (\<forall>c k. in_fat ?s2 c \<longrightarrow> fat_entry (?s2\<lparr>fh_bytes := m, fh_cursor := x\<rparr>) c k = linked_entry ?s2 prev nxt (set ks) c k)"
    by (rule Cons.IH) (use Cons.prems in \<open>simp_all add: fat_entry_geometry\<close>)
  then obtain m x where L: "link_in_fats prev nxt ks ?s2 = (Ret (), s\<lparr>fh_bytes := m, fh_cursor := x\<rparr>)"
    "\<And>c k. in_fat s c \<Longrightarrow> fat_entry (s\<lparr>fh_bytes := m, fh_cursor := x\<rparr>) c k = linked_entry ?s2 prev nxt (set ks) c k"
    by (auto simp: fat_entry_geometry)
  have "link_in_fats prev nxt (k # ks) s = (Ret (), s\<lparr>fh_bytes := m, fh_cursor := x\<rparr>)"
    using W1(1) W2(1) L(1) by (simp add: andthen_def)
  moreover have "fat_entry (s\<lparr>fh_bytes := m, fh_cursor := x\<rparr>) c k' = linked_entry s prev nxt (set (k # ks)) c k'"
    if "in_fat s c" for c k'
    using L(2)[OF that] W2(2)[OF that] W1(2)[OF that] by (auto simp: linked_entry_def)
  ultimately show ?case by blast
qed

text \<open>The count of entries never goes past the end of the table.\<close>

definition counted :: "fat_fs \<Rightarrow> bool" where
  "counted s \<longleftrightarrow> number_of_FAT_entries s = FATSz s * BPB_BytsPerSec s div 4"

lemma counted_in_fat: "counted s \<Longrightarrow> FATType s \<noteq> FAT12 \<Longrightarrow> c < number_of_FAT_entries s \<Longrightarrow> in_fat s c"
  by (cases "FATType s") (auto simp: counted_def in_fat_def fat_offset_def entry_width_def)

section \<open>Properties\<close>

text \<open>
  C17: \<^verbatim>\<open>write_fat_entry\<close> followed by \<^verbatim>\<open>find_fat_entry\<close> returns the written value (cut to 12,
  16 or 28 bits), and no other entry of any copy of the table changes; with twelve-bit
  entries this includes the neighbour that shares a byte.
\<close>

theorem fat_entry_roundtrip:
  assumes "geometry s" "k < BPB_NumFATs s" "2 \<le> c" "in_fat s c"
  shows "\<exists>s'. write_fat_entry c v k s = (Ret (), s') \<and>
    fst (find_fat_entry c k s') = Ret (v mod 2 ^ entry_bits (FATType s)) \<and>
    (\<forall>c' k'. 2 \<le> c' \<and> in_fat s c' \<and> k' < BPB_NumFATs s \<and> (c', k') \<noteq> (c, k) \<longrightarrow>
      fst (find_fat_entry c' k' s') = fst (find_fat_entry c' k' s))"
proof -
  from write_fat_entry_table[OF assms, of v] obtain m x where W:
    "write_fat_entry c v k s = (Ret (), s\<lparr>fh_bytes := m, fh_cursor := x\<rparr>)"
    "\<And>c' k'. in_fat s c' \<Longrightarrow> fat_entry (s\<lparr>fh_bytes := m, fh_cursor := x\<rparr>) c' k' =
      (if (c', k') = (c, k) then v mod 2 ^ entry_bits (FATType s) else fat_entry s c' k')" by blast
  let ?s = "s\<lparr>fh_bytes := m, fh_cursor := x\<rparr>"
  have read: "fst (find_fat_entry c' k' ?s) = Ret (fat_entry ?s c' k')"
    if "2 \<le> c'" "in_fat s c'" "k' < BPB_NumFATs s" for c' k'
    using find_fat_entry_eq[of ?s k' c'] that assms(1) by (simp add: fat_entry_geometry)
  have read0: "fst (find_fat_entry c' k' s) = Ret (fat_entry s c' k')"
    if "2 \<le> c'" "in_fat s c'" "k' < BPB_NumFATs s" for c' k'
    using find_fat_entry_eq[of s k' c'] that assms(1) by simp
  show ?thesis
    using W assms read read0 by (intro exI[of _ ?s]) auto
qed

definition small_volume :: "fat_type \<Rightarrow> fat_fs" where
  "small_volume ty = \<lparr>FATSz = 1, FATType = ty, BPB_RsvdSecCnt = 1, BPB_SecPerClus = 1, BPB_BytsPerSec = 512,
    BPB_RootEntCnt = 16, BPB_NumFATs = 2, BPB_RootClus = 2, cluster_size = 512, number_of_entries_per_cluster = 16,
    number_of_clusters = 100, number_of_FAT_entries = 128, root_directory_begin = 1536, first_data_sector = 4,
    BAD_CLUSTER = fst (bad_and_last ty), LAST_CLUSTER = snd (bad_and_last ty),
    fh_bytes = (\<lambda>a. if 512 \<le> a \<and> a < 540 then 1 else 0), fh_cursor = 0, lock = False, token_copied = True\<rparr>"

theorem fat_entry_roundtrip_witness:
  "\<exists>s'. write_fat_entry 5 0xABC 0 (small_volume FAT12) = (Ret (), s') \<and> fst (find_fat_entry 5 0 s') = Ret 0xABC \<and>
    fst (find_fat_entry 4 0 s') = fst (find_fat_entry 4 0 (small_volume FAT12))"
proof -
  have g: "geometry (small_volume FAT12)" "0 < BPB_NumFATs (small_volume FAT12)" "in_fat (small_volume FAT12) 5"
    "in_fat (small_volume FAT12) 4" "entry_bits (FATType (small_volume FAT12)) = 12"
    by (simp_all add: small_volume_def geometry_def in_fat_def fat_offset_def entry_width_def entry_bits_def)
  from fat_entry_roundtrip[where c = 5 and v = "0xABC", OF g(1,2) _ g(3)] g show ?thesis by auto
qed



lemma free_scan_numeral:
  "free_scan (numeral n) i s = andthen (\<lambda>s. case FATType s of
        FAT12 \<Rightarrow> andthen (fh_read 2) (\<lambda>bs. ret (if odd i then le_value bs div 16 else le_value bs mod 0x1000)) s
      | FAT16 \<Rightarrow> andthen (fh_read 2) (\<lambda>bs. ret (le_value bs)) s
      | FAT32 \<Rightarrow> andthen (fh_read 4) (\<lambda>bs. ret (le_value bs mod 0x10000000)) s)
      (\<lambda>v. if v = 0 then ret i else free_scan (pred_numeral n) (Suc i)) s"
  by (simp add: numeral_eq_Suc)

definition packed_volume :: fat_fs where
  "packed_volume = (small_volume FAT12)\<lparr>fh_bytes := (\<lambda>a. if 512 \<le> a \<and> a < 526 then 0x11 else 0)\<rparr>"

text \<open>
  On FAT12 the search takes used clusters for free ones. The entries are packed in
  twelve bits, but the search reads a new 16-bit word for each: with clusters 2 to 8 in use
  and the table zero from byte 14 on, it returns cluster 7.
\<close>

theorem find_free_cluster_fat12_bug:
  "fst (find_free_cluster 0 packed_volume) = Ret 7 \<and> fat_entry packed_volume 7 0 = 0x111"
proof -
  let ?s = "packed_volume\<lparr>fh_cursor := 528\<rparr>"
  have scan: "andthen (fh_set 512) (\<lambda>_. free_scan (number_of_FAT_entries packed_volume) 0) packed_volume = (Ret 7, ?s)"
    by (simp add: free_scan_numeral andthen_def fh_set_def fh_read_def ret_def packed_volume_def small_volume_def le_value_2)
  have "\<exists>m x. link_in_fats 0 7 [0..<BPB_NumFATs ?s] ?s = (Ret (), ?s\<lparr>fh_bytes := m, fh_cursor := x\<rparr>)"
    using link_in_fats_eq[of ?s 7 0 "[0..<BPB_NumFATs ?s]"]
    by (auto simp: packed_volume_def small_volume_def geometry_def in_fat_def fat_offset_def entry_width_def)
  then have "fst (find_free_cluster 0 packed_volume) = Ret 7" using scan
    by (auto simp: find_free_cluster_def andthen_def ret_def packed_volume_def small_volume_def split: prod.splits outcome.splits)
  moreover have "fat_entry packed_volume 7 0 = 0x111"
    by (simp add: fat_entry_def packed_volume_def small_volume_def entry12_def entry_pos_def fat_offset_def fat_begin_def le_value_2)
  ultimately show ?thesis by blast
qed

end
