(* ===== verification/FatFile.thy ===== *)
theory FatFile
  imports FatFs
begin

text \<open>
  A file of a FAT volume, drivers/fat/fat_file.cc. The state is the file object with its
  volume; a read returns the bytes put into the buffer. A loop that takes \<^verbatim>\<open>cluster_size\<close>
  off a count runs \<open>count div cluster_size\<close> times, and for ever when the cluster size is 0.
\<close>

record fat_file =
  head_position :: nat
  head_position_within_cluster :: nat
  head_position_cluster_number :: nat
  file_size :: nat
  first_cluster_number :: nat
  address_of_entry_in_parent_directory :: nat

type_synonym file_state = "fat_file \<times> fat_fs"

definition on_file :: "(fat_file \<Rightarrow> fat_file) \<Rightarrow> (file_state, unit) action" where
  "on_file g = (\<lambda>(f, s). (Ret (), (g f, s)))"

definition FAT_file :: "nat \<Rightarrow> nat \<Rightarrow> nat \<Rightarrow> fat_fs \<Rightarrow> unit outcome \<times> file_state" where
  "FAT_file sz first address s =
    (let f = \<lparr>head_position = 0, head_position_within_cluster = 0, head_position_cluster_number = first,
           file_size = sz, first_cluster_number = first, address_of_entry_in_parent_directory = address\<rparr>
     in if first \<noteq> 0
        then on_fs (andthen (cluster_number_to_address first) (\<lambda>a. andthen (fh_set a) (\<lambda>_. ret ()))) (f, s)
        else (Ret (), (f, s)))"

text \<open>The successor of a cluster, with the four checks of its number.\<close>

definition next_cluster :: "nat \<Rightarrow> (fat_fs, nat) action" where
  "next_cluster c =
    andthen (find_fat_entry c 0) (\<lambda>n s.
      if n = 0 then (Throw (Logic_error ''File is too short, this cluster is not allocated''), s)
      else if n = LAST_CLUSTER s then (Throw (Logic_error ''File is too long, this cluster is not allocated''), s)
      else if n = BAD_CLUSTER s then (Throw (Logic_error ''Bad cluster''), s)
      else if n > number_of_clusters s then (Throw (Logic_error ''This cluster is reserved''), s)
      else (Ret n, s))"

section \<open>Seeking\<close>

fun follow :: "nat \<Rightarrow> nat \<Rightarrow> (fat_fs, nat) action" where
  "follow 0 c = ret c"
| "follow (Suc n) c = andthen (next_cluster c) (follow n)"

definition set_position :: "nat \<Rightarrow> (file_state, nat) action" where
  "set_position position = (\<lambda>(f, s).
    if position = head_position f then (Ret position, (f, s))
    else if file_size f = 0 \<and> position > 0 \<or> file_size f > 0 \<and> position \<ge> file_size f
    then (Throw (Logic_error ''Position is out of file size''), (f, s))
    else
      let f = f\<lparr>head_position := position\<rparr> in
      if cluster_size s = 0 then (Hang, (f, s))
      else
        andthen (on_fs (andthen (follow (position div cluster_size s) (first_cluster_number f)) (\<lambda>c.
            andthen (cluster_number_to_address c) (\<lambda>a.
            andthen (fh_set (wrap64 (a + position mod cluster_size s))) (\<lambda>_. ret c)))))
          (\<lambda>c. andthen (on_file (\<lambda>f. f\<lparr>head_position_within_cluster := position mod cluster_size s,
              head_position_cluster_number := c\<rparr>)) (\<lambda>_. ret (position mod cluster_size s))) (f, s))"

text \<open>Offsets are taken modulo \<open>2 ^ 64\<close>, so that a negative one is its complement.\<close>

definition seek :: "nat \<Rightarrow> seekref \<Rightarrow> (file_state, nat) action" where
  "seek offset whence =
    locked (\<lambda>(f, s).
      case whence of
        SET \<Rightarrow> set_position offset (f, s)
      | CUR \<Rightarrow> set_position (wrap64 (head_position f + offset)) (f, s)
      | END \<Rightarrow> set_position (wrap64 (file_size f + offset)) (f, s))"

section \<open>Reading\<close>

definition read_first :: "nat \<Rightarrow> (file_state, u8 list) action" where
  "read_first remaining =
    andthen (on_fs (fh_read remaining)) (\<lambda>bs.
    andthen (on_file (\<lambda>f. f\<lparr>head_position := wrap64 (head_position f + remaining),
        head_position_within_cluster := 0\<rparr>)) (\<lambda>_. ret bs))"

fun read_clusters :: "nat \<Rightarrow> (file_state, u8 list) action" where
  "read_clusters 0 fs = (Ret [], fs)"
| "read_clusters (Suc n) fs =
    andthen (\<lambda>(f, s).
      andthen (on_fs (next_cluster (head_position_cluster_number f))) (\<lambda>c.
      andthen (on_fs (andthen (cluster_number_to_address c) fh_set)) (\<lambda>_.
      andthen (on_fs (fh_read (cluster_size s))) (\<lambda>bs.
      andthen (on_file (\<lambda>f. f\<lparr>head_position := wrap64 (head_position f + cluster_size s),
          head_position_cluster_number := c\<rparr>)) (\<lambda>_. ret bs)))) (f, s))
    (\<lambda>bs. andthen (read_clusters n) (\<lambda>more. ret (bs @ more))) fs"

definition read_last :: "nat \<Rightarrow> (file_state, u8 list) action" where
  "read_last sz = (\<lambda>(f, s).
    if sz > 0 then
      andthen (on_fs (next_cluster (head_position_cluster_number f))) (\<lambda>c.
      andthen (on_fs (andthen (cluster_number_to_address c) fh_set)) (\<lambda>_.
      andthen (on_fs (fh_read sz)) (\<lambda>bs.
      andthen (on_file (\<lambda>f. f\<lparr>head_position := wrap64 (head_position f + sz),
          head_position_within_cluster := sz, head_position_cluster_number := c\<rparr>)) (\<lambda>_. ret bs)))) (f, s)
    else (Ret [], (f, s)))"

definition read_file :: "nat \<Rightarrow> (file_state, u8 list) action" where
  "read_file sz0 =
    locked (\<lambda>(f, s).
      let sz = (if wrap64 (head_position f + sz0) > file_size f then sub64 (file_size f) (head_position f) else sz0)
      in
      andthen (seek 0 CUR) (\<lambda>_ (f, s).
        let remaining = min (sub64 (cluster_size s) (head_position_within_cluster f)) sz;
            rest = sz - remaining
        in
        andthen (read_first remaining) (\<lambda>b1 (f, s).
          if cluster_size s = 0 then (Hang, (f, s))
          else
            andthen (read_clusters (rest div cluster_size s)) (\<lambda>b2.
            andthen (read_last (rest mod cluster_size s)) (\<lambda>b3.
              ret (b1 @ b2 @ b3))) (f, s)) (f, s)) (f, s))"

section \<open>Writing\<close>

text \<open>The checks before a further cluster is written, in the order of the two places.\<close>

definition extend :: "(file_state, nat option) action" where
  "extend = (\<lambda>(f, s).
    andthen (on_fs (find_free_cluster (head_position_cluster_number f))) (\<lambda>c.
      if c = 0 then ret None
      else andthen (on_fs (andthen (cluster_number_to_address c) fh_set)) (\<lambda>_. ret (Some c))) (f, s))"

definition cluster_to_write :: "(file_state, nat option) action" where
  "cluster_to_write = (\<lambda>(f, s).
    andthen (on_fs (find_fat_entry (head_position_cluster_number f) 0)) (\<lambda>n (f, s).
      if n = 0 then (Throw (Logic_error ''File is too short, this cluster is not allocated''), (f, s))
      else if n = BAD_CLUSTER s then (Throw (Logic_error ''Bad cluster''), (f, s))
      else if n > number_of_clusters s then (Throw (Logic_error ''This cluster is reserved''), (f, s))
      else if n = LAST_CLUSTER s then extend (f, s)
      else (Ret (Some n), (f, s))) (f, s))"

definition last_cluster_to_write :: "(file_state, nat option) action" where
  "last_cluster_to_write = (\<lambda>(f, s).
    andthen (on_fs (find_fat_entry (head_position_cluster_number f) 0)) (\<lambda>n (f, s).
      if n = 0 then (Throw (Logic_error ''File is too short, this cluster is not allocated''), (f, s))
      else if n = LAST_CLUSTER s then (Throw (Logic_error ''Bad cluster''), (f, s))
      else if n > number_of_clusters s then (Throw (Logic_error ''This cluster is reserved''), (f, s))
      else if n = LAST_CLUSTER s then extend (f, s)
      else (Ret (Some n), (f, s))) (f, s))"

text \<open>The four bytes of the size in the directory entry.\<close>

definition update_size :: "(file_state, unit) action" where
  "update_size = (\<lambda>(f, s).
    if head_position f > file_size f then
      let f = f\<lparr>file_size := head_position f\<rparr>
      in on_fs (andthen (fh_set (wrap64 (address_of_entry_in_parent_directory f + 28)))
           (\<lambda>_. fh_write (le_bytes 4 (file_size f)))) (f, s)
    else (Ret (), (f, s)))"

text \<open>An empty file first gets its first cluster; the two halves of its number are cut to a byte.\<close>

definition first_allocation :: "(file_state, unit) action" where
  "first_allocation = (\<lambda>(f, s).
    if file_size f = 0 then
      andthen (on_fs (find_free_cluster 0)) (\<lambda>c (f, s).
        let f = f\<lparr>first_cluster_number := c\<rparr> in
        if c = 0 then (Throw (Logic_error ''Need memory to write more to file, no free cluster found''), (f, s))
        else
          let a = address_of_entry_in_parent_directory f in
          on_fs (andthen (fh_set (wrap64 (a + 20))) (\<lambda>_.
            andthen (fh_write (le_bytes 2 (c div 2 ^ 16 mod 256))) (\<lambda>_.
            andthen (fh_set (wrap64 (a + 26))) (\<lambda>_.
            andthen (fh_write (le_bytes 2 (c mod 256))) (\<lambda>_.
            andthen (cluster_number_to_address c) (\<lambda>a.
            andthen (fh_set a) (\<lambda>_. ret ()))))))) (f\<lparr>head_position_cluster_number := c\<rparr>, s)) (f, s)
    else (Ret (), (f, s)))"

text \<open>The whole clusters: \<open>Some n\<close> when the volume is full and \<open>n\<close> bytes have been written.\<close>

fun write_clusters :: "nat \<Rightarrow> u8 list \<Rightarrow> nat \<Rightarrow> (file_state, nat option) action" where
  "write_clusters 0 bs written fs = (Ret None, fs)"
| "write_clusters (Suc n) bs written fs =
    andthen cluster_to_write (\<lambda>c.
      case c of
        None \<Rightarrow> andthen update_size (\<lambda>_. ret (Some written))
      | Some c \<Rightarrow>
          andthen (\<lambda>(f, s).
            andthen (on_fs (fh_write (take (cluster_size s) bs))) (\<lambda>_.
              on_file (\<lambda>f. f\<lparr>head_position := wrap64 (head_position f + cluster_size s),
                head_position_cluster_number := c\<rparr>)) (f, s)) (\<lambda>_ (f, s).
            write_clusters n (drop (cluster_size s) bs) (written + cluster_size s) (f, s))) fs"

definition write_last :: "u8 list \<Rightarrow> nat \<Rightarrow> (file_state, nat option) action" where
  "write_last bs written =
    (if bs \<noteq> [] then
       andthen last_cluster_to_write (\<lambda>c.
         case c of
           None \<Rightarrow> andthen update_size (\<lambda>_. ret (Some written))
         | Some c \<Rightarrow>
             andthen (on_fs (fh_write bs)) (\<lambda>_.
             andthen (on_file (\<lambda>f. f\<lparr>head_position := wrap64 (head_position f + length bs),
                 head_position_within_cluster := length bs, head_position_cluster_number := c\<rparr>)) (\<lambda>_. ret None)))
     else ret None)"

definition write_file :: "u8 list \<Rightarrow> (file_state, nat) action" where
  "write_file bs =
    locked (\<lambda>(f, s).
      let first = min (sub64 (cluster_size s) (head_position_within_cluster f)) (length bs);
          more = drop first bs
      in
      andthen first_allocation (\<lambda>_.
      andthen (on_fs (fh_write (take first bs))) (\<lambda>_.
      andthen (on_file (\<lambda>f. f\<lparr>head_position := wrap64 (head_position f + first), head_position_within_cluster := 0\<rparr>))
        (\<lambda>_ (f, s).
        if cluster_size s = 0 then (Hang, (f, s))
        else
          let k = length more div cluster_size s * cluster_size s in
          andthen (write_clusters (length more div cluster_size s) more first) (\<lambda>full.
            case full of
              Some n \<Rightarrow> ret n
            | None \<Rightarrow>
                andthen (write_last (drop k more) (first + k)) (\<lambda>full.
                  case full of
                    Some n \<Rightarrow> ret n
                  | None \<Rightarrow> andthen update_size (\<lambda>_. ret (length bs)))) (f, s)))) (f, s))"

section \<open>Reading along a chain of clusters\<close>

fun cluster_chain :: "fat_fs \<Rightarrow> nat list \<Rightarrow> bool" where
  "cluster_chain s [] = True"
| "cluster_chain s [c] = (2 \<le> c)"
| "cluster_chain s (c # d # cs) = (2 \<le> c \<and> in_fat s c \<and> fat_entry s c 0 = d \<and> d \<noteq> LAST_CLUSTER s \<and>
    d \<noteq> BAD_CLUSTER s \<and> d \<le> number_of_clusters s \<and> cluster_chain s (d # cs))"

lemma cluster_chain_ge2: "cluster_chain s (c # cs) \<Longrightarrow> 2 \<le> c"
  by (cases cs) auto

lemma in_fat_cursor [simp]: "in_fat (s\<lparr>fh_cursor := x\<rparr>) c = in_fat s c"
  by (simp add: in_fat_def)

lemma geometry_cursor [simp]: "geometry (s\<lparr>fh_cursor := x\<rparr>) = geometry s"
  by (simp add: geometry_def)

lemma cluster_chain_cursor [simp]: "cluster_chain (s\<lparr>fh_cursor := x\<rparr>) cs = cluster_chain s cs"
  by (induction s cs rule: cluster_chain.induct) auto

definition data_address :: "fat_fs \<Rightarrow> nat \<Rightarrow> nat" where
  "data_address s c = wrap64 (((c - 2) * BPB_SecPerClus s + first_data_sector s) * BPB_BytsPerSec s)"

definition cluster_data :: "fat_fs \<Rightarrow> nat \<Rightarrow> u8 list" where
  "cluster_data s c = bytes_at (fh_bytes s) (data_address s c) (cluster_size s)"

lemma data_cursor [simp]:
  "data_address (s\<lparr>fh_cursor := x\<rparr>) c = data_address s c" "cluster_data (s\<lparr>fh_cursor := x\<rparr>) = cluster_data s"
  by (simp_all add: data_address_def cluster_data_def fun_eq_iff)

lemma length_cluster_data [simp]: "length (cluster_data s c) = cluster_size s"
  by (simp add: cluster_data_def)

lemma address_eq: "2 \<le> c \<Longrightarrow> cluster_number_to_address c s = (Ret (data_address s c), s)"
  by (simp add: cluster_number_to_address_def data_address_def)

lemma next_cluster_eq:
  assumes "geometry s" "cluster_chain s (c # d # cs)"
  shows "\<exists>x. next_cluster c s = (Ret d, s\<lparr>fh_cursor := x\<rparr>)"
proof -
  have c: "2 \<le> c" "in_fat s c" "fat_entry s c 0 = d" "2 \<le> d" "d \<noteq> LAST_CLUSTER s" "d \<noteq> BAD_CLUSTER s"
    "d \<le> number_of_clusters s" using assms(2) cluster_chain_ge2[of s d cs] by auto
  have "0 < BPB_NumFATs s" using assms(1) by (simp add: geometry_def)
  from find_fat_entry_eq[OF assms(1) this c(1,2)] c show ?thesis
    by (intro exI[of _ "entry_pos s c 0 + entry_width (FATType s)"]) (simp add: next_cluster_def andthen_def)
qed

lemma take_bytes_at: "k \<le> n \<Longrightarrow> take k (bytes_at m a n) = bytes_at m a k"
  by (simp add: bytes_at_def take_map)

lemma read_clusters_eq:
  assumes "geometry s" "cluster_chain s (c # cs)" "n \<le> length cs" "head_position_cluster_number f = c"
  shows "\<exists>x h. read_clusters n (f, s) = (Ret (concat (map (cluster_data s) (take n cs))),
    (f\<lparr>head_position := h, head_position_cluster_number := (c # cs) ! n\<rparr>, s\<lparr>fh_cursor := x\<rparr>))"
  using assms
proof (induction n arbitrary: f s c cs)
  case 0
  then show ?case by (intro exI[of _ "fh_cursor s"] exI[of _ "head_position f"]) simp
next
  case (Suc n)
  then obtain d ds where cs: "cs = d # ds" by (cases cs) auto
  from next_cluster_eq[OF Suc.prems(1)] Suc.prems(2) cs obtain x where
    X: "next_cluster c s = (Ret d, s\<lparr>fh_cursor := x\<rparr>)" by blast
  have d: "2 \<le> d" "cluster_chain s (d # ds)" using Suc.prems(2) cs cluster_chain_ge2[of s d ds] by auto
  let ?f = "f\<lparr>head_position := wrap64 (head_position f + cluster_size s), head_position_cluster_number := d\<rparr>"
  let ?s = "s\<lparr>fh_cursor := data_address s d + cluster_size s\<rparr>"
  have "read_clusters (Suc n) (f, s) = andthen (read_clusters n) (\<lambda>more. ret (cluster_data s d @ more)) (?f, ?s)"
    using Suc.prems(4) X d by (simp add: andthen_def on_fs_def on_file_def ret_def address_eq fh_set_def fh_read_def cluster_data_def)
  moreover have "\<exists>x h. read_clusters n (?f, ?s) = (Ret (concat (map (cluster_data ?s) (take n ds))),
    (?f\<lparr>head_position := h, head_position_cluster_number := (d # ds) ! n\<rparr>, ?s\<lparr>fh_cursor := x\<rparr>))"
    by (rule Suc.IH) (use Suc.prems d cs in simp_all)
  then obtain x h where "read_clusters n (?f, ?s) = (Ret (concat (map (cluster_data s) (take n ds))),
    (f\<lparr>head_position := h, head_position_cluster_number := (d # ds) ! n\<rparr>, s\<lparr>fh_cursor := x\<rparr>))" by auto
  ultimately have "read_clusters (Suc n) (f, s) = (Ret (cluster_data s d @ concat (map (cluster_data s) (take n ds))),
    (f\<lparr>head_position := h, head_position_cluster_number := (d # ds) ! n\<rparr>, s\<lparr>fh_cursor := x\<rparr>))"
    by (simp only: andthen_def ret_def prod.case outcome.case)
  then show ?case by (intro exI[of _ x] exI[of _ h]) (simp only: cs take_Suc_Cons list.map concat.simps nth_Cons_Suc)
qed

lemma read_last_eq:
  assumes "geometry s" "cluster_chain s (c # d # cs)" "head_position_cluster_number f = c" "0 < r" "r \<le> cluster_size s"
  shows "\<exists>fs. read_last r (f, s) = (Ret (take r (cluster_data s d)), fs)"
proof -
  from next_cluster_eq[OF assms(1,2)] obtain x where X: "next_cluster c s = (Ret d, s\<lparr>fh_cursor := x\<rparr>)" by blast
  have "2 \<le> d" using assms(2) cluster_chain_ge2[of s d cs] by auto
  then show ?thesis using X assms
    by (simp add: read_last_def andthen_def on_fs_def on_file_def ret_def address_eq fh_set_def fh_read_def
        cluster_data_def take_bytes_at)
qed

lemma take_concat_blocks:
  assumes "\<And>x. length (D x) = b" "k * b + r \<le> length xs * b" "r < b"
  shows "take (k * b + r) (concat (map D xs)) = concat (map D (take k xs)) @ (if r = 0 then [] else take r (D (xs ! k)))"
  using assms(2)
proof (induction k arbitrary: xs)
  case 0
  then show ?case using assms(1,3) by (cases xs) auto
next
  case (Suc k)
  then obtain y ys where xs: "xs = y # ys" using assms(3) by (cases xs) auto
  have "k * b + r \<le> length ys * b" using Suc.prems by (simp add: xs)
  from Suc.IH[OF this] show ?case using assms(1) by (simp add: xs)
qed

lemma cluster_chain_tl: "cluster_chain s (c # cs) \<Longrightarrow> cluster_chain s cs"
  by (cases cs) auto

lemma cluster_chain_drop: "cluster_chain s cs \<Longrightarrow> cluster_chain s (drop n cs)"
proof (induction n arbitrary: cs)
  case (Suc n)
  then show ?case by (cases cs) (auto dest: cluster_chain_tl)
qed simp

section \<open>A whole read from the start\<close>

lemma seek_same:
  assumes "\<not> lock s" "token_copied s" "head_position f < 2 ^ 64"
  shows "seek 0 CUR (f, s) = (Ret (head_position f), (f, s))"
proof -
  have "release_lock s = s" using assms(1) by (cases s) (simp add: release_lock_def)
  then show ?thesis using assms by (simp add: seek_def locked_free set_position_def)
qed

lemma read_body:
  assumes g: "geometry s" "cluster_chain s (c # cs)" "0 < cluster_size s"
    and f: "head_position_cluster_number f = c" "fh_cursor s = data_address s c"
    and n: "n \<le> Suc (length cs) * cluster_size s"
    and rem: "remaining = min (cluster_size s) n" and rest: "rest = n - remaining"
  shows "\<exists>fs. andthen (read_first remaining) (\<lambda>b1 (f, s).
      if cluster_size s = 0 then (Hang, (f, s))
      else andthen (read_clusters (rest div cluster_size s)) (\<lambda>b2.
        andthen (read_last (rest mod cluster_size s)) (\<lambda>b3. ret (b1 @ b2 @ b3))) (f, s)) (f, s) =
    (Ret (take n (concat (map (cluster_data s) (c # cs)))), fs)"
proof -
  let ?b = "cluster_size s" and ?D = "cluster_data s"
  let ?s = "s\<lparr>fh_cursor := fh_cursor s + remaining\<rparr>"
  let ?f = "f\<lparr>head_position := wrap64 (head_position f + remaining), head_position_within_cluster := 0\<rparr>"
  let ?k = "rest div ?b" and ?r = "rest mod ?b"
  have b1: "take remaining (?D c) = bytes_at (fh_bytes s) (fh_cursor s) remaining"
    using f(2) rem by (simp add: cluster_data_def take_bytes_at)
  have first: "read_first remaining (f, s) = (Ret (take remaining (?D c)), (?f, ?s))"
    unfolding b1 by (simp add: read_first_def andthen_def on_fs_def on_file_def ret_def fh_read_def)
  have kr: "?k * ?b + ?r = rest" by (simp add: mult.commute)
  have le: "rest \<le> length cs * ?b" using n rem rest by (simp add: min_def split: if_splits)
  then have kl: "?k \<le> length cs" using g(3) by (metis div_le_mono div_mult_self_is_m)
  have "\<exists>x h. read_clusters ?k (?f, ?s) = (Ret (concat (map (cluster_data ?s) (take ?k cs))),
    (?f\<lparr>head_position := h, head_position_cluster_number := (c # cs) ! ?k\<rparr>, ?s\<lparr>fh_cursor := x\<rparr>))"
    by (rule read_clusters_eq) (use g f kl in simp_all)
  then obtain x h where R: "read_clusters ?k (?f, ?s) = (Ret (concat (map ?D (take ?k cs))),
    (?f\<lparr>head_position := h, head_position_cluster_number := (c # cs) ! ?k\<rparr>, s\<lparr>fh_cursor := x\<rparr>))" by auto
  let ?f2 = "?f\<lparr>head_position := h, head_position_cluster_number := (c # cs) ! ?k\<rparr>"
  have "\<exists>fs. read_last ?r (?f2, s\<lparr>fh_cursor := x\<rparr>) = (Ret (if ?r = 0 then [] else take ?r (?D (cs ! ?k))), fs)"
  proof (cases "?r = 0")
    case False
    have "?k * ?b < length cs * ?b" using le kr False by linarith
    then have k: "?k < length cs" by simp
    then have "drop ?k (c # cs) = (c # cs) ! ?k # cs ! ?k # drop (Suc ?k) cs"
      by (metis Cons_nth_drop_Suc drop_Suc_Cons length_Cons less_SucI nth_Cons_Suc)
    then have "cluster_chain (s\<lparr>fh_cursor := x\<rparr>) ((c # cs) ! ?k # cs ! ?k # drop (Suc ?k) cs)"
      using cluster_chain_drop[OF g(2), of ?k] by simp
    from read_last_eq[OF _ this, of ?f2 ?r] show ?thesis using g(1,3) False by (simp add: less_imp_le)
  qed (simp add: read_last_def)
  then obtain fs where L: "read_last ?r (?f2, s\<lparr>fh_cursor := x\<rparr>) = (Ret (if ?r = 0 then [] else take ?r (?D (cs ! ?k))), fs)" by blast
  have "take rest (concat (map ?D cs)) = concat (map ?D (take ?k cs)) @ (if ?r = 0 then [] else take ?r (?D (cs ! ?k)))"
    using take_concat_blocks[of ?D ?b ?k ?r cs] le g(3) kr by simp
  moreover have "take n (concat (map ?D (c # cs))) = take remaining (?D c) @ take rest (concat (map ?D cs))"
    using rem rest by (simp add: min_def)
  ultimately have "take n (concat (map ?D (c # cs))) = take remaining (?D c) @ concat (map ?D (take ?k cs)) @
    (if ?r = 0 then [] else take ?r (?D (cs ! ?k)))" by simp
  then show ?thesis using first R L g(3) by (simp add: andthen_def ret_def)
qed

section \<open>Properties\<close>

text \<open>
  C19: reading from a freshly opened file returns the data of the file. If the file's clusters
  form a chain in the table, the first read of \<open>n\<close> bytes (within the file's size and its
  clusters) returns the first \<open>n\<close> bytes of the concatenated clusters, wherever these lie on
  the disk and however many they are; the lock is taken for released (the token is copied).
\<close>

theorem read_file_correct:
  assumes "geometry s" "cluster_chain s (c # cs)" "0 < cluster_size s" "cluster_size s < 2 ^ 64"
    and "\<not> lock s" "token_copied s" "n \<le> sz" "sz < 2 ^ 64" "n \<le> Suc (length cs) * cluster_size s"
  shows "\<exists>fs fs'. FAT_file sz c a s = (Ret (), fs) \<and>
    read_file n fs = (Ret (take n (concat (map (cluster_data s) (c # cs)))), fs')"
proof -
  let ?f = "\<lparr>head_position = 0, head_position_within_cluster = 0, head_position_cluster_number = c,
           file_size = sz, first_cluster_number = c, address_of_entry_in_parent_directory = a\<rparr>"
  let ?s = "s\<lparr>fh_cursor := data_address s c\<rparr>"
  have c: "2 \<le> c" by (rule cluster_chain_ge2[OF assms(2)])
  then have opened: "FAT_file sz c a s = (Ret (), (?f, ?s))"
    by (simp add: FAT_file_def on_fs_def andthen_def address_eq fh_set_def ret_def)
  define remaining where "remaining = min (cluster_size s) n"
  have "\<exists>fs. andthen (read_first remaining) (\<lambda>b1 (f, s).
      if cluster_size s = 0 then (Hang, (f, s))
      else andthen (read_clusters ((n - remaining) div cluster_size s)) (\<lambda>b2.
        andthen (read_last ((n - remaining) mod cluster_size s)) (\<lambda>b3. ret (b1 @ b2 @ b3))) (f, s)) (?f, ?s) =
    (Ret (take n (concat (map (cluster_data ?s) (c # cs)))), fs)"
    using read_body[of ?s c cs ?f n remaining "n - remaining"] assms by (simp add: remaining_def)
  then obtain f2 s2 where B: "andthen (read_first remaining) (\<lambda>b1 (f, s).
      if cluster_size s = 0 then (Hang, (f, s))
      else andthen (read_clusters ((n - remaining) div cluster_size s)) (\<lambda>b2.
        andthen (read_last ((n - remaining) mod cluster_size s)) (\<lambda>b3. ret (b1 @ b2 @ b3))) (f, s)) (?f, ?s) =
    (Ret (take n (concat (map (cluster_data s) (c # cs)))), (f2, s2))" by auto
  have "\<not> wrap64 (head_position ?f + n) > file_size ?f" using assms(7,8) by simp
  then have "read_file n (?f, ?s) = (Ret (take n (concat (map (cluster_data s) (c # cs)))), (f2, release_lock s2))"
    using seek_same[of ?s ?f] assms(4,5,6) B
    by (simp add: read_file_def locked_free andthen_Ret[where m = "seek 0 CUR"] Let_def remaining_def[symmetric] cong: if_cong)
  then show ?thesis using opened by blast
qed

theorem read_file_correct_witness:
  "\<exists>fs fs'. FAT_file 600 20 0 ((small_volume FAT32)\<lparr>fh_bytes := (\<lambda>a. if a = 592 then 21 else 0)\<rparr>) = (Ret (), fs) \<and>
    read_file 600 fs = (Ret (replicate 600 0), fs')"
proof -
  let ?s = "(small_volume FAT32)\<lparr>fh_bytes := (\<lambda>a. if a = 592 then 21 else 0)\<rparr>"
  have s: "geometry ?s" "0 < cluster_size ?s" "cluster_size ?s < 2 ^ 64" "\<not> lock ?s" "token_copied ?s"
    by (simp_all add: small_volume_def geometry_def)
  have "fat_entry ?s 20 0 = 21"
    by (simp add: fat_entry_def entry_pos_def fat_offset_def fat_begin_def small_volume_def bytes_at_def upt_rec)
  then have ch: "cluster_chain ?s [20, 21]"
    by (simp add: small_volume_def in_fat_def fat_offset_def entry_width_def)
  have d: "cluster_data ?s 20 = replicate 512 0" "cluster_data ?s 21 = replicate 512 0"
    by (auto simp: cluster_data_def data_address_def small_volume_def bytes_at_def intro!: nth_equalityI)
  have cs: "cluster_size ?s = 512" by (simp add: small_volume_def)
  have "take 600 (concat (map (cluster_data ?s) [20, 21])) = replicate 600 0"
    by (simp add: d replicate_add[symmetric] take_replicate)
  then show ?thesis using read_file_correct[OF s(1) ch s(2,3,4,5), of 600 600 0] by (simp add: cs)
qed

text \<open>
  If the compiler builds the returned lock token in place, every \<^verbatim>\<open>read\<close> hangs: it holds
  the lock while it calls \<^verbatim>\<open>seek\<close>, which waits for the lock.
\<close>

theorem read_deadlock:
  assumes "\<not> token_copied s"
  shows "fst (read_file n (f, s)) = Hang"
  using assms by (simp add: read_file_def locked_def seek_def andthen_def on_fs_def acquire_lock_def Let_def)

theorem read_deadlock_witness:
  "fst (read_file 10 (\<lparr>head_position = 0, head_position_within_cluster = 0, head_position_cluster_number = 5,
    file_size = 100, first_cluster_number = 5, address_of_entry_in_parent_directory = 0\<rparr>,
    (small_volume FAT16)\<lparr>token_copied := False\<rparr>)) = Hang"
  by (rule read_deadlock) simp

text \<open>
  A write that goes on into the next cluster of an existing file overwrites the table.
  \<^verbatim>\<open>find_fat_entry\<close> leaves the handle behind the entry it has read, and only the (unreachable)
  branch for a new cluster seeks again: the second part of the data lands there, in the table.
\<close>

theorem write_overwrites_table:
  assumes s: "\<not> lock s" "token_copied s" "geometry s" "0 < cluster_size s" "cluster_size s < 2 ^ 64"
    and f: "file_size f \<noteq> 0" "head_position_within_cluster f = 0" "length xs = cluster_size s"
      "0 < length ys" "length ys < cluster_size s" "head_position f + length (xs @ ys) \<le> file_size f" "file_size f < 2 ^ 64"
    and chain: "cluster_chain (s\<lparr>fh_bytes := store_bytes (fh_cursor s) xs (fh_bytes s)\<rparr>) [head_position_cluster_number f, d]"
  shows "\<exists>f' s'. write_file (xs @ ys) (f, s) = (Ret (length (xs @ ys)), (f', s')) \<and>
    bytes_at (fh_bytes s') (entry_pos s (head_position_cluster_number f) 0 + entry_width (FATType s)) (length ys) = ys"
proof -
  let ?c = "head_position_cluster_number f" and ?m = "store_bytes (fh_cursor s) xs (fh_bytes s)"
  let ?p = "entry_pos s ?c 0 + entry_width (FATType s)"
  let ?s1 = "s\<lparr>fh_bytes := ?m, fh_cursor := fh_cursor s + length xs\<rparr>"
  let ?f1 = "f\<lparr>head_position := wrap64 (head_position f + length xs), head_position_within_cluster := 0\<rparr>"
  let ?s2 = "?s1\<lparr>fh_bytes := store_bytes ?p ys ?m, fh_cursor := ?p + length ys\<rparr>"
  have "fat_entry (s\<lparr>fh_bytes := ?m\<rparr>) ?c 0 = fat_entry ?s1 ?c 0"
    by (simp add: fat_entry_def entry_pos_def fat_begin_def cong: fat_type.case_cong)
  then have c: "2 \<le> ?c" "in_fat s ?c" "fat_entry ?s1 ?c 0 = d" "2 \<le> d" "d \<noteq> LAST_CLUSTER s" "d \<noteq> BAD_CLUSTER s"
    "d \<le> number_of_clusters s" using chain by (auto simp: in_fat_def)
  have "entry_pos ?s1 ?c 0 = entry_pos s ?c 0" by (simp add: entry_pos_def fat_begin_def)
  moreover have "geometry ?s1" "in_fat ?s1 ?c" "0 < BPB_NumFATs ?s1"
    using s(3) c(2) by (simp_all add: geometry_def in_fat_def)
  ultimately have look: "find_fat_entry ?c 0 ?s1 = (Ret d, ?s1\<lparr>fh_cursor := ?p\<rparr>)"
    using find_fat_entry_eq[of ?s1 0 ?c] c(1,3) by simp
  have alloc: "first_allocation (f, s) = (Ret (), (f, s))" using f(1) by (simp add: first_allocation_def)
  have w1: "wrap64 (wrap64 (head_position f + length xs) + length ys) \<le> file_size f"
  proof -
    have "head_position f + length xs + length ys < 2 ^ 64" using f(6,7) by simp
    then show ?thesis using f(6) by simp
  qed
  have last: "write_last ys (length xs) (?f1, ?s1) = (Ret None, (?f1\<lparr>head_position := wrap64 (wrap64 (head_position f + length xs) + length ys),
      head_position_within_cluster := length ys, head_position_cluster_number := d\<rparr>, ?s2))"
    using c f(4) look
    by (simp add: write_last_def last_cluster_to_write_def andthen_def on_fs_def on_file_def fh_write_def ret_def)
  have upd: "update_size (?f1\<lparr>head_position := wrap64 (wrap64 (head_position f + length xs) + length ys),
      head_position_within_cluster := length ys, head_position_cluster_number := d\<rparr>, ?s2) =
    (Ret (), (?f1\<lparr>head_position := wrap64 (wrap64 (head_position f + length xs) + length ys),
      head_position_within_cluster := length ys, head_position_cluster_number := d\<rparr>, ?s2))"
    using w1 by (simp add: update_size_def)
  have "\<exists>f'. write_file (xs @ ys) (f, s) = (Ret (length (xs @ ys)), (f', release_lock ?s2))"
    using s f alloc last upd
    by (simp add: write_file_def locked_free Let_def andthen_def on_fs_def on_file_def fh_write_def ret_def)
  moreover have "bytes_at (fh_bytes (release_lock ?s2)) ?p (length ys) = ys"
    by (simp add: release_lock_def bytes_at_store)
  ultimately show ?thesis by blast
qed

theorem write_overwrites_table_witness:
  "\<exists>f s f' s' n. write_file (replicate 512 7 @ [8]) (f, s) = (Ret n, (f', s')) \<and> fat_begin s 0 = 512 \<and>
    fh_bytes s 596 = 0 \<and> fh_bytes s' 596 = 8"
proof -
  let ?s = "(small_volume FAT32)\<lparr>fh_bytes := (\<lambda>a. if a = 592 then 21 else 0), fh_cursor := 11264\<rparr>"
  let ?f = "\<lparr>head_position = 0, head_position_within_cluster = 0, head_position_cluster_number = 20,
     file_size = 1000, first_cluster_number = 20, address_of_entry_in_parent_directory = 0\<rparr>"
  let ?s' = "?s\<lparr>fh_bytes := store_bytes (fh_cursor ?s) (replicate 512 7) (fh_bytes ?s)\<rparr>"
  have "fat_entry ?s' 20 0 = 21"
    by (simp add: fat_entry_def entry_pos_def fat_offset_def fat_begin_def small_volume_def bytes_at_def upt_rec store_bytes_def)
  then have ch: "cluster_chain ?s' [head_position_cluster_number ?f, 21]"
    by (simp add: small_volume_def in_fat_def fat_offset_def entry_width_def)
  have "\<exists>f' s'. write_file (replicate 512 7 @ [8]) (?f, ?s) = (Ret (length (replicate 512 7 @ [8 :: u8])), (f', s')) \<and>
    bytes_at (fh_bytes s') (entry_pos ?s (head_position_cluster_number ?f) 0 + entry_width (FATType ?s)) (length [8 :: u8]) = [8]"
    by (rule write_overwrites_table[OF _ _ _ _ _ _ _ _ _ _ _ _ ch]) (simp_all add: small_volume_def geometry_def)
  then obtain f' s' where W: "write_file (replicate 512 7 @ [8]) (?f, ?s) = (Ret 513, (f', s'))" "fh_bytes s' 596 = 8"
    by (auto simp: entry_pos_def fat_offset_def fat_begin_def entry_width_def small_volume_def bytes_at_def)
  moreover have "fat_begin ?s 0 = 512" "fh_bytes ?s 596 = 0" by (simp_all add: fat_begin_def small_volume_def)
  ultimately show ?thesis by blast
qed

end
