(* ===== verification/FatDir.thy ===== *)
theory FatDir
  imports FatFs
begin

text \<open>
  The directory iterator of a FAT volume, drivers/fat/fat_dir_iterator.cc. Names are C
  strings, lists of bytes without the final zero; directory entries are their 32 bytes.
  The three searches (push, open_file, list) have six copies of the same loop, with small
  differences that a \<open>variant\<close> records; what they do with an entry is a handler.
\<close>

type_synonym cstring = "u8 list"

datatype drit_status = DIR_ENTRY | FILE_ENTRY | LINK_ENTRY | UNDERRUN | NP

record dir_iterator =
  stack :: "(u8 list \<times> cstring \<times> nat) list"
  stack_size :: nat
  short_file_name_counter :: nat
  first_cluster_of_current_directory :: nat

type_synonym dir_state = "dir_iterator \<times> fat_fs"

definition FAT_dir_iterator :: "fat_fs \<Rightarrow> nat \<Rightarrow> dir_iterator" where
  "FAT_dir_iterator s initial_stack_size =
    \<lparr>stack = [], stack_size = initial_stack_size, short_file_name_counter = 0,
     first_cluster_of_current_directory = BPB_RootClus s mod 2 ^ 16\<rparr>"

section \<open>Fields of an entry\<close>

definition u16_at :: "u8 list \<Rightarrow> nat \<Rightarrow> nat" where
  "u16_at e i = unat (e ! i) + 256 * unat (e ! (i + 1))"

definition ATTR_LONG_NAME :: u8 where "ATTR_LONG_NAME = 0x0F"

definition attr :: "u8 list \<Rightarrow> u8" where "attr e = e ! 11"
definition is_directory :: "u8 list \<Rightarrow> bool" where "is_directory e \<longleftrightarrow> bit (attr e) 4"
definition DIR_FileSize :: "u8 list \<Rightarrow> nat" where "DIR_FileSize e = u16_at e 28 + 65536 * u16_at e 30"

text \<open>\<^verbatim>\<open>DIR_FstClusLO + (DIR_FstClusHI << 16)\<close> is an \<^verbatim>\<open>int\<close>, extended to 64 bits.\<close>

definition first_cluster :: "u8 list \<Rightarrow> nat" where
  "first_cluster e =
    (let v = u16_at e 26 + 65536 * u16_at e 20 in if v \<ge> 2 ^ 31 then v + (2 ^ 64 - 2 ^ 32) else v)"

definition LDIR_Ord :: "u8 list \<Rightarrow> u8" where "LDIR_Ord e = e ! 0"
definition LDIR_Chksum :: "u8 list \<Rightarrow> u8" where "LDIR_Chksum e = e ! 13"
definition LDIR_Name1 :: "u8 list \<Rightarrow> nat list" where "LDIR_Name1 e = map (u16_at e) [1, 3, 5, 7, 9]"
definition LDIR_Name2 :: "u8 list \<Rightarrow> nat list" where "LDIR_Name2 e = map (u16_at e) [14, 16, 18, 20, 22, 24]"
definition LDIR_Name3 :: "u8 list \<Rightarrow> nat list" where "LDIR_Name3 e = map (u16_at e) [28, 30]"

definition add_checksum :: "u8 \<Rightarrow> u8 \<Rightarrow> u8" where
  "add_checksum c b = (if odd (unat c) then 0x80 else 0) + drop_bit 1 c + b"

definition checksum :: "u8 list \<Rightarrow> u8" where
  "checksum e = foldl add_checksum 0 (take 11 e)"

section \<open>The common loop\<close>

record scan =
  found_directory_Name :: "u8 list"
  number_of_LFN_entries :: int
  current_checksum :: int
  there_is_long_name :: bool
  listed :: "(cstring \<times> bool \<times> nat) list"

record variant =
  check_first :: bool
  check_middle :: bool
  mark_long :: bool
  always_checksum :: bool

definition new_scan :: "u8 list \<Rightarrow> scan" where
  "new_scan junk = \<lparr>found_directory_Name = 0 # tl (take 256 junk), number_of_LFN_entries = - 1,
    current_checksum = - 1, there_is_long_name = False, listed = []\<rparr>"

definition c_string :: "u8 list \<Rightarrow> cstring" where
  "c_string = takeWhile (\<lambda>b. b \<noteq> 0)"

text \<open>
  One of the three loops over the characters of a long entry: \<open>cnt\<close> is an \<^verbatim>\<open>int\<close>, and below
  0 the store goes in front of the buffer.
\<close>

fun put_name :: "nat list \<Rightarrow> int \<Rightarrow> u8 list \<Rightarrow> (int \<times> u8 list) outcome" where
  "put_name [] cnt buf = Ret (cnt, buf)"
| "put_name (c # cs) cnt buf =
    (if cnt \<ge> 256 then Throw (Runtime_error ''Corrupted LFN entry: name too long'')
     else if c = 0xFFFF then Ret (cnt, buf)
     else if cnt < 0 then Fault ''store before the name buffer''
     else put_name cs (cnt + 1) (buf[nat cnt := of_nat c]))"

definition put_names :: "u8 list \<Rightarrow> int \<Rightarrow> u8 list \<Rightarrow> u8 list outcome" where
  "put_names e cnt buf =
    (case put_name (LDIR_Name1 e) cnt buf of
       Ret (cnt, buf) \<Rightarrow>
         (case put_name (LDIR_Name2 e) cnt buf of
            Ret (cnt, buf) \<Rightarrow>
              (case put_name (LDIR_Name3 e) cnt buf of
                 Ret (cnt, buf) \<Rightarrow> Ret buf
               | Throw x \<Rightarrow> Throw x | Fault x \<Rightarrow> Fault x | Hang \<Rightarrow> Hang)
          | Throw x \<Rightarrow> Throw x | Fault x \<Rightarrow> Fault x | Hang \<Rightarrow> Hang)
     | Throw x \<Rightarrow> Throw x | Fault x \<Rightarrow> Fault x | Hang \<Rightarrow> Hang)"

text \<open>The sanity checks of a long entry.\<close>

definition long_checks :: "variant \<Rightarrow> u8 list \<Rightarrow> scan \<Rightarrow> scan outcome" where
  "long_checks v e l =
    (if number_of_LFN_entries l = - 1 then
       if check_first v \<and> \<not> bit (LDIR_Ord e) 6
       then Throw (Runtime_error ''Corrupted LFN entry: this is supposed to be the last entry'')
       else Ret (l\<lparr>number_of_LFN_entries := int (unat (LDIR_Ord e) mod 32),
           current_checksum := int (unat (LDIR_Chksum e)),
           there_is_long_name := (mark_long v \<or> there_is_long_name l)\<rparr>)
     else if check_middle v \<and> bit (LDIR_Ord e) 6
     then Throw (Runtime_error ''Corrupted LFN entry: this is not supposed to be the last entry'')
     else if number_of_LFN_entries l \<noteq> int (unat (LDIR_Ord e))
     then Throw (Runtime_error ''Corrupted LFN entry: sequence number mismatch'')
     else if current_checksum l \<noteq> int (unat (LDIR_Chksum e))
     then Throw (Runtime_error ''Corrupted LFN entry: checksum mismatch'')
     else Ret l)"

definition long_entry :: "variant \<Rightarrow> u8 list \<Rightarrow> scan \<Rightarrow> scan outcome" where
  "long_entry v e l =
    (case long_checks v e l of
       Ret l \<Rightarrow>
         (case put_names e ((number_of_LFN_entries l - 1) * 13) (found_directory_Name l) of
            Ret buf \<Rightarrow> Ret (l\<lparr>found_directory_Name := buf, number_of_LFN_entries := number_of_LFN_entries l - 1\<rparr>)
          | Throw x \<Rightarrow> Throw x | Fault x \<Rightarrow> Fault x | Hang \<Rightarrow> Hang)
     | Throw x \<Rightarrow> Throw x | Fault x \<Rightarrow> Fault x | Hang \<Rightarrow> Hang)"

text \<open>
  What one entry leads to: the next one, the end of the loop, or a return. A handler gets
  an entry whose checksum is right, and the name collected for it.
\<close>

datatype 'r step = Next scan | Break scan | Return 'r

type_synonym 'r handler = "u8 list \<Rightarrow> scan \<Rightarrow> (fat_fs, 'r step) action"

definition short_entry :: "variant \<Rightarrow> 'r handler \<Rightarrow> u8 list \<Rightarrow> scan \<Rightarrow> (fat_fs, 'r step) action" where
  "short_entry v handle e l0 =
    (let l = l0\<lparr>number_of_LFN_entries := - 1\<rparr> in
     if e ! 0 = 0xE5 then ret (Next l)
     else if e ! 0 = 0 then ret (Break l)
     else if (always_checksum v \<or> there_is_long_name l) \<and> int (unat (checksum e)) \<noteq> current_checksum l
     then throw (Runtime_error ''Corrupted directory entry: checksum mismatch'')
     else handle e (if always_checksum v then l else l\<lparr>there_is_long_name := False\<rparr>))"

definition of_outcome :: "'a outcome \<Rightarrow> (fat_fs, 'a) action" where
  "of_outcome r s = (r, s)"

definition peek_attribute :: "(fat_fs, u8) action" where
  "peek_attribute =
    andthen (fh_move 11) (\<lambda>_. andthen (fh_read 1) (\<lambda>bs. andthen (fh_move (- 12)) (\<lambda>_. ret (hd bs))))"

definition scan_entry :: "variant \<Rightarrow> 'r handler \<Rightarrow> scan \<Rightarrow> (fat_fs, 'r step) action" where
  "scan_entry v handle l =
    andthen peek_attribute (\<lambda>a.
      if number_of_LFN_entries l > 0 \<and> a \<noteq> ATTR_LONG_NAME \<or> a = ATTR_LONG_NAME \<and> number_of_LFN_entries l = 0
      then throw (Runtime_error ''Corrupted directory entry'')
      else if a = ATTR_LONG_NAME
      then andthen (fh_read 32) (\<lambda>e. andthen (of_outcome (long_entry v e l)) (\<lambda>l. ret (Next l)))
      else andthen (fh_read 32) (\<lambda>e. short_entry v handle e l))"

fun scan_entries :: "variant \<Rightarrow> 'r handler \<Rightarrow> nat \<Rightarrow> scan \<Rightarrow> (fat_fs, 'r option \<times> scan) action" where
  "scan_entries v handle 0 l = ret (None, l)"
| "scan_entries v handle (Suc n) l =
    andthen (scan_entry v handle l) (\<lambda>st.
      case st of
        Next l \<Rightarrow> scan_entries v handle n l
      | Break l \<Rightarrow> ret (None, l)
      | Return r \<Rightarrow> ret (Some r, l))"

definition seek_cluster :: "nat \<Rightarrow> (fat_fs, unit) action" where
  "seek_cluster c = andthen (cluster_number_to_address c) (\<lambda>a. andthen (fh_set a) (\<lambda>_. ret ()))"

definition seek_root :: "(fat_fs, unit) action" where
  "seek_root s = andthen (fh_set (root_directory_begin s)) (\<lambda>_. ret ()) s"

section \<open>\<^verbatim>\<open>push\<close>, \<^verbatim>\<open>pop\<close> and the path\<close>

text \<open>\<open>None\<close> is the return of \<^verbatim>\<open>FILE_ENTRY\<close>, \<open>Some\<close> a directory with the address of its entry.\<close>

definition push_handler :: "cstring \<Rightarrow> (u8 list \<times> nat) option handler" where
  "push_handler name e l =
    (if c_string (found_directory_Name l) = name then
       if \<not> is_directory e then ret (Return None)
       else andthen (fh_move (- 32)) (\<lambda>a. ret (Return (Some (e, a))))
     else ret (Next l))"

definition push_cluster_scan :: "u8 list \<Rightarrow> cstring \<Rightarrow> nat \<Rightarrow> (fat_fs, (u8 list \<times> nat) option option \<times> scan) action" where
  "push_cluster_scan junk name c s =
    andthen (seek_cluster c) (\<lambda>_.
      scan_entries \<lparr>check_first = True, check_middle = True, mark_long = True, always_checksum = False\<rparr>
        (push_handler name) (number_of_entries_per_cluster s) (new_scan junk)) s"

definition push_root_scan :: "u8 list \<Rightarrow> cstring \<Rightarrow> (fat_fs, (u8 list \<times> nat) option option \<times> scan) action" where
  "push_root_scan junk name s =
    andthen seek_root (\<lambda>_.
      scan_entries \<lparr>check_first = False, check_middle = False, mark_long = True, always_checksum = False\<rparr>
        (push_handler name) (BPB_RootEntCnt s) (new_scan junk)) s"

definition push_found :: "cstring \<Rightarrow> (u8 list \<times> nat) option \<Rightarrow> (dir_state, drit_status) action" where
  "push_found name r = (\<lambda>(d, s).
    case r of
      None \<Rightarrow> (Ret FILE_ENTRY, (d, s))
    | Some (e, a) \<Rightarrow>
        (Ret DIR_ENTRY, (d\<lparr>first_cluster_of_current_directory := first_cluster e mod 2 ^ 16,
          stack := stack d @ [(e, name, a)]\<rparr>, s)))"

definition uses_clusters :: "dir_iterator \<Rightarrow> fat_fs \<Rightarrow> bool" where
  "uses_clusters d s \<longleftrightarrow> FATType s = FAT32 \<or> stack d \<noteq> []"

definition cluster_or_current :: "nat \<Rightarrow> dir_iterator \<Rightarrow> nat" where
  "cluster_or_current c d = (if c = null64 then first_cluster_of_current_directory d else c)"

text \<open>The recursion into the next cluster takes the lock again; the first argument is fuel.\<close>

fun push :: "nat \<Rightarrow> u8 list \<Rightarrow> cstring \<Rightarrow> nat \<Rightarrow> (dir_state, drit_status) action" where
  "push 0 junk name c ds = (Hang, ds)"
| "push (Suc fuel) junk name c ds =
    locked (\<lambda>(d, s).
      if length (stack d) = stack_size d then (Throw (Runtime_error ''Stack overflow''), (d, s))
      else if uses_clusters d s then
        let c = cluster_or_current c d in
        andthen (on_fs (push_cluster_scan junk name c)) (\<lambda>r.
          case fst r of
            Some r \<Rightarrow> push_found name r
          | None \<Rightarrow>
              andthen (on_fs (find_fat_entry c 0)) (\<lambda>n (d, s).
                if n \<ge> LAST_CLUSTER s \<or> n = 0 then (Ret NP, (d, s))
                else push fuel junk name n (d, s))) (d, s)
      else
        andthen (on_fs (push_root_scan junk name)) (\<lambda>r.
          case fst r of Some r \<Rightarrow> push_found name r | None \<Rightarrow> ret NP) (d, s)) ds"

definition pop :: "(dir_state, unit) action" where
  "pop = locked (\<lambda>(d, s).
    if stack d = [] then (Throw (Runtime_error ''Stack underflow''), (d, s))
    else
      let st = butlast (stack d) in
      (Ret (), (d\<lparr>stack := st, first_cluster_of_current_directory :=
        (if st = [] then BPB_RootClus s mod 2 ^ 16 else first_cluster (fst (last st)) mod 2 ^ 16)\<rparr>, s)))"

definition depth :: "dir_iterator \<Rightarrow> nat" where
  "depth d = length (stack d)"

definition name_at :: "nat \<Rightarrow> dir_iterator \<Rightarrow> cstring outcome" where
  "name_at i d = (if i \<ge> length (stack d) then Throw (Runtime_error ''Index out of bounds'')
     else Ret (fst (snd (stack d ! i))))"

section \<open>\<^verbatim>\<open>open_file\<close>\<close>

text \<open>The opened file: mode, size, first cluster, address of its entry.\<close>

definition open_handler :: "cstring \<Rightarrow> (u8 list \<times> nat) handler" where
  "open_handler name e l =
    (if c_string (found_directory_Name l) = name then
       if is_directory e then throw (Runtime_error ''Found a directory with matching name, but it is not a file'')
       else andthen (fh_move (- 32)) (\<lambda>a. ret (Return (e, a)))
     else ret (Next l))"

definition open_cluster_scan :: "u8 list \<Rightarrow> cstring \<Rightarrow> nat \<Rightarrow> (fat_fs, (u8 list \<times> nat) option \<times> scan) action" where
  "open_cluster_scan junk name c s =
    andthen (seek_cluster c) (\<lambda>_.
      scan_entries \<lparr>check_first = True, check_middle = False, mark_long = True, always_checksum = False\<rparr>
        (open_handler name) (number_of_entries_per_cluster s) (new_scan junk)) s"

definition open_root_scan :: "u8 list \<Rightarrow> cstring \<Rightarrow> (fat_fs, (u8 list \<times> nat) option \<times> scan) action" where
  "open_root_scan junk name s =
    andthen seek_root (\<lambda>_.
      scan_entries \<lparr>check_first = True, check_middle = False, mark_long = False, always_checksum = True\<rparr>
        (open_handler name) (BPB_RootEntCnt s) (new_scan junk)) s"

definition opened :: "nat \<Rightarrow> (u8 list \<times> nat) \<Rightarrow> nat \<times> nat \<times> nat \<times> nat" where
  "opened mode r = (mode, DIR_FileSize (fst r), first_cluster (fst r), snd r)"

fun open_file :: "nat \<Rightarrow> u8 list \<Rightarrow> cstring \<Rightarrow> nat \<Rightarrow> nat \<Rightarrow> (dir_state, nat \<times> nat \<times> nat \<times> nat) action" where
  "open_file 0 junk name mode c ds = (Hang, ds)"
| "open_file (Suc fuel) junk name mode c ds =
    locked (\<lambda>(d, s).
      if uses_clusters d s then
        let c = cluster_or_current c d in
        andthen (on_fs (open_cluster_scan junk name c)) (\<lambda>r.
          case fst r of
            Some r \<Rightarrow> ret (opened mode r)
          | None \<Rightarrow>
              andthen (on_fs (find_fat_entry c 0)) (\<lambda>n (d, s).
                if n \<ge> LAST_CLUSTER s \<or> n = 0 then (Throw (Runtime_error ''File not found''), (d, s))
                else open_file fuel junk name mode n (d, s))) (d, s)
      else
        andthen (on_fs (open_root_scan junk name)) (\<lambda>r.
          case fst r of
            Some r \<Rightarrow> ret (opened mode r)
          | None \<Rightarrow> throw (Runtime_error ''File not found'')) (d, s)) ds"

section \<open>\<^verbatim>\<open>list\<close>\<close>

definition list_handler :: "unit handler" where
  "list_handler e l =
    (let name = c_string (found_directory_Name l) in
     if name = [0x2E] \<or> name = [0x2E, 0x2E] \<or> name = [] then ret (Next l)
     else ret (Next (l\<lparr>listed := (name, is_directory e, DIR_FileSize e) # listed l\<rparr>)))"

definition list_cluster_scan :: "u8 list \<Rightarrow> (cstring \<times> bool \<times> nat) list \<Rightarrow> nat \<Rightarrow> (fat_fs, unit option \<times> scan) action" where
  "list_cluster_scan junk head c s =
    andthen (seek_cluster c) (\<lambda>_.
      scan_entries \<lparr>check_first = True, check_middle = False, mark_long = True, always_checksum = False\<rparr>
        list_handler (number_of_entries_per_cluster s) (new_scan junk\<lparr>listed := head\<rparr>)) s"

definition list_root_scan :: "u8 list \<Rightarrow> (cstring \<times> bool \<times> nat) list \<Rightarrow> (fat_fs, unit option \<times> scan) action" where
  "list_root_scan junk head s =
    andthen seek_root (\<lambda>_.
      scan_entries \<lparr>check_first = True, check_middle = False, mark_long = False, always_checksum = True\<rparr>
        list_handler (BPB_RootEntCnt s) (new_scan junk\<lparr>listed := head\<rparr>)) s"

text \<open>The first token is copied without its file size, which stays at \<^verbatim>\<open>-1\<close>.\<close>

definition list_result :: "(cstring \<times> bool \<times> nat) list \<Rightarrow> (dir_state, (cstring \<times> bool \<times> nat) list) action" where
  "list_result head =
    (case head of
       [] \<Rightarrow> throw Empty_directory
     | (name, dir, sz) # rest \<Rightarrow> ret ((name, dir, null64) # rest))"

fun list_dir :: "nat \<Rightarrow> u8 list \<Rightarrow> nat \<Rightarrow> (cstring \<times> bool \<times> nat) list \<Rightarrow>
    (dir_state, (cstring \<times> bool \<times> nat) list) action" where
  "list_dir 0 junk c head ds = (Hang, ds)"
| "list_dir (Suc fuel) junk c head ds =
    locked (\<lambda>(d, s).
      if uses_clusters d s then
        let c = cluster_or_current c d in
        andthen (on_fs (list_cluster_scan junk head c)) (\<lambda>r.
          andthen (on_fs (find_fat_entry c 0)) (\<lambda>n (d, s).
            if n \<ge> LAST_CLUSTER s \<or> n = 0 then list_result (listed (snd r)) (d, s)
            else list_dir fuel junk n (listed (snd r)) (d, s))) (d, s)
      else
        andthen (on_fs (list_root_scan junk head)) (\<lambda>r. list_result (listed (snd r))) (d, s)) ds"

section \<open>\<^verbatim>\<open>create_file\<close>\<close>

text \<open>A character of the name; index \<open>length\<close> is the final zero, \<open>oob\<close> what lies behind.\<close>

definition char_at :: "(nat \<Rightarrow> u8) \<Rightarrow> cstring \<Rightarrow> nat \<Rightarrow> u8" where
  "char_at oob str i = (if i < length str then str ! i else if i = length str then 0 else oob i)"

text \<open>Stores of bytes and of \<^verbatim>\<open>uint16_t\<close> values into an entry; a \<^verbatim>\<open>char\<close> is sign-extended.\<close>

definition put8 :: "nat \<Rightarrow> u8 \<Rightarrow> u8 list \<Rightarrow> u8 list" where
  "put8 i b e = e[i := b]"

definition put_char :: "nat \<Rightarrow> u8 \<Rightarrow> u8 list \<Rightarrow> u8 list" where
  "put_char i b e = e[i := b, i + 1 := (if bit b 7 then 0xFF else 0)]"

fun put_chars :: "nat \<Rightarrow> u8 list \<Rightarrow> u8 list \<Rightarrow> u8 list" where
  "put_chars i [] e = e"
| "put_chars i (b # bs) e = put_chars (i + 2) bs (put_char i b e)"

fun find_dot :: "(nat \<Rightarrow> u8) \<Rightarrow> cstring \<Rightarrow> nat \<Rightarrow> nat" where
  "find_dot oob str 0 = 0"
| "find_dot oob str (Suc n) = (if char_at oob str (Suc n) = 0x2E then Suc n else find_dot oob str n)"

text \<open>
  The short entry. With three characters of extension the last one goes to \<^verbatim>\<open>DIR_Name[11]\<close>,
  which is the attribute byte; a file's attribute is not set otherwise.
\<close>

definition short_name :: "(nat \<Rightarrow> u8) \<Rightarrow> cstring \<Rightarrow> bool \<Rightarrow> u8 list \<Rightarrow> u8 list" where
  "short_name oob str is_dir e =
    (let e = fold (\<lambda>i. put8 i 0) [0..<11] e; len = length str mod 256 in
     if is_dir then fold (\<lambda>i. put8 i (char_at oob str i)) [0..<min len 6] e
     else
       let last_dot = find_dot oob str ((len + 255) mod 256);
           e = fold (\<lambda>i. put8 i (char_at oob str i)) [0..<min last_dot 6] e;
           ext = min (sub64 (length str) last_dot mod 256) 3
       in fold (\<lambda>i. put8 (i + 9) (char_at oob str (last_dot + i))) [0..<ext] e)"

definition new_dir_entry :: "(nat \<Rightarrow> u8) \<Rightarrow> u8 list \<Rightarrow> cstring \<Rightarrow> bool \<Rightarrow> nat \<Rightarrow> u8 list" where
  "new_dir_entry oob junk str is_dir counter =
    (let e = put8 8 (of_nat counter) (put8 7 0x7E (short_name oob str is_dir (take 32 junk)));
         e = (if is_dir then put8 11 0x10 e else e)
     in put8 27 0 (put8 26 0 (put8 21 0 (put8 20 0 (put8 12 0 e)))))"

text \<open>One long entry: the characters from \<open>off\<close> on, and where the next one goes on (\<open>None\<close>: \<^verbatim>\<open>break\<close>).\<close>

definition chars_from :: "(nat \<Rightarrow> u8) \<Rightarrow> cstring \<Rightarrow> nat \<Rightarrow> nat \<Rightarrow> u8 list" where
  "chars_from oob str off n = map (\<lambda>j. char_at oob str (j + off)) [0..<n]"

definition chars_padded :: "(nat \<Rightarrow> u8) \<Rightarrow> cstring \<Rightarrow> nat \<Rightarrow> nat \<Rightarrow> u8 list" where
  "chars_padded oob str off n = map (\<lambda>j. if j < length str - off then char_at oob str (j + off) else 0) [0..<n]"

definition long_name_entry :: "(nat \<Rightarrow> u8) \<Rightarrow> u8 list \<Rightarrow> cstring \<Rightarrow> u8 \<Rightarrow> nat \<Rightarrow> nat \<Rightarrow> u8 list \<times> nat option" where
  "long_name_entry oob junk str chk i off =
    (let e = put8 13 chk (put8 27 0 (put8 26 0 (put8 11 ATTR_LONG_NAME (put8 0 (of_nat (i + 1)) (take 32 junk)))));
         zeros = (\<lambda>n. replicate n 0)
     in
     if off + 5 > length str
     then (put_chars 28 (zeros 2) (put_chars 14 (zeros 6) (put_chars 1 (chars_padded oob str off 5) e)), None)
     else
       let e = put_chars 1 (chars_from oob str off 5) e; off = off + 5 in
       if off + 6 > length str
       then (put_chars 28 (zeros 2) (put_chars 14 (chars_padded oob str off 6) e), None)
       else
         let e = put_chars 14 (chars_from oob str off 6) e; off = off + 6 in
         if off + 5 > length str
         then (put_chars 28 (chars_padded oob str off 2) e, None)
         else (put_chars 28 (chars_from oob str off 2) e, Some (off + 2)))"

text \<open>The array of long entries; after a \<^verbatim>\<open>break\<close> the rest is not initialised.\<close>

fun long_name_entries :: "(nat \<Rightarrow> u8) \<Rightarrow> u8 list \<Rightarrow> cstring \<Rightarrow> u8 \<Rightarrow> nat \<Rightarrow> nat \<Rightarrow> nat \<Rightarrow> u8 list list" where
  "long_name_entries oob junk str chk 0 i off = []"
| "long_name_entries oob junk str chk (Suc n) i off =
    (case long_name_entry oob junk str chk i off of
       (e, Some off) \<Rightarrow> e # long_name_entries oob junk str chk n (Suc i) off
     | (e, None) \<Rightarrow> e # replicate n (take 32 junk))"

definition lfn_count :: "cstring \<Rightarrow> nat" where
  "lfn_count str = (length str + 12) div 13 mod 2 ^ 16"

fun write_all :: "u8 list list \<Rightarrow> (fat_fs, unit) action" where
  "write_all [] s = (Ret (), s)"
| "write_all (e # es) s = andthen (fh_write e) (\<lambda>_. write_all es) s"

definition write_entries :: "(nat \<Rightarrow> u8) \<Rightarrow> u8 list \<Rightarrow> cstring \<Rightarrow> bool \<Rightarrow> nat \<Rightarrow> (dir_state, unit) action" where
  "write_entries oob junk str is_dir begin = (\<lambda>(d, s).
    let e = new_dir_entry oob junk str is_dir (short_file_name_counter d);
        d = d\<lparr>short_file_name_counter := (short_file_name_counter d + 1) mod 2 ^ 32\<rparr>;
        es = long_name_entries oob junk str (checksum e) (lfn_count str) 0 0
    in
    if es = [] then (Fault ''store before the long entries'', (d, s))
    else
      let es = es[length es - 1 := put8 0 (last es ! 0 OR 0x40) (last es)]
      in on_fs (andthen (fh_set begin) (\<lambda>_. write_all (rev es @ [e]))) (d, s))"

text \<open>
  The search for free entries reads one byte per entry, at consecutive addresses; the count
  and the address found are \<^verbatim>\<open>uint8_t\<close>.
\<close>

fun free_entries :: "nat \<Rightarrow> nat \<Rightarrow> nat \<Rightarrow> nat \<Rightarrow> nat \<Rightarrow> nat \<Rightarrow> (fat_fs, nat \<times> nat) action" where
  "free_entries lfns start 0 i count begin s = (Ret (count, begin), s)"
| "free_entries lfns start (Suc n) i count begin s =
    andthen (fh_read 1) (\<lambda>bs s.
      if hd bs = 0xE5 then
        let begin = (if count = 0 then (start + i * cluster_size s) mod 256 else begin);
            count = (count + 1) mod 256
        in if count \<ge> lfns + 1 then (Ret (count, begin), s)
           else free_entries lfns start n (Suc i) count begin s
      else if hd bs = 0 then
        if number_of_entries_per_cluster s \<ge> lfns + i + 1
        then (Ret ((lfns + 1) mod 256, (start + i * cluster_size s) mod 256), s)
        else (Ret (sub64 (number_of_entries_per_cluster s) i mod 256, begin), s)
      else free_entries lfns start n (Suc i) 0 begin s) s"

definition create_in_root :: "(nat \<Rightarrow> u8) \<Rightarrow> u8 list \<Rightarrow> cstring \<Rightarrow> bool \<Rightarrow> (dir_state, unit) action" where
  "create_in_root oob junk str is_dir = (\<lambda>(d, s).
    andthen (on_fs (andthen seek_root (\<lambda>_. free_entries (lfn_count str) (root_directory_begin s) (BPB_RootEntCnt s) 0 0 0)))
      (\<lambda>(count, begin).
        if count \<ge> lfn_count str + 1 then write_entries oob junk str is_dir begin
        else throw (Logic_error ''Failed to make a new file/folder, due to lack of space in root directory'')) (d, s))"

definition next_or_new_cluster :: "nat \<Rightarrow> (fat_fs, nat) action" where
  "next_or_new_cluster c =
    andthen (find_fat_entry c 0) (\<lambda>n s.
      if n \<ge> LAST_CLUSTER s \<or> n = 0 then find_free_cluster c s else (Ret n, s))"

definition cluster_free_entries :: "cstring \<Rightarrow> nat \<Rightarrow> (fat_fs, nat \<times> nat) action" where
  "cluster_free_entries str c s =
    andthen (cluster_number_to_address c) (\<lambda>a.
    andthen (fh_set a) (\<lambda>_.
      free_entries (lfn_count str) a (number_of_entries_per_cluster s) 0 0 0)) s"

definition check_absent :: "nat \<Rightarrow> u8 list \<Rightarrow> cstring \<Rightarrow> (dir_state, unit) action" where
  "check_absent fuel junk str =
    andthen (push fuel junk str 0) (\<lambda>check.
      if check \<noteq> NP
      then andthen pop (\<lambda>_. throw (Logic_error ''There have been files or folders with the same name.''))
      else ret ())"

fun create_file :: "nat \<Rightarrow> (nat \<Rightarrow> u8) \<Rightarrow> u8 list \<Rightarrow> cstring \<Rightarrow> bool \<Rightarrow> nat \<Rightarrow> bool \<Rightarrow> (dir_state, unit) action" where
  "create_file 0 oob junk str is_dir c checked ds = (Hang, ds)"
| "create_file (Suc fuel) oob junk str is_dir c checked ds =
    locked (andthen (if \<not> checked then check_absent fuel junk str else ret ()) (\<lambda>_ (d, s).
      if uses_clusters d s then
        let c = cluster_or_current c d in
        andthen (on_fs (cluster_free_entries str c)) (\<lambda>(count, begin).
          if count < lfn_count str + 1
          then andthen (on_fs (next_or_new_cluster c)) (\<lambda>n. create_file fuel oob junk str is_dir n True)
          else write_entries oob junk str is_dir begin) (d, s)
      else create_in_root oob junk str is_dir (d, s))) ds"

section \<open>The searches only move the handle\<close>

definition keeps_bytes :: "(fat_fs, 'a) action \<Rightarrow> bool" where
  "keeps_bytes m \<longleftrightarrow> (\<forall>s. \<exists>x. snd (m s) = s\<lparr>fh_cursor := x\<rparr>)"

lemma keeps_bytesI: "(\<And>s. \<exists>x. snd (m s) = s\<lparr>fh_cursor := x\<rparr>) \<Longrightarrow> keeps_bytes m"
  by (simp add: keeps_bytes_def)

lemma keeps_same: "(\<And>s. snd (m s) = s) \<Longrightarrow> keeps_bytes m"
proof (rule keeps_bytesI)
  fix s assume "\<And>s. snd (m s) = s"
  then show "\<exists>x. snd (m s) = s\<lparr>fh_cursor := x\<rparr>" by (intro exI[of _ "fh_cursor s"]) simp
qed

lemma cursorI: "t = s\<lparr>fh_cursor := x\<rparr> \<Longrightarrow> \<exists>x. t = s\<lparr>fh_cursor := x\<rparr>"
  by blast

lemma andthen_snd: "(\<And>a. fst (m s) \<noteq> Ret a) \<Longrightarrow> snd (andthen m k s) = snd (m s)"
  by (cases "m s"; cases "fst (m s)") (auto simp: andthen_def)

lemma keeps_andthen:
  assumes "keeps_bytes m" "\<And>a. keeps_bytes (k a)"
  shows "keeps_bytes (andthen m k)"
proof (rule keeps_bytesI)
  fix s
  from assms(1) obtain x where x: "snd (m s) = s\<lparr>fh_cursor := x\<rparr>" by (auto simp: keeps_bytes_def)
  show "\<exists>x. snd (andthen m k s) = s\<lparr>fh_cursor := x\<rparr>"
  proof (cases "fst (m s)")
    case (Ret a)
    then have "andthen m k s = k a (s\<lparr>fh_cursor := x\<rparr>)" using x by (cases "m s") (simp add: andthen_def)
    moreover have "\<exists>y. snd (k a (s\<lparr>fh_cursor := x\<rparr>)) = (s\<lparr>fh_cursor := x\<rparr>)\<lparr>fh_cursor := y\<rparr>"
      using assms(2)[of a] unfolding keeps_bytes_def by (rule spec)
    then obtain y where "snd (k a (s\<lparr>fh_cursor := x\<rparr>)) = s\<lparr>fh_cursor := y\<rparr>" by force
    ultimately show ?thesis by (intro exI[of _ y]) simp
  qed (use x andthen_snd[of m s k] in \<open>auto intro: cursorI\<close>)
qed

lemma keeps_basic:
  "keeps_bytes (ret a)" "keeps_bytes (throw e)" "keeps_bytes (of_outcome r)" "keeps_bytes (cluster_number_to_address c)"
  by (auto intro!: keeps_same simp: ret_def throw_def of_outcome_def cluster_number_to_address_def bad_number_def)

lemma keeps_handle: "keeps_bytes (fh_read n)" "keeps_bytes (fh_set a)" "keeps_bytes (fh_move i)"
proof -
  show "keeps_bytes (fh_read n)"
  proof (rule keeps_bytesI)
    fix s have "snd (fh_read n s) = s\<lparr>fh_cursor := fh_cursor s + n\<rparr>" by (simp add: fh_read_def)
    then show "\<exists>x. snd (fh_read n s) = s\<lparr>fh_cursor := x\<rparr>" by (rule cursorI)
  qed
  show "keeps_bytes (fh_set a)"
  proof (rule keeps_bytesI)
    fix s have "snd (fh_set a s) = s\<lparr>fh_cursor := a\<rparr>" by (simp add: fh_set_def)
    then show "\<exists>x. snd (fh_set a s) = s\<lparr>fh_cursor := x\<rparr>" by (rule cursorI)
  qed
  show "keeps_bytes (fh_move i)"
  proof (rule keeps_bytesI)
    fix s
    have "snd (fh_move i s) = s\<lparr>fh_cursor := (if int (fh_cursor s) + i < 0 then fh_cursor s else nat (int (fh_cursor s) + i))\<rparr>"
      by (simp add: fh_move_def Let_def)
    then show "\<exists>x. snd (fh_move i s) = s\<lparr>fh_cursor := x\<rparr>" by (rule cursorI)
  qed
qed

lemma keeps_if: "keeps_bytes m \<Longrightarrow> keeps_bytes m' \<Longrightarrow> keeps_bytes (if b then m else m')"
  by simp

lemmas keeps_intros = keeps_andthen keeps_basic keeps_handle keeps_if

lemma keeps_seek: "keeps_bytes (seek_cluster c)" "keeps_bytes seek_root"
proof -
  show "keeps_bytes (seek_cluster c)" unfolding seek_cluster_def by (intro keeps_intros)
  show "keeps_bytes seek_root"
  proof (rule keeps_bytesI)
    fix s have "snd (seek_root s) = s\<lparr>fh_cursor := root_directory_begin s\<rparr>"
      by (simp add: seek_root_def andthen_def fh_set_def ret_def)
    then show "\<exists>x. snd (seek_root s) = s\<lparr>fh_cursor := x\<rparr>" by (rule cursorI)
  qed
qed

lemma keeps_scan_entries:
  assumes "\<And>e l. keeps_bytes (handle e l)"
  shows "keeps_bytes (scan_entries v handle n l)"
proof (induction n arbitrary: l)
  case (Suc n)
  have "keeps_bytes (scan_entry v handle l)"
    unfolding scan_entry_def peek_attribute_def short_entry_def Let_def
    by (intro keeps_intros assms)
  then show ?case unfolding scan_entries.simps
    by (intro keeps_andthen) (simp_all add: keeps_basic Suc split: step.split)
qed (simp add: keeps_basic)

lemma keeps_push_handler: "keeps_bytes (push_handler name e l)"
  unfolding push_handler_def by (intro keeps_intros)

lemma keeps_find: "keeps_bytes (find_fat_entry c k)"
proof (rule keeps_bytesI)
  fix s
  show "\<exists>x. snd (find_fat_entry c k s) = s\<lparr>fh_cursor := x\<rparr>"
  proof (cases "c < 2")
    case True
    then have "snd (find_fat_entry c k s) = s\<lparr>fh_cursor := fh_cursor s\<rparr>"
      by (simp add: find_fat_entry_def bad_number_def throw_def)
    then show ?thesis by (rule cursorI)
  next
    case False
    then obtain i where i: "cluster_number_to_fat_entry_index c k s = (Ret i, s)"
      by (simp add: cluster_number_to_fat_entry_index_def Let_def)
    have "snd (find_fat_entry c k s) = s\<lparr>fh_cursor := i + (if FATType s = FAT32 then 4 else 2)\<rparr>"
      using False by (cases "FATType s") (simp_all add: find_fat_entry_def andthen_def i fh_set_def fh_read_def ret_def)
    then show ?thesis by (rule cursorI)
  qed
qed

section \<open>\<^verbatim>\<open>push\<close> and \<^verbatim>\<open>open_file\<close> see the same entries\<close>

abbreviation push_variant :: variant where
  "push_variant \<equiv> \<lparr>check_first = True, check_middle = True, mark_long = True, always_checksum = False\<rparr>"

abbreviation open_variant :: variant where
  "open_variant \<equiv> \<lparr>check_first = True, check_middle = False, mark_long = True, always_checksum = False\<rparr>"

definition few_left :: "scan \<Rightarrow> bool" where
  "few_left l \<longleftrightarrow> number_of_LFN_entries l < 64"

text \<open>Equal up to the message of an exception.\<close>

fun same_outcome :: "'a outcome \<Rightarrow> 'a outcome \<Rightarrow> bool" where
  "same_outcome (Throw e) r \<longleftrightarrow> (\<exists>e'. r = Throw e')"
| "same_outcome r1 r2 \<longleftrightarrow> r1 = r2"

lemma long_checks_agree:
  assumes "few_left l"
  shows "same_outcome (long_checks push_variant e l) (long_checks open_variant e l)"
proof -
  have "unat (LDIR_Ord e) \<ge> 64" if "bit (LDIR_Ord e) 6"
  proof (rule ccontr)
    assume "\<not> 64 \<le> unat (LDIR_Ord e)"
    then have "unat (LDIR_Ord e) div 2 ^ 6 = 0" by simp
    then have "\<not> bit (unat (LDIR_Ord e)) 6" by (simp add: bit_iff_odd)
    then show False using that by (simp add: bit_unsigned_iff)
  qed
  then have "bit (LDIR_Ord e) 6 \<Longrightarrow> int 64 \<le> int (unat (LDIR_Ord e))" by linarith
  then have "bit (LDIR_Ord e) 6 \<Longrightarrow> number_of_LFN_entries l \<noteq> int (unat (LDIR_Ord e))"
    using assms by (simp add: few_left_def)
  then show ?thesis by (auto simp: long_checks_def)
qed

lemma long_checks_few: "long_checks v e l = Ret l' \<Longrightarrow> few_left l \<Longrightarrow> few_left l'"
  by (auto simp: long_checks_def few_left_def split: if_splits)

lemma long_entry_agree:
  assumes "few_left l"
  shows "same_outcome (long_entry push_variant e l) (long_entry open_variant e l)"
  using long_checks_agree[OF assms, of e]
  by (cases "long_checks push_variant e l"; cases "long_checks open_variant e l")
    (auto simp: long_entry_def split: outcome.splits)

lemma long_entry_few: "long_entry v e l = Ret l' \<Longrightarrow> few_left l \<Longrightarrow> few_left l'"
  by (auto simp: long_entry_def few_left_def split: outcome.splits dest!: long_checks_few[unfolded few_left_def])

text \<open>How the two searches end, with the state when they go on.\<close>

definition Found_directory :: exn where
  "Found_directory = Runtime_error ''Found a directory with matching name, but it is not a file''"

fun ends_alike :: "((u8 list \<times> nat) option option \<times> scan) outcome \<times> fat_fs \<Rightarrow>
    ((u8 list \<times> nat) option \<times> scan) outcome \<times> fat_fs \<Rightarrow> bool" where
  "ends_alike (Ret (None, l), s) r \<longleftrightarrow> r = (Ret (None, l), s)"
| "ends_alike (Ret (Some None, l), s) r \<longleftrightarrow> (\<exists>x s'. r = (Ret (Some x, l), s'))"
| "ends_alike (Ret (Some (Some x), l), s) r \<longleftrightarrow> fst r = Throw Found_directory"
| "ends_alike (Throw e, s) r \<longleftrightarrow> (\<exists>e'. fst r = Throw e')"
| "ends_alike (Fault f, s) r \<longleftrightarrow> fst r = Fault f"
| "ends_alike (Hang, s) r \<longleftrightarrow> fst r = Hang"

text \<open>One entry.\<close>

fun steps_alike :: "(u8 list \<times> nat) option step outcome \<times> fat_fs \<Rightarrow> (u8 list \<times> nat) step outcome \<times> fat_fs \<Rightarrow> bool" where
  "steps_alike (Ret (Next l), s) r \<longleftrightarrow> r = (Ret (Next l), s) \<and> few_left l"
| "steps_alike (Ret (Break l), s) r \<longleftrightarrow> r = (Ret (Break l), s)"
| "steps_alike (Ret (Return None), s) r \<longleftrightarrow> (\<exists>x s'. r = (Ret (Return x), s'))"
| "steps_alike (Ret (Return (Some x)), s) r \<longleftrightarrow> fst r = Throw Found_directory"
| "steps_alike (Throw e, s) r \<longleftrightarrow> (\<exists>e'. fst r = Throw e')"
| "steps_alike (Fault f, s) r \<longleftrightarrow> fst r = Fault f"
| "steps_alike (Hang, s) r \<longleftrightarrow> fst r = Hang"

lemma short_entry_agree:
  assumes "few_left l" "32 \<le> fh_cursor s"
  shows "steps_alike (short_entry push_variant (push_handler name) e l s) (short_entry open_variant (open_handler name) e l s)"
  using assms
  by (auto simp: short_entry_def push_handler_def open_handler_def Let_def ret_def throw_def andthen_def fh_move_def
      few_left_def Found_directory_def)

lemma scan_entry_agree:
  assumes "few_left l"
  shows "steps_alike (scan_entry push_variant (push_handler name) l s) (scan_entry open_variant (open_handler name) l s)"
proof -
  have peek: "peek_attribute s = (Ret (fh_bytes s (fh_cursor s + 11)), s)"
    by (simp add: peek_attribute_def andthen_def fh_move_def fh_read_def ret_def bytes_at_def nat_add_distrib)
  let ?a = "fh_bytes s (fh_cursor s + 11)"
  let ?s = "s\<lparr>fh_cursor := fh_cursor s + 32\<rparr>" and ?e = "bytes_at (fh_bytes s) (fh_cursor s) 32"
  consider (bad) "number_of_LFN_entries l > 0 \<and> ?a \<noteq> ATTR_LONG_NAME \<or> ?a = ATTR_LONG_NAME \<and> number_of_LFN_entries l = 0"
    | (long) "\<not> (number_of_LFN_entries l > 0 \<and> ?a \<noteq> ATTR_LONG_NAME \<or> ?a = ATTR_LONG_NAME \<and> number_of_LFN_entries l = 0)"
      "?a = ATTR_LONG_NAME"
    | (short) "\<not> (number_of_LFN_entries l > 0 \<and> ?a \<noteq> ATTR_LONG_NAME \<or> ?a = ATTR_LONG_NAME \<and> number_of_LFN_entries l = 0)"
      "?a \<noteq> ATTR_LONG_NAME" by blast
  then show ?thesis
  proof cases
    case bad
    then show ?thesis unfolding scan_entry_def by (subst (1 2) andthen_Ret[where m = peek_attribute, OF peek]) (simp add: throw_def)
  next
    case long
    have L: "scan_entry v handle l s = andthen (of_outcome (long_entry v ?e l)) (\<lambda>l. ret (Next l)) ?s"
      for v and handle :: "'r handler"
      unfolding scan_entry_def by (subst andthen_Ret[where m = peek_attribute, OF peek]) (use long in \<open>simp add: andthen_def fh_read_def\<close>)
    note agree = long_entry_agree[OF assms, of ?e]
    show ?thesis
    proof (cases "long_entry push_variant ?e l")
      case (Ret l')
      then have "long_entry open_variant ?e l = Ret l'" "few_left l'"
        using agree long_entry_few[OF Ret assms] by simp_all
      then show ?thesis using Ret unfolding L by (simp add: andthen_def of_outcome_def ret_def)
    next
      case (Throw x)
      then obtain x' where "long_entry open_variant ?e l = Throw x'" using agree by auto
      then show ?thesis using Throw unfolding L by (simp add: andthen_def of_outcome_def ret_def)
    next
      case (Fault x)
      then have "long_entry open_variant ?e l = Fault x" using agree by simp
      then show ?thesis using Fault unfolding L by (simp add: andthen_def of_outcome_def ret_def)
    next
      case Hang
      then have "long_entry open_variant ?e l = Hang" using agree by simp
      then show ?thesis using Hang unfolding L by (simp add: andthen_def of_outcome_def ret_def)
    qed
  next
    case short
    have S: "scan_entry v handle l s = short_entry v handle ?e l ?s" for v and handle :: "'r handler"
      unfolding scan_entry_def by (subst andthen_Ret[where m = peek_attribute, OF peek]) (use short in \<open>simp add: andthen_def fh_read_def\<close>)
    show ?thesis unfolding S by (rule short_entry_agree[OF assms]) simp
  qed
qed

lemma scan_entries_agree:
  "few_left l \<Longrightarrow> ends_alike (scan_entries push_variant (push_handler name) n l s)
    (scan_entries open_variant (open_handler name) n l s)"
proof (induction n arbitrary: l s)
  case (Suc n)
  obtain p s1 where p: "scan_entry push_variant (push_handler name) l s = (p, s1)" by fastforce
  note A = scan_entry_agree[OF Suc.prems, of name s, unfolded p]
  show ?case
  proof (cases p)
    case (Ret st)
    show ?thesis
    proof (cases st)
      case (Next l')
      then have o: "scan_entry open_variant (open_handler name) l s = (Ret (Next l'), s1)" "few_left l'" using A Ret by auto
      show ?thesis using Suc.IH[OF o(2), of s1] p o(1) Ret Next by (simp add: andthen_def)
    next
      case (Break l')
      then show ?thesis using A p Ret by (simp add: andthen_def ret_def)
    next
      case (Return x)
      then show ?thesis using A p Ret
        by (cases x) (auto simp: andthen_def ret_def split: prod.splits)
    qed
  qed (use A p in \<open>auto simp: andthen_def split: prod.splits outcome.splits\<close>)
qed (simp add: ret_def)

text \<open>The whole searches.\<close>

lemma few_left_new: "few_left (new_scan junk)"
  by (simp add: few_left_def new_scan_def)

lemma cluster_scans_agree:
  "ends_alike (push_cluster_scan junk name c s) (open_cluster_scan junk name c s)"
proof -
  obtain r s1 where "seek_cluster c s = (r, s1)" by fastforce
  then show ?thesis using scan_entries_agree[OF few_left_new, of name "number_of_entries_per_cluster s" junk s1]
    by (cases r) (auto simp: push_cluster_scan_def open_cluster_scan_def andthen_def)
qed

lemma lock_free_after:
  assumes "keeps_bytes m" "m s = (r, s')" "\<not> lock s" "token_copied s"
  shows "\<not> lock s' \<and> token_copied s' \<and> FATType s' = FATType s"
proof -
  from assms(1) have "\<exists>x. snd (m s) = s\<lparr>fh_cursor := x\<rparr>" by (simp add: keeps_bytes_def)
  then show ?thesis using assms(2,3,4) by auto
qed

lemma keeps_push_cluster_scan: "keeps_bytes (push_cluster_scan junk name c)"
proof -
  have "\<exists>x. snd (push_cluster_scan junk name c s) = s\<lparr>fh_cursor := x\<rparr>" for s
  proof -
    have "keeps_bytes (andthen (seek_cluster c) (\<lambda>_. scan_entries push_variant (push_handler name)
        (number_of_entries_per_cluster s) (new_scan junk)))"
      by (intro keeps_andthen keeps_seek keeps_scan_entries keeps_push_handler)
    then show ?thesis by (simp add: push_cluster_scan_def keeps_bytes_def)
  qed
  then show ?thesis by (rule keeps_bytesI)
qed

text \<open>What \<^verbatim>\<open>open_file\<close> does where \<^verbatim>\<open>push\<close> returns a status.\<close>

fun answers_alike :: "drit_status outcome \<Rightarrow> (nat \<times> nat \<times> nat \<times> nat) outcome \<Rightarrow> bool" where
  "answers_alike (Ret FILE_ENTRY) r \<longleftrightarrow> (\<exists>x. r = Ret x)"
| "answers_alike (Ret DIR_ENTRY) r \<longleftrightarrow> r = Throw Found_directory"
| "answers_alike (Ret NP) r \<longleftrightarrow> r = Throw (Runtime_error ''File not found'')"
| "answers_alike (Ret _) r \<longleftrightarrow> False"
| "answers_alike (Throw e) r \<longleftrightarrow> (\<exists>e'. r = Throw e')"
| "answers_alike (Fault f) r \<longleftrightarrow> r = Fault f"
| "answers_alike Hang r \<longleftrightarrow> r = Hang"

lemma fst_locked_free:
  "\<not> lock s \<Longrightarrow> token_copied s \<Longrightarrow> fst (locked body (d, s)) = fst (body (d, s))"
  by (auto simp: locked_free split: prod.splits outcome.splits)

lemma push_open_alike:
  assumes "\<not> lock s" "token_copied s" "uses_clusters d s" "length (stack d) \<noteq> stack_size d"
  shows "answers_alike (fst (push fuel junk name c (d, s))) (fst (open_file fuel junk name mode c (d, s)))"
  using assms
proof (induction fuel arbitrary: c s)
  case (Suc fuel)
  let ?c = "cluster_or_current c d"
  note A = cluster_scans_agree[of junk name ?c s]
  obtain p s1 where p: "push_cluster_scan junk name ?c s = (p, s1)" by fastforce
  have f1: "\<not> lock s1" "token_copied s1" "FATType s1 = FATType s"
    using lock_free_after[OF keeps_push_cluster_scan p Suc.prems(1,2)] by auto
  show ?case
  proof (cases p)
    case (Ret rl)
    obtain q l where rl: "rl = (q, l)" by fastforce
    show ?thesis
    proof (cases q)
      case None
      then have o: "open_cluster_scan junk name ?c s = (Ret (None, l), s1)" using A p Ret rl by simp
      obtain n s2 where n: "find_fat_entry ?c 0 s1 = (n, s2)" by fastforce
      have f2: "\<not> lock s2" "token_copied s2" "FATType s2 = FATType s"
        using lock_free_after[OF keeps_find n f1(1,2)] f1(3) by auto
      have u2: "uses_clusters d s2" using Suc.prems(3) f2(3) by (simp add: uses_clusters_def)
      show ?thesis using Suc.prems p o n Ret rl None Suc.IH[OF f2(1,2) u2 Suc.prems(4)]
        by (cases n) (auto simp: fst_locked_free andthen_def on_fs_def Let_def)
    next
      case (Some x)
      then show ?thesis using A Suc.prems p Ret rl
        by (cases x) (auto simp: fst_locked_free andthen_def on_fs_def Let_def push_found_def ret_def opened_def split: prod.splits)
    qed
  qed (use A Suc.prems p in \<open>auto simp: fst_locked_free andthen_def on_fs_def Let_def split: prod.splits outcome.splits\<close>)
qed simp

section \<open>Properties\<close>


definition small_dir :: dir_iterator where
  "small_dir = FAT_dir_iterator (small_volume FAT32) 32"


text \<open>
  In the root directory of FAT12 and FAT16 they do not agree. If the first entry has no
  long name (a volume label, say), \<^verbatim>\<open>open_file\<close> compares its checksum with the initial -1 and
  throws for every name.
\<close>

theorem open_root_label_bug:
  assumes "\<not> lock s" "token_copied s" "FATType s \<noteq> FAT32" "stack d = []" "0 < BPB_RootEntCnt s"
    and e: "e = bytes_at (fh_bytes s) (root_directory_begin s) 32" "attr e \<noteq> ATTR_LONG_NAME" "e ! 0 \<noteq> 0" "e ! 0 \<noteq> 0xE5"
  shows "fst (open_file (Suc fuel) junk name mode c (d, s)) =
    Throw (Runtime_error ''Corrupted directory entry: checksum mismatch'')"
proof -
  let ?s = "s\<lparr>fh_cursor := root_directory_begin s\<rparr>"
  obtain n where n: "BPB_RootEntCnt s = Suc n" using assms(5) by (cases "BPB_RootEntCnt s") auto
  have peek: "peek_attribute ?s = (Ret (attr e), ?s)"
    by (simp add: peek_attribute_def andthen_def fh_move_def fh_read_def ret_def bytes_at_def nat_add_distrib e(1) attr_def)
  have "uint (checksum e) \<ge> 0" by simp
  then have chk: "uint (checksum e) \<noteq> - 1" by linarith
  have ne: "number_of_LFN_entries (new_scan junk) = - 1" "current_checksum (new_scan junk) = - 1" by (simp_all add: new_scan_def)
  have "scan_entry \<lparr>check_first = True, check_middle = False, mark_long = False, always_checksum = True\<rparr>
      (open_handler name) (new_scan junk) ?s =
    (Throw (Runtime_error ''Corrupted directory entry: checksum mismatch''), ?s\<lparr>fh_cursor := root_directory_begin s + 32\<rparr>)"
    unfolding scan_entry_def
    by (subst andthen_Ret[where m = peek_attribute, OF peek])
      (use e(2-4) ne in \<open>simp add: andthen_def fh_read_def e(1)[symmetric] short_entry_def throw_def Let_def chk\<close>)
  then have "fst (open_root_scan junk name s) = Throw (Runtime_error ''Corrupted directory entry: checksum mismatch'')"
    by (simp add: open_root_scan_def seek_root_def fh_set_def andthen_def ret_def n)
  then show ?thesis using assms(1-4)
    by (cases "open_root_scan junk name s") (simp add: fst_locked_free uses_clusters_def andthen_def on_fs_def)
qed

theorem open_root_label_bug_witness:
  "fst (open_file 1 (replicate 256 0) [0x61] 3 0 (small_dir,
      (small_volume FAT16)\<lparr>fh_bytes := (\<lambda>a. if a = 1536 then 0x41 else 0)\<rparr>)) =
    Throw (Runtime_error ''Corrupted directory entry: checksum mismatch'')"
proof -
  let ?s = "(small_volume FAT16)\<lparr>fh_bytes := (\<lambda>a. if a = 1536 then 0x41 else 0)\<rparr>"
  have "fst (open_file (Suc 0) (replicate 256 0) [0x61] 3 0 (small_dir, ?s)) =
      Throw (Runtime_error ''Corrupted directory entry: checksum mismatch'')"
    by (rule open_root_label_bug[OF _ _ _ _ _ refl])
      (simp_all add: small_volume_def small_dir_def FAT_dir_iterator_def attr_def bytes_at_def ATTR_LONG_NAME_def)
  then show ?thesis by simp
qed

text \<open>
  \<^verbatim>\<open>create_file\<close> never creates a file on FAT32 or below the root directory: its test for
  an existing name calls \<^verbatim>\<open>push\<close> with cluster 0, which is an invalid cluster number there.
\<close>

theorem create_file_always_throws:
  assumes "\<not> lock s" "token_copied s" "uses_clusters d s" "length (stack d) \<noteq> stack_size d"
  shows "fst (create_file (Suc (Suc fuel)) oob junk name dir c False (d, s)) = Throw (Logic_error ''Invalid cluster number'')"
  using assms
  by (simp add: fst_locked_free check_absent_def andthen_def on_fs_def cluster_or_current_def push_cluster_scan_def
      seek_cluster_def cluster_number_to_address_def bad_number_def throw_def locked_free)

theorem create_file_always_throws_witness:
  "fst (create_file 2 (\<lambda>_. 0) (replicate 256 0) [0x61] False null64 False (small_dir, small_volume FAT32)) =
    Throw (Logic_error ''Invalid cluster number'')"
proof -
  have "fst (create_file (Suc (Suc 0)) (\<lambda>_. 0) (replicate 256 0) [0x61] False null64 False (small_dir, small_volume FAT32)) =
    Throw (Logic_error ''Invalid cluster number'')"
    by (rule create_file_always_throws) (simp_all add: small_volume_def uses_clusters_def small_dir_def FAT_dir_iterator_def)
  then show ?thesis by (simp add: numeral_2_eq_2)
qed

section \<open>Where a new entry is written\<close>

lemma store_bytes_far: "a + length bs \<le> x \<Longrightarrow> store_bytes a bs m x = m x"
  by (simp add: store_bytes_def)

lemma write_all_far:
  "snd (write_all es s) = s' \<Longrightarrow> fh_cursor s + length (concat es) \<le> x \<Longrightarrow> fh_bytes s' x = fh_bytes s x"
proof (induction es arbitrary: s)
  case (Cons e es)
  let ?s = "s\<lparr>fh_bytes := store_bytes (fh_cursor s) e (fh_bytes s), fh_cursor := fh_cursor s + length e\<rparr>"
  have "snd (write_all es ?s) = s'" using Cons.prems(1) by (simp add: andthen_def fh_write_def)
  then have "fh_bytes s' x = fh_bytes ?s x" by (rule Cons.IH) (use Cons.prems(2) in simp)
  then show ?case using Cons.prems(2) by (simp add: store_bytes_far)
qed simp

lemma length_put [simp]:
  "length (put8 i b e) = length e" "length (put_char i b e) = length e" "length (put_chars i bs e) = length e"
  by (simp_all add: put8_def put_char_def) (induction i bs e rule: put_chars.induct; simp add: put_char_def)

lemma length_fold_put8 [simp]: "length (fold (\<lambda>i. put8 (g i) (f i)) is e) = length e"
  by (induction "is" arbitrary: e) simp_all

lemma length_new_dir_entry: "length (new_dir_entry oob junk str is_dir counter) \<le> 32"
  by (simp add: new_dir_entry_def short_name_def Let_def)

lemma length_long_name_entry: "length (fst (long_name_entry oob junk str chk i off)) \<le> 32"
  by (simp add: long_name_entry_def Let_def)

lemma length_long_name_entries:
  "length (long_name_entries oob junk str chk n i off) = n \<and>
    (\<forall>e \<in> set (long_name_entries oob junk str chk n i off). length e \<le> 32)"
proof (induction n arbitrary: i off)
  case (Suc n)
  show ?case using Suc length_long_name_entry[of oob junk str chk i off]
    by (auto split: prod.split option.split)
qed simp

lemma length_concat_le: "(\<And>e. e \<in> set es \<Longrightarrow> length e \<le> k) \<Longrightarrow> length (concat es) \<le> k * length es"
  by (induction es) (auto intro: add_mono simp: trans_le_add1)

lemma write_entries_far:
  assumes "write_entries oob junk str dir begin (d, s) = (r, (d', s'))" "begin + 32 * (lfn_count str + 1) \<le> x"
  shows "fh_bytes s' x = fh_bytes s x"
proof -
  define e where "e = new_dir_entry oob junk str dir (short_file_name_counter d)"
  define es where "es = long_name_entries oob junk str (checksum e) (lfn_count str) 0 0"
  show ?thesis
  proof (cases "es = []")
    case True
    then show ?thesis using assms(1) by (simp add: write_entries_def Let_def e_def es_def)
  next
    case False
    define es' where "es' = es[length es - 1 := put8 0 (last es ! 0 OR 0x40) (last es)]"
    have L: "length es = lfn_count str" "\<And>x. x \<in> set es \<Longrightarrow> length x \<le> 32"
      using length_long_name_entries unfolding es_def by blast+
    have "length x \<le> 32" if "x \<in> set es'" for x
      using that L(2) False unfolding es'_def by (auto dest!: set_update_subset_insert[THEN subsetD])
    then have "length (concat (rev es')) \<le> 32 * length (rev es')" by (intro length_concat_le) auto
    moreover have "length e \<le> 32" unfolding e_def by (rule length_new_dir_entry)
    ultimately have len: "length (concat (rev es' @ [e])) \<le> 32 * (lfn_count str + 1)"
      using L(1) by (simp add: es'_def)
    have "write_entries oob junk str dir begin (d, s) = on_fs (andthen (fh_set begin) (\<lambda>_. write_all (rev es' @ [e])))
      (d\<lparr>short_file_name_counter := (short_file_name_counter d + 1) mod 2 ^ 32\<rparr>, s)"
      using False by (simp add: write_entries_def Let_def e_def[symmetric] es_def[symmetric] es'_def)
    then have "snd (write_all (rev es' @ [e]) (s\<lparr>fh_cursor := begin\<rparr>)) = s'"
      using assms(1) by (auto simp: on_fs_def andthen_def fh_set_def split: prod.splits)
    then have "fh_bytes s' x = fh_bytes (s\<lparr>fh_cursor := begin\<rparr>) x"
      by (rule write_all_far) (use len assms(2) in simp)
    then show ?thesis by simp
  qed
qed

lemma free_entries_spec:
  "bgn < 256 \<Longrightarrow> \<exists>x c b. free_entries lfns start n i count bgn s = (Ret (c, b), s\<lparr>fh_cursor := x\<rparr>) \<and> b < 256"
proof (induction n arbitrary: i count bgn s)
  case 0
  have "(Ret (count, bgn), s) = (Ret (count, bgn), s\<lparr>fh_cursor := fh_cursor s\<rparr>)" by simp
  then show ?case unfolding free_entries.simps using 0 by blast
next
  case (Suc n)
  let ?s = "s\<lparr>fh_cursor := fh_cursor s + 1\<rparr>" and ?b = "fh_bytes s (fh_cursor s)"
  let ?B = "if count = 0 then (start + i * cluster_size s) mod 256 else bgn"
  have B: "?B < 256" using Suc.prems by simp
  have "hd (bytes_at (fh_bytes s) (fh_cursor s) 1) = ?b" by (simp add: bytes_at_def)
  then have step: "free_entries lfns start (Suc n) i count bgn s =
      (if ?b = 0xE5 then if (count + 1) mod 256 \<ge> lfns + 1 then (Ret ((count + 1) mod 256, ?B), ?s)
         else free_entries lfns start n (Suc i) ((count + 1) mod 256) ?B ?s
       else if ?b = 0 then
         if number_of_entries_per_cluster s \<ge> lfns + i + 1 then (Ret ((lfns + 1) mod 256, (start + i * cluster_size s) mod 256), ?s)
         else (Ret (sub64 (number_of_entries_per_cluster s) i mod 256, bgn), ?s)
       else free_entries lfns start n (Suc i) 0 bgn ?s)"
    by (simp add: andthen_def fh_read_def Let_def)
  have rec: "\<exists>x c b. free_entries lfns start n j cnt bg ?s = (Ret (c, b), s\<lparr>fh_cursor := x\<rparr>) \<and> b < 256"
    if "bg < 256" for j cnt bg
    using Suc.IH[OF that, of j cnt ?s] by simp
  have stop: "\<exists>x c' b'. (Ret (c, b), ?s) = (Ret (c', b'), s\<lparr>fh_cursor := x\<rparr>) \<and> b' < 256" if "b < 256" for c b :: nat
    using that by blast
  have ifI: "\<exists>x c' b'. (if q then r1 else r2) = (Ret (c', b'), s\<lparr>fh_cursor := x\<rparr>) \<and> b' < 256"
    if "\<exists>x c' b'. r1 = (Ret (c', b'), s\<lparr>fh_cursor := x\<rparr>) \<and> b' < 256"
      "\<exists>x c' b'. r2 = (Ret (c', b'), s\<lparr>fh_cursor := x\<rparr>) \<and> b' < 256"
    for q and r1 r2 :: "(nat \<times> nat) outcome \<times> fat_fs"
    using that by (cases q) (simp_all only: if_True if_False)
  show ?case unfolding step
    by (rule ifI[OF ifI[OF stop[OF B] rec[OF B]] ifI[OF ifI[OF stop stop[OF Suc.prems]] rec[OF Suc.prems]]]) simp
qed

lemma keeps_push_root_scan: "keeps_bytes (push_root_scan junk name)"
proof -
  have "\<exists>x. snd (push_root_scan junk name s) = s\<lparr>fh_cursor := x\<rparr>" for s
  proof -
    have "keeps_bytes (andthen seek_root (\<lambda>_. scan_entries \<lparr>check_first = False, check_middle = False, mark_long = True,
        always_checksum = False\<rparr> (push_handler name) (BPB_RootEntCnt s) (new_scan junk)))"
      by (intro keeps_andthen keeps_seek keeps_scan_entries keeps_push_handler)
    then show ?thesis by (simp add: push_root_scan_def keeps_bytes_def)
  qed
  then show ?thesis by (rule keeps_bytesI)
qed

text \<open>
  \<^verbatim>\<open>create_file\<close> in the root directory of FAT12 or FAT16 writes to the beginning of the
  volume, not to the directory: the address of the free entries is kept in a byte. When the
  call returns, no byte at or behind \<open>256 + 32 * (n + 1)\<close> has changed, \<open>n\<close> being the number of
  long entries; in particular the whole root directory is as before if it lies behind.
\<close>

theorem create_file_misses_directory:
  assumes "\<not> lock s" "token_copied s" "\<not> uses_clusters d s" "length (stack d) \<noteq> stack_size d"
    and "create_file (Suc (Suc fuel)) oob junk name dir c False (d, s) = (Ret (), (d', s'))"
    and "256 + 32 * (lfn_count name + 1) \<le> x"
  shows "fh_bytes s' x = fh_bytes s x"
proof -
  obtain p s1 where p: "push_root_scan junk name s = (p, s1)" by fastforce
  have "\<exists>y. snd (push_root_scan junk name s) = s\<lparr>fh_cursor := y\<rparr>"
    using keeps_push_root_scan[of junk name] by (simp add: keeps_bytes_def)
  then obtain y where s1: "s1 = s\<lparr>fh_cursor := y\<rparr>" using p by auto
  have rel: "release_lock s1 = s1" using assms(1) by (cases s) (simp add: s1 release_lock_def)
  have root: "\<not> uses_clusters d s1" using assms(3) by (simp add: uses_clusters_def s1)
  from free_entries_spec[of 0 "lfn_count name" "root_directory_begin s1" "BPB_RootEntCnt s1" 0 0
      "s1\<lparr>fh_cursor := root_directory_begin s1\<rparr>"] obtain z cnt b where
    F: "free_entries (lfn_count name) (root_directory_begin s1) (BPB_RootEntCnt s1) 0 0 0
      (s1\<lparr>fh_cursor := root_directory_begin s1\<rparr>) = (Ret (cnt, b), s1\<lparr>fh_cursor := z\<rparr>)" "b < 256" by auto
  have np: "\<exists>l. p = Ret (None, l)"
  proof (rule ccontr)
    assume "\<not> (\<exists>l. p = Ret (None, l))"
    then show False
      using assms(1-5) p rel s1
      by (cases p) (auto simp: locked_free check_absent_def pop_def push_found_def andthen_def on_fs_def ret_def throw_def
          Let_def split: prod.splits outcome.splits option.splits if_splits)
  qed
  then have "create_in_root oob junk name dir (d, s1) = (Ret (), (d', s'))
      \<or> (\<exists>s2. create_in_root oob junk name dir (d, s1) = (Ret (), (d', s2)) \<and> s' = release_lock s2)"
    using assms(1-5) p rel root s1
    by (auto simp: locked_free check_absent_def andthen_def on_fs_def ret_def split: prod.splits outcome.splits)
  then obtain s2 where s2: "create_in_root oob junk name dir (d, s1) = (Ret (), (d', s2))" "fh_bytes s' = fh_bytes s2"
    by (auto simp: release_lock_def)
  then have w: "write_entries oob junk name dir b (d, s1\<lparr>fh_cursor := z\<rparr>) = (Ret (), (d', s2))"
    using F(1) by (auto simp: create_in_root_def andthen_def on_fs_def seek_root_def fh_set_def ret_def throw_def split: if_splits)
  have "b + 32 * (lfn_count name + 1) \<le> x" using F(2) assms(6) by linarith
  from write_entries_far[OF w this] show ?thesis by (simp add: s2(2) s1)
qed

lemma write_all_Ret: "fst (write_all es s) = Ret ()"
  by (induction es arbitrary: s) (simp_all add: andthen_def fh_write_def)

lemma write_entries_Ret:
  assumes "lfn_count str \<noteq> 0"
  shows "\<exists>d' s'. write_entries oob junk str dir b (d, s) = (Ret (), (d', s'))"
proof -
  define e where "e = new_dir_entry oob junk str dir (short_file_name_counter d)"
  define es where "es = long_name_entries oob junk str (checksum e) (lfn_count str) 0 0"
  have "length es = lfn_count str" using length_long_name_entries unfolding es_def by blast
  then have ne: "es \<noteq> []" using assms by auto
  define es' where "es' = rev (es[length es - 1 := put8 0 (last es ! 0 OR 0x40) (last es)]) @ [e]"
  obtain s' where "write_all es' (s\<lparr>fh_cursor := b\<rparr>) = (Ret (), s')"
    using write_all_Ret[of es' "s\<lparr>fh_cursor := b\<rparr>"] by (cases "write_all es' (s\<lparr>fh_cursor := b\<rparr>)") auto
  moreover have "write_entries oob junk str dir b (d, s) = (case write_all es' (s\<lparr>fh_cursor := b\<rparr>) of
      (r, s') \<Rightarrow> (r, (d\<lparr>short_file_name_counter := (short_file_name_counter d + 1) mod 2 ^ 32\<rparr>, s')))"
    unfolding es'_def using ne
    by (simp add: write_entries_def Let_def e_def[symmetric] es_def[symmetric] on_fs_def andthen_def fh_set_def)
  ultimately show ?thesis by simp
qed

theorem create_file_misses_directory_witness:
  "\<exists>d' s'. create_file 2 (\<lambda>_. 0) (replicate 256 0) [0x61] False null64 False (small_dir, small_volume FAT16) =
    (Ret (), (d', s')) \<and> fh_bytes s' 1536 = 0"
proof -
  let ?s = "small_volume FAT16" and ?j = "replicate 256 0 :: u8 list"
  let ?s1 = "?s\<lparr>fh_cursor := 1536\<rparr>"
  have pre: "\<not> lock ?s" "token_copied ?s" "\<not> uses_clusters small_dir ?s" "length (stack small_dir) \<noteq> stack_size small_dir"
    by (simp_all add: small_volume_def uses_clusters_def small_dir_def FAT_dir_iterator_def)
  have n: "BPB_RootEntCnt ?s = Suc 15" "root_directory_begin ?s = 1536" "number_of_entries_per_cluster ?s = 16"
    by (simp_all add: small_volume_def)
  have z: "fh_bytes ?s (1536 + i) = 0" for i by (simp add: small_volume_def)
  have peek: "peek_attribute ?s1 = (Ret 0, ?s1)"
    using z[of 11] by (simp add: peek_attribute_def andthen_def fh_move_def fh_read_def ret_def bytes_at_def)
  have e0: "bytes_at (fh_bytes ?s1) (fh_cursor ?s1) 32 ! 0 = 0" using z[of 0] by (simp add: bytes_at_def)
  let ?scan = "scan_entries \<lparr>check_first = False, check_middle = False, mark_long = True, always_checksum = False\<rparr>
      (push_handler [0x61]) (Suc 15) (new_scan ?j) ?s1"
  have "\<exists>l. scan_entry \<lparr>check_first = False, check_middle = False, mark_long = True, always_checksum = False\<rparr>
      (push_handler [0x61]) (new_scan ?j) ?s1 = (Ret (Break l), ?s\<lparr>fh_cursor := 1568\<rparr>)"
    unfolding scan_entry_def
    by (subst andthen_Ret[where m = peek_attribute, OF peek])
      (use e0 in \<open>simp add: andthen_def fh_read_def short_entry_def Let_def ret_def ATTR_LONG_NAME_def new_scan_def\<close>)
  then have "\<exists>l. ?scan = (Ret (None, l), ?s\<lparr>fh_cursor := 1568\<rparr>)"
    unfolding scan_entries.simps(2) by (auto simp: andthen_def ret_def)
  then have push: "\<exists>l. push_root_scan ?j [0x61] ?s = (Ret (None, l), ?s\<lparr>fh_cursor := 1568\<rparr>)"
    by (auto simp: push_root_scan_def seek_root_def fh_set_def andthen_def ret_def n)
  have rel: "release_lock (?s\<lparr>fh_cursor := 1568\<rparr>) = ?s\<lparr>fh_cursor := 1568\<rparr>"
    by (simp add: release_lock_def small_volume_def)
  have cnt: "lfn_count [0x61] = 1" by (simp add: lfn_count_def)
  have free: "free_entries 1 1536 (Suc 15) 0 0 0 ?s1 = (Ret (2, 0), ?s\<lparr>fh_cursor := 1537\<rparr>)"
    unfolding free_entries.simps(2) using z[of 0] by (simp add: andthen_def fh_read_def bytes_at_def n)
  from write_entries_Ret[of "[0x61]" "\<lambda>_. 0" ?j False 0 small_dir "?s\<lparr>fh_cursor := 1537\<rparr>"] obtain d' s' where
    W: "write_entries (\<lambda>_. 0) ?j [0x61] False 0 (small_dir, ?s\<lparr>fh_cursor := 1537\<rparr>) = (Ret (), (d', s'))"
    using cnt by auto
  have u: "\<not> uses_clusters small_dir (?s\<lparr>fh_cursor := 1568\<rparr>)" using pre(3) by (simp add: uses_clusters_def)
  have root: "create_in_root (\<lambda>_. 0) ?j [0x61] False (small_dir, ?s\<lparr>fh_cursor := 1568\<rparr>) = (Ret (), (d', s'))"
    using free W by (simp add: create_in_root_def andthen_def on_fs_def seek_root_def fh_set_def ret_def cnt n)
  have C: "create_file (Suc (Suc 0)) (\<lambda>_. 0) ?j [0x61] False null64 False (small_dir, ?s) = (Ret (), (d', release_lock s'))"
    using push rel pre u root
    by (auto simp: locked_free check_absent_def andthen_def on_fs_def ret_def)
  have "fh_bytes (release_lock s') 1536 = fh_bytes ?s 1536"
    by (rule create_file_misses_directory[OF pre C]) (simp add: cnt)
  then show ?thesis using C z[of 0] by (simp add: numeral_2_eq_2)
qed

end
