(* ===== verification/CString.thy ===== *)
theory CString
  imports Prelude "HOL-Library.Sublist"
begin

text \<open>
  The C string and memory functions of kstdlib/cstring.cc, and \<^verbatim>\<open>strtol\<close> of
  kstdlib/cstdlib.cc. Memory is a partial map from addresses below \<open>2 ^ 64\<close> to bytes;
  an access outside its domain is a fault. Pointers are addresses, 0 is \<^verbatim>\<open>nullptr\<close>.
  \<^verbatim>\<open>char\<close> is signed, as it is on the target.
\<close>

section \<open>Memory\<close>

type_synonym memory = "nat \<Rightarrow> u8 option"

definition load :: "memory \<Rightarrow> nat \<Rightarrow> u8 option" where
  "load m p = (if p < 2 ^ 64 then m p else None)"

definition store :: "nat \<Rightarrow> u8 \<Rightarrow> memory \<Rightarrow> memory option" where
  "store p c m = (if load m p = None then None else Some (m(p \<mapsto> c)))"

lemma load_bound: "load m p = Some c \<Longrightarrow> p < 2 ^ 64"
  by (simp add: load_def split: if_splits)

lemma load_store: "store p c m = Some m' \<Longrightarrow> load m' q = (if q = p then Some c else load m q)"
  by (auto simp: store_def load_def split: if_splits)

lemma store_mapped: "load m p \<noteq> None \<Longrightarrow> \<exists>m'. store p c m = Some m'"
  by (simp add: store_def)

text \<open>The string \<open>s\<close>, with its final zero, lies at \<open>p\<close>.\<close>

fun str_at :: "memory \<Rightarrow> nat \<Rightarrow> u8 list \<Rightarrow> bool" where
  "str_at m p [] \<longleftrightarrow> load m p = Some 0"
| "str_at m p (c # s) \<longleftrightarrow> load m p = Some c \<and> c \<noteq> 0 \<and> str_at m (Suc p) s"

section \<open>Strings\<close>

function strcpy_loop :: "nat \<Rightarrow> nat \<Rightarrow> memory \<Rightarrow> memory outcome" where
  "strcpy_loop dest src m = (case load m src of None \<Rightarrow> Fault ''page fault''
     | Some c \<Rightarrow> (case store dest c m of None \<Rightarrow> Fault ''page fault''
         | Some m' \<Rightarrow> if c = 0 then Ret m' else strcpy_loop (dest + 1) (src + 1) m'))"
  by pat_completeness auto
termination by (relation "measure (\<lambda>(dest, src, m). 2 ^ 64 - src)") (auto dest!: load_bound)

declare strcpy_loop.simps [simp del]

definition strcpy :: "nat \<Rightarrow> nat \<Rightarrow> memory \<Rightarrow> (nat \<times> memory) outcome" where
  "strcpy dest src m = obind (strcpy_loop dest src m) (\<lambda>m'. Ret (dest, m'))"

fun strncpy_loop :: "nat \<Rightarrow> nat \<Rightarrow> nat \<Rightarrow> memory \<Rightarrow> memory outcome" where
  "strncpy_loop 0 dest src m = Ret m"
| "strncpy_loop (Suc i) dest src m = (case load m src of None \<Rightarrow> Fault ''page fault''
     | Some c \<Rightarrow> (case store dest c m of None \<Rightarrow> Fault ''page fault''
         | Some m' \<Rightarrow> if c = 0 then Ret m' else strncpy_loop i (dest + 1) (src + 1) m'))"

definition strncpy :: "nat \<Rightarrow> nat \<Rightarrow> nat \<Rightarrow> memory \<Rightarrow> (nat \<times> memory) outcome" where
  "strncpy dest src count m = obind (strncpy_loop count dest src m) (\<lambda>m'. Ret (dest, m'))"

function skip_to_end :: "memory \<Rightarrow> nat \<Rightarrow> nat outcome" where
  "skip_to_end m p = (case load m p of None \<Rightarrow> Fault ''page fault''
     | Some c \<Rightarrow> if c = 0 then Ret p else skip_to_end m (p + 1))"
  by pat_completeness auto
termination by (relation "measure (\<lambda>(m, p). 2 ^ 64 - p)") (auto dest!: load_bound)

declare skip_to_end.simps [simp del]

definition strcat :: "nat \<Rightarrow> nat \<Rightarrow> memory \<Rightarrow> (nat \<times> memory) outcome" where
  "strcat dest src m =
    obind (skip_to_end m dest) (\<lambda>e. obind (strcpy e src m) (\<lambda>(_, m'). Ret (dest, m')))"

definition strncat :: "nat \<Rightarrow> nat \<Rightarrow> nat \<Rightarrow> memory \<Rightarrow> (nat \<times> memory) outcome" where
  "strncat dest src n m =
    obind (skip_to_end m dest) (\<lambda>e. obind (strncpy e src n m) (\<lambda>(_, m'). Ret (dest, m')))"

function strlen_loop :: "memory \<Rightarrow> nat \<Rightarrow> nat \<Rightarrow> nat outcome" where
  "strlen_loop m x retval = (case load m x of None \<Rightarrow> Fault ''page fault''
     | Some c \<Rightarrow> if c = 0 then Ret retval else strlen_loop m (x + 1) (retval + 1))"
  by pat_completeness auto
termination by (relation "measure (\<lambda>(m, x, r). 2 ^ 64 - x)") (auto dest!: load_bound)

declare strlen_loop.simps [simp del]

definition strlen :: "memory \<Rightarrow> nat \<Rightarrow> nat outcome" where
  "strlen m x = strlen_loop m x 0"

text \<open>\<open>delta\<close> is a \<^verbatim>\<open>char\<close>: the difference is truncated to eight bits and read signed.\<close>

definition sign_of :: "u8 \<Rightarrow> int" where
  "sign_of delta = (if sint delta > 0 then 1 else if sint delta < 0 then - 1 else 0)"

function strcmp_loop :: "memory \<Rightarrow> nat \<Rightarrow> nat \<Rightarrow> u8 outcome" where
  "strcmp_loop m a b = (case load m a of None \<Rightarrow> Fault ''page fault''
     | Some x \<Rightarrow> (case load m b of None \<Rightarrow> Fault ''page fault''
         | Some y \<Rightarrow> if x - y = 0 \<and> \<not> (x = 0 \<and> y = 0) then strcmp_loop m (a + 1) (b + 1)
                     else Ret (x - y)))"
  by pat_completeness auto
termination by (relation "measure (\<lambda>(m, a, b). 2 ^ 64 - a)") (auto dest!: load_bound)

declare strcmp_loop.simps [simp del]

definition strcmp :: "memory \<Rightarrow> nat \<Rightarrow> nat \<Rightarrow> int outcome" where
  "strcmp m a b = obind (strcmp_loop m a b) (\<lambda>delta. Ret (sign_of delta))"

fun strncmp_loop :: "memory \<Rightarrow> nat \<Rightarrow> nat \<Rightarrow> nat \<Rightarrow> u8 \<Rightarrow> u8 outcome" where
  "strncmp_loop m 0 a b delta = Ret delta"
| "strncmp_loop m (Suc cnt) a b delta = (case load m a of None \<Rightarrow> Fault ''page fault''
     | Some x \<Rightarrow> (case load m b of None \<Rightarrow> Fault ''page fault''
         | Some y \<Rightarrow> if x - y = 0 \<and> \<not> (x = 0 \<and> y = 0) then strncmp_loop m cnt (a + 1) (b + 1) (x - y)
                     else Ret (x - y)))"

definition strncmp :: "memory \<Rightarrow> nat \<Rightarrow> nat \<Rightarrow> nat \<Rightarrow> int outcome" where
  "strncmp m a b n = obind (strncmp_loop m n a b 0) (\<lambda>delta. Ret (sign_of delta))"

text \<open>\<^verbatim>\<open>*str == (unsigned char)ch\<close>: both sides are promoted, the left one with its sign.\<close>

definition same_char :: "u8 \<Rightarrow> int \<Rightarrow> bool" where
  "same_char c ch \<longleftrightarrow> sint c = uint (word_of_int ch :: u8)"

function strchr_loop :: "memory \<Rightarrow> nat \<Rightarrow> int \<Rightarrow> (nat \<times> u8) outcome" where
  "strchr_loop m str ch = (case load m str of None \<Rightarrow> Fault ''page fault''
     | Some c \<Rightarrow> if \<not> same_char c ch \<and> c \<noteq> 0 then strchr_loop m (str + 1) ch else Ret (str, c))"
  by pat_completeness auto
termination by (relation "measure (\<lambda>(m, p, ch). 2 ^ 64 - p)") (auto dest!: load_bound)

declare strchr_loop.simps [simp del]

definition strchr :: "memory \<Rightarrow> nat \<Rightarrow> int \<Rightarrow> nat outcome" where
  "strchr m str ch = obind (strchr_loop m str ch) (\<lambda>(p, c). Ret (if same_char c ch then p else 0))"

function strrchr_loop :: "memory \<Rightarrow> nat \<Rightarrow> int \<Rightarrow> nat \<Rightarrow> (nat \<times> nat) outcome" where
  "strrchr_loop m str ch lastfound = (case load m str of None \<Rightarrow> Fault ''page fault''
     | Some c \<Rightarrow> if c \<noteq> 0 then strrchr_loop m (str + 1) ch (if same_char c ch then str else lastfound)
                 else Ret (str, lastfound))"
  by pat_completeness auto
termination by (relation "measure (\<lambda>(m, p, ch, l). 2 ^ 64 - p)") (auto dest!: load_bound)

declare strrchr_loop.simps [simp del]

definition strrchr :: "memory \<Rightarrow> nat \<Rightarrow> int \<Rightarrow> nat outcome" where
  "strrchr m str ch = obind (strrchr_loop m str ch 0)
    (\<lambda>(e, lastfound). Ret (if (word_of_int ch :: u8) = 0 then e else lastfound))"

text \<open>
  \<^verbatim>\<open>memset(cache, v, 8)\<close> sets the first 8 of the 256 flags; the others keep what the stack
  contained (\<open>junk\<close>).
\<close>

definition cache_init :: "bool \<Rightarrow> (u8 \<Rightarrow> bool) \<Rightarrow> u8 \<Rightarrow> bool" where
  "cache_init v junk = (\<lambda>c. if unat c < 8 then v else junk c)"

function fill_cache :: "memory \<Rightarrow> nat \<Rightarrow> bool \<Rightarrow> (u8 \<Rightarrow> bool) \<Rightarrow> (u8 \<Rightarrow> bool) outcome" where
  "fill_cache m src v cache = (case load m src of None \<Rightarrow> Fault ''page fault''
     | Some c \<Rightarrow> if c = 0 then Ret cache else fill_cache m (src + 1) v (cache(c := v)))"
  by pat_completeness auto
termination by (relation "measure (\<lambda>(m, p, v, c). 2 ^ 64 - p)") (auto dest!: load_bound)

declare fill_cache.simps [simp del]

function span_loop :: "memory \<Rightarrow> nat \<Rightarrow> (u8 \<Rightarrow> bool) \<Rightarrow> nat \<Rightarrow> nat outcome" where
  "span_loop m dest cache r = (case load m dest of None \<Rightarrow> Fault ''page fault''
     | Some c \<Rightarrow> if cache c \<and> c \<noteq> 0 then span_loop m (dest + 1) cache (r + 1) else Ret r)"
  by pat_completeness auto
termination by (relation "measure (\<lambda>(m, p, c, r). 2 ^ 64 - p)") (auto dest!: load_bound)

declare span_loop.simps [simp del]

definition strspn :: "(u8 \<Rightarrow> bool) \<Rightarrow> memory \<Rightarrow> nat \<Rightarrow> nat \<Rightarrow> nat outcome" where
  "strspn junk m dest src =
    obind (fill_cache m src True (cache_init False junk)) (\<lambda>cache. span_loop m dest cache 0)"

text \<open>The loop of \<^verbatim>\<open>strcspn\<close> advances \<^verbatim>\<open>src\<close>, which its condition does not read.\<close>

definition strcspn :: "(u8 \<Rightarrow> bool) \<Rightarrow> memory \<Rightarrow> nat \<Rightarrow> nat \<Rightarrow> nat outcome" where
  "strcspn junk m dest src =
    obind (fill_cache m src False (cache_init True junk)) (\<lambda>cache.
      case load m dest of None \<Rightarrow> Fault ''page fault''
      | Some c \<Rightarrow> if cache c \<and> c \<noteq> 0 then Hang else Ret 0)"

definition strpbrk :: "(u8 \<Rightarrow> bool) \<Rightarrow> memory \<Rightarrow> nat \<Rightarrow> nat \<Rightarrow> nat outcome" where
  "strpbrk junk m dest src = obind (strspn junk m dest src) (\<lambda>r.
    case load m (dest + r) of None \<Rightarrow> Fault ''page fault''
    | Some c \<Rightarrow> Ret (if c = 0 then 0 else dest + r))"

function strstr_loop :: "memory \<Rightarrow> nat \<Rightarrow> nat \<Rightarrow> nat \<Rightarrow> nat outcome" where
  "strstr_loop m base substr n = (case load m base of None \<Rightarrow> Fault ''page fault''
     | Some c \<Rightarrow> if c = 0 then Ret 0
         else obind (strncmp m base substr n) (\<lambda>r.
           if r = 0 then Ret base else strstr_loop m (base + 1) substr n))"
  by pat_completeness auto
termination by (relation "measure (\<lambda>(m, p, q, n). 2 ^ 64 - p)") (auto dest!: load_bound)

declare strstr_loop.simps [simp del]

definition strstr :: "memory \<Rightarrow> nat \<Rightarrow> nat \<Rightarrow> nat outcome" where
  "strstr m str substr = obind (strlen m substr) (\<lambda>n. strstr_loop m str substr n)"

section \<open>Blocks of memory\<close>

fun memchr_loop :: "memory \<Rightarrow> nat \<Rightarrow> u8 \<Rightarrow> nat \<Rightarrow> nat outcome" where
  "memchr_loop m 0 cmp p = Ret p"
| "memchr_loop m (Suc count) cmp p = (case load m p of None \<Rightarrow> Fault ''page fault''
     | Some c \<Rightarrow> if c \<noteq> cmp then memchr_loop m count cmp (p + 1) else Ret p)"

definition memchr :: "memory \<Rightarrow> nat \<Rightarrow> int \<Rightarrow> nat \<Rightarrow> nat outcome" where
  "memchr m s c n = obind (memchr_loop m n (word_of_int c) s) (\<lambda>p.
    case load m p of None \<Rightarrow> Fault ''page fault''
    | Some x \<Rightarrow> Ret (if x = word_of_int c then p else 0))"

text \<open>The loop of \<^verbatim>\<open>memcmp\<close> counts down and does not advance the pointers.\<close>

fun memcmp_loop :: "memory \<Rightarrow> nat \<Rightarrow> nat \<Rightarrow> nat \<Rightarrow> u8 \<Rightarrow> (nat \<times> u8) outcome" where
  "memcmp_loop m 0 pa pb delta = Ret (0, delta)"
| "memcmp_loop m (Suc count) pa pb delta = (case load m pa of None \<Rightarrow> Fault ''page fault''
     | Some x \<Rightarrow> (case load m pb of None \<Rightarrow> Fault ''page fault''
         | Some y \<Rightarrow> if x - y = 0 then memcmp_loop m count pa pb (x - y) else Ret (Suc count, x - y)))"

definition memcmp :: "memory \<Rightarrow> nat \<Rightarrow> nat \<Rightarrow> nat \<Rightarrow> int outcome" where
  "memcmp m a b n = obind (memcmp_loop m n a b 0) (\<lambda>(count, delta).
    Ret (if count = 0 then 0 else if sint delta > 0 then 1 else - 1))"

fun memset_loop :: "nat \<Rightarrow> nat \<Rightarrow> u8 \<Rightarrow> memory \<Rightarrow> memory outcome" where
  "memset_loop 0 p c m = Ret m"
| "memset_loop (Suc cnt) p c m = (case store p c m of None \<Rightarrow> Fault ''page fault''
     | Some m' \<Rightarrow> memset_loop cnt (p + 1) c m')"

definition memset :: "nat \<Rightarrow> int \<Rightarrow> nat \<Rightarrow> memory \<Rightarrow> memory outcome" where
  "memset a ch n m = memset_loop n a (word_of_int ch) m"

fun copy_up :: "nat \<Rightarrow> nat \<Rightarrow> nat \<Rightarrow> memory \<Rightarrow> memory outcome" where
  "copy_up 0 dest src m = Ret m"
| "copy_up (Suc cnt) dest src m = (case load m src of None \<Rightarrow> Fault ''page fault''
     | Some c \<Rightarrow> (case store dest c m of None \<Rightarrow> Fault ''page fault''
         | Some m' \<Rightarrow> copy_up cnt (dest + 1) (src + 1) m'))"

fun copy_down :: "nat \<Rightarrow> nat \<Rightarrow> nat \<Rightarrow> memory \<Rightarrow> memory outcome" where
  "copy_down 0 dest src m = Ret m"
| "copy_down (Suc cnt) dest src m = (case load m (src + cnt) of None \<Rightarrow> Fault ''page fault''
     | Some c \<Rightarrow> (case store (dest + cnt) c m of None \<Rightarrow> Fault ''page fault''
         | Some m' \<Rightarrow> copy_down cnt dest src m'))"

definition memcpy :: "nat \<Rightarrow> nat \<Rightarrow> nat \<Rightarrow> memory \<Rightarrow> memory outcome" where
  "memcpy dest src n m = copy_up n dest src m"

definition intptr :: "nat \<Rightarrow> int" where
  "intptr p = (if p < 2 ^ 63 then int p else int p - 2 ^ 64)"

definition memmove :: "nat \<Rightarrow> nat \<Rightarrow> nat \<Rightarrow> memory \<Rightarrow> memory outcome" where
  "memmove dest src n m =
    (if intptr dest < intptr src then copy_up n dest src m else copy_down n dest src m)"

section \<open>strtol\<close>

definition charValue :: "int \<Rightarrow> u8 \<Rightarrow> int" where
  "charValue base ch = (let c = uint ch in
     if c - 48 \<ge> 0 \<and> c - 48 \<le> min base 9 then c - 48
     else if c - 97 \<ge> 0 \<and> c - 97 \<le> min (base - 10) 26 then c - 97
     else if c - 65 \<ge> 0 \<and> c - 65 \<le> min (base - 10) 26 then c - 65
     else - 1)"

text \<open>
  The loop \<^verbatim>\<open>while(charValue[*nptr] != -1)\<close> changes \<^verbatim>\<open>result\<close> only, never \<^verbatim>\<open>nptr\<close>: it is left
  at once or never. The result is the number with the value stored to \<^verbatim>\<open>*endptr\<close>.
\<close>

definition strtol :: "memory \<Rightarrow> nat \<Rightarrow> int \<Rightarrow> (int \<times> nat) outcome" where
  "strtol m nptr base = (case load m nptr of None \<Rightarrow> Fault ''page fault''
     | Some c0 \<Rightarrow> (let p = (if c0 = 45 then nptr + 1 else nptr) in
         case load m p of None \<Rightarrow> Fault ''page fault''
         | Some c \<Rightarrow> if charValue base c \<noteq> - 1 then Hang else Ret (0, nptr)))"

section \<open>Correctness of the block functions\<close>

definition mapped :: "memory \<Rightarrow> nat \<Rightarrow> nat \<Rightarrow> bool" where
  "mapped m p n \<longleftrightarrow> list_all (\<lambda>i. load m (p + i) \<noteq> None) [0..<n]"

lemma mappedD: "mapped m p n \<Longrightarrow> i < n \<Longrightarrow> load m (p + i) \<noteq> None"
  by (auto simp: mapped_def list_all_iff)

lemma mappedI: "(\<And>i. i < n \<Longrightarrow> load m (p + i) \<noteq> None) \<Longrightarrow> mapped m p n"
  by (auto simp: mapped_def list_all_iff)

lemma mapped_Suc: "mapped m p (Suc n) \<longleftrightarrow> load m p \<noteq> None \<and> mapped m (Suc p) n"
proof
  assume a: "mapped m p (Suc n)"
  then show "load m p \<noteq> None \<and> mapped m (Suc p) n"
    using mappedD [OF a, of 0] mappedD [OF a, of "Suc _"] by (auto intro!: mappedI)
next
  assume a: "load m p \<noteq> None \<and> mapped m (Suc p) n"
  show "mapped m p (Suc n)"
  proof (rule mappedI)
    fix i assume "i < Suc n"
    then show "load m (p + i) \<noteq> None"
      using a mappedD [of m "Suc p" n "i - 1"] by (cases i) auto
  qed
qed

lemma mapped_last: "mapped m p (Suc n) \<longleftrightarrow> load m (p + n) \<noteq> None \<and> mapped m p n"
  by (auto simp: mapped_def)

lemma mapped_store: "store q c m = Some m' \<Longrightarrow> mapped m p n \<Longrightarrow> mapped m' p n"
  by (auto simp: mapped_def list_all_iff load_store)

lemma copy_up_correct:
  assumes "mapped m src n" "mapped m dest n" "dest \<le> src"
  shows "\<exists>m'. copy_up n dest src m = Ret m' \<and>
    (\<forall>p. load m' p = (if dest \<le> p \<and> p < dest + n then load m (src + (p - dest)) else load m p))"
  using assms
proof (induction n arbitrary: dest src m)
  case (Suc n)
  obtain c where c: "load m src = Some c" using Suc.prems(1) by (auto simp: mapped_Suc)
  obtain m1 where m1: "store dest c m = Some m1"
    using Suc.prems(2) store_mapped by (metis mapped_Suc)
  have "mapped m1 (Suc src) n" "mapped m1 (Suc dest) n"
    using Suc.prems m1 by (auto simp: mapped_Suc intro: mapped_store)
  from Suc.IH [OF this] Suc.prems(3) obtain m2 where m2: "copy_up n (Suc dest) (Suc src) m1 = Ret m2"
    and l: "\<And>p. load m2 p = (if Suc dest \<le> p \<and> p < Suc dest + n then load m1 (Suc src + (p - Suc dest)) else load m1 p)"
    by auto
  have "load m2 p = (if dest \<le> p \<and> p < dest + Suc n then load m (src + (p - dest)) else load m p)" for p
  proof -
    have "Suc src + (p - Suc dest) = src + (p - dest)" if "Suc dest \<le> p" using that by simp
    then show ?thesis using Suc.prems(3) c by (auto simp: l load_store [OF m1] not_less_eq_eq le_Suc_eq)
  qed
  then show ?case using c m1 m2 by simp
qed auto

lemma copy_down_correct:
  assumes "mapped m src n" "mapped m dest n" "src \<le> dest"
  shows "\<exists>m'. copy_down n dest src m = Ret m' \<and>
    (\<forall>p. load m' p = (if dest \<le> p \<and> p < dest + n then load m (src + (p - dest)) else load m p))"
  using assms
proof (induction n arbitrary: m)
  case (Suc n)
  obtain c where c: "load m (src + n) = Some c" using Suc.prems(1) by (auto simp: mapped_last)
  obtain m1 where m1: "store (dest + n) c m = Some m1"
    using Suc.prems(2) store_mapped by (metis mapped_last)
  have "mapped m1 src n" "mapped m1 dest n"
    using Suc.prems m1 by (auto simp: mapped_last intro: mapped_store)
  from Suc.IH [OF this Suc.prems(3)] obtain m2 where m2: "copy_down n dest src m1 = Ret m2"
    and l: "\<And>p. load m2 p = (if dest \<le> p \<and> p < dest + n then load m1 (src + (p - dest)) else load m1 p)"
    by auto
  have "load m2 p = (if dest \<le> p \<and> p < dest + Suc n then load m (src + (p - dest)) else load m p)" for p
    using Suc.prems(3) c by (auto simp: l load_store [OF m1])
  then show ?case using c m1 m2 by simp
qed auto

text \<open>
  C21: \<^verbatim>\<open>memmove\<close> moves a block as if through a buffer, also when source and destination
  overlap, and changes nothing else. The pointers are compared as signed integers, so both
  blocks have to start in the same half of the address space.
\<close>

theorem memmove_correct:
  assumes "mapped m src n" "mapped m dest n" "dest < 2 ^ 63 \<longleftrightarrow> src < 2 ^ 63"
  shows "\<exists>m'. memmove dest src n m = Ret m' \<and>
    (\<forall>p. load m' p = (if dest \<le> p \<and> p < dest + n then load m (src + (p - dest)) else load m p))"
proof (cases "dest < src")
  case True
  then have "intptr dest < intptr src" using assms(3) by (auto simp: intptr_def)
  then show ?thesis using copy_up_correct [OF assms(1,2)] True by (simp add: memmove_def)
next
  case False
  then have "\<not> intptr dest < intptr src" using assms(3) by (auto simp: intptr_def)
  then show ?thesis using copy_down_correct [OF assms(1,2)] False by (simp add: memmove_def)
qed

definition demo_mem :: "nat \<Rightarrow> u8 list \<Rightarrow> memory" where
  "demo_mem p bs = (\<lambda>a. if p \<le> a \<and> a < p + length bs then Some (bs ! (a - p)) else None)"

theorem memmove_correct_witness:
  "\<exists>m'. memmove 101 100 3 (demo_mem 100 [1, 2, 3, 4]) = Ret m' \<and>
    load m' 101 = Some 1 \<and> load m' 102 = Some 2 \<and> load m' 103 = Some 3 \<and> load m' 100 = Some 1"
proof -
  let ?m = "demo_mem 100 [1, 2, 3, 4]"
  have "mapped ?m 100 3" "mapped ?m 101 3" by (simp_all add: mapped_def load_def demo_mem_def upt_rec)
  from memmove_correct [OF this] obtain m' where m': "memmove 101 100 3 ?m = Ret m'"
    and l: "\<forall>p. load m' p = (if 101 \<le> p \<and> p < 101 + 3 then load ?m (100 + (p - 101)) else load ?m p)"
    by auto
  have "load m' 101 = Some 1" "load m' 102 = Some 2" "load m' 103 = Some 3" "load m' 100 = Some 1"
    by (simp_all only: l) (simp_all add: load_def demo_mem_def)
  with m' show ?thesis by blast
qed


section \<open>Correctness of the string functions\<close>

lemma str_at_nonzero: "str_at m p s \<Longrightarrow> 0 \<notin> set s"
  by (induction s arbitrary: p) auto

lemma strlen_loop_string: "str_at m p s \<Longrightarrow> strlen_loop m p r = Ret (r + length s)"
  by (induction s arbitrary: p r) (simp_all add: strlen_loop.simps [of m p r for p r])

lemma strlen_string: "str_at m p s \<Longrightarrow> strlen m p = Ret (length s)"
  by (simp add: strlen_def strlen_loop_string)

lemma skip_to_end_string: "str_at m p s \<Longrightarrow> skip_to_end m p = Ret (p + length s)"
  by (induction s arbitrary: p) (simp_all add: skip_to_end.simps [of m p for p])

text \<open>The difference of the first characters that differ, the final zeros included.\<close>

fun first_delta :: "u8 list \<Rightarrow> u8 list \<Rightarrow> u8" where
  "first_delta [] [] = 0"
| "first_delta [] (y # t) = 0 - y"
| "first_delta (x # s) [] = x - 0"
| "first_delta (x # s) (y # t) = (if x = y then first_delta s t else x - y)"

lemma first_delta_zero: "0 \<notin> set s \<Longrightarrow> 0 \<notin> set t \<Longrightarrow> first_delta s t = 0 \<longleftrightarrow> s = t"
  by (induction s t rule: first_delta.induct) auto

lemma strcmp_loop_strings:
  "str_at m a s \<Longrightarrow> str_at m b t \<Longrightarrow> strcmp_loop m a b = Ret (first_delta s t)"
  by (induction s t arbitrary: a b rule: first_delta.induct)
    (simp_all add: strcmp_loop.simps [of m a b for a b])

lemma strncmp_loop_strings:
  "str_at m a s \<Longrightarrow> str_at m b t \<Longrightarrow> strncmp_loop m n a b 0 = Ret (first_delta (take n s) (take n t))"
proof (induction n arbitrary: a b s t)
  case (Suc n)
  then show ?case by (cases s; cases t) auto
qed simp

lemma sign_of_zero: "sign_of d = 0 \<longleftrightarrow> d = 0"
  by (auto simp: sign_of_def) (metis less_linear signed_eq_0_iff)

text \<open>On characters below 128 the sign of the difference is the order of the characters.\<close>

lemma sign_of_ascii:
  assumes "x < 128" "y < (128 :: u8)"
  shows "sign_of (x - y) < 0 \<longleftrightarrow> x < y"
proof -
  have b: "uint x < 128" "uint y < 128" "0 \<le> uint x" "0 \<le> uint y"
    using assms by (simp_all add: word_less_def)
  have "0 \<le> uint x - uint y + 128" "uint x - uint y + 128 < 256" using b by linarith+
  then have "(uint x - uint y + 128) mod 256 = uint x - uint y + 128" by (rule mod_pos_pos_trivial)
  then have "((uint x - uint y) mod 256 + 128) mod 256 = uint x - uint y + 128"
    by (simp add: mod_add_left_eq)
  then have "sint (x - y) = uint x - uint y"
    by (simp add: sint_uint uint_word_ariths signed_take_bit_eq_take_bit_shift take_bit_eq_mod)
  then show ?thesis using b by (auto simp: sign_of_def word_less_def)
qed

lemma first_delta_lexord:
  assumes "\<forall>x \<in> set s. x < 128" "\<forall>x \<in> set t. x < (128 :: u8)" "0 \<notin> set s" "0 \<notin> set t"
  shows "sign_of (first_delta s t) < 0 \<longleftrightarrow> (s, t) \<in> lexord {(x, y). x < y}"
  using assms
proof (induction s t rule: first_delta.induct)
  case (2 y t)
  then have "sign_of (0 - y) < 0 \<longleftrightarrow> 0 < y" by (intro sign_of_ascii) auto
  with 2 show ?case by (simp add: word_gt_0)
next
  case (3 x s)
  then have "sign_of (x - 0) < 0 \<longleftrightarrow> x < 0" by (intro sign_of_ascii) auto
  then show ?case by simp
qed (auto simp: sign_of_ascii sign_of_def [of 0])

text \<open>
  On two strings \<^verbatim>\<open>strcmp\<close> returns, with 0 exactly when they are equal; for ASCII
  strings the result is negative exactly when the first comes before the second in the
  lexicographic order.
\<close>

theorem strcmp_correct:
  assumes "str_at m a s" "str_at m b t"
  shows "\<exists>r. strcmp m a b = Ret r \<and> r \<in> {- 1, 0, 1} \<and> (r = 0 \<longleftrightarrow> s = t) \<and>
    ((\<forall>x \<in> set (s @ t). x < 128) \<longrightarrow> (r < 0 \<longleftrightarrow> (s, t) \<in> lexord {(x, y). x < y}))"
proof -
  have z: "0 \<notin> set s" "0 \<notin> set t" using assms by (simp_all add: str_at_nonzero)
  have "strcmp m a b = Ret (sign_of (first_delta s t))"
    by (simp add: strcmp_def strcmp_loop_strings [OF assms])
  moreover have "sign_of (first_delta s t) \<in> {- 1, 0, 1}" by (simp add: sign_of_def)
  ultimately show ?thesis
    using z by (auto simp: sign_of_zero first_delta_zero first_delta_lexord)
qed

theorem strcmp_correct_witness:
  "\<exists>r. strcmp (demo_mem 8 [97, 98, 0, 97, 99, 0]) 8 11 = Ret r \<and> r \<noteq> 0"
proof -
  have "str_at (demo_mem 8 [97, 98, 0, 97, 99, 0]) 8 [97, 98]"
    "str_at (demo_mem 8 [97, 98, 0, 97, 99, 0]) 11 [97, 99]"
    by (simp_all add: load_def demo_mem_def)
  from strcmp_correct [OF this] show ?thesis by auto
qed

text \<open>Outside ASCII the order is wrong: the byte 200 is reported to precede the byte 10.\<close>

theorem strcmp_order_bug:
  "strcmp (demo_mem 8 [200, 0, 10, 0]) 8 10 = Ret (- 1)"
  by (simp add: strcmp_def strcmp_loop.simps load_def demo_mem_def sign_of_def)

lemma strncmp_prefix:
  assumes "str_at m a s" "str_at m b t"
  shows "\<exists>r. strncmp m a b (length t) = Ret r \<and> (r = 0 \<longleftrightarrow> prefix t s)"
proof -
  have z: "0 \<notin> set (take (length t) s)" "0 \<notin> set t"
    using assms by (auto dest: str_at_nonzero in_set_takeD)
  have "take (length t) s = t \<longleftrightarrow> prefix t s"
    by (metis append_eq_conv_conj append_take_drop_id prefix_def)
  then show ?thesis
    using z by (simp add: strncmp_def strncmp_loop_strings [OF assms] sign_of_zero first_delta_zero)
qed

lemma strstr_loop_strings:
  assumes "str_at m q t" "str_at m p s" "strstr_loop m p q (length t) = Ret r"
  shows "(if \<exists>i < length s. prefix t (drop i s)
     then \<exists>i < length s. r = p + i \<and> prefix t (drop i s) \<and> (\<forall>j < i. \<not> prefix t (drop j s)) else r = 0)"
  using assms(2,3)
proof (induction s arbitrary: p)
  case Nil
  then show ?case by (simp add: strstr_loop.simps [of m p])
next
  case (Cons c s)
  obtain k where k: "strncmp m p q (length t) = Ret k" "k = 0 \<longleftrightarrow> prefix t (c # s)"
    using strncmp_prefix [OF Cons.prems(1) assms(1)] by blast
  show ?case
  proof (cases "prefix t (c # s)")
    case True
    then have "r = p" using Cons.prems k by (simp add: strstr_loop.simps [of m p])
    then show ?thesis using True by (auto intro!: exI [of _ 0])
  next
    case False
    then have "strstr_loop m (Suc p) q (length t) = Ret r"
      using Cons.prems k by (simp add: strstr_loop.simps [of m p])
    with Cons.IH [of "Suc p"] Cons.prems(1) have
      ih: "(if \<exists>i < length s. prefix t (drop i s)
        then \<exists>i < length s. r = Suc p + i \<and> prefix t (drop i s) \<and> (\<forall>j < i. \<not> prefix t (drop j s)) else r = 0)"
      by simp
    have ex: "(\<exists>i < length (c # s). prefix t (drop i (c # s))) \<longleftrightarrow> (\<exists>i < length s. prefix t (drop i s))"
      using False by (auto simp: less_Suc_eq_0_disj)
    show ?thesis
    proof (cases "\<exists>i < length s. prefix t (drop i s)")
      case True
      with ih obtain i where "i < length s" "r = Suc p + i" "prefix t (drop i s)" "\<forall>j < i. \<not> prefix t (drop j s)"
        by auto
      then have "Suc i < length (c # s) \<and> r = p + Suc i \<and> prefix t (drop (Suc i) (c # s)) \<and>
        (\<forall>j < Suc i. \<not> prefix t (drop j (c # s)))"
        using False by (auto simp: less_Suc_eq_0_disj)
      then show ?thesis using ex True by (simp only: if_True) blast
    next
      case F: False
      then have "r = 0" using ih by (simp only: if_False)
      then show ?thesis using ex F by (simp only: if_False)
    qed
  qed
qed

lemma strstr_loop_returns:
  "str_at m q t \<Longrightarrow> str_at m p s \<Longrightarrow> \<exists>r. strstr_loop m p q (length t) = Ret r"
proof (induction s arbitrary: p)
  case (Cons c s)
  then obtain k where "strncmp m p q (length t) = Ret k" using strncmp_prefix by blast
  with Cons show ?case by (auto simp: strstr_loop.simps [of m p])
qed (simp add: strstr_loop.simps [of m p for p])

text \<open>
  \<^verbatim>\<open>strstr\<close> returns the first position in the string where the other one occurs, and
  \<^verbatim>\<open>nullptr\<close> when there is none (or the string is empty).
\<close>

theorem strstr_finds_first:
  assumes "str_at m str s" "str_at m substr t"
  shows "\<exists>r. strstr m str substr = Ret r \<and>
    (if \<exists>i < length s. prefix t (drop i s)
     then \<exists>i < length s. r = str + i \<and> prefix t (drop i s) \<and> (\<forall>j < i. \<not> prefix t (drop j s))
     else r = 0)"
proof -
  obtain r where "strstr_loop m str substr (length t) = Ret r"
    using strstr_loop_returns [OF assms(2,1)] by blast
  then have "strstr m str substr = Ret r" by (simp add: strstr_def strlen_string [OF assms(2)])
  moreover note strstr_loop_strings [OF assms(2,1) \<open>strstr_loop m str substr (length t) = Ret r\<close>]
  ultimately show ?thesis by blast
qed

theorem strstr_finds_first_witness:
  "strstr (demo_mem 8 [97, 98, 98, 0, 98, 0]) 8 12 \<noteq> Ret 0"
proof -
  have s: "str_at (demo_mem 8 [97, 98, 98, 0, 98, 0]) 8 [97, 98, 98]"
    "str_at (demo_mem 8 [97, 98, 98, 0, 98, 0]) 12 [98]"
    by (simp_all add: load_def demo_mem_def)
  have "\<exists>i < length [97, 98, 98 :: u8]. prefix [98] (drop i [97, 98, 98])"
    by (rule exI [of _ 1]) simp
  with strstr_finds_first [OF s] show ?thesis by (metis add_is_0 outcome.inject(1) zero_neq_numeral)
qed


text \<open>Copies of strings: the destination is mapped and apart from the source.\<close>

lemma strcpy_loop_string:
  assumes "str_at m src s" "mapped m dest (Suc (length s))"
    "dest + length s < src \<or> src + length s < dest"
  shows "\<exists>m'. strcpy_loop dest src m = Ret m' \<and> str_at m' dest s \<and>
    (\<forall>p. p < dest \<or> dest + length s < p \<longrightarrow> load m' p = load m p)"
  using assms
proof (induction s arbitrary: dest src m)
  case Nil
  then obtain m1 where m1: "store dest 0 m = Some m1"
    using store_mapped by (metis length_0_conv mapped_Suc)
  then show ?case using Nil.prems by (simp add: strcpy_loop.simps [of dest src m] load_store [OF m1])
next
  case (Cons c s)
  obtain m1 where m1: "store dest c m = Some m1"
    using Cons.prems(2) store_mapped by (metis mapped_Suc)
  have "str_at m1 (Suc src) s"
  proof -
    have "str_at m1 p t" if "str_at m p t" "dest < p \<or> p + length t < dest" for p t
      using that by (induction t arbitrary: p) (auto simp: load_store [OF m1])
    moreover have "str_at m (Suc src) s" using Cons.prems(1) by simp
    ultimately show ?thesis using Cons.prems(3) by auto
  qed
  moreover have "mapped m1 (Suc dest) (Suc (length s))"
    using Cons.prems(2) m1 by (auto simp: mapped_Suc [of m dest] intro: mapped_store)
  ultimately obtain m2 where m2: "strcpy_loop (Suc dest) (Suc src) m1 = Ret m2" "str_at m2 (Suc dest) s"
    and l0: "\<forall>p. p < Suc dest \<or> Suc dest + length s < p \<longrightarrow> load m2 p = load m1 p"
    using Cons.IH [of m1 "Suc src" "Suc dest"] Cons.prems(3) by auto
  have l: "load m2 p = load m1 p" if "p < Suc dest \<or> Suc dest + length s < p" for p
    using l0 that by blast
  have "load m2 p = load m p" if "p < dest \<or> dest + length (c # s) < p" for p
    using that by (auto simp: l load_store [OF m1])
  then show ?case
    using Cons.prems(1) m1 m2 by (simp add: strcpy_loop.simps [of dest src m] l load_store [OF m1])
qed

text \<open>
  \<^verbatim>\<open>strcat\<close> appends: where the room behind the destination string is mapped and apart
  from the source, the destination holds the concatenation and nothing else has changed.
\<close>

theorem strcat_appends:
  assumes "str_at m dest s" "str_at m src t" "mapped m (dest + length s) (Suc (length t))"
    "dest + length s + length t < src \<or> src + length t < dest"
  shows "\<exists>m'. strcat dest src m = Ret (dest, m') \<and> str_at m' dest (s @ t) \<and>
    (\<forall>p. p < dest + length s \<or> dest + length s + length t < p \<longrightarrow> load m' p = load m p)"
proof -
  have "dest + length s + length t < src \<or> src + length t < dest + length s" using assms(4) by auto
  from strcpy_loop_string [OF assms(2,3) this] obtain m' where
    m': "strcpy_loop (dest + length s) src m = Ret m'" "str_at m' (dest + length s) t"
    "\<forall>p. p < dest + length s \<or> dest + length s + length t < p \<longrightarrow> load m' p = load m p" by auto
  have "str_at m' p (u @ t)" if "str_at m p u" "p + length u = dest + length s" for p u
    using that m'(2,3) by (induction u arbitrary: p) auto
  with assms(1) have "str_at m' dest (s @ t)" by blast
  then show ?thesis
    using m' skip_to_end_string [OF assms(1)] by (simp add: strcat_def strcpy_def)
qed

theorem strcat_appends_witness:
  "\<exists>m'. strcat 20 8 (demo_mem 8 [98, 0, 0, 0, 0, 0, 0, 0, 0, 0, 0, 0, 97, 0, 7, 7]) = Ret (20, m') \<and>
    str_at m' 20 [97, 98]"
proof -
  let ?m = "demo_mem 8 [98, 0, 0, 0, 0, 0, 0, 0, 0, 0, 0, 0, 97, 0, 7, 7]"
  have "str_at ?m 20 [97]" "str_at ?m 8 [98]" "mapped ?m (20 + length [97 :: u8]) (Suc (length [98 :: u8]))"
    "20 + length [97 :: u8] + length [98 :: u8] < 8 \<or> 8 + length [98 :: u8] < (20 :: nat)"
    by (simp_all add: load_def demo_mem_def mapped_def)
  from strcat_appends [OF this] show ?thesis by auto
qed

lemma uint_u8_of_int: "0 \<le> ch \<Longrightarrow> ch < 256 \<Longrightarrow> uint (word_of_int ch :: u8) = ch"
  by (simp add: uint_word_of_int)

lemma same_char_ascii: "ch < 128 \<Longrightarrow> 0 \<le> ch \<Longrightarrow> same_char c ch \<longleftrightarrow> c = word_of_int ch"
proof -
  assume ch: "ch < 128" "0 \<le> ch"
  have "sint (word_of_int ch :: u8) = ch" "uint (word_of_int ch :: u8) = ch"
    using ch by (simp_all add: sint_uint signed_take_bit_eq_take_bit_shift take_bit_eq_mod uint_u8_of_int)
  then show ?thesis unfolding same_char_def by (metis signed_word_eqI)
qed

text \<open>A character above 127 is never found: the promoted \<^verbatim>\<open>char\<close> is negative.\<close>

lemma same_char_high: "ch < 256 \<Longrightarrow> 128 \<le> ch \<Longrightarrow> \<not> same_char c ch"
proof -
  assume ch: "ch < 256" "128 \<le> ch"
  have "uint (word_of_int ch :: u8) = ch" using ch by (simp add: uint_u8_of_int)
  moreover have "sint c < 128" using sint_lt [of c] by simp
  ultimately show ?thesis using ch by (simp add: same_char_def)
qed

theorem strchr_misses_high:
  assumes "str_at m p s" "128 \<le> ch" "ch < 256"
  shows "strchr m p ch = Ret 0"
proof -
  have "strchr_loop m q ch = Ret (q + length t, 0)" if "str_at m q t" for q t
    using that assms by (induction t arbitrary: q)
      (simp_all add: strchr_loop.simps [of m q for q] same_char_high)
  from this [OF assms(1)] show ?thesis using assms by (simp add: strchr_def same_char_high)
qed

theorem strchr_misses_high_witness: "strchr (demo_mem 8 [200, 0]) 8 200 = Ret 0"
proof -
  have "str_at (demo_mem 8 [200, 0]) 8 [200]" by (simp add: load_def demo_mem_def)
  from strchr_misses_high [OF this] show ?thesis by simp
qed

text \<open>\<^verbatim>\<open>memcmp\<close> looks at the first byte only; \<^verbatim>\<open>memchr\<close> may find the byte behind the block.\<close>

theorem memcmp_first_byte_bug:
  assumes "load m a = Some x" "load m b = Some x"
  shows "memcmp m a b n = Ret 0"
proof -
  have "memcmp_loop m n a b 0 = Ret (0, 0)" using assms by (induction n) simp_all
  then show ?thesis by (simp add: memcmp_def)
qed

theorem memcmp_first_byte_bug_witness: "memcmp (demo_mem 8 [1, 2, 1, 3]) 8 10 2 = Ret 0"
  by (rule memcmp_first_byte_bug [of _ _ 1]) (simp_all add: load_def demo_mem_def)

theorem memchr_past_end_bug: "memchr (demo_mem 8 [1, 2, 3]) 8 3 2 = Ret 10"
proof -
  have "memchr_loop (demo_mem 8 [1, 2, 3]) (Suc (Suc 0)) 3 8 = Ret 10"
    by (simp add: load_def demo_mem_def)
  then have "memchr_loop (demo_mem 8 [1, 2, 3]) 2 3 8 = Ret 10" by (simp only: numeral_2_eq_2)
  then show ?thesis by (simp add: memchr_def load_def demo_mem_def)
qed

text \<open>\<^verbatim>\<open>strcspn\<close> does not return unless the first character is rejected.\<close>

theorem strcspn_hangs: "strcspn (\<lambda>_. True) (demo_mem 8 [97, 98, 0, 98, 0]) 8 11 = Hang"
  by (simp add: strcspn_def fill_cache.simps load_def demo_mem_def cache_init_def)

text \<open>The value of a character as a digit, by the C standard.\<close>

definition digit_value :: "u8 \<Rightarrow> int option" where
  "digit_value c =
    (if 48 \<le> c \<and> c \<le> 57 then Some (uint c - 48)
     else if 97 \<le> c \<and> c \<le> 122 then Some (uint c - 87)
     else if 65 \<le> c \<and> c \<le> 90 then Some (uint c - 55) else None)"

lemma charValue_digit:
  assumes "digit_value c = Some v" "v < base"
  shows "charValue base c \<noteq> - 1"
  using assms by (auto simp: digit_value_def charValue_def Let_def word_le_def split: if_splits)



end
