(* ===== verification/Stdio.thy ===== *)
theory Stdio
  imports CString
begin

text \<open>
  Formatted output, kstdlib/cstdio.cc. A stream is an object with a \<^verbatim>\<open>write\<close> that says how
  many bytes it took; \<^verbatim>\<open>fwrite\<close> repeats the call until all bytes are gone. A loop that need
  not end has the value \<open>None\<close> when it does not. The state is that of all streams, so that
  the stream written to and \<^verbatim>\<open>stdout\<close> may be the same object.
\<close>

section \<open>Calls that may not return\<close>

type_synonym ('s, 'a) call = "'s \<Rightarrow> ('a outcome \<times> 's) option"

definition finish :: "'a \<Rightarrow> ('s, 'a) call" where
  "finish a = (\<lambda>s. Some (Ret a, s))"

definition fault :: "string \<Rightarrow> ('s, 'a) call" where
  "fault f = (\<lambda>s. Some (Fault f, s))"

definition next_call :: "('s, 'a) call \<Rightarrow> ('a \<Rightarrow> ('s, 'b) call) \<Rightarrow> ('s, 'b) call" where
  "next_call c k = (\<lambda>s. case c s of None \<Rightarrow> None
    | Some (Ret a, s') \<Rightarrow> k a s'
    | Some (Throw e, s') \<Rightarrow> Some (Throw e, s')
    | Some (Fault f, s') \<Rightarrow> Some (Fault f, s')
    | Some (Hang, s') \<Rightarrow> None)"

named_theorems call_simps "unfolding of the combinators of calls"

lemma finish_apply [call_simps]: "finish a s = Some (Ret a, s)"
  by (simp add: finish_def)

lemma fault_apply [call_simps]: "fault f s = Some (Fault f, s)"
  by (simp add: fault_def)

lemma next_call_Ret [call_simps]: "c s = Some (Ret a, s') \<Longrightarrow> next_call c k s = k a s'"
  by (simp add: next_call_def)

lemma next_call_None [call_simps]: "c s = None \<Longrightarrow> next_call c k s = None"
  by (simp add: next_call_def)

definition lift_outcome :: "'a outcome \<Rightarrow> ('s, 'a) call" where
  "lift_outcome x = (\<lambda>s. if x = Hang then None else Some (x, s))"

lemma lift_outcome_Ret [call_simps]: "lift_outcome (Ret a) s = Some (Ret a, s)"
  by (simp add: lift_outcome_def)

section \<open>fwrite, fputs, puts\<close>

type_synonym 's writer = "u8 list \<Rightarrow> ('s, nat) action"

partial_function (option) fwrite_loop :: "'s writer \<Rightarrow> u8 list \<Rightarrow> nat \<Rightarrow> 's \<Rightarrow> (unit outcome \<times> 's) option" where
  "fwrite_loop wr p i s =
    (if i < length p then
       (case wr (drop i p) s of
          (Ret k, s') \<Rightarrow> fwrite_loop wr p (i + k) s'
        | (Throw e, s') \<Rightarrow> Some (Throw e, s')
        | (Fault f, s') \<Rightarrow> Some (Fault f, s')
        | (Hang, s') \<Rightarrow> None)
     else Some (Ret (), s))"

text \<open>\<^verbatim>\<open>fwrite\<close> of a list of objects returns their number, whatever was written.\<close>

fun fwrite_objects :: "'s writer \<Rightarrow> u8 list list \<Rightarrow> ('s, unit) call" where
  "fwrite_objects wr [] = finish ()"
| "fwrite_objects wr (p # ps) = next_call (fwrite_loop wr p 0) (\<lambda>_. fwrite_objects wr ps)"

definition fwrite :: "'s writer \<Rightarrow> u8 list list \<Rightarrow> ('s, nat) call" where
  "fwrite wr objects = next_call (fwrite_objects wr objects) (\<lambda>_. finish (length objects))"

definition fputc :: "int \<Rightarrow> 's writer \<Rightarrow> ('s, int) call" where
  "fputc c wr = next_call (fwrite wr [[word_of_int c]]) (\<lambda>_. finish (uint (word_of_int c :: u8)))"

definition fputs :: "u8 list \<Rightarrow> 's writer \<Rightarrow> ('s, int) call" where
  "fputs src wr = next_call (fwrite wr [src]) (\<lambda>_. finish 0)"

definition puts :: "u8 list \<Rightarrow> 's writer \<Rightarrow> ('s, int) call" where
  "puts src stdout = next_call (fputs src stdout) (\<lambda>x. next_call (fputc 10 stdout) (\<lambda>_. finish x))"

section \<open>Numbers\<close>

definition lutLower :: "u8 list" where
  "lutLower = [48, 49, 50, 51, 52, 53, 54, 55, 56, 57, 97, 98, 99, 100, 101, 102]"

definition lutUpper :: "u8 list" where
  "lutUpper = [48, 49, 50, 51, 52, 53, 54, 55, 56, 57, 65, 66, 67, 68, 69, 70]"

definition lut :: "bool \<Rightarrow> u8 list" where
  "lut upper = (if upper then lutUpper else lutLower)"

definition put_at :: "u8 list \<Rightarrow> nat \<Rightarrow> u8 \<Rightarrow> u8 list outcome" where
  "put_at buf i c = (if i < length buf then Ret (buf[i := c]) else Fault ''buffer overflow'')"

text \<open>The second conjunct of the guard holds for every call: the base is at least 2.\<close>

function pow_loop :: "nat \<Rightarrow> nat \<Rightarrow> nat \<Rightarrow> nat \<Rightarrow> nat" where
  "pow_loop x base maxpow n =
    (if x div maxpow \<ge> base \<and> base \<ge> 2 \<and> maxpow > 0 then pow_loop x base (maxpow * base) (n + 1) else n)"
  by pat_completeness auto
termination
proof (relation "measure (\<lambda>(x, base, maxpow, n). x - maxpow)", goal_cases)
  case (2 x base maxpow n)
  then have "maxpow * 2 \<le> maxpow * (x div maxpow)" by (intro mult_le_mono2) simp
  also have "\<dots> \<le> x" by (rule times_div_less_eq_dividend)
  finally have "maxpow < x" using 2 by linarith
  moreover have "maxpow < maxpow * base" using 2 by simp
  ultimately show ?case by (simp add: diff_less_mono2)
qed simp

declare pow_loop.simps [simp del]

text \<open>The loop that stores \<open>buf[n - i]\<close>; the first argument is \<open>n + 1 - i\<close>.\<close>

fun digit_loop :: "nat \<Rightarrow> nat \<Rightarrow> nat \<Rightarrow> bool \<Rightarrow> nat \<Rightarrow> u8 list \<Rightarrow> u8 list outcome" where
  "digit_loop 0 acc base upper off buf = Ret buf"
| "digit_loop (Suc k) acc base upper off buf =
    obind (put_at buf (off + k) (lut upper ! (acc mod base)))
      (\<lambda>b. digit_loop k (acc div base) base upper off b)"

definition print_digits :: "nat \<Rightarrow> u8 list \<Rightarrow> nat \<Rightarrow> nat \<Rightarrow> nat \<Rightarrow> bool \<Rightarrow> (nat \<times> u8 list) outcome" where
  "print_digits x buf off base minnum upper =
    (if 2 \<le> base \<and> base \<le> 16 then
       (let n = pow_loop x base 1 0; n = (if n < minnum - 1 then minnum - 1 else n)
        in obind (digit_loop (Suc n) x base upper off buf) (\<lambda>b. Ret (n, b)))
     else Ret (0, buf))"

text \<open>
  \<open>w\<close> is the number of bits of the type; \<^verbatim>\<open>-x\<close> overflows on its least value. A negative
  number that is not printed as signed would index the table with a negative remainder.
\<close>

definition print_number :: "nat \<Rightarrow> int \<Rightarrow> u8 list \<Rightarrow> nat \<Rightarrow> nat \<Rightarrow> bool \<Rightarrow> bool \<Rightarrow> (nat \<times> u8 list) outcome" where
  "print_number w x buf base minnum upper sign =
    (if base = 0 then Ret (0, buf)
     else if x = 0 \<and> minnum = 1 then obind (put_at buf 0 48) (\<lambda>b. Ret (1, b))
     else if sign \<and> x < 0 then
       obind (put_at buf 0 45) (\<lambda>b.
         if - x \<ge> 2 ^ (w - 1) then Fault ''signed overflow'' else print_digits (nat (- x)) b 1 base 1 False)
     else if x < 0 then (if 2 \<le> base \<and> base \<le> 16 then Fault ''table index'' else Ret (0, buf))
     else print_digits (nat x) buf 0 base minnum upper)"

definition number_text :: "nat \<Rightarrow> int \<Rightarrow> nat \<Rightarrow> nat \<Rightarrow> bool \<Rightarrow> bool \<Rightarrow> (nat \<times> u8 list) outcome" where
  "number_text w x base minnum upper sign =
    obind (print_number w x (replicate (w + 2) 0) base minnum upper sign)
      (\<lambda>(n, b). Ret (n, takeWhile (\<lambda>c. c \<noteq> 0) b))"

section \<open>vafprintf\<close>

datatype arg = VInt int | VUint nat | VLong int | VUlong nat | VPtr nat | VStr "u8 list"

definition put_number :: "'s writer \<Rightarrow> nat \<Rightarrow> int \<Rightarrow> nat \<Rightarrow> nat \<Rightarrow> bool \<Rightarrow> bool \<Rightarrow> ('s, nat) call" where
  "put_number out w x base minnum upper sign =
    next_call (lift_outcome (number_text w x base minnum upper sign)) (\<lambda>(n, text).
      next_call (fputs text out) (\<lambda>_. finish n))"

text \<open>
  One conversion: what it adds to \<^verbatim>\<open>written\<close>, the characters it takes beyond the first, and
  the arguments left. Reading an argument that is not there, or of another type, is undefined.
\<close>

definition conversion :: "'s writer \<Rightarrow> 's writer \<Rightarrow> u8 \<Rightarrow> u8 list \<Rightarrow> arg list \<Rightarrow> ('s, nat \<times> nat \<times> arg list) call" where
  "conversion out std c rest args =
    (if c = 37 then next_call (puts [37] std) (\<lambda>_. finish (0, 0, args))
     else if c = 100 then (case args of VInt x # rest_args \<Rightarrow>
       next_call (put_number out 32 x 10 1 False True) (\<lambda>n. finish (n, 0, rest_args)) | _ \<Rightarrow> fault ''va_arg'')
     else if c = 120 then (case args of VUint x # rest_args \<Rightarrow>
       next_call (put_number out 32 (int x) 16 8 False False) (\<lambda>n. finish (n, 0, rest_args)) | _ \<Rightarrow> fault ''va_arg'')
     else if c = 88 then (case args of VUint x # rest_args \<Rightarrow>
       next_call (put_number out 32 (int x) 16 8 True False) (\<lambda>n. finish (n, 0, rest_args)) | _ \<Rightarrow> fault ''va_arg'')
     else if c = 117 then (case args of VUint x # rest_args \<Rightarrow>
       next_call (put_number out 32 (int x) 10 1 False False) (\<lambda>n. finish (n, 0, rest_args)) | _ \<Rightarrow> fault ''va_arg'')
     else if c = 108 then
       (if rest \<noteq> [] \<and> hd rest = 117 then (case args of VUlong x # rest_args \<Rightarrow>
          next_call (put_number out 64 (int x) 10 1 False False) (\<lambda>n. finish (n, 1, rest_args)) | _ \<Rightarrow> fault ''va_arg'')
        else if rest \<noteq> [] \<and> hd rest = 100 then (case args of VLong x # rest_args \<Rightarrow>
          next_call (put_number out 64 x 10 1 False True) (\<lambda>n. finish (n, 1, rest_args)) | _ \<Rightarrow> fault ''va_arg'')
        else if rest \<noteq> [] \<and> hd rest = 120 then (case args of VUlong x # rest_args \<Rightarrow>
          next_call (put_number out 64 (int x) 16 16 False False) (\<lambda>n. finish (n, 1, rest_args)) | _ \<Rightarrow> fault ''va_arg'')
        else finish (0, 0, args))
     else if c = 112 then (case args of VPtr x # rest_args \<Rightarrow>
       next_call (put_number out 64 (int x) 16 16 False False) (\<lambda>n. finish (n, 0, rest_args)) | _ \<Rightarrow> fault ''va_arg'')
     else if c = 99 then (case args of VInt x # rest_args \<Rightarrow>
       next_call (fputs (takeWhile (\<lambda>c. c \<noteq> 0) [word_of_int x]) out) (\<lambda>_. finish (1, 0, rest_args)) | _ \<Rightarrow> fault ''va_arg'')
     else if c = 115 then (case args of VStr x # rest_args \<Rightarrow>
       next_call (fputs x out) (\<lambda>_. finish (length x, 0, rest_args)) | _ \<Rightarrow> fault ''va_arg'')
     else finish (0, 0, args))"

text \<open>
  \<^verbatim>\<open>written\<close> starts as the result of \<^verbatim>\<open>fwrite\<close>, which is 1. When the format ends with \<^verbatim>\<open>%\<close>,
  the recursion starts behind its final zero.
\<close>

lemma skip_shorter: "dropWhile P src = a # c # rest \<Longrightarrow> length rest - k < length src"
  using length_dropWhile_le [of P src] by simp

function vafprintf :: "'s writer \<Rightarrow> 's writer \<Rightarrow> u8 list \<Rightarrow> arg list \<Rightarrow> ('s, nat) call" where
  "vafprintf out std src args =
    (case dropWhile (\<lambda>c. c \<noteq> 37) src of
       [] \<Rightarrow> next_call (fputs src out) (\<lambda>_. finish (length src))
     | [_] \<Rightarrow> next_call (fwrite out [takeWhile (\<lambda>c. c \<noteq> 37) src]) (\<lambda>_. fault ''read past the end'')
     | _ # c # rest \<Rightarrow>
         next_call (fwrite out [takeWhile (\<lambda>c. c \<noteq> 37) src]) (\<lambda>w.
         next_call (conversion out std c rest args) (\<lambda>(n, skip, rest_args).
         next_call (vafprintf out std (drop skip rest) rest_args) (\<lambda>m. finish (w + n + m)))))"
  by pat_completeness auto
termination
  by (relation "measure (\<lambda>(out, std, src, args). length src)") (auto simp: skip_shorter)

declare vafprintf.simps [simp del]

definition printf :: "'s writer \<Rightarrow> u8 list \<Rightarrow> arg list \<Rightarrow> ('s, nat) call" where
  "printf stdout src args = vafprintf stdout stdout src args"


section \<open>Streams that take what they are given\<close>

text \<open>
  What \<^verbatim>\<open>fwrite\<close> needs of a stream: \<open>room s n\<close> promises that \<open>n\<close> bytes fit. A write of that
  many takes at least one of them, adds what it took to the contents, and leaves the room
  for the rest.
\<close>

locale stream =
  fixes wr :: "'s writer"
    and contents :: "'s \<Rightarrow> u8 list"
    and room :: "'s \<Rightarrow> nat \<Rightarrow> bool"
  assumes takes: "room s (length bs + n) \<Longrightarrow> bs \<noteq> [] \<Longrightarrow>
    \<exists>k s'. wr bs s = (Ret k, s') \<and> 0 < k \<and> k \<le> length bs \<and>
      contents s' = contents s @ take k bs \<and> room s' (length bs - k + n)"
    and room_mono: "room s n \<Longrightarrow> m \<le> n \<Longrightarrow> room s m"
begin

lemma fwrite_loop_complete:
  "i \<le> length p \<Longrightarrow> room s (length p - i + n) \<Longrightarrow>
    \<exists>s'. fwrite_loop wr p i s = Some (Ret (), s') \<and> contents s' = contents s @ drop i p \<and> room s' n"
proof (induction "length p - i" arbitrary: i s rule: less_induct)
  case less
  show ?case
  proof (cases "i < length p")
    case True
    have "room s (length (drop i p) + n)" "drop i p \<noteq> []" using less.prems True by simp_all
    from takes [OF this] obtain k s1 where
      k: "wr (drop i p) s = (Ret k, s1)" "0 < k" "k \<le> length (drop i p)"
      "contents s1 = contents s @ take k (drop i p)" "room s1 (length (drop i p) - k + n)"
      by blast
    have step: "length p - (i + k) < length p - i" "i + k \<le> length p" using True k by simp_all
    have "room s1 (length p - (i + k) + n)" using k by simp
    from less.hyps [OF step this] obtain s2 where
      "fwrite_loop wr p (i + k) s1 = Some (Ret (), s2)"
      "contents s2 = contents s1 @ drop (i + k) p" "room s2 n"
      by blast
    moreover have "take k (drop i p) @ drop (i + k) p = drop i p"
      by (metis append_take_drop_id drop_drop add.commute)
    ultimately show ?thesis using True k by (simp add: fwrite_loop.simps [of wr p i])
  qed (use less in \<open>simp add: fwrite_loop.simps\<close>)
qed

lemma fputs_complete:
  "room s (length p + n) \<Longrightarrow>
    \<exists>s'. fputs p wr s = Some (Ret 0, s') \<and> contents s' = contents s @ p \<and> room s' n"
  using fwrite_loop_complete [of 0 p s n]
  by (auto simp: fputs_def fwrite_def call_simps)

lemma fwrite_complete:
  "room s (length p + n) \<Longrightarrow>
    \<exists>s'. fwrite wr [p] s = Some (Ret 1, s') \<and> contents s' = contents s @ p \<and> room s' n"
  using fwrite_loop_complete [of 0 p s n]
  by (auto simp: fwrite_def call_simps)

lemma puts_complete:
  "room s (length p + 1 + n) \<Longrightarrow>
    \<exists>s'. puts p wr s = Some (Ret 0, s') \<and> contents s' = contents s @ p @ [10] \<and> room s' n"
proof -
  assume "room s (length p + 1 + n)"
  then have "room s (length p + (1 + n))" by (simp add: add.assoc)
  then obtain s1 where s1: "fputs p wr s = Some (Ret 0, s1)" "contents s1 = contents s @ p" "room s1 (1 + n)"
    using fputs_complete by blast
  obtain s2 where "fwrite wr [[10]] s1 = Some (Ret 1, s2)" "contents s2 = contents s1 @ [10]" "room s2 n"
    using fwrite_complete [of s1 "[10]" n] s1(3) by auto
  then show ?thesis using s1 by (simp add: puts_def fputc_def call_simps)
qed

lemma plain_format:
  assumes "37 \<notin> set src" "room s (length src + n)"
  shows "\<exists>s'. vafprintf wr std src [] s = Some (Ret (length src), s') \<and> contents s' = contents s @ src \<and> room s' n"
proof -
  have d: "dropWhile (\<lambda>c. c \<noteq> 37) src = []" using assms(1) by auto
  have "vafprintf wr std src [] s = next_call (fputs src wr) (\<lambda>_. finish (length src)) s"
    unfolding vafprintf.simps [of wr std src] d by simp
  then show ?thesis using fputs_complete [OF assms(2)] by (auto simp: call_simps)
qed

end

text \<open>A stream that takes nothing any more keeps \<^verbatim>\<open>fwrite\<close> in its loop.\<close>

lemma fwrite_loop_stuck:
  assumes "wr (drop i p) s = (Ret 0, s)" "i < length p"
  shows "fwrite_loop wr p i s = None"
proof (rule ccontr)
  assume "fwrite_loop wr p i s \<noteq> None"
  then obtain r where r: "fwrite_loop wr p i s = Some r" by blast
  have "\<not> (wr (drop i p) s = (Ret 0, s) \<and> i < length p)"
    by (rule fwrite_loop.raw_induct [OF _ r, where P = "\<lambda>wr p i s _. \<not> (wr (drop i p) s = (Ret 0, s) \<and> i < length p)"])
      (auto split: if_splits prod.splits outcome.splits)
  with assms show False by simp
qed

section \<open>What a number is printed as\<close>

fun digits_value :: "nat \<Rightarrow> nat \<Rightarrow> u8 list \<Rightarrow> nat option" where
  "digits_value base acc [] = Some acc"
| "digits_value base acc (c # cs) = (case digit_value c of None \<Rightarrow> None
     | Some v \<Rightarrow> if v < int base then digits_value base (acc * base + nat v) cs else None)"

definition numeral_value :: "nat \<Rightarrow> u8 list \<Rightarrow> int option" where
  "numeral_value base text = (case text of [] \<Rightarrow> None
     | c # cs \<Rightarrow> if c = 45 then map_option (\<lambda>v. - int v) (digits_value base 0 cs)
                 else map_option int (digits_value base 0 text))"

text \<open>The digits of a number, \<open>k\<close> of them, the most significant first.\<close>

fun digs :: "nat \<Rightarrow> nat \<Rightarrow> nat \<Rightarrow> nat list" where
  "digs base 0 x = []"
| "digs base (Suc k) x = digs base k (x div base) @ [x mod base]"

lemma length_digs [simp]: "length (digs base k x) = k"
  by (induction k arbitrary: x) simp_all

lemma digs_less: "0 < base \<Longrightarrow> d \<in> set (digs base k x) \<Longrightarrow> d < base"
  by (induction k arbitrary: x) auto

lemma digit_value_lut:
  assumes "d < 16"
  shows "digit_value (lut upper ! d) = Some (int d)" "lut upper ! d \<noteq> 45" "lut upper ! d \<noteq> 0"
proof -
  have "[0..<16] = [0, 1, 2, 3, 4, 5, 6, 7, 8, 9, 10, 11, 12, 13, 14, 15 :: nat]" by (simp add: upt_conv_Cons)
  moreover have "d \<in> set [0..<16]" using assms by simp
  ultimately have d: "d \<in> set [0, 1, 2, 3, 4, 5, 6, 7, 8, 9, 10, 11, 12, 13, 14, 15 :: nat]" by simp
  have "list_all (\<lambda>d. digit_value (lut upper ! d) = Some (int d) \<and> lut upper ! d \<noteq> 45 \<and> lut upper ! d \<noteq> 0) [0, 1, 2, 3, 4, 5, 6, 7, 8, 9, 10, 11, 12, 13, 14, 15 :: nat]"
    by (cases upper) (simp_all add: lut_def lutLower_def lutUpper_def digit_value_def)
  with d show "digit_value (lut upper ! d) = Some (int d)" "lut upper ! d \<noteq> 45" "lut upper ! d \<noteq> 0"
    unfolding list_all_iff by blast+
qed

lemma digits_value_append:
  "digits_value base acc (cs @ [c]) = (case digits_value base acc cs of None \<Rightarrow> None
     | Some v \<Rightarrow> digits_value base v [c])"
  by (induction cs arbitrary: acc) (auto split: option.splits)

lemma digits_value_digs:
  assumes "2 \<le> base" "base \<le> 16"
  shows "digits_value base 0 (map (\<lambda>d. lut upper ! d) (digs base k x)) = Some (x mod base ^ k)"
proof (induction k arbitrary: x)
  case (Suc k)
  have "x mod base < base" using assms by simp
  then have "digit_value (lut upper ! (x mod base)) = Some (int (x mod base))"
    using assms by (intro digit_value_lut) linarith
  moreover have "x div base mod base ^ k * base + x mod base = x mod base ^ Suc k"
    by (simp add: mod_mult2_eq mult.commute)
  ultimately show ?case
    using assms Suc by (simp add: digits_value_append)
qed simp

lemma digit_loop_digs:
  "off + k \<le> length buf \<Longrightarrow> digit_loop k acc base upper off buf =
    Ret (take off buf @ map (\<lambda>d. lut upper ! d) (digs base k acc) @ drop (off + k) buf)"
proof (induction k arbitrary: acc buf)
  case (Suc k)
  then show ?case
    by (simp add: put_at_def take_update_cancel drop_update_swap Cons_nth_drop_Suc [symmetric] upd_conv_take_nth_drop)
qed simp

lemma pow_loop_bounds:
  assumes "2 \<le> base" "n = 0 \<or> base ^ n \<le> x"
  shows "(pow_loop x base (base ^ n) n = 0 \<or> base ^ pow_loop x base (base ^ n) n \<le> x) \<and>
    x < base ^ Suc (pow_loop x base (base ^ n) n)"
  using assms(2)
proof (induction "x - base ^ n" arbitrary: n rule: less_induct)
  case less
  have pos: "0 < base ^ n" using assms(1) by simp
  show ?case
  proof (cases "base \<le> x div base ^ n")
    case True
    then have "base ^ Suc n \<le> x"
      using pos by (simp add: less_eq_div_iff_mult_less_eq)
    moreover have "base ^ n < base ^ Suc n" using assms(1) pos by simp
    ultimately have "x - base ^ Suc n < x - base ^ n" by linarith
    from less.hyps [OF this] \<open>base ^ Suc n \<le> x\<close>
    show ?thesis using True assms(1) pos
      by (simp add: pow_loop.simps [of x base "base ^ n" n] mult.commute)
  next
    case False
    then have "x div base ^ n < base" by simp
    then have "x < base ^ Suc n" using div_less_iff_less_mult [OF pos] by simp
    then show ?thesis using False less.prems by (simp add: pow_loop.simps [of x base "base ^ n" n])
  qed
qed

text \<open>Digits fit: \<open>r\<close> is the room behind the characters already in the buffer.\<close>

lemma print_digits_text:
  assumes "2 \<le> base" "base \<le> 16" "x < 2 ^ w" "1 \<le> w" "w \<le> r" "minnum \<le> r"
  shows "\<exists>n. print_digits x (pre @ replicate r 0) (length pre) base minnum upper =
      Ret (n, pre @ map (\<lambda>d. lut upper ! d) (digs base (Suc n) x) @ replicate (r - Suc n) 0) \<and>
    x < base ^ Suc n \<and> minnum \<le> Suc n \<and> Suc n \<le> r"
proof -
  define n0 where "n0 = pow_loop x base 1 0"
  define n where "n = (if n0 < minnum - 1 then minnum - 1 else n0)"
  have b: "n0 = 0 \<or> base ^ n0 \<le> x" "x < base ^ Suc n0"
    using pow_loop_bounds [OF assms(1), of 0 x] by (simp_all add: n0_def)
  have "n0 < w"
  proof (cases "n0 = 0")
    case False
    have "2 ^ n0 \<le> base ^ n0" using assms(1) by (rule power_mono) simp
    also have "\<dots> < 2 ^ w" using b False assms(3) by simp
    finally show ?thesis by simp
  qed (use assms in simp)
  then have r: "Suc n \<le> r" using assms by (auto simp: n_def)
  have "base ^ Suc n0 \<le> base ^ Suc n" using assms(1) by (intro power_increasing) (auto simp: n_def)
  then have x: "x < base ^ Suc n" using b by linarith
  have "print_digits x (pre @ replicate r 0) (length pre) base minnum upper =
    obind (digit_loop (Suc n) x base upper (length pre) (pre @ replicate r 0)) (\<lambda>b. Ret (n, b))"
    using assms(1,2) unfolding print_digits_def Let_def n_def n0_def by (simp only: if_True conj_absorb simp_thms)
  also have "\<dots> = Ret (n, pre @ map (\<lambda>d. lut upper ! d) (digs base (Suc n) x) @ replicate (r - Suc n) 0)"
    using r by (subst digit_loop_digs) simp_all
  finally have "print_digits x (pre @ replicate r 0) (length pre) base minnum upper =
    Ret (n, pre @ map (\<lambda>d. lut upper ! d) (digs base (Suc n) x) @ replicate (r - Suc n) 0)" .
  moreover have "minnum \<le> Suc n" unfolding n_def by (cases "n0 < minnum - 1") auto
  ultimately show ?thesis using x r by blast
qed

lemma text_of_buffer:
  assumes "2 \<le> base" "base \<le> 16"
  shows "takeWhile (\<lambda>c. c \<noteq> 0) (map (\<lambda>d. lut upper ! d) (digs base k x) @ replicate r 0) =
    map (\<lambda>d. lut upper ! d) (digs base k x)"
proof -
  have "lut upper ! d \<noteq> 0" if "d \<in> set (digs base k x)" for d
    using that digs_less [of base d k x] assms by (intro digit_value_lut) simp
  then show ?thesis by (subst takeWhile_append2) (auto simp: takeWhile_replicate)
qed

lemma numeral_value_digits:
  assumes "2 \<le> base" "base \<le> 16" "x < base ^ Suc k"
  shows "numeral_value base (map (\<lambda>d. lut upper ! d) (digs base (Suc k) x)) = Some (int x)"
    and "numeral_value base (45 # map (\<lambda>d. lut upper ! d) (digs base (Suc k) x)) = Some (- int x)"
proof -
  let ?t = "map (\<lambda>d. lut upper ! d) (digs base (Suc k) x)"
  have v: "digits_value base 0 ?t = Some x"
    using digits_value_digs [OF assms(1,2), of upper "Suc k" x] assms(3) by simp
  have "?t \<noteq> []" by simp
  then obtain c cs where t: "?t = c # cs" by (meson neq_Nil_conv)
  then have "c \<in> set ?t" by simp
  then obtain d where "d \<in> set (digs base (Suc k) x)" "c = lut upper ! d" by auto
  then have "c \<noteq> 45" using digs_less [of base d "Suc k" x] assms digit_value_lut(2) [of d upper] by simp
  then show "numeral_value base ?t = Some (int x)" using v t by (simp add: numeral_value_def del: digs.simps)
  show "numeral_value base (45 # ?t) = Some (- int x)" using v by (simp add: numeral_value_def del: digs.simps)
qed

lemma print_number_text:
  assumes "2 \<le> base" "base \<le> 16" "1 \<le> minnum" "minnum \<le> w"
    "(0 \<le> x \<and> x < 2 ^ w) \<or> (sign \<and> - (2 ^ (w - 1)) < x \<and> x < 0)"
  shows "\<exists>n text. number_text w x base minnum upper sign = Ret (n, text) \<and>
    numeral_value base text = Some x \<and> (0 \<le> x \<longrightarrow> minnum \<le> length text) \<and> length text \<le> w + 2"
proof (cases "0 \<le> x")
  case pos: True
  show ?thesis
  proof (cases "x = 0 \<and> minnum = 1")
    case True
    then have "number_text w x base minnum upper sign = Ret (1, [48])"
      using assms(1) by (simp add: number_text_def print_number_def put_at_def)
    moreover have "numeral_value base [48] = Some 0"
      using assms(1) by (simp add: numeral_value_def digit_value_def)
    ultimately show ?thesis using True by auto
  next
    case False
    have "nat x < 2 ^ w" using assms(5) pos by (simp add: nat_less_iff)
    then obtain n where n: "print_digits (nat x) ([] @ replicate (w + 2) 0) (length ([] :: u8 list)) base minnum upper =
        Ret (n, [] @ map (\<lambda>d. lut upper ! d) (digs base (Suc n) (nat x)) @ replicate (w + 2 - Suc n) 0)"
      "nat x < base ^ Suc n" "minnum \<le> Suc n" "Suc n \<le> w + 2"
      using print_digits_text [OF assms(1,2), of "nat x" w "w + 2" minnum "[]" upper] assms(3,4) by auto
    then have "number_text w x base minnum upper sign =
        Ret (n, map (\<lambda>d. lut upper ! d) (digs base (Suc n) (nat x)))"
      using False pos assms(1,2)
      by (auto simp: number_text_def print_number_def text_of_buffer simp del: digs.simps replicate_Suc)
    then show ?thesis using n pos numeral_value_digits(1) [OF assms(1,2) n(2), of upper] by (simp del: digs.simps)
  qed
next
  case False
  then have x: "sign" "nat (- x) < 2 ^ (w - 1)" "x < 0" using assms(5) by (auto simp: nat_less_iff)
  have "nat (- x) < 2 ^ w" using x(2) by (rule less_le_trans) (rule power_increasing, simp_all)
  then obtain n where n: "print_digits (nat (- x)) ([45] @ replicate (w + 1) 0) (length [45 :: u8]) base 1 False =
      Ret (n, [45] @ map (\<lambda>d. lut False ! d) (digs base (Suc n) (nat (- x))) @ replicate (w + 1 - Suc n) 0)"
    "nat (- x) < base ^ Suc n" "Suc n \<le> w + 1"
    using print_digits_text [OF assms(1,2), of "nat (- x)" w "w + 1" 1 "[45]" False] assms(3,4) by auto
  have "number_text w x base minnum upper sign =
      Ret (n, 45 # map (\<lambda>d. lut False ! d) (digs base (Suc n) (nat (- x))))"
    using x n(1) assms(1,2)
    by (auto simp: number_text_def print_number_def put_at_def text_of_buffer nat_less_iff simp del: digs.simps)
  then show ?thesis using x n(3) numeral_value_digits(2) [OF assms(1,2) n(2), of False] by (simp del: digs.simps)
qed

text \<open>
  \<^verbatim>\<open>print_number\<close> prints a numeral of the number: for every type width, base from 2 to 16
  and number of digits asked for, reading the printed text as a numeral gives the number
  back, it fits the buffers of the callers, and a non-negative number has at least the digits asked for. The least negative number
  of a signed type is left out: its negation overflows.
\<close>

theorem print_number_roundtrip:
  assumes "2 \<le> base" "base \<le> 16" "1 \<le> minnum" "minnum \<le> w"
    "(0 \<le> x \<and> x < 2 ^ w) \<or> (sign \<and> - (2 ^ (w - 1)) < x \<and> x < 0)"
  shows "\<exists>n text. number_text w x base minnum upper sign = Ret (n, text) \<and>
    numeral_value base text = Some x \<and> (0 \<le> x \<longrightarrow> minnum \<le> length text) \<and> length text \<le> w + 2"
  using assms by (rule print_number_text)

theorem print_number_roundtrip_witness:
  "\<exists>n text. number_text 32 (- 42) 10 1 False True = Ret (n, text) \<and> numeral_value 10 text = Some (- 42)"
  using print_number_roundtrip [of 10 1 32 "- 42" True False] by auto

lemma split_format: "37 \<notin> set pre \<Longrightarrow>
    dropWhile (\<lambda>c. c \<noteq> 37) (pre @ (37 :: u8) # t) = 37 # t \<and> takeWhile (\<lambda>c. c \<noteq> 37) (pre @ 37 # t) = pre"
  by (induction pre) auto

text \<open>A decimal number in the middle of plain text.\<close>

context stream
begin

lemma put_number_complete:
  assumes "2 \<le> base" "base \<le> 16" "1 \<le> minnum" "minnum \<le> w" "room s (w + 2 + n)"
    "(0 \<le> x \<and> x < 2 ^ w) \<or> (sign \<and> - (2 ^ (w - 1)) < x \<and> x < 0)"
  shows "\<exists>k s' ds. put_number wr w x base minnum upper sign s = Some (Ret k, s') \<and>
    contents s' = contents s @ ds \<and> numeral_value base ds = Some x \<and> room s' n"
proof -
  obtain k ds where t: "number_text w x base minnum upper sign = Ret (k, ds)"
    "numeral_value base ds = Some x" "length ds \<le> w + 2"
    using print_number_text [OF assms(1-4,6)] by blast
  have "room s (length ds + n)" using assms(5) t(3) by (auto intro: room_mono)
  with t fputs_complete show ?thesis by (fastforce simp: put_number_def call_simps)
qed

lemma printf_int:
  assumes "37 \<notin> set pre" "37 \<notin> set post" "- (2 ^ 31) < x" "x < 2 ^ 31"
    "room s (length pre + 34 + length post + n)"
  shows "\<exists>k s' ds. printf wr (pre @ [37, 100] @ post) [VInt x] s = Some (Ret k, s') \<and>
    contents s' = contents s @ pre @ ds @ post \<and> numeral_value 10 ds = Some x \<and> room s' n"
proof -
  have d: "dropWhile (\<lambda>c. c \<noteq> 37) (pre @ [37, 100] @ post) = 37 # 100 # post"
    "takeWhile (\<lambda>c. c \<noteq> 37) (pre @ [37, 100] @ post) = pre"
    using split_format [OF assms(1), of "100 # post"] by simp_all
  have "room s (length pre + (34 + length post + n))" using assms(5) by (simp add: add.assoc)
  then obtain s1 where s1: "fwrite wr [pre] s = Some (Ret 1, s1)" "contents s1 = contents s @ pre"
    "room s1 (32 + 2 + (length post + n))"
    using fwrite_complete by (force simp: add.assoc)
  have "(0 \<le> x \<and> x < 2 ^ 32) \<or> (True \<and> - (2 ^ (32 - 1)) < x \<and> x < 0)" using assms(3,4) by auto
  from put_number_complete [OF _ _ _ _ s1(3) this, of 10 1 False] obtain k s2 ds where
    s2: "put_number wr 32 x 10 1 False True s1 = Some (Ret k, s2)" "contents s2 = contents s1 @ ds"
    "numeral_value 10 ds = Some x" "room s2 (length post + n)" by auto
  obtain s3 where s3: "vafprintf wr wr post [] s2 = Some (Ret (length post), s3)"
    "contents s3 = contents s2 @ post" "room s3 n"
    using plain_format [OF assms(2) s2(4)] by blast
  have c: "conversion wr wr 100 post [VInt x] s1 = Some (Ret (k, 0, []), s2)"
    using s2(1) by (simp add: conversion_def call_simps)
  have "printf wr (pre @ [37, 100] @ post) [VInt x] s = Some (Ret (1 + k + length post), s3)"
    unfolding printf_def vafprintf.simps [of wr wr "pre @ [37, 100] @ post"] d
    using s1(1) c s3(1) by (simp add: call_simps)
  then show ?thesis using s1 s2 s3 by auto
qed

end

end
