(* ===== verification/FileSys.thy ===== *)
theory FileSys
  imports FatDir Stdio
begin

text \<open>
  The file interfaces of kernel/fs: \<^verbatim>\<open>perm_fh\<close> (the access mode of a handle) and \<^verbatim>\<open>coh_dit\<close>
  (the meaning of \<^verbatim>\<open>.\<close> and \<^verbatim>\<open>..\<close>) of templates.hh, and the memory file of memf.hh. The two
  templates take the operations of their parameter \<^verbatim>\<open>T\<close> as arguments.
\<close>

section \<open>Memory files\<close>

text \<open>
  \<^verbatim>\<open>size\<close> is the length of the buffer, whose initial contents are arbitrary; \<^verbatim>\<open>curr_offset\<close> is
  never negative, because \<^verbatim>\<open>seek\<close> stores only positions from 0 to \<^verbatim>\<open>size\<close>.
\<close>

record memf =
  buffer :: "u8 list"
  curr_offset :: nat

definition new_memf :: "u8 list \<Rightarrow> memf" where
  "new_memf junk = \<lparr>buffer = junk, curr_offset = 0\<rparr>"

definition memf_read :: "nat \<Rightarrow> (memf, u8 list) action" where
  "memf_read s f =
    (let size' = length (buffer f); o' = curr_offset f in
     if o' \<ge> size' then (Ret [], f)
     else if wrap64 (o' + s) \<ge> size' then
       (let delta = sub64 size' o' in
        (Ret (take delta (drop o' (buffer f))), f\<lparr>curr_offset := o' + delta\<rparr>))
     else if o' + s > size' then (Fault ''out of bounds'', f)
     else (Ret (take s (drop o' (buffer f))), f\<lparr>curr_offset := o' + s\<rparr>))"

definition memf_write :: "u8 list \<Rightarrow> (memf, nat) action" where
  "memf_write src f =
    (let size' = length (buffer f); o' = curr_offset f; s = length src in
     if o' \<ge> size' then (Ret 0, f)
     else if wrap64 (o' + s) \<ge> size' then
       (let delta = sub64 size' o' in
        (Ret delta, f\<lparr>buffer := take o' (buffer f) @ take delta src @ drop (o' + delta) (buffer f),
                     curr_offset := o' + delta\<rparr>))
     else if o' + s > size' then (Fault ''out of bounds'', f)
     else (Ret s, f\<lparr>buffer := take o' (buffer f) @ src @ drop (o' + s) (buffer f),
                    curr_offset := o' + s\<rparr>))"

text \<open>\<^verbatim>\<open>off_t\<close> is a signed 64-bit type; \<^verbatim>\<open>off + size\<close> is computed unsigned and converted back.\<close>

definition to_off_t :: "int \<Rightarrow> int" where
  "to_off_t i = (let u = i mod 2 ^ 64 in if u < 2 ^ 63 then u else u - 2 ^ 64)"

definition memf_seek_set :: "int \<Rightarrow> (memf, int) action" where
  "memf_seek_set off f =
    (if off \<ge> 0 \<and> off \<le> int (length (buffer f)) then (Ret off, f\<lparr>curr_offset := nat off\<rparr>)
     else (Throw (Einval ''Out of bounds seek''), f))"

definition memf_seek :: "int \<Rightarrow> seekref \<Rightarrow> (memf, int) action" where
  "memf_seek off ref f = (case ref of
     SET \<Rightarrow> memf_seek_set off f
   | CUR \<Rightarrow> if off + int (curr_offset f) \<ge> 2 ^ 63 then (Fault ''signed overflow'', f)
            else memf_seek_set (off + int (curr_offset f)) f
   | END \<Rightarrow> memf_seek_set (to_off_t (off + int (length (buffer f)))) f)"

section \<open>Access modes\<close>

definition RDONLY :: u16 where "RDONLY = 1"
definition WRONLY :: u16 where "WRONLY = 2"
definition RW :: u16 where "RW = 3"

definition perm_write :: "u16 \<Rightarrow> (u8 list \<Rightarrow> ('t, nat) action) \<Rightarrow> u8 list \<Rightarrow> ('t, nat) action" where
  "perm_write m raw_write buf =
    (if m AND WRONLY \<noteq> 0 then raw_write buf else throw (Eperm ''Unauthorized write''))"

definition perm_read :: "u16 \<Rightarrow> (nat \<Rightarrow> ('t, u8 list) action) \<Rightarrow> nat \<Rightarrow> ('t, u8 list) action" where
  "perm_read m raw_read count =
    (if m AND RDONLY \<noteq> 0 then raw_read count else throw (Eperm ''Unauthorized read''))"

text \<open>\<open>None\<close>: the type \<^verbatim>\<open>T\<close> is not \<^verbatim>\<open>Seekable\<close>.\<close>

definition perm_seek :: "(int \<Rightarrow> seekref \<Rightarrow> ('t, int) action) option \<Rightarrow> int \<Rightarrow> seekref \<Rightarrow> ('t, int) action" where
  "perm_seek raw_seek off whence = (case raw_seek of
     Some sk \<Rightarrow> sk off whence
   | None \<Rightarrow> throw (Einval ''Seek on unseekable file''))"

abbreviation memfile_write :: "u16 \<Rightarrow> u8 list \<Rightarrow> (memf, nat) action" where
  "memfile_write m \<equiv> perm_write m memf_write"

abbreviation memfile_read :: "u16 \<Rightarrow> nat \<Rightarrow> (memf, u8 list) action" where
  "memfile_read m \<equiv> perm_read m memf_read"

abbreviation memfile_seek :: "int \<Rightarrow> seekref \<Rightarrow> (memf, int) action" where
  "memfile_seek \<equiv> perm_seek (Some memf_seek)"

section \<open>Memory files behave\<close>

definition memf_ok :: "memf \<Rightarrow> bool" where
  "memf_ok f \<longleftrightarrow> curr_offset f \<le> length (buffer f) \<and> length (buffer f) < 2 ^ 63"

text \<open>What a correct read and write of \<open>s\<close> bytes do.\<close>

lemma memf_read_spec:
  assumes "memf_ok f" "s < 2 ^ 63"
  shows "memf_read s f = (Ret (take s (drop (curr_offset f) (buffer f))),
    f\<lparr>curr_offset := min (length (buffer f)) (curr_offset f + s)\<rparr>)"
proof -
  have w: "wrap64 (curr_offset f + s) = curr_offset f + s"
    using assms by (intro wrap64_small) (simp add: memf_ok_def)
  have d: "curr_offset f \<le> length (buffer f) \<Longrightarrow>
    sub64 (length (buffer f)) (curr_offset f) = length (buffer f) - curr_offset f"
    using assms by (intro sub64_small) (auto simp: memf_ok_def)
  show ?thesis
    using assms w d by (auto simp: memf_read_def Let_def memf_ok_def min_def)
qed

lemma memf_write_spec:
  assumes "memf_ok f" "length src < 2 ^ 63"
  shows "memf_write src f =
    (let k = min (length src) (length (buffer f) - curr_offset f) in
     (Ret k, f\<lparr>buffer := take (curr_offset f) (buffer f) @ take k src @ drop (curr_offset f + k) (buffer f),
               curr_offset := curr_offset f + k\<rparr>))"
proof -
  have w: "wrap64 (curr_offset f + length src) = curr_offset f + length src"
    using assms by (intro wrap64_small) (simp add: memf_ok_def)
  have d: "curr_offset f \<le> length (buffer f) \<Longrightarrow>
    sub64 (length (buffer f)) (curr_offset f) = length (buffer f) - curr_offset f"
    using assms by (intro sub64_small) (auto simp: memf_ok_def)
  show ?thesis
    using assms w d by (auto simp: memf_write_def Let_def memf_ok_def min_def)
qed

lemma memf_ok_moves:
  assumes "memf_ok f"
  shows "memf_ok (f\<lparr>curr_offset := min (length (buffer f)) n\<rparr>)"
    "k \<le> length (buffer f) - curr_offset f \<Longrightarrow> k \<le> length src \<Longrightarrow>
      memf_ok (f\<lparr>buffer := take (curr_offset f) (buffer f) @ take k src @ drop (curr_offset f + k) (buffer f),
                 curr_offset := curr_offset f + k\<rparr>)"
  using assms by (auto simp: memf_ok_def)

lemma memf_seek_spec:
  assumes "memf_ok f" "k \<le> length (buffer f)"
  shows "memf_seek (int k) SET f = (Ret (int k), f\<lparr>curr_offset := k\<rparr>)"
  using assms by (simp add: memf_seek_def memf_seek_set_def)


text \<open>A memory file opened for writing is a stream in the sense of \<open>fwrite\<close>.\<close>

definition memf_room :: "memf \<Rightarrow> nat \<Rightarrow> bool" where
  "memf_room f n \<longleftrightarrow> memf_ok f \<and> curr_offset f + n \<le> length (buffer f)"

definition written :: "memf \<Rightarrow> u8 list" where
  "written f = take (curr_offset f) (buffer f)"

lemma perm_write_RW [simp]: "perm_write RW w = w"
  by (rule ext) (simp add: perm_write_def RW_def WRONLY_def)

lemma perm_read_RW [simp]: "perm_read RW r = r"
  by (rule ext) (simp add: perm_read_def RW_def RDONLY_def)

lemma memf_write_fits:
  assumes "memf_room f (length bs)"
  shows "memf_write bs f = (Ret (length bs),
    f\<lparr>buffer := take (curr_offset f) (buffer f) @ bs @ drop (curr_offset f + length bs) (buffer f),
      curr_offset := curr_offset f + length bs\<rparr>)"
  using assms by (subst memf_write_spec) (auto simp: memf_room_def memf_ok_def min_def Let_def)

interpretation memstream: stream "memfile_write RW" written memf_room
proof (unfold_locales, unfold perm_write_RW)
  fix s :: memf and bs :: "u8 list" and n
  assume r: "memf_room s (length bs + n)" and ne: "bs \<noteq> []"
  let ?s = "s\<lparr>buffer := take (curr_offset s) (buffer s) @ bs @ drop (curr_offset s + length bs) (buffer s),
      curr_offset := curr_offset s + length bs\<rparr>"
  have "memf_write bs s = (Ret (length bs), ?s)"
    using r by (intro memf_write_fits) (simp add: memf_room_def)
  moreover have "written ?s = written s @ take (length bs) bs" "memf_room ?s (length bs - length bs + n)"
    using r ne by (cases bs; auto simp: written_def memf_room_def memf_ok_def min_def)+
  ultimately show "\<exists>k s'. memf_write bs s = (Ret k, s') \<and> 0 < k \<and> k \<le> length bs \<and>
      written s' = written s @ take k bs \<and> memf_room s' (length bs - k + n)"
    using ne by (metis length_greater_0_conv order_refl)
next
  fix s :: memf and n m :: nat
  assume "memf_room s n" "m \<le> n"
  then show "memf_room s m" by (simp add: memf_room_def)
qed

text \<open>
  What \<^verbatim>\<open>fprintf\<close> writes to a memory file can be read back: after printing plain text
  with a decimal number in it, rewinding and reading gives the text with a numeral of exactly
  that number, whatever the buffer contained before.
\<close>

theorem memfile_printf_roundtrip:
  assumes "37 \<notin> set pre" "37 \<notin> set post" "- (2 ^ 31) < x" "x < 2 ^ 31"
    "length pre + 34 + length post \<le> length junk" "length junk < 2 ^ 63"
  shows "\<exists>k f1 ds f2 f3. printf (memfile_write RW) (pre @ [37, 100] @ post) [VInt x] (new_memf junk) = Some (Ret k, f1) \<and>
    numeral_value 10 ds = Some x \<and>
    memfile_seek 0 SET f1 = (Ret 0, f2) \<and>
    memfile_read RW (length (pre @ ds @ post)) f2 = (Ret (pre @ ds @ post), f3)"
proof -
  have "memf_room (new_memf junk) (length pre + 34 + length post + 0)"
    using assms(5,6) by (simp add: memf_room_def memf_ok_def new_memf_def)
  from memstream.printf_int [OF assms(1-4) this] obtain k f1 ds where
    f1: "printf (memfile_write RW) (pre @ [37, 100] @ post) [VInt x] (new_memf junk) = Some (Ret k, f1)"
    "written f1 = pre @ ds @ post" "numeral_value 10 ds = Some x" "memf_room f1 0"
    by (auto simp: written_def new_memf_def)
  let ?n = "length (pre @ ds @ post)"
  have ok: "memf_ok f1" and le: "curr_offset f1 \<le> length (buffer f1)"
    using f1(4) by (simp_all add: memf_room_def)
  then have n: "curr_offset f1 = ?n" using f1(2) by (metis length_take min.absorb2 written_def)
  have sk: "memfile_seek 0 SET f1 = (Ret 0, f1\<lparr>curr_offset := 0\<rparr>)"
    using memf_seek_spec [OF ok, of 0] by (simp add: perm_seek_def)
  have "memf_ok (f1\<lparr>curr_offset := 0\<rparr>)" "?n < 2 ^ 63" using ok le n by (simp_all add: memf_ok_def)
  from memf_read_spec [OF this] have
    "memfile_read RW ?n (f1\<lparr>curr_offset := 0\<rparr>) = (Ret (pre @ ds @ post), f1\<lparr>curr_offset := min (length (buffer f1)) ?n\<rparr>)"
    using f1(2) n by (simp add: written_def)
  with f1 sk show ?thesis by blast
qed

theorem memfile_printf_roundtrip_witness:
  "\<exists>k f1 ds f2 f3. printf (memfile_write RW) [115, 101, 114, 37, 100] [VInt 7] (new_memf (replicate 40 255)) = Some (Ret k, f1) \<and>
    numeral_value 10 ds = Some 7 \<and> memfile_seek 0 SET f1 = (Ret 0, f2) \<and>
    memfile_read RW (length ([115, 101, 114] @ ds)) f2 = (Ret ([115, 101, 114] @ ds), f3)"
  using memfile_printf_roundtrip [of "[115, 101, 114]" "[]" 7 "replicate 40 255"] by simp

text \<open>A count near \<open>2 ^ 64\<close> wraps around and runs past the buffer.\<close>

theorem memf_read_wraps_bug:
  "fst (memf_read (2 ^ 64 - 1) \<lparr>buffer = [1, 2, 3], curr_offset = 1\<rparr>) = Fault ''out of bounds''"
  by (simp add: memf_read_def wrap64_def)

text \<open>
  \<^verbatim>\<open>fwrite\<close> to a memory file that is full never returns: \<^verbatim>\<open>write\<close> takes nothing and the loop
  asks again.
\<close>

theorem fwrite_full_memfile_hangs:
  assumes "curr_offset f = length (buffer f)" "bs \<noteq> []"
  shows "fwrite (memfile_write RW) [bs] f = None"
proof -
  have "memf_write (drop 0 bs) f = (Ret 0, f)" using assms(1) by (simp add: memf_write_def Let_def)
  then have "fwrite_loop (memfile_write RW) bs 0 f = None"
    using assms(2) by (intro fwrite_loop_stuck) simp_all
  then show ?thesis by (simp add: fwrite_def call_simps)
qed

theorem fwrite_full_memfile_hangs_witness:
  "fwrite (memfile_write RW) [[65]] \<lparr>buffer = [1, 2], curr_offset = 2\<rparr> = None"
  by (rule fwrite_full_memfile_hangs) simp_all


section \<open>Directory iterators with \<^verbatim>\<open>.\<close> and \<^verbatim>\<open>..\<close>\<close>

text \<open>
  The operations \<^verbatim>\<open>coh_dit\<close> requires of \<^verbatim>\<open>T\<close> (\<^verbatim>\<open>ImplementsDirIterator\<close>); \<open>raw_list\<close> is there when \<^verbatim>\<open>T\<close>
  is \<^verbatim>\<open>Listable\<close>. A listing is the chain of its tokens: name, directory or not, size.
\<close>

type_synonym dirlist = "(cstring \<times> bool \<times> nat) list"

record ('x, 'h) raw_iterator =
  raw_push :: "cstring \<Rightarrow> ('x, drit_status) action"
  raw_pop :: "('x, unit) action"
  raw_depth :: "'x \<Rightarrow> nat"
  raw_name :: "nat \<Rightarrow> ('x, cstring) action"
  raw_open :: "cstring \<Rightarrow> nat \<Rightarrow> ('x, 'h) action"
  raw_list :: "('x, dirlist) action option"

definition coh_enter :: "('x, 'h) raw_iterator \<Rightarrow> cstring \<Rightarrow> ('x, drit_status) action" where
  "coh_enter T str x =
    (if str = [46, 46] then
       (if raw_depth T x \<noteq> 0 then andthen (raw_pop T) (\<lambda>_. ret DIR_ENTRY) x else (Ret UNDERRUN, x))
     else if str = [46] then (Ret DIR_ENTRY, x)
     else raw_push T str x)"

fun path_loop :: "('x, 'h) raw_iterator \<Rightarrow> nat list \<Rightarrow> cstring \<Rightarrow> ('x, cstring) action" where
  "path_loop T [] acc = ret acc"
| "path_loop T (i # is) acc = andthen (raw_name T i) (\<lambda>n. path_loop T is (acc @ n @ [47]))"

definition get_canonical_path :: "('x, 'h) raw_iterator \<Rightarrow> ('x, cstring) action" where
  "get_canonical_path T x = path_loop T [0..<raw_depth T x] [47] x"

definition coh_open_file :: "('x, 'h) raw_iterator \<Rightarrow> cstring \<Rightarrow> nat \<Rightarrow> ('x, 'h) action" where
  "coh_open_file T str mode = andthen (raw_push T str) (\<lambda>r.
    if r = FILE_ENTRY then raw_open T str mode else throw (Enoent ''not found''))"

text \<open>The first entry of the raw listing is copied without its size.\<close>

definition coh_list :: "('x, 'h) raw_iterator \<Rightarrow> ('x, dirlist) action" where
  "coh_list T = (case raw_list T of
     None \<Rightarrow> throw (Einval ''Filesystem does not support listing'')
   | Some l \<Rightarrow> (\<lambda>x.
       let dots = [([46, 46], True, null64), ([46], True, null64)] in
       case l x of
         (Ret (t # ts), x') \<Rightarrow> (Ret (dots @ (fst t, fst (snd t), null64) # ts), x')
       | (Ret [], x') \<Rightarrow> (Fault ''empty listing'', x')
       | (Throw e, x') \<Rightarrow> (if e = Empty_directory then (Ret dots, x') else (Throw e, x'))
       | (Fault f, x') \<Rightarrow> (Fault f, x')
       | (Hang, x') \<Rightarrow> (Hang, x')))"

subsection \<open>The contract of a raw iterator\<close>

text \<open>
  \<open>names\<close> are the directories entered, \<open>dir\<close> is what the next lookup depends on. Entering adds
  a name, leaving takes it off and restores \<open>dir\<close>, and a lookup that does not enter changes
  neither. Every law speaks of calls that return.
\<close>

locale path_iterator =
  fixes T :: "('x, 'h) raw_iterator"
    and names :: "'x \<Rightarrow> cstring list"
    and dir :: "'x \<Rightarrow> 'd"
    and ok :: "'x \<Rightarrow> bool"
  assumes push_dir: "ok x \<Longrightarrow> raw_push T n x = (Ret DIR_ENTRY, x') \<Longrightarrow> ok x' \<and> names x' = names x @ [n]"
    and push_stay: "ok x \<Longrightarrow> raw_push T n x = (Ret r, x') \<Longrightarrow> r \<noteq> DIR_ENTRY \<Longrightarrow>
      ok x' \<and> names x' = names x \<and> dir x' = dir x"
    and pop_law: "ok x \<Longrightarrow> names x \<noteq> [] \<Longrightarrow>
      \<exists>x'. raw_pop T x = (Ret (), x') \<and> ok x' \<and> names x' = butlast (names x)"
    and push_pop: "ok x \<Longrightarrow> raw_push T n x = (Ret DIR_ENTRY, x1) \<Longrightarrow> raw_pop T x1 = (Ret (), x2) \<Longrightarrow>
      dir x2 = dir x"
    and depth_law: "ok x \<Longrightarrow> raw_depth T x = length (names x)"
    and name_law: "ok x \<Longrightarrow> i < length (names x) \<Longrightarrow> raw_name T i x = (Ret (names x ! i), x)"

text \<open>The names after a step that returned \<open>r\<close>, and of a path without \<^verbatim>\<open>.\<close> and \<^verbatim>\<open>..\<close>.\<close>

definition path_step :: "cstring \<Rightarrow> drit_status \<Rightarrow> cstring list \<Rightarrow> cstring list" where
  "path_step n r ns =
    (if r \<noteq> DIR_ENTRY \<or> n = [46] then ns else if n = [46, 46] then butlast ns else ns @ [n])"

definition path_text :: "cstring list \<Rightarrow> cstring" where
  "path_text ns = 47 # concat (map (\<lambda>n. n @ [47]) ns)"

text \<open>A walk along the components of a path, every one of which has to be entered.\<close>

fun walk :: "('x, 'h) raw_iterator \<Rightarrow> cstring list \<Rightarrow> ('x, unit) action" where
  "walk T [] = ret ()"
| "walk T (n # ns) = andthen (coh_enter T n) (\<lambda>r.
    if r = DIR_ENTRY then walk T ns else throw (Enoent ''not found''))"

definition normal_path :: "cstring list \<Rightarrow> cstring list \<Rightarrow> cstring list" where
  "normal_path ns path = fold (\<lambda>n. path_step n DIR_ENTRY) path ns"

context path_iterator
begin

lemma enter_path:
  assumes "ok x" "coh_enter T n x = (Ret r, x')"
  shows "ok x' \<and> names x' = path_step n r (names x)"
proof (cases "n = [46, 46]")
  case True
  show ?thesis
  proof (cases "names x = []")
    case False
    then obtain x1 where "raw_pop T x = (Ret (), x1)" "ok x1" "names x1 = butlast (names x)"
      using pop_law assms(1) by blast
    then show ?thesis using True False assms
      by (auto simp: coh_enter_def depth_law path_step_def action_simps)
  qed (use True assms in \<open>auto simp: coh_enter_def depth_law path_step_def\<close>)
next
  case False
  show ?thesis
  proof (cases "n = [46]")
    case n: False
    have p: "raw_push T n x = (Ret r, x')" using assms(2) False n by (simp add: coh_enter_def)
    show ?thesis
    proof (cases "r = DIR_ENTRY")
      case True
      then show ?thesis using push_dir [OF assms(1)] p False n by (simp add: path_step_def)
    next
      case r: False
      then show ?thesis using push_stay [OF assms(1) p] by (simp add: path_step_def)
    qed
  qed (use assms in \<open>auto simp: coh_enter_def path_step_def\<close>)
qed

lemma path_loop_names:
  "ok x \<Longrightarrow> \<forall>i \<in> set is. i < length (names x) \<Longrightarrow>
    path_loop T is acc x = (Ret (acc @ concat (map (\<lambda>i. names x ! i @ [47]) is)), x)"
  by (induction "is" arbitrary: acc) (simp_all add: action_simps name_law)

lemma canonical_names: "ok x \<Longrightarrow> get_canonical_path T x = (Ret (path_text (names x)), x)"
proof -
  assume x: "ok x"
  have "map (\<lambda>i. names x ! i @ [47]) [0..<length (names x)] = map (\<lambda>n. n @ [47]) (names x)"
    by (rule nth_equalityI) simp_all
  then show ?thesis
    using x by (simp add: get_canonical_path_def depth_law path_loop_names path_text_def)
qed

lemma walk_canonical:
  "ok x \<Longrightarrow> walk T path x = (Ret u, x') \<Longrightarrow>
    ok x' \<and> get_canonical_path T x' = (Ret (path_text (normal_path (names x) path)), x')"
proof (induction path arbitrary: x)
  case (Cons n path)
  from Cons.prems(2) obtain r x1 where e: "coh_enter T n x = (Ret r, x1)"
    "(if r = DIR_ENTRY then walk T path else throw (Enoent ''not found'')) x1 = (Ret u, x')"
    by (auto elim: andthen_cases)
  then have "r = DIR_ENTRY" by (auto simp: throw_def split: if_splits)
  moreover note enter_path [OF Cons.prems(1) e(1)]
  ultimately show ?case using Cons.IH [of x1] e(2) by (simp add: normal_path_def)
qed (simp add: canonical_names normal_path_def ret_def)

lemma there_and_back:
  assumes "ok x" "coh_enter T n x = (Ret DIR_ENTRY, x1)" "n \<noteq> [46]" "n \<noteq> [46, 46]"
  shows "\<exists>x2. coh_enter T [46, 46] x1 = (Ret DIR_ENTRY, x2) \<and> ok x2 \<and> names x2 = names x \<and> dir x2 = dir x"
proof -
  have p: "raw_push T n x = (Ret DIR_ENTRY, x1)" using assms by (simp add: coh_enter_def)
  with push_dir assms(1) have x1: "ok x1" "names x1 = names x @ [n]" by blast+
  with pop_law obtain x2 where x2: "raw_pop T x1 = (Ret (), x2)" "ok x2" "names x2 = names x"
    by (metis butlast_snoc snoc_eq_iff_butlast)
  moreover have "dir x2 = dir x" by (rule push_pop [OF assms(1) p x2(1)])
  ultimately show ?thesis using x1 by (auto simp: coh_enter_def depth_law action_simps)
qed

end


section \<open>The iterator of a FAT volume\<close>

text \<open>
  The iterator of drivers/fat behind \<^verbatim>\<open>coh_dit\<close> (\<^verbatim>\<open>FAT::dit\<close>). \<open>fuel\<close> bounds the clusters a lookup
  visits and \<open>junk\<close> is the initial contents of its name buffer.
\<close>

definition fat_raw :: "nat \<Rightarrow> u8 list \<Rightarrow> (dir_state, nat \<times> nat \<times> nat \<times> nat) raw_iterator" where
  "fat_raw fuel junk = \<lparr>
     raw_push = (\<lambda>n. push fuel junk n null64),
     raw_pop = pop,
     raw_depth = (\<lambda>(d, s). depth d),
     raw_name = (\<lambda>i (d, s). (name_at i d, (d, s))),
     raw_open = (\<lambda>n mode. open_file fuel junk n mode null64),
     raw_list = Some (list_dir fuel junk null64 [])\<rparr>"

definition fat_names :: "dir_state \<Rightarrow> cstring list" where
  "fat_names = (\<lambda>(d, s). map (\<lambda>e. fst (snd e)) (stack d))"

definition fat_here :: "(u8 list \<times> cstring \<times> nat) list \<Rightarrow> fat_fs \<Rightarrow> nat" where
  "fat_here st s = (if st = [] then BPB_RootClus s mod 2 ^ 16 else first_cluster (fst (last st)) mod 2 ^ 16)"

definition fat_dir :: "dir_state \<Rightarrow> nat \<times> bool" where
  "fat_dir = (\<lambda>(d, s). (first_cluster_of_current_directory d, stack d = []))"

definition fat_ok :: "dir_state \<Rightarrow> bool" where
  "fat_ok = (\<lambda>(d, s). \<not> lock s \<and> token_copied s \<and> first_cluster_of_current_directory d = fat_here (stack d) s)"

lemma release_free: "\<not> lock s \<Longrightarrow> release_lock s = s"
  by (cases s) (simp add: release_lock_def)

lemma keeps_cursor: "keeps_bytes m \<Longrightarrow> m s = (r, s') \<Longrightarrow> \<exists>x. s' = s\<lparr>fh_cursor := x\<rparr>"
  unfolding keeps_bytes_def by (metis snd_conv)

text \<open>A lookup moves the cursor of the disk handle; the iterator changes where it enters.\<close>

definition entered :: "cstring \<Rightarrow> drit_status \<Rightarrow> dir_iterator \<Rightarrow> dir_iterator \<Rightarrow> bool" where
  "entered n r d d' \<longleftrightarrow> r \<in> {DIR_ENTRY, FILE_ENTRY, NP} \<and> (if r = DIR_ENTRY then \<exists>e a. d' = d\<lparr>first_cluster_of_current_directory := first_cluster e mod 2 ^ 16,
       stack := stack d @ [(e, n, a)]\<rparr> else d' = d)"

lemma entered_other: "r \<noteq> DIR_ENTRY \<Longrightarrow> entered n r d d' \<longleftrightarrow> r \<in> {FILE_ENTRY, NP} \<and> d' = d"
  by (simp add: entered_def)

lemma push_found_effect:
  "push_found n q (d, s) = (Ret r, (d', s')) \<Longrightarrow> s' = s \<and> entered n r d d'"
  by (auto simp: push_found_def entered_def split: option.splits prod.splits)

text \<open>The effect of a lookup that returns, from any position of the cursor.\<close>

definition lookup_effect :: "cstring \<Rightarrow> dir_iterator \<Rightarrow> fat_fs \<Rightarrow> (dir_state, drit_status) action \<Rightarrow> bool" where
  "lookup_effect n d s m \<longleftrightarrow> (\<forall>x r d' s'. m (d, s\<lparr>fh_cursor := x\<rparr>) = (Ret r, (d', s')) \<longrightarrow>
    (\<exists>y. s' = s\<lparr>fh_cursor := y\<rparr>) \<and> entered n r d d')"

lemma lookup_effectI:
  "(\<And>x r d' s'. m (d, s\<lparr>fh_cursor := x\<rparr>) = (Ret r, (d', s')) \<Longrightarrow>
    (\<exists>y. s' = s\<lparr>fh_cursor := y\<rparr>) \<and> entered n r d d') \<Longrightarrow> lookup_effect n d s m"
  by (simp add: lookup_effect_def)

lemma lookup_effectD:
  "lookup_effect n d s m \<Longrightarrow> m (d, s\<lparr>fh_cursor := x\<rparr>) = (Ret r, (d', s')) \<Longrightarrow>
    (\<exists>y. s' = s\<lparr>fh_cursor := y\<rparr>) \<and> entered n r d d'"
  by (simp add: lookup_effect_def)

lemma effect_found: "lookup_effect n d s (push_found n q)"
  by (rule lookup_effectI) (auto dest!: push_found_effect)

lemma effect_ret: "r \<in> {FILE_ENTRY, NP} \<Longrightarrow> lookup_effect n d s (ret r)"
  by (rule lookup_effectI) (auto simp: ret_def entered_def)

lemma effect_scan:
  assumes "keeps_bytes m" "\<And>a. lookup_effect n d s (k a)"
  shows "lookup_effect n d s (andthen (on_fs m) k)"
proof (rule lookup_effectI)
  fix x r d' s'
  assume "andthen (on_fs m) k (d, s\<lparr>fh_cursor := x\<rparr>) = (Ret r, (d', s'))"
  then obtain a d1 s1 where a: "on_fs m (d, s\<lparr>fh_cursor := x\<rparr>) = (Ret a, (d1, s1))"
    "k a (d1, s1) = (Ret r, (d', s'))"
    by (elim andthen_cases) auto
  then have "d1 = d" "m (s\<lparr>fh_cursor := x\<rparr>) = (Ret a, s1)" by (auto simp: on_fs_def split: prod.splits)
  moreover then obtain y where "s1 = s\<lparr>fh_cursor := y\<rparr>" using keeps_cursor [OF assms(1)] by fastforce
  ultimately show "(\<exists>y. s' = s\<lparr>fh_cursor := y\<rparr>) \<and> entered n r d d'"
    using a(2) lookup_effectD [OF assms(2)] by blast
qed

lemma effect_locked:
  assumes "\<not> lock s" "token_copied s" "lookup_effect n d s body"
  shows "lookup_effect n d s (locked body)"
proof (rule lookup_effectI)
  fix x r d' s'
  assume l: "locked body (d, s\<lparr>fh_cursor := x\<rparr>) = (Ret r, (d', s'))"
  obtain v d1 s1 where b: "body (d, s\<lparr>fh_cursor := x\<rparr>) = (v, (d1, s1))" by (metis prod.exhaust)
  have "v = Ret r" "d1 = d'" "s' = release_lock s1"
    using l b assms(1,2) by (auto simp: locked_free split: outcome.splits)
  with b lookup_effectD [OF assms(3)] obtain y where "s1 = s\<lparr>fh_cursor := y\<rparr>" "entered n r d d'" by blast
  moreover have "release_lock (s\<lparr>fh_cursor := y\<rparr>) = s\<lparr>fh_cursor := y\<rparr>"
    using assms(1) by (intro release_free) simp
  ultimately show "(\<exists>y. s' = s\<lparr>fh_cursor := y\<rparr>) \<and> entered n r d d'"
    using \<open>s' = release_lock s1\<close> by auto
qed

lemma push_effect:
  assumes "\<not> lock s" "token_copied s"
  shows "lookup_effect n d s (push fuel junk n c)"
proof (induction fuel arbitrary: c)
  case 0
  show ?case by (rule lookup_effectI) simp
next
  case (Suc fuel)
  let ?c = "cluster_or_current c d"
  let ?next = "\<lambda>m (d, s). if m \<ge> LAST_CLUSTER s \<or> m = 0 then (Ret NP, (d, s)) else push fuel junk n m (d, s)"
  have nxt: "lookup_effect n d s (?next m)" for m
    by (rule lookup_effectI)
      (use lookup_effectD [OF Suc] in \<open>auto simp: entered_other split: if_splits\<close>)
  have cl: "lookup_effect n d s (andthen (on_fs (push_cluster_scan junk n ?c)) (\<lambda>r. case fst r of
      Some r \<Rightarrow> push_found n r | None \<Rightarrow> andthen (on_fs (find_fat_entry ?c 0)) ?next))"
    by (intro effect_scan keeps_push_cluster_scan)
      (auto split: option.split intro!: effect_found effect_scan keeps_find nxt)
  have rt: "lookup_effect n d s (andthen (on_fs (push_root_scan junk n)) (\<lambda>r. case fst r of
      Some r \<Rightarrow> push_found n r | None \<Rightarrow> ret NP))"
    by (intro effect_scan keeps_push_root_scan)
      (auto split: option.split intro!: effect_found effect_ret)
  have "lookup_effect n d s (locked (\<lambda>(d, s).
      if length (stack d) = stack_size d then (Throw (Runtime_error ''Stack overflow''), (d, s))
      else if uses_clusters d s then
        let c = cluster_or_current c d in
        andthen (on_fs (push_cluster_scan junk n c)) (\<lambda>r.
          case fst r of
            Some r \<Rightarrow> push_found n r
          | None \<Rightarrow> andthen (on_fs (find_fat_entry c 0)) ?next) (d, s)
      else
        andthen (on_fs (push_root_scan junk n)) (\<lambda>r.
          case fst r of Some r \<Rightarrow> push_found n r | None \<Rightarrow> ret NP) (d, s)))"
    by (rule effect_locked [OF assms], rule lookup_effectI)
      (use lookup_effectD [OF cl] lookup_effectD [OF rt] in \<open>auto simp: Let_def split: if_splits\<close>)
  then show ?case by (simp add: lookup_effect_def)
qed

interpretation fat_path: path_iterator "fat_raw fuel junk" fat_names fat_dir fat_ok
proof unfold_locales
  fix x x' :: dir_state and n r
  obtain d s d' s' where [simp]: "x = (d, s)" "x' = (d', s')" by fastforce
  have eff: "raw_push (fat_raw fuel junk) n x = (Ret r, x') \<Longrightarrow> fat_ok x \<Longrightarrow>
      (\<exists>y. s' = s\<lparr>fh_cursor := y\<rparr>) \<and> entered n r d d'" for r
    using lookup_effectD [OF push_effect [of s n d fuel junk null64], of "fh_cursor s" r d' s']
    by (simp add: fat_raw_def fat_ok_def)
  show "fat_ok x' \<and> fat_names x' = fat_names x @ [n]"
    if "fat_ok x" "raw_push (fat_raw fuel junk) n x = (Ret DIR_ENTRY, x')"
    using eff [OF that(2,1)] that(1)
    by (auto simp: entered_def fat_ok_def fat_names_def fat_here_def)
  show "fat_ok x' \<and> fat_names x' = fat_names x \<and> fat_dir x' = fat_dir x"
    if "fat_ok x" "raw_push (fat_raw fuel junk) n x = (Ret r, x')" "r \<noteq> DIR_ENTRY"
    using eff [OF that(2,1)] that(1,3)
    by (auto simp: entered_other fat_ok_def fat_names_def fat_dir_def fat_here_def)
next
  fix x :: dir_state
  assume "fat_ok x" "fat_names x \<noteq> []"
  then show "\<exists>x'. raw_pop (fat_raw fuel junk) x = (Ret (), x') \<and> fat_ok x' \<and> fat_names x' = butlast (fat_names x)"
    by (cases x) (auto simp: fat_raw_def pop_def fat_ok_def fat_names_def locked_free Let_def
      release_free fat_here_def map_butlast)
next
  fix x x1 x2 :: dir_state and n
  assume a: "fat_ok x" "raw_push (fat_raw fuel junk) n x = (Ret DIR_ENTRY, x1)"
    "raw_pop (fat_raw fuel junk) x1 = (Ret (), x2)"
  obtain d s d1 s1 where [simp]: "x = (d, s)" "x1 = (d1, s1)" by fastforce
  have "(\<exists>y. s1 = s\<lparr>fh_cursor := y\<rparr>) \<and> entered n DIR_ENTRY d d1"
    using lookup_effectD [OF push_effect [of s n d fuel junk null64], of "fh_cursor s" DIR_ENTRY d1 s1] a(1,2)
    by (simp add: fat_raw_def fat_ok_def)
  then show "fat_dir x2 = fat_dir x"
    using a(1,3) by (auto simp: entered_def fat_raw_def pop_def fat_ok_def fat_dir_def locked_free Let_def
      release_free fat_here_def)
next
  fix x :: dir_state
  show "fat_ok x \<Longrightarrow> raw_depth (fat_raw fuel junk) x = length (fat_names x)"
    by (cases x) (simp add: fat_raw_def fat_names_def depth_def)
next
  fix x :: dir_state and i
  show "fat_ok x \<Longrightarrow> i < length (fat_names x) \<Longrightarrow> raw_name (fat_raw fuel junk) i x = (Ret (fat_names x ! i), x)"
    by (cases x) (simp add: fat_raw_def fat_names_def name_at_def)
qed

text \<open>A FAT16 volume whose root directory has the directory \<^verbatim>\<open>a\<close>, with a long name, in cluster 5.\<close>


definition dir_bytes :: "u8 list" where
  "dir_bytes = [65, 97, 0, 0, 0, 255, 255, 255, 255, 255, 255, 15, 0, 128, 255, 255, 255, 255, 255, 255, 255, 255, 255, 255, 255, 255, 0, 0, 255, 255, 255, 255, 65, 32, 32, 32, 32, 32, 32, 32, 32, 32, 32, 16, 0, 0, 0, 0, 0, 0, 0, 0, 0, 0, 0, 0, 0, 0, 5, 0, 0, 0, 0, 0]"

definition dir_volume :: fat_fs where
  "dir_volume = (small_volume FAT16)\<lparr>fh_bytes := (\<lambda>a. if 1536 \<le> a \<and> a < 1600 then dir_bytes ! (a - 1536) else 0)\<rparr>"

lemma dir_volume_entries: "bytes_at (fh_bytes dir_volume) 1536 32 = take 32 dir_bytes"
  "bytes_at (fh_bytes dir_volume) 1568 32 = drop 32 dir_bytes"
  by (simp_all add: dir_volume_def dir_bytes_def bytes_at_def upt_rec)


lemma dir_volume_attributes: "bytes_at (fh_bytes dir_volume) 1547 (Suc 0) = [15]"
  "bytes_at (fh_bytes dir_volume) 1579 (Suc 0) = [16]"
  by (simp_all add: dir_volume_def dir_bytes_def bytes_at_def)

lemma dir_volume_long: "scan_entry \<lparr>check_first = False, check_middle = False, mark_long = True, always_checksum = False\<rparr>
    (push_handler [97]) (new_scan (b # c # bs)) (dir_volume\<lparr>fh_cursor := 1536\<rparr>) =
  (Ret (Next \<lparr>found_directory_Name = 97 # 0 # take 254 bs, number_of_LFN_entries = 0,
    current_checksum = 128, there_is_long_name = True, listed = []\<rparr>), dir_volume\<lparr>fh_cursor := 1568\<rparr>)"
  by (simp add: scan_entry_def peek_attribute_def andthen_def fh_move_def fh_read_def ret_def dir_volume_entries dir_volume_attributes new_scan_def
    ATTR_LONG_NAME_def of_outcome_def long_entry_def long_checks_def LDIR_Ord_def LDIR_Chksum_def put_names_def
    LDIR_Name1_def LDIR_Name2_def LDIR_Name3_def u16_at_def dir_bytes_def)


lemma dir_volume_short: "scan_entry \<lparr>check_first = False, check_middle = False, mark_long = True, always_checksum = False\<rparr>
    (push_handler [97]) \<lparr>found_directory_Name = 97 # 0 # bs, number_of_LFN_entries = 0,
    current_checksum = 128, there_is_long_name = True, listed = []\<rparr> (dir_volume\<lparr>fh_cursor := 1568\<rparr>) =
  (Ret (Return (Some (drop 32 dir_bytes, 1568))), dir_volume\<lparr>fh_cursor := 1568\<rparr>)"
  by (simp add: scan_entry_def peek_attribute_def andthen_def fh_move_def fh_read_def ret_def dir_volume_entries dir_volume_attributes
    ATTR_LONG_NAME_def short_entry_def checksum_def add_checksum_def dir_bytes_def push_handler_def c_string_def
    is_directory_def attr_def Let_def)

lemma dir_pushed:
  "push (Suc 0) (b # c # bs) [97] null64 (small_dir, dir_volume) = (Ret DIR_ENTRY,
    (small_dir\<lparr>first_cluster_of_current_directory := 5, stack := [(drop 32 dir_bytes, [97], 1568)]\<rparr>,
     dir_volume\<lparr>fh_cursor := 1568\<rparr>))"
proof -
  have v: "BPB_RootEntCnt dir_volume = Suc (Suc 14)" "root_directory_begin dir_volume = 1536"
    "\<not> lock dir_volume" "token_copied dir_volume" "FATType dir_volume = FAT16"
    by (simp_all add: dir_volume_def small_volume_def)
  have "push_root_scan (b # c # bs) [97] dir_volume =
    (Ret (Some (Some (drop 32 dir_bytes, 1568)), \<lparr>found_directory_Name = 97 # 0 # take 254 bs, number_of_LFN_entries = 0,
    current_checksum = 128, there_is_long_name = True, listed = []\<rparr>), dir_volume\<lparr>fh_cursor := 1568\<rparr>)"
    unfolding push_root_scan_def v(1) scan_entries.simps(2)
    by (simp add: v seek_root_def fh_set_def andthen_def ret_def dir_volume_long dir_volume_short)
  then show ?thesis
    by (simp add: locked_free v uses_clusters_def small_dir_def FAT_dir_iterator_def andthen_def on_fs_def push_found_def
      first_cluster_def u16_at_def dir_bytes_def release_free small_volume_def)
qed


lemma fat_ok_dir_volume: "fat_ok (small_dir, dir_volume)"
  by (simp add: fat_ok_def small_dir_def FAT_dir_iterator_def dir_volume_def small_volume_def fat_here_def)

lemma dir_entered: "coh_enter (fat_raw (Suc 0) (b # c # bs)) [97] (small_dir, dir_volume) = (Ret DIR_ENTRY,
    (small_dir\<lparr>first_cluster_of_current_directory := 5, stack := [(drop 32 dir_bytes, [97], 1568)]\<rparr>,
     dir_volume\<lparr>fh_cursor := 1568\<rparr>))"
  unfolding coh_enter_def fat_raw_def using dir_pushed by simp

text \<open>
  Walking through a FAT volume, \<^verbatim>\<open>get_canonical_path\<close> returns the components walked with \<^verbatim>\<open>.\<close>
  and \<^verbatim>\<open>..\<close> resolved: whenever every component of a path is entered, the iterator's path is the
  lexically normalised one, for every disk. (The lock of the volume is free and its token is
  copied, so that the lock does not bite.)
\<close>

theorem fat_walk_canonical:
  assumes "fat_ok x" "walk (fat_raw fuel junk) path x = (Ret u, x')"
  shows "get_canonical_path (fat_raw fuel junk) x' = (Ret (path_text (normal_path (fat_names x) path)), x')"
  using fat_path.walk_canonical [OF assms] by simp

theorem fat_walk_canonical_witness:
  "\<exists>x'. walk (fat_raw (Suc 0) [0, 0]) [[97], [46]] (small_dir, dir_volume) = (Ret (), x') \<and>
    get_canonical_path (fat_raw (Suc 0) [0, 0]) x' = (Ret [47, 97, 47], x')"
proof -
  let ?x = "(small_dir\<lparr>first_cluster_of_current_directory := 5, stack := [(drop 32 dir_bytes, [97], 1568)]\<rparr>,
     dir_volume\<lparr>fh_cursor := 1568\<rparr>)"
  have "coh_enter (fat_raw (Suc 0) [0, 0]) [46] ?x = (Ret DIR_ENTRY, ?x)" by (simp add: coh_enter_def)
  with dir_entered [of 0 0 "[]"] have w: "walk (fat_raw (Suc 0) [0, 0]) [[97], [46]] (small_dir, dir_volume) = (Ret (), ?x)"
    by (simp add: action_simps)
  have "path_text (normal_path (fat_names (small_dir, dir_volume)) [[97], [46]]) = [47, 97, 47]"
    by (simp add: path_text_def normal_path_def path_step_def fat_names_def small_dir_def FAT_dir_iterator_def)
  with fat_walk_canonical [OF fat_ok_dir_volume w] w show ?thesis by metis
qed

text \<open>
  Entering a directory of a FAT volume and then \<^verbatim>\<open>..\<close> comes back: the path is the old one
  and so is the directory the next lookup searches, for every disk and every directory.
\<close>

theorem fat_enter_leave:
  assumes "fat_ok x" "coh_enter (fat_raw fuel junk) n x = (Ret DIR_ENTRY, x1)" "n \<noteq> [46]" "n \<noteq> [46, 46]"
  shows "\<exists>x2. coh_enter (fat_raw fuel junk) [46, 46] x1 = (Ret DIR_ENTRY, x2) \<and>
    fat_names x2 = fat_names x \<and> fat_dir x2 = fat_dir x"
  using fat_path.there_and_back [OF assms] by blast

theorem fat_enter_leave_witness:
  "\<exists>x1 x2. coh_enter (fat_raw (Suc 0) [0, 0]) [97] (small_dir, dir_volume) = (Ret DIR_ENTRY, x1) \<and>
    coh_enter (fat_raw (Suc 0) [0, 0]) [46, 46] x1 = (Ret DIR_ENTRY, x2) \<and>
    fat_dir x2 = fat_dir (small_dir, dir_volume)"
proof -
  note e = dir_entered [of 0 0 "[]"]
  have n: "[97] \<noteq> [46 :: u8]" "[97] \<noteq> [46, 46 :: u8]" by simp_all
  from fat_enter_leave [OF fat_ok_dir_volume e n] e show ?thesis by blast
qed

end
