(* ===== verification/Vmm.thy ===== *)
theory Vmm
  imports Kheap Paging
begin

text \<open>
  Page tables on demand: \<^verbatim>\<open>back_vmem\<close> and \<^verbatim>\<open>unback_vmem\<close> of kernel/mem/phmem_manager.cc, and
  \<^verbatim>\<open>kmmap\<close>, \<^verbatim>\<open>kmunmap\<close> of kernel/kmmap.cc. The state is physical memory (its 64-bit entries),
  the allocators of physical pages and of kernel addresses, and the number of page tables
  taken from the static reserve \<^verbatim>\<open>kpt_repo\<close>. The kernel reaches a table at the physical
  address \<open>p\<close> through the window, at \<open>p - 512 GiB\<close>; what the processor has cached of the
  tables is not modelled.
\<close>

record vm =
  pm :: "u64 \<Rightarrow> u64"
  palloc :: ph_tree
  kvmem_alloc :: buddy
  repo_offset :: nat

text \<open>\<open>cr3\<close> and the linear addresses of the tables of \<^verbatim>\<open>kpt_repo\<close> do not change.\<close>

record platform =
  get_cr3 :: u64
  kpt_repo :: "nat \<Rightarrow> u64"

fun for_each :: "'a list \<Rightarrow> ('a \<Rightarrow> ('s, unit) action) \<Rightarrow> ('s, unit) action" where
  "for_each [] f = ret ()"
| "for_each (x # xs) f = andthen (f x) (\<lambda>_. for_each xs f)"

section \<open>Entries in memory\<close>

definition entry_addr :: "u64 \<Rightarrow> nat \<Rightarrow> u64" where
  "entry_addr t i = t + 8 * of_nat i"

definition get_entry :: "u64 \<Rightarrow> nat \<Rightarrow> vm \<Rightarrow> u64" where
  "get_entry t i s = pm s (entry_addr t i)"

definition set_entry :: "u64 \<Rightarrow> nat \<Rightarrow> u64 \<Rightarrow> vm \<Rightarrow> vm" where
  "set_entry t i v s = s\<lparr>pm := (pm s)(entry_addr t i := v)\<rparr>"

definition table_index :: "nat \<Rightarrow> u64 \<Rightarrow> nat" where
  "table_index lv a = unat (tindex lv a)"

text \<open>The kernel's walk, reading tables through the window.\<close>

definition resolve_now :: "platform \<Rightarrow> u64 \<Rightarrow> vm \<Rightarrow> phmem_resolvant" where
  "resolve_now pl a s = resolve_to_phmem (\<lambda>l. pm s (l + window)) (get_cr3 pl) a"

text \<open>\<^verbatim>\<open>memset(newtable, 0, 4096)\<close> through the new table's own linear address.\<close>

definition clear_table :: "platform \<Rightarrow> u64 \<Rightarrow> (vm, unit) action" where
  "clear_table pl l s = (case resolve_now pl l s of r \<Rightarrow>
     (if status r = OK
      then (Ret (), s\<lparr>pm := (\<lambda>x. if x - resolved r < 4096 then 0 else pm s x)\<rparr>)
      else (Fault ''page fault'', s)))"

section \<open>\<^verbatim>\<open>crawl_tables\<close>\<close>

text \<open>
  \<open>km\<close> is \<^verbatim>\<open>kmmap(NULL, 4096)\<close>. The new entry keeps the flags of the entry with index \<open>src\<close>,
  as far as \<open>keep\<close> lets them through.
\<close>

definition new_table :: "platform \<Rightarrow> (vm, u64) action \<Rightarrow> nat \<Rightarrow> bool \<Rightarrow> (vm, u64) action" where
  "new_table pl km lv iskernel s =
    (if lv = 2 \<and> iskernel \<and> repo_offset s < 1024
     then (Ret (kpt_repo pl (repo_offset s)), s\<lparr>repo_offset := repo_offset s + 1\<rparr>)
     else andthen km (\<lambda>l. andthen (clear_table pl l) (\<lambda>_. ret l)) s)"

definition ensure_table :: "platform \<Rightarrow> (vm, u64) action \<Rightarrow> nat \<Rightarrow> bool \<Rightarrow> u64 \<Rightarrow> nat \<Rightarrow> nat \<Rightarrow> u64 \<Rightarrow> (vm, unit) action" where
  "ensure_table pl km lv iskernel t i src keep s =
    (if get_entry t i s AND OS_CRAWLABLE = 0 then
       andthen (new_table pl km lv iskernel) (\<lambda>l s.
         (Ret (), set_entry t i
           (((resolved (resolve_now pl l s) OR (get_entry t src s AND keep)) OR OS_CRAWLABLE) AND NOT 128) s)) s
     else (Ret (), s))"

type_synonym on_dir = "u64 \<Rightarrow> u64"
type_synonym on_page = "u64 \<Rightarrow> nat \<Rightarrow> (vm, unit) action"

definition crawl_tables_lvl1 :: "on_page \<Rightarrow> u64 \<Rightarrow> u64 \<Rightarrow> u64 \<Rightarrow> (vm, unit) action" where
  "crawl_tables_lvl1 callback_page start end' t =
    (let start_index = table_index 1 start; end_index = table_index 1 end' in
     andthen (callback_page t start_index) (\<lambda>_.
       if start_index = end_index then ret ()
       else for_each [start_index + 1..<end_index + 1] (callback_page t)))"

definition call_dir :: "on_dir \<Rightarrow> u64 \<Rightarrow> nat \<Rightarrow> (vm, unit) action" where
  "call_dir callback_dir t i s = (Ret (), set_entry t i (callback_dir (get_entry t i s)) s)"

definition below :: "u64 \<Rightarrow> nat \<Rightarrow> (u64 \<Rightarrow> (vm, unit) action) \<Rightarrow> (vm, unit) action" where
  "below t i m s = m (get_entry t i s AND address_mask) s"

text \<open>The first argument is the level below; level 1 is \<open>0\<close>.\<close>

fun crawl_tables :: "platform \<Rightarrow> (vm, u64) action \<Rightarrow> on_dir \<Rightarrow> on_page \<Rightarrow> bool \<Rightarrow> nat \<Rightarrow> u64 \<Rightarrow> u64 \<Rightarrow> u64 \<Rightarrow> (vm, unit) action" where
  "crawl_tables pl km cd cp iskernel 0 start end' t = crawl_tables_lvl1 cp start end' t"
| "crawl_tables pl km cd cp iskernel (Suc k) start end' t =
    (let lv = k + 2; start_index = table_index lv start; end_index = table_index lv end' in
     andthen (ensure_table pl km lv iskernel t start_index start_index 0xfff) (\<lambda>_.
     andthen (call_dir cd t start_index) (\<lambda>_.
       if start_index = end_index
       then below t start_index (crawl_tables pl km cd cp iskernel k start end')
       else
         andthen (below t start_index (crawl_tables pl km cd cp iskernel k start (- 1))) (\<lambda>_.
         andthen (for_each [start_index + 1..<end_index] (\<lambda>i.
           andthen (ensure_table pl km lv iskernel t i end_index 0xffff) (\<lambda>_.
           andthen (call_dir cd t i) (\<lambda>_.
             below t i (crawl_tables pl km cd cp iskernel k 0 (- 1)))))) (\<lambda>_.
         andthen (ensure_table pl km lv iskernel t end_index end_index 0xffff) (\<lambda>_.
         andthen (call_dir cd t end_index) (\<lambda>_.
           below t end_index (crawl_tables pl km cd cp iskernel k 0 end'))))))))"

declare crawl_tables.simps [simp del]

section \<open>\<^verbatim>\<open>back_vmem\<close>, \<^verbatim>\<open>unback_vmem\<close>\<close>

definition is_kernel :: "u64 \<Rightarrow> bool" where
  "is_kernel a \<longleftrightarrow> sint a < 0 \<and> sint a \<ge> - 2 * 1024 * 1024 * 1024"

definition back_dir :: "u64 \<Rightarrow> on_dir" where
  "back_dir f e = e OR (3 OR f)"

definition back_page :: "u64 \<Rightarrow> on_page" where
  "back_page f t i s = (case get_page 7 (palloc s) of (p, a') \<Rightarrow>
     (Ret (), set_entry t i (((of_nat p AND address_mask) OR 3) OR f) (s\<lparr>palloc := a'\<rparr>)))"

definition unback_page :: on_page where
  "unback_page t i s =
    (let e = get_entry t i s AND NOT 1; s' = set_entry t i e s in
     (Ret (), s'\<lparr>palloc := release_page 7 (palloc s') (unat (e AND address_mask))\<rparr>))"

definition back_vmem :: "platform \<Rightarrow> (vm, u64) action \<Rightarrow> u64 \<Rightarrow> u64 \<Rightarrow> u64 \<Rightarrow> u64 \<Rightarrow> (vm, bool) action" where
  "back_vmem pl km where' size' flags eff_cr3 =
    (let f = flags AND 0xfff; end' = where' - 1 + size' in
     if \<not> canonical_check where' then ret False
     else
       andthen (crawl_tables pl km (back_dir f) (back_page f) (is_kernel where') 3 where' end'
           (if eff_cr3 \<noteq> 0 then eff_cr3 else get_cr3 pl))
         (\<lambda>_. ret True))"

definition unback_vmem :: "platform \<Rightarrow> (vm, u64) action \<Rightarrow> u64 \<Rightarrow> u64 \<Rightarrow> (vm, unit) action" where
  "unback_vmem pl km where' size' =
    (let end' = where' - 1 + size' in
     if \<not> canonical_check where' then ret ()
     else crawl_tables pl km id unback_page (is_kernel where') 3 where' end' (get_cr3 pl))"

section \<open>\<^verbatim>\<open>kmmap\<close>, \<^verbatim>\<open>kmunmap\<close>\<close>

text \<open>
  \<^verbatim>\<open>back_vmem\<close> calls \<^verbatim>\<open>kmmap\<close> again for a new table; the fuel bounds this nesting, and nesting
  without end is \<open>Hang\<close>. Addresses of the kernel half are \<open>x - 2 GiB\<close>.
\<close>

fun kmmap :: "nat \<Rightarrow> platform \<Rightarrow> u64 \<Rightarrow> nat \<Rightarrow> (vm, u64) action" where
  "kmmap 0 pl hint sz s = (Hang, s)"
| "kmmap (Suc fuel) pl hint sz s =
    (if sz = 0 then (Ret 0, s)
     else
       let addr = wrap64 (unat hint + 2 * 1024 * 1024 * 1024) in
       case vma_mmap 18 (kvmem_alloc s) addr sz of (r, kv) \<Rightarrow>
         let s = s\<lparr>kvmem_alloc := kv\<rparr> in
         if r = alloc_null then (Throw Bad_alloc, s)
         else
           andthen (back_vmem pl (kmmap fuel pl 0 4096) (of_nat r - 2 * 1024 * 1024 * 1024) (of_nat sz) 0 0)
             (\<lambda>_. ret (of_nat r - 2 * 1024 * 1024 * 1024)) s)"

definition kmunmap :: "nat \<Rightarrow> platform \<Rightarrow> u64 \<Rightarrow> nat \<Rightarrow> (vm, unit) action" where
  "kmunmap fuel pl ptr sz s =
    (if sz = 0 then (Ret (), s)
     else unback_vmem pl (kmmap fuel pl 0 4096) ptr (of_nat sz)
       (s\<lparr>kvmem_alloc := vma_munmap 18 (kvmem_alloc s) (wrap64 (unat ptr + 2 * 1024 * 1024 * 1024)) sz\<rparr>))"


section \<open>Entries of different tables\<close>

lemma table_index_less [simp]: "table_index lv a < 512"
  using tindex_less [of lv a] by (simp add: table_index_def word_less_nat_alt)

lemma entry_addr_index: "entry_addr t (table_index lv a) = t + 8 * tindex lv a"
  by (simp add: entry_addr_def table_index_def)

lemma entry_addr_table:
  assumes "table_base t" "i < 512"
  shows "entry_addr t i AND NOT (mask 12) = t"
proof -
  have t: "bit t n \<Longrightarrow> 12 \<le> n" for n using table_base_bit [OF assms(1)] by blast
  have i9: "(of_nat i :: u64) = of_nat i AND mask 9"
    using assms(2) by (simp add: take_bit_of_nat take_bit_nat_eq_self flip: take_bit_eq_mask)
  have b: "bit (8 * (of_nat i :: u64)) n \<Longrightarrow> n < 12" for n
  proof -
    have "8 * (of_nat i :: u64) = push_bit 3 (of_nat i AND mask 9)" using i9 by (simp add: push_bit_eq_mult)
    then show "bit (8 * (of_nat i :: u64)) n \<Longrightarrow> n < 12" by (auto simp: bit_simps)
  qed
  have "entry_addr t i = t OR 8 * of_nat i"
    unfolding entry_addr_def by (rule disjunctive_add) (use t b in \<open>meson not_le\<close>)
  moreover have "(t OR 8 * of_nat i) AND NOT (mask 12) = t"
    by (rule bit_word_eqI) (auto simp: bit_and_iff bit_or_iff bit_not_iff bit_mask_iff dest: t b)
  ultimately show ?thesis by simp
qed

lemma entry_addr_apart:
  "table_base t \<Longrightarrow> table_base t' \<Longrightarrow> t \<noteq> t' \<Longrightarrow> i < 512 \<Longrightarrow> j < 512 \<Longrightarrow> entry_addr t i \<noteq> entry_addr t' j"
  using entry_addr_table by metis

lemma get_set_same [simp]: "get_entry t i (set_entry t i v s) = v"
  by (simp add: get_entry_def set_entry_def)

lemma get_set_apart:
  "table_base t \<Longrightarrow> table_base t' \<Longrightarrow> t \<noteq> t' \<Longrightarrow> i < 512 \<Longrightarrow> j < 512 \<Longrightarrow>
    get_entry t i (set_entry t' j v s) = get_entry t i s"
  using entry_addr_apart [of t t' i j] by (simp add: get_entry_def set_entry_def)

lemma palloc_set [simp]: "palloc (set_entry t i v s) = palloc s"
  by (simp add: set_entry_def)

section \<open>One page, all tables present\<close>

lemma crawl_present:
  assumes "table_index (k + 2) start = i" "table_index (k + 2) end' = i"
    "get_entry t i s AND OS_CRAWLABLE \<noteq> 0"
  shows "crawl_tables pl km cd cp ker (Suc k) start end' t s =
    crawl_tables pl km cd cp ker k start end' (cd (get_entry t i s) AND address_mask)
      (set_entry t i (cd (get_entry t i s)) s)"
  using assms by (simp add: crawl_tables.simps Let_def andthen_def ensure_table_def call_dir_def below_def)

text \<open>The tables on the way to \<open>a\<close>, with the indices of the entries.\<close>

definition table_on_way :: "nat \<Rightarrow> u64 \<Rightarrow> u64 \<Rightarrow> vm \<Rightarrow> u64" where
  "table_on_way lv t a s = get_entry t (table_index lv a) s AND address_mask"

definition way :: "u64 \<Rightarrow> u64 \<Rightarrow> vm \<Rightarrow> u64 list" where
  "way t4 a s = (let t3 = table_on_way 4 t4 a s; t2 = table_on_way 3 t3 a s; t1 = table_on_way 2 t2 a s
     in [t4, t3, t2, t1])"

definition crawlable :: "u64 \<Rightarrow> bool" where
  "crawlable e \<longleftrightarrow> e AND OS_CRAWLABLE \<noteq> 0 \<and> \<not> is_PS e"

text \<open>The three upper entries are links to tables, and the four tables are distinct.\<close>

definition tables_present :: "u64 \<Rightarrow> u64 \<Rightarrow> vm \<Rightarrow> bool" where
  "tables_present t4 a s \<longleftrightarrow> (case way t4 a s of [t4, t3, t2, t1] \<Rightarrow>
     table_base t4 \<and> distinct [t4, t3, t2, t1] \<and>
     crawlable (get_entry t4 (table_index 4 a) s) \<and> crawlable (get_entry t3 (table_index 3 a) s) \<and>
     crawlable (get_entry t2 (table_index 2 a) s))"

lemma one_page_index:
  assumes "a AND mask 12 = 0" "lv \<in> {1, 2, 3, 4}"
  shows "table_index lv (a - 1 + 4096) = table_index lv a"
proof -
  have "\<not> (bit a n \<and> bit (mask 12 :: u64) n)" for n
    using assms(1) by (metis bit_and_iff bit_0_eq bot_apply bot_bool_def)
  then have "a + mask 12 = a OR mask 12" by (intro disjunctive_add) blast
  moreover have "a - 1 + 4096 = a + mask 12" by (simp add: mask_eq_exp_minus_1)
  moreover have "tindex lv (a OR mask 12) = tindex lv a"
    using assms(2) unfolding tindex_def mask9 by (intro bit_word_eqI) (auto simp: bit_simps)
  ultimately show ?thesis by (simp add: table_index_def)
qed

text \<open>The state after the upper entries on the way have been updated by \<open>cd\<close>.\<close>

definition touched :: "(u64 \<Rightarrow> u64) \<Rightarrow> u64 \<Rightarrow> u64 \<Rightarrow> vm \<Rightarrow> vm" where
  "touched cd t4 a s = (case way t4 a s of [t4, t3, t2, t1] \<Rightarrow>
     set_entry t2 (table_index 2 a) (cd (get_entry t2 (table_index 2 a) s))
      (set_entry t3 (table_index 3 a) (cd (get_entry t3 (table_index 3 a) s))
        (set_entry t4 (table_index 4 a) (cd (get_entry t4 (table_index 4 a) s)) s)))"

lemma way_cases:
  assumes "tables_present t4 a s"
  obtains t3 t2 t1 where "way t4 a s = [t4, t3, t2, t1]" "distinct [t4, t3, t2, t1]"
    "table_base t4" "table_base t3" "table_base t2" "table_base t1"
    "crawlable (get_entry t4 (table_index 4 a) s)" "get_entry t4 (table_index 4 a) s AND address_mask = t3"
    "crawlable (get_entry t3 (table_index 3 a) s)" "get_entry t3 (table_index 3 a) s AND address_mask = t2"
    "crawlable (get_entry t2 (table_index 2 a) s)" "get_entry t2 (table_index 2 a) s AND address_mask = t1"
proof -
  obtain t3 where t3: "t3 = get_entry t4 (table_index 4 a) s AND address_mask" by blast
  obtain t2 where t2: "t2 = get_entry t3 (table_index 3 a) s AND address_mask" by blast
  obtain t1 where t1: "t1 = get_entry t2 (table_index 2 a) s AND address_mask" by blast
  have w: "way t4 a s = [t4, t3, t2, t1]"
    by (simp only: way_def table_on_way_def Let_def t1 t2 t3)
  have p: "table_base t4 \<and> distinct [t4, t3, t2, t1] \<and> crawlable (get_entry t4 (table_index 4 a) s) \<and>
    crawlable (get_entry t3 (table_index 3 a) s) \<and> crawlable (get_entry t2 (table_index 2 a) s)"
    using assms unfolding tables_present_def w list.case by blast
  have b: "table_base t3" "table_base t2" "table_base t1" unfolding t1 t2 t3 by simp_all
  show thesis using p b t1 t2 t3 by (intro that [OF w]) simp_all
qed

lemma crawl_same:
  assumes "tables_present t4 a s" "\<And>lv. lv \<in> {2, 3, 4} \<Longrightarrow> table_index lv e = table_index lv a" "\<And>e. cd e AND address_mask = e AND address_mask"
  shows "crawl_tables pl km cd cp ker 3 a e t4 s =
    crawl_tables_lvl1 cp a e (last (way t4 a s)) (touched cd t4 a s)"
proof -
  obtain t3 t2 t1 where w: "way t4 a s = [t4, t3, t2, t1]" "distinct [t4, t3, t2, t1]"
    "table_base t4" "table_base t3" "table_base t2" "table_base t1"
    "crawlable (get_entry t4 (table_index 4 a) s)" "get_entry t4 (table_index 4 a) s AND address_mask = t3"
    "crawlable (get_entry t3 (table_index 3 a) s)" "get_entry t3 (table_index 3 a) s AND address_mask = t2"
    "crawlable (get_entry t2 (table_index 2 a) s)" "get_entry t2 (table_index 2 a) s AND address_mask = t1"
    using way_cases [OF assms(1)] by blast
  define i4 i3 i2 where "i4 = table_index 4 a" and "i3 = table_index 3 a" and "i2 = table_index 2 a"
  define s4 where "s4 = set_entry t4 i4 (cd (get_entry t4 i4 s)) s"
  define s3 where "s3 = set_entry t3 i3 (cd (get_entry t3 i3 s)) s4"
  define s2 where "s2 = set_entry t2 i2 (cd (get_entry t2 i2 s)) s3"
  have lt: "i4 < 512" "i3 < 512" "i2 < 512" by (simp_all add: i4_def i3_def i2_def)
  have g3: "get_entry t3 i3 s4 = get_entry t3 i3 s"
    unfolding s4_def using get_set_apart [of t3 t4 i3 i4] w lt by auto
  have g2: "get_entry t2 i2 s3 = get_entry t2 i2 s"
    unfolding s3_def s4_def using get_set_apart [of t2 t3 i2 i3] get_set_apart [of t2 t4 i2 i4] w lt by auto
  have n: "2 + 2 = (4 :: nat)" "1 + 2 = (3 :: nat)" "0 + 2 = (2 :: nat)" by simp_all
  have i: "table_index (2 + 2) a = i4" "table_index (1 + 2) a = i3" "table_index (0 + 2) a = i2"
    unfolding n by (simp_all add: i4_def i3_def i2_def)
  have e: "table_index (2 + 2) e = i4" "table_index (1 + 2) e = i3" "table_index (0 + 2) e = i2"
    unfolding n i4_def i3_def i2_def by (rule assms(2), simp)+
  have c: "get_entry t4 i4 s AND OS_CRAWLABLE \<noteq> 0" "get_entry t3 i3 s4 AND OS_CRAWLABLE \<noteq> 0"
    "get_entry t2 i2 s3 AND OS_CRAWLABLE \<noteq> 0"
    using w g3 g2 by (simp_all add: crawlable_def i4_def i3_def i2_def)
  have "crawl_tables pl km cd cp ker (Suc 2) a e t4 s =
      crawl_tables pl km cd cp ker 2 a e t3 s4"
    using crawl_present [OF i(1) e(1) c(1)] w assms(3) by (simp add: i4_def s4_def)
  also have "\<dots> = crawl_tables pl km cd cp ker (Suc 1) a e t3 s4" by (simp only: Suc_1)
  also have "\<dots> = crawl_tables pl km cd cp ker 1 a e t2 s3"
    using crawl_present [OF i(2) e(2) c(2)] w assms(3) g3 by (simp add: i3_def s3_def)
  also have "\<dots> = crawl_tables pl km cd cp ker (Suc 0) a e t2 s3" by (simp only: One_nat_def)
  also have "\<dots> = crawl_tables pl km cd cp ker 0 a e t1 s2"
    using crawl_present [OF i(3) e(3) c(3)] w assms(3) g2 by (simp add: i2_def s2_def)
  also have "\<dots> = crawl_tables_lvl1 cp a e t1 s2" by (simp add: crawl_tables.simps)
  also have "s2 = touched cd t4 a s"
    using w(1) by (simp add: touched_def s2_def s3_def s4_def i4_def i3_def i2_def)
  finally show ?thesis using w(1) by (simp add: numeral_3_eq_3)
qed

lemma crawl_one:
  assumes "tables_present t4 a s" "a AND mask 12 = 0" "\<And>e. cd e AND address_mask = e AND address_mask"
  shows "crawl_tables pl km cd cp ker 3 a (a - 1 + 4096) t4 s =
    andthen (cp (last (way t4 a s)) (table_index 1 a)) (\<lambda>_. ret ()) (touched cd t4 a s)"
proof -
  have "table_index lv (a - 1 + 4096) = table_index lv a" if "lv \<in> {1, 2, 3, 4}" for lv
    by (rule one_page_index [OF assms(2) that])
  then show ?thesis
    using crawl_same [where e = "a - 1 + 4096", OF assms(1) _ assms(3)] by (simp add: crawl_tables_lvl1_def Let_def)
qed

lemma back_dir_flags:
  assumes "f AND 128 = 0" "f AND address_mask = 0"
  shows "back_dir f e AND address_mask = e AND address_mask" "is_P (back_dir f e)" "is_RW (back_dir f e)"
    "is_PS (back_dir f e) \<longleftrightarrow> is_PS e" "crawlable e \<Longrightarrow> crawlable (back_dir f e)"
proof -
  have m: "(3 :: u64) AND address_mask = 0" by (simp add: address_mask_def)
  have "(e OR (3 OR f)) AND address_mask = (e AND address_mask) OR ((3 AND address_mask) OR (f AND address_mask))"
    by (simp add: bit.conj_disj_distrib2)
  then show "back_dir f e AND address_mask = e AND address_mask" using m assms(2) by (simp add: back_dir_def)
  have b3: "bit (3 :: u64) n \<longleftrightarrow> n < 2" for n
    using bit_mask_iff [of 2 n, where 'a = "64 word"] by (auto simp: mask_eq_exp_minus_1)
  show "is_P (back_dir f e)" "is_RW (back_dir f e)"
    unfolding flag_bits by (simp_all add: back_dir_def bit_or_iff b3)
  have "f AND push_bit 7 1 = 0" using assms(1) by (simp add: push_bit_eq_mult)
  then have "\<not> bit f 7"
    by (metis and_exp_eq_0_iff_not_bit push_bit_of_1)
  then show ps: "is_PS (back_dir f e) \<longleftrightarrow> is_PS e"
    unfolding flag_bits by (simp add: back_dir_def bit_or_iff b3)
  show "crawlable (back_dir f e)" if "crawlable e"
  proof -
    have "back_dir f e AND OS_CRAWLABLE \<noteq> 0"
    proof
      assume "back_dir f e AND OS_CRAWLABLE = 0"
      then have "e AND OS_CRAWLABLE = 0" unfolding back_dir_def
        by (metis bit.conj_disj_distrib2 or_eq_0_iff)
      then show False using that by (simp add: crawlable_def)
    qed
    with ps that show ?thesis by (simp add: crawlable_def)
  qed
qed

lemma touched_entries:
  assumes "tables_present t4 a s" "way t4 a s = [t4, t3, t2, t1]"
  shows "get_entry t4 (table_index 4 a) (touched cd t4 a s) = cd (get_entry t4 (table_index 4 a) s)"
    "get_entry t3 (table_index 3 a) (touched cd t4 a s) = cd (get_entry t3 (table_index 3 a) s)"
    "get_entry t2 (table_index 2 a) (touched cd t4 a s) = cd (get_entry t2 (table_index 2 a) s)"
    "get_entry t1 (table_index 1 a) (touched cd t4 a s) = get_entry t1 (table_index 1 a) s"
    "palloc (touched cd t4 a s) = palloc s"
    "x \<notin> {entry_addr t4 (table_index 4 a), entry_addr t3 (table_index 3 a), entry_addr t2 (table_index 2 a)} \<Longrightarrow>
      pm (touched cd t4 a s) x = pm s x"
proof -
  obtain "distinct [t4, t3, t2, t1]" "table_base t4" "table_base t3" "table_base t2" "table_base t1"
    using way_cases [OF assms(1)] assms(2) by (metis list.inject)
  moreover note get_set_apart [OF _ _ _ table_index_less table_index_less]
  moreover have "touched cd t4 a s =
     set_entry t2 (table_index 2 a) (cd (get_entry t2 (table_index 2 a) s))
      (set_entry t3 (table_index 3 a) (cd (get_entry t3 (table_index 3 a) s))
        (set_entry t4 (table_index 4 a) (cd (get_entry t4 (table_index 4 a) s)) s))"
    using assms(2) by (simp add: touched_def)
  ultimately show
    "get_entry t4 (table_index 4 a) (touched cd t4 a s) = cd (get_entry t4 (table_index 4 a) s)"
    "get_entry t3 (table_index 3 a) (touched cd t4 a s) = cd (get_entry t3 (table_index 3 a) s)"
    "get_entry t2 (table_index 2 a) (touched cd t4 a s) = cd (get_entry t2 (table_index 2 a) s)"
    "get_entry t1 (table_index 1 a) (touched cd t4 a s) = get_entry t1 (table_index 1 a) s"
    "palloc (touched cd t4 a s) = palloc s"
    by auto
  show "x \<notin> {entry_addr t4 (table_index 4 a), entry_addr t3 (table_index 3 a), entry_addr t2 (table_index 2 a)} \<Longrightarrow>
      pm (touched cd t4 a s) x = pm s x"
    using assms(2) by (simp add: touched_def set_entry_def)
qed

lemma walk_entries:
  assumes "is_P (get_entry t4 (table_index 4 a) s)" "get_entry t4 (table_index 4 a) s AND address_mask = t3"
    "is_P (get_entry t3 (table_index 3 a) s)" "\<not> is_PS (get_entry t3 (table_index 3 a) s)"
    "get_entry t3 (table_index 3 a) s AND address_mask = t2"
    "is_P (get_entry t2 (table_index 2 a) s)" "\<not> is_PS (get_entry t2 (table_index 2 a) s)"
    "get_entry t2 (table_index 2 a) s AND address_mask = t1"
  shows "hw_walk 4 (pm s) t4 a True =
    (if is_P (get_entry t1 (table_index 1 a) s)
     then Some (is_RW (get_entry t4 (table_index 4 a) s) \<and> is_RW (get_entry t3 (table_index 3 a) s) \<and>
         is_RW (get_entry t2 (table_index 2 a) s) \<and> is_RW (get_entry t1 (table_index 1 a) s),
       (get_entry t1 (table_index 1 a) s AND address_mask) OR (a AND mask 12))
     else None)"
proof -
  have four: "4 = Suc (Suc (Suc (Suc 0)))" by simp
  have h: "pm s (t + 8 * tindex (Suc (Suc (Suc (Suc 0)))) a) = get_entry t (table_index 4 a) s"
    "pm s (t + 8 * tindex (Suc (Suc (Suc 0))) a) = get_entry t (table_index 3 a) s"
    "pm s (t + 8 * tindex (Suc (Suc 0)) a) = get_entry t (table_index 2 a) s"
    "pm s (t + 8 * tindex (Suc 0) a) = get_entry t (table_index 1 a) s" for t
    by (simp_all add: get_entry_def entry_addr_index numeral_eq_Suc)
  have "hw_walk 4 (pm s) t4 a True = hw_walk (Suc (Suc (Suc (Suc 0)))) (pm s) t4 a True" by (simp only: four)
  also have "\<dots> = (if is_P (get_entry t1 (table_index 1 a) s)
     then Some (is_RW (get_entry t4 (table_index 4 a) s) \<and> is_RW (get_entry t3 (table_index 3 a) s) \<and>
         is_RW (get_entry t2 (table_index 2 a) s) \<and> is_RW (get_entry t1 (table_index 1 a) s),
       (get_entry t1 (table_index 1 a) s AND address_mask) OR (a AND mask 12))
     else None)"
    unfolding hw_walk.simps h Let_def using assms by (simp add: page_bits_def address_mask_page)
  finally show ?thesis .
qed

lemma phys_page_base:
  assumes "n < 2 ^ 20"
  shows "table_base (of_nat (n * 4096))"
proof -
  have "(of_nat n :: u64) = of_nat n AND mask 20"
    using assms by (simp add: take_bit_of_nat take_bit_nat_eq_self flip: take_bit_eq_mask)
  then have "(of_nat (n * 4096) :: u64) = push_bit 12 (of_nat n AND mask 20)" by (simp add: push_bit_eq_mult)
  then have "bit (of_nat (n * 4096) :: u64) k \<Longrightarrow> 12 \<le> k \<and> k < 52" for k by (auto simp: bit_simps)
  then have "bit (of_nat (n * 4096) :: u64) k \<and> bit address_mask k \<longleftrightarrow> bit (of_nat (n * 4096) :: u64) k" for k
    using bit_address_mask by blast
  then show ?thesis unfolding table_base_def by (intro bit_word_eqI) (simp add: bit_and_iff del: of_nat_mult)
qed

text \<open>The physical addresses of the four entries on the way to \<open>a\<close>.\<close>

definition entries_on_way :: "u64 \<Rightarrow> u64 \<Rightarrow> vm \<Rightarrow> u64 set" where
  "entries_on_way t4 a s = (case way t4 a s of [t4, t3, t2, t1] \<Rightarrow>
     {entry_addr t4 (table_index 4 a), entry_addr t3 (table_index 3 a),
      entry_addr t2 (table_index 2 a), entry_addr t1 (table_index 1 a)})"

lemma way_kept:
  fixes cd :: "u64 \<Rightarrow> u64" and v :: u64 and s :: vm
  assumes "tables_present t4 a s" "\<And>e. cd e AND address_mask = e AND address_mask"
    "\<And>e. crawlable e \<Longrightarrow> crawlable (cd e)"
  defines "s' \<equiv> set_entry (last (way t4 a s)) (table_index 1 a) v (touched cd t4 a s)"
  shows "way t4 a s' = way t4 a s" "tables_present t4 a s'"
proof -
  obtain t3 t2 t1 where w: "way t4 a s = [t4, t3, t2, t1]" "distinct [t4, t3, t2, t1]"
    "table_base t4" "table_base t3" "table_base t2" "table_base t1"
    "crawlable (get_entry t4 (table_index 4 a) s)" "get_entry t4 (table_index 4 a) s AND address_mask = t3"
    "crawlable (get_entry t3 (table_index 3 a) s)" "get_entry t3 (table_index 3 a) s AND address_mask = t2"
    "crawlable (get_entry t2 (table_index 2 a) s)" "get_entry t2 (table_index 2 a) s AND address_mask = t1"
    using way_cases [OF assms(1)] by blast
  note ap = get_set_apart [OF _ _ _ table_index_less table_index_less]
  have e: "get_entry t4 (table_index 4 a) s' = cd (get_entry t4 (table_index 4 a) s)"
    "get_entry t3 (table_index 3 a) s' = cd (get_entry t3 (table_index 3 a) s)"
    "get_entry t2 (table_index 2 a) s' = cd (get_entry t2 (table_index 2 a) s)"
    using w(2-6) touched_entries [OF assms(1) w(1)] unfolding s'_def w(1) by (auto simp: ap)
  show "way t4 a s' = way t4 a s"
    using w e by (simp add: way_def table_on_way_def Let_def assms(2))
  with w e show "tables_present t4 a s'"
    unfolding tables_present_def by (simp add: assms(3))
qed

lemma palloc_apart [simp]:
  "get_entry t i (s\<lparr>palloc := p\<rparr>) = get_entry t i s"
  "set_entry t i v (s\<lparr>palloc := p\<rparr>) = (set_entry t i v s)\<lparr>palloc := p\<rparr>"
  by (simp_all add: get_entry_def set_entry_def)

lemma way_palloc [simp]: "way t4 a (s\<lparr>palloc := p\<rparr>) = way t4 a s"
  by (simp add: way_def table_on_way_def Let_def)

lemma present_palloc [simp]: "tables_present t4 a (s\<lparr>palloc := p\<rparr>) \<longleftrightarrow> tables_present t4 a s"
  by (auto simp: tables_present_def split: list.split)

text \<open>What the flags of \<^verbatim>\<open>back_vmem\<close> do to an entry.\<close>

lemma flag_part:
  assumes "flags AND 128 = (0 :: u64)"
  shows "(flags AND 0xfff) AND 128 = 0" "(flags AND 0xfff) AND address_mask = 0"
proof -
  show "(flags AND 0xfff) AND 128 = 0" using assms by (simp add: and.assoc)
  have "(0xfff :: u64) AND address_mask = 0" by (simp add: address_mask_def)
  then show "(flags AND 0xfff) AND address_mask = 0" by (simp add: and.assoc)
qed

lemma back_one:
  fixes s :: vm and flags :: u64
  assumes present: "tables_present (get_cr3 pl) a s" and can: "canonical_check a" "a AND mask 12 = 0"
    and fl: "flags AND 128 = 0" and get: "get_page 7 (palloc s) = (n * 4096, p')" "n < 2 ^ 20"
  defines "f \<equiv> flags AND 0xfff"
  defines "u \<equiv> set_entry (last (way (get_cr3 pl) a s)) (table_index 1 a)
     (back_dir f (of_nat (n * 4096))) (touched (back_dir f) (get_cr3 pl) a s)"
  shows "back_vmem pl km a 4096 flags 0 s = (Ret True, u\<lparr>palloc := p'\<rparr>)"
    "hw_walk 4 (pm u) (get_cr3 pl) a True = Some (True, of_nat (n * 4096))"
    "tables_present (get_cr3 pl) a u" "way (get_cr3 pl) a u = way (get_cr3 pl) a s"
    "get_entry (last (way (get_cr3 pl) a s)) (table_index 1 a) u AND address_mask = of_nat (n * 4096)"
    "x \<notin> entries_on_way (get_cr3 pl) a s \<Longrightarrow> pm u x = pm s x"
proof -
  let ?t4 = "get_cr3 pl" and ?v = "of_nat (n * 4096) :: u64"
  note F = back_dir_flags [where f = f, unfolded f_def, OF flag_part [OF fl], folded f_def]
  have b: "?v AND address_mask = ?v" using phys_page_base [OF get(2)] by (simp only: table_base_def)
  obtain t3 t2 t1 where w: "way ?t4 a s = [?t4, t3, t2, t1]" "distinct [?t4, t3, t2, t1]"
    "table_base ?t4" "table_base t3" "table_base t2" "table_base t1"
    "crawlable (get_entry ?t4 (table_index 4 a) s)" "get_entry ?t4 (table_index 4 a) s AND address_mask = t3"
    "crawlable (get_entry t3 (table_index 3 a) s)" "get_entry t3 (table_index 3 a) s AND address_mask = t2"
    "crawlable (get_entry t2 (table_index 2 a) s)" "get_entry t2 (table_index 2 a) s AND address_mask = t1"
    using way_cases [OF present] by blast
  note T = touched_entries [OF present w(1), where cd = "back_dir f"]
  have page: "back_page f t i st = (Ret (), (set_entry t i (back_dir f ?v) st)\<lparr>palloc := p'\<rparr>)"
    if "palloc st = palloc s" for t i st
    using that get(1) b by (simp add: back_page_def back_dir_def or.assoc del: of_nat_mult)
  show "back_vmem pl km a 4096 flags 0 s = (Ret True, u\<lparr>palloc := p'\<rparr>)"
    using can crawl_one [OF present can(2) F(1)] page [OF T(5)]
    by (simp add: back_vmem_def Let_def u_def andthen_def ret_def f_def [symmetric])
  note ap = get_set_apart [OF _ _ _ table_index_less table_index_less]
  have E: "get_entry ?t4 (table_index 4 a) u = back_dir f (get_entry ?t4 (table_index 4 a) s)"
    "get_entry t3 (table_index 3 a) u = back_dir f (get_entry t3 (table_index 3 a) s)"
    "get_entry t2 (table_index 2 a) u = back_dir f (get_entry t2 (table_index 2 a) s)"
    "get_entry t1 (table_index 1 a) u = back_dir f ?v"
    using w(2-6) T unfolding u_def w(1) by (auto simp: ap)
  have "hw_walk 4 (pm u) ?t4 a True = (if is_P (get_entry t1 (table_index 1 a) u)
     then Some (is_RW (get_entry ?t4 (table_index 4 a) u) \<and> is_RW (get_entry t3 (table_index 3 a) u) \<and>
         is_RW (get_entry t2 (table_index 2 a) u) \<and> is_RW (get_entry t1 (table_index 1 a) u),
       (get_entry t1 (table_index 1 a) u AND address_mask) OR (a AND mask 12)) else None)"
    by (rule walk_entries) (use E F w in \<open>auto simp: crawlable_def\<close>)
  then show "hw_walk 4 (pm u) ?t4 a True = Some (True, ?v)" using E F b can(2) by (simp del: of_nat_mult)
  show "way ?t4 a u = way ?t4 a s" "tables_present ?t4 a u"
    unfolding u_def by (rule way_kept [OF present F(1) F(5)], assumption)+
  show "get_entry (last (way ?t4 a s)) (table_index 1 a) u AND address_mask = ?v"
    using E(4) F(1) b w(1) by (simp del: of_nat_mult)
  show "x \<notin> entries_on_way ?t4 a s \<Longrightarrow> pm u x = pm s x"
    using T(6) [of x] w(1) by (auto simp: entries_on_way_def u_def set_entry_def)
qed

lemma walk_entries_None:
  assumes "get_entry t4 (table_index 4 a) s AND address_mask = t3"
    "\<not> is_PS (get_entry t3 (table_index 3 a) s)" "get_entry t3 (table_index 3 a) s AND address_mask = t2"
    "\<not> is_PS (get_entry t2 (table_index 2 a) s)" "get_entry t2 (table_index 2 a) s AND address_mask = t1"
    "\<not> is_P (get_entry t1 (table_index 1 a) s)"
  shows "hw_walk 4 (pm s) t4 a True = None"
proof -
  have four: "4 = Suc (Suc (Suc (Suc 0)))" by simp
  have h: "pm s (t + 8 * tindex (Suc (Suc (Suc (Suc 0)))) a) = get_entry t (table_index 4 a) s"
    "pm s (t + 8 * tindex (Suc (Suc (Suc 0))) a) = get_entry t (table_index 3 a) s"
    "pm s (t + 8 * tindex (Suc (Suc 0)) a) = get_entry t (table_index 2 a) s"
    "pm s (t + 8 * tindex (Suc 0) a) = get_entry t (table_index 1 a) s" for t
    by (simp_all add: get_entry_def entry_addr_index numeral_eq_Suc)
  have "hw_walk 4 (pm s) t4 a True = hw_walk (Suc (Suc (Suc (Suc 0)))) (pm s) t4 a True" by (simp only: four)
  also have "\<dots> = None" unfolding hw_walk.simps h Let_def using assms by simp
  finally show ?thesis .
qed

lemma unback_one:
  fixes s :: vm
  assumes present: "tables_present (get_cr3 pl) a s" and can: "canonical_check a" "a AND mask 12 = 0"
    and e: "get_entry (last (way (get_cr3 pl) a s)) (table_index 1 a) s AND address_mask = of_nat (n * 4096)"
    and n: "n < 2 ^ 20"
  shows "\<exists>s'. unback_vmem pl km a 4096 s = (Ret (), s') \<and> palloc s' = release_page 7 (palloc s) (n * 4096) \<and>
    hw_walk 4 (pm s') (get_cr3 pl) a True = None"
proof -
  let ?t4 = "get_cr3 pl"
  obtain t3 t2 t1 where w: "way ?t4 a s = [?t4, t3, t2, t1]" "distinct [?t4, t3, t2, t1]"
    "table_base ?t4" "table_base t3" "table_base t2" "table_base t1"
    "crawlable (get_entry ?t4 (table_index 4 a) s)" "get_entry ?t4 (table_index 4 a) s AND address_mask = t3"
    "crawlable (get_entry t3 (table_index 3 a) s)" "get_entry t3 (table_index 3 a) s AND address_mask = t2"
    "crawlable (get_entry t2 (table_index 2 a) s)" "get_entry t2 (table_index 2 a) s AND address_mask = t1"
    using way_cases [OF present] by blast
  define e1 where "e1 = get_entry t1 (table_index 1 a) s"
  define u where "u = set_entry t1 (table_index 1 a) (e1 AND NOT 1) (touched id ?t4 a s)"
  note T = touched_entries [OF present w(1), where cd = id]
  have "(e1 AND NOT 1) AND address_mask = e1 AND address_mask"
    by (rule bit_word_eqI) (auto simp: bit_and_iff bit_not_iff bit_1_iff bit_address_mask)
  then have m: "unat ((e1 AND NOT 1) AND address_mask) = n * 4096"
    using e w(1) n by (simp add: e1_def unat_of_nat del: of_nat_mult)
  have r: "unback_vmem pl km a 4096 s = (Ret (), u\<lparr>palloc := release_page 7 (palloc s) (n * 4096)\<rparr>)"
    using can crawl_one [OF present can(2), of id] T(4,5) m w(1)
    by (simp add: unback_vmem_def Let_def andthen_def ret_def unback_page_def u_def e1_def)
  note ap = get_set_apart [OF _ _ _ table_index_less table_index_less]
  have E: "get_entry ?t4 (table_index 4 a) u = get_entry ?t4 (table_index 4 a) s"
    "get_entry t3 (table_index 3 a) u = get_entry t3 (table_index 3 a) s"
    "get_entry t2 (table_index 2 a) u = get_entry t2 (table_index 2 a) s"
    "get_entry t1 (table_index 1 a) u = e1 AND NOT 1"
    using w(2-6) T unfolding u_def by (auto simp: ap)
  have "\<not> is_P (e1 AND NOT 1)" unfolding flag_bits by (simp add: bit_and_iff bit_not_iff bit_1_iff)
  then have "hw_walk 4 (pm u) ?t4 a True = None"
    by (intro walk_entries_None) (use E w in \<open>auto simp: crawlable_def\<close>)
  with r show ?thesis by auto
qed

lemma get_page_number:
  assumes "wf_ph 7 t" "free_at 7 t k"
  obtains n t' where "get_page 7 t = (n * 4096, t')" "n < 2 ^ 20" "free_at 7 t n" "wf_ph 7 t'"
    "\<And>m. free_at 7 t' m \<longleftrightarrow> free_at 7 t m \<and> m \<noteq> n"
proof -
  obtain p t' where g: "get_page 7 t = (p, t')" by fastforce
  show thesis
  proof (rule get_page_cases [OF assms(1) _ g])
    fix n
    assume n: "p = n * 4096" "free_at 7 t n" "wf_ph 7 t'" "\<And>m. free_at 7 t' m \<longleftrightarrow> free_at 7 t m \<and> m \<noteq> n"
    moreover have "n < 2 ^ 20" using free_at_bound [OF n(2) assms(1)] by (simp add: npages_def)
    ultimately show thesis using that g by blast
  qed (use assms(2) in auto)
qed

section \<open>A range of pages in one page table\<close>

lemma low_bits_nat:
  assumes "y < 2 ^ k" "k \<le> 64"
  shows "(of_nat y :: u64) AND NOT (mask k) = 0" "unat (of_nat y :: u64) = y"
proof -
  have y: "y < 2 ^ 64" using assms power_increasing [of k 64 "2 :: nat"] by linarith
  then show u: "unat (of_nat y :: u64) = y" by (simp add: unat_of_nat)
  have "(of_nat y :: u64) = of_nat y AND mask k"
    using assms(1) by (simp add: take_bit_of_nat take_bit_nat_eq_self flip: take_bit_eq_mask)
  then have "(of_nat y :: u64) AND NOT (mask k) = (of_nat y AND mask k) AND NOT (mask k)" by (rule arg_cong)
  also have "\<dots> = 0" by (rule bit_word_eqI) (simp add: bit_simps)
  finally show "(of_nat y :: u64) AND NOT (mask k) = 0" .
qed

lemma region_index:
  fixes h :: u64
  assumes "h AND mask 21 = 0" "y < 2 ^ 21"
  shows "lv \<in> {2, 3, 4} \<Longrightarrow> table_index lv (h + of_nat y) = table_index lv h"
    "table_index 1 (h + of_nat y) = y div 4096"
    "(h + of_nat y) AND mask 12 = of_nat (y mod 4096)"
proof -
  define x where "x = (of_nat y :: u64)"
  note low = low_bits_nat [of y 21, OF assms(2), folded x_def]
  have hb: "bit h n \<Longrightarrow> 21 \<le> n" for n
    using assms(1) by (metis bit_and_iff bit_mask_iff bit_imp_le_length bit_0_eq bot_apply bot_bool_def not_le less_imp_le_nat
      possible_bit_word)
  have xb: "bit x n \<Longrightarrow> n < 21" for n
  proof (rule ccontr)
    assume "bit x n" "\<not> n < 21"
    then have "bit (x AND NOT (mask 21)) n" by (auto simp: bit_simps dest: bit_imp_le_length)
    with low(1) show False by simp
  qed
  have sum: "h + x = h OR x"
    by (rule disjunctive_add) (use hb xb in \<open>meson not_le\<close>)
  show "table_index lv (h + of_nat y) = table_index lv h" if "lv \<in> {2, 3, 4}"
  proof -
    have "tindex lv (h OR x) = tindex lv h"
      using that unfolding tindex_def mask9 by (intro bit_word_eqI) (auto simp: bit_simps dest: xb)
    then show ?thesis by (simp add: table_index_def sum flip: x_def)
  qed
  have "tindex 1 (h OR x) = drop_bit 12 x"
    unfolding tindex_def mask9 by (rule bit_word_eqI) (auto simp: bit_simps dest: hb xb)
  moreover have "unat (drop_bit 12 x) = y div 4096"
    using low(2) by (simp add: drop_bit_eq_div unat_div)
  ultimately show "table_index 1 (h + of_nat y) = y div 4096" by (simp add: table_index_def sum flip: x_def)
  have "(h OR x) AND mask 12 = x AND mask 12"
    by (rule bit_word_eqI) (auto simp: bit_simps dest: hb)
  also have "\<dots> = take_bit 12 x" by (simp only: take_bit_eq_mask)
  also have "\<dots> = of_nat (take_bit 12 y)" by (simp only: x_def take_bit_of_nat)
  also have "take_bit 12 y = y mod 4096" by (simp add: take_bit_nat_def)
  finally show "(h + of_nat y) AND mask 12 = of_nat (y mod 4096)" by (simp add: sum flip: x_def)
qed

text \<open>An address of page \<open>i\<close> of the region of one page table.\<close>

lemma region_split:
  fixes a :: u64
  assumes "a AND mask 12 = 0"
  obtains h where "h AND mask 21 = 0" "a = h + of_nat (table_index 1 a * 4096)"
proof
  show "(a AND NOT (mask 21)) AND mask 21 = 0" by (rule bit_word_eqI) (simp add: bit_simps)
  have z: "12 \<le> n" if "bit a n" for n
  proof (rule ccontr)
    assume "\<not> 12 \<le> n" with that have "bit a n \<and> n < 12" by simp
    then have "bit (a AND mask 12) n" by (auto simp: bit_simps dest: bit_imp_le_length)
    with assms show False by simp
  qed
  have "of_nat (table_index 1 a * 4096) = push_bit 12 (tindex 1 a)"
    by (simp add: table_index_def push_bit_eq_mult)
  moreover have "push_bit 12 (tindex 1 a) = a AND mask 21"
    unfolding tindex_def mask9 by (rule bit_word_eqI) (auto simp: bit_simps le_add_diff_inverse [OF z] dest: z)
  moreover have "(a AND NOT (mask 21)) + (a AND mask 21) = (a AND NOT (mask 21)) OR (a AND mask 21)"
    by (rule disjunctive_add) (simp add: bit_simps)
  moreover have "(a AND NOT (mask 21)) OR (a AND mask 21) = a" by (rule bit_word_eqI) (auto simp: bit_simps)
  ultimately show "a = (a AND NOT (mask 21)) + of_nat (table_index 1 a * 4096)" by (simp only:)
qed

lemma entry_addr_inj:
  assumes "i < 512" "j < 512" "entry_addr t i = entry_addr t j"
  shows "i = j"
proof -
  have "(of_nat (8 * i) :: u64) = of_nat (8 * j)" using assms(3) by (simp add: entry_addr_def)
  then have "unat (of_nat (8 * i) :: u64) = unat (of_nat (8 * j) :: u64)" by (rule arg_cong)
  then show ?thesis using assms(1,2) low_bits_nat(2) [of "8 * i" 12] low_bits_nat(2) [of "8 * j" 12] by simp
qed

lemma back_page_at:
  assumes "get_page 7 (palloc s) = (n * 4096, p')" "n < 2 ^ 20"
  shows "back_page f t i s = (Ret (), (set_entry t i (back_dir f (of_nat (n * 4096))) s)\<lparr>palloc := p'\<rparr>)"
proof -
  have "(of_nat (n * 4096) :: u64) AND address_mask = of_nat (n * 4096)"
    using phys_page_base [OF assms(2)] by (simp only: table_base_def)
  then show ?thesis using assms(1) by (simp add: back_page_def back_dir_def or.assoc del: of_nat_mult)
qed

lemma back_pages:
  assumes "wf_ph 7 (palloc s)" "length js \<le> card {n. free_at 7 (palloc s) n}" "distinct js" "\<forall>j \<in> set js. j < 512"
  shows "\<exists>g s'. for_each js (back_page f t) s = (Ret (), s') \<and> inj_on g (set js) \<and>
    (\<forall>j \<in> set js. free_at 7 (palloc s) (g j) \<and> get_entry t j s' = back_dir f (of_nat (g j * 4096))) \<and>
    wf_ph 7 (palloc s') \<and> (\<forall>n. free_at 7 (palloc s') n \<longleftrightarrow> free_at 7 (palloc s) n \<and> n \<notin> g ` set js) \<and>
    (\<forall>x. x \<notin> entry_addr t ` set js \<longrightarrow> pm s' x = pm s x)"
  using assms
proof (induction js arbitrary: s)
  case Nil
  then show ?case by (simp add: ret_def)
next
  case (Cons j js)
  let ?F = "\<lambda>p. {n. free_at 7 p n}"
  have fin: "finite (?F (palloc s))"
    by (rule finite_subset [of _ "{..<npages 7}"]) (auto dest: free_at_bound [OF _ Cons.prems(1)])
  obtain k where "free_at 7 (palloc s) k"
    using Cons.prems(2) by (metis card.empty empty_Collect_eq length_Cons not_less_zero Suc_le_eq)
  from get_page_number [OF Cons.prems(1) this]
  obtain n p' where g: "get_page 7 (palloc s) = (n * 4096, p')" "n < 2 ^ 20" "free_at 7 (palloc s) n"
    "wf_ph 7 p'" "\<And>m. free_at 7 p' m \<longleftrightarrow> free_at 7 (palloc s) m \<and> m \<noteq> n" by metis
  define s1 where "s1 = (set_entry t j (back_dir f (of_nat (n * 4096))) s)\<lparr>palloc := p'\<rparr>"
  have p1: "palloc s1 = p'" by (simp add: s1_def)
  have "?F p' = ?F (palloc s) - {n}" using g(5) by auto
  then have "length js \<le> card (?F (palloc s1))" using Cons.prems(2) fin g(3) p1 by simp
  moreover have "wf_ph 7 (palloc s1)" using g(4) p1 by simp
  ultimately obtain h s' where IH: "for_each js (back_page f t) s1 = (Ret (), s')" "inj_on h (set js)"
    "\<And>j. j \<in> set js \<Longrightarrow> free_at 7 p' (h j) \<and> get_entry t j s' = back_dir f (of_nat (h j * 4096))"
    "wf_ph 7 (palloc s')" "\<And>n. free_at 7 (palloc s') n \<longleftrightarrow> free_at 7 p' n \<and> n \<notin> h ` set js"
    "\<And>x. x \<notin> entry_addr t ` set js \<Longrightarrow> pm s' x = pm s1 x"
    using Cons.IH [of s1] Cons.prems(3,4) unfolding p1 by fastforce
  define h' where "h' = h(j := n)"
  have j: "j \<notin> set js" "h' ` set js = h ` set js" "h' j = n"
    using Cons.prems(3) by (auto simp: h'_def)
  have "for_each (j # js) (back_page f t) s = (Ret (), s')"
    using IH(1) back_page_at [OF g(1,2)] by (simp add: andthen_def s1_def)
  moreover have "inj_on h' (set (j # js))"
  proof -
    have "n \<notin> h ` set js" using IH(3) g(5) by blast
    moreover have "inj_on h' (set js) \<longleftrightarrow> inj_on h (set js)"
      by (rule inj_on_cong) (use j(1) in \<open>auto simp: h'_def\<close>)
    ultimately show ?thesis using IH(2) j by simp
  qed
  moreover have "\<forall>i \<in> set (j # js). free_at 7 (palloc s) (h' i) \<and> get_entry t i s' = back_dir f (of_nat (h' i * 4096))"
  proof
    fix i assume i: "i \<in> set (j # js)"
    show "free_at 7 (palloc s) (h' i) \<and> get_entry t i s' = back_dir f (of_nat (h' i * 4096))"
    proof (cases "i = j")
      case True
      have "entry_addr t j \<notin> entry_addr t ` set js"
      proof
        assume "entry_addr t j \<in> entry_addr t ` set js"
        then obtain i where "i \<in> set js" "entry_addr t j = entry_addr t i" by blast
        with entry_addr_inj [of j i t] Cons.prems(4) j(1) show False by auto
      qed
      then have "pm s' (entry_addr t j) = pm s1 (entry_addr t j)" by (rule IH(6))
      then show ?thesis using True g(3) by (simp add: h'_def s1_def set_entry_def get_entry_def)
    next
      case False
      then show ?thesis using i IH(3) [of i] g(5) by (simp add: h'_def)
    qed
  qed
  moreover have "free_at 7 (palloc s') m \<longleftrightarrow> free_at 7 (palloc s) m \<and> m \<notin> h' ` set (j # js)" for m
    using IH(5) g(5) j by auto
  moreover have "\<forall>x. x \<notin> entry_addr t ` set (j # js) \<longrightarrow> pm s' x = pm s x"
    using IH(6) by (simp add: s1_def set_entry_def)
  ultimately show ?case using IH(4) by (intro exI [of _ h'] exI [of _ s'] conjI allI) blast+
qed

lemma crawl_lvl1_eq:
  assumes "table_index 1 e = table_index 1 a + k"
  shows "crawl_tables_lvl1 cp a e t = for_each [table_index 1 a..<table_index 1 a + Suc k] (cp t)"
proof -
  have "[table_index 1 a..<table_index 1 a + Suc k] = table_index 1 a # [table_index 1 a + 1..<table_index 1 a + k + 1]"
    by (simp add: upt_conv_Cons)
  moreover have "table_index 1 a = table_index 1 a + k \<longleftrightarrow> k = 0" by simp
  ultimately show ?thesis unfolding crawl_tables_lvl1_def Let_def assms by (cases k) auto
qed

lemma page_offset:
  assumes "n < 2 ^ 20" "k < 4096"
  shows "of_nat (n * 4096) OR (of_nat k :: u64) = of_nat (n * 4096 + k)"
proof -
  have b: "bit (of_nat (n * 4096) :: u64) i \<Longrightarrow> 12 \<le> i" for i
    using table_base_bit [OF phys_page_base [OF assms(1)]] by blast
  define x where "x = (of_nat k :: u64)"
  have x: "x AND NOT (mask 12) = 0" unfolding x_def by (rule low_bits_nat(1)) (use assms(2) in simp_all)
  have "bit x i \<Longrightarrow> i < 12" for i
  proof (rule ccontr)
    assume "bit x i" "\<not> i < 12"
    then have "bit (x AND NOT (mask 12)) i" by (auto simp: bit_simps dest: bit_imp_le_length)
    with x show False by simp
  qed
  with b have "of_nat (n * 4096) + x = of_nat (n * 4096) OR x"
    by (intro disjunctive_add) (meson not_le)
  then show ?thesis by (simp add: x_def)
qed

text \<open>
  Without a free page \<^verbatim>\<open>get_phpage\<close> answers \<^verbatim>\<open>phalloc_null\<close>, which is not tested: the page is
  mapped to the last physical page, and \<^verbatim>\<open>back_vmem\<close> reports success.
\<close>

lemma back_page_exhausted:
  assumes "wf_ph 7 (palloc s)" "\<And>n. \<not> free_at 7 (palloc s) n"
  shows "\<exists>s'. back_page f t i s = (Ret (), s') \<and> get_entry t i s' = 0xffffffffff003 OR f"
proof -
  obtain p p' where g: "get_page 7 (palloc s) = (p, p')" by fastforce
  have "p = phalloc_null" by (rule get_page_cases [OF assms(1) _ g]) (use assms(2) in auto)
  then have "(of_nat p AND address_mask) OR 3 = 0xffffffffff003" by (simp add: phalloc_null_def address_mask_def)
  then show ?thesis using g by (simp add: back_page_def)
qed

lemma region_page:
  fixes a :: u64
  assumes "a AND mask 12 = 0" "table_index 1 a + m \<le> 512" "y < m * 4096"
  shows "lv \<in> {2, 3, 4} \<Longrightarrow> table_index lv (a + of_nat y) = table_index lv a"
    "table_index 1 (a + of_nat y) = table_index 1 a + y div 4096"
    "(a + of_nat y) AND mask 12 = of_nat (y mod 4096)"
proof -
  let ?i = "table_index 1 a"
  obtain h where h: "h AND mask 21 = 0" "a = h + of_nat (?i * 4096)" using region_split [OF assms(1)] by blast
  have at: "a + of_nat z = h + of_nat (?i * 4096 + z)" for z using h(2) by (simp add: algebra_simps)
  have small: "?i * 4096 + z < 2 ^ 21" if "z \<le> y" for z using that assms(2,3) by simp
  show "table_index lv (a + of_nat y) = table_index lv a" if "lv \<in> {2, 3, 4}"
    using region_index(1) [OF h(1) small [of y] that] region_index(1) [OF h(1) small [of 0] that] h(2)
    unfolding at by simp
  show "table_index 1 (a + of_nat y) = ?i + y div 4096" "(a + of_nat y) AND mask 12 = of_nat (y mod 4096)"
    using region_index(2,3) [OF h(1) small [of y]] unfolding at by simp_all
qed

text \<open>The walk through four entries that \<^verbatim>\<open>back_dir\<close> has written, the last of them for a page.\<close>

lemma backed_walk:
  assumes f: "f AND 128 = 0" "f AND address_mask = 0"
    and way: "crawlable e4" "e4 AND address_mask = t3" "crawlable e3" "e3 AND address_mask = t2"
      "crawlable e2" "e2 AND address_mask = t1"
    and entries: "get_entry t4 (table_index 4 a) s = back_dir f e4" "get_entry t3 (table_index 3 a) s = back_dir f e3"
      "get_entry t2 (table_index 2 a) s = back_dir f e2" "get_entry t1 (table_index 1 a) s = back_dir f (of_nat (n * 4096))"
    and page: "n < 2 ^ 20" "a AND mask 12 = of_nat k" "k < 4096"
  shows "hw_walk 4 (pm s) t4 a True = Some (True, of_nat (n * 4096 + k))"
proof -
  note F = back_dir_flags [OF f]
  have b: "of_nat (n * 4096) AND address_mask = (of_nat (n * 4096) :: u64)"
    using phys_page_base [OF page(1)] by (simp only: table_base_def)
  have "hw_walk 4 (pm s) t4 a True =
      (if is_P (get_entry t1 (table_index 1 a) s)
       then Some (is_RW (get_entry t4 (table_index 4 a) s) \<and> is_RW (get_entry t3 (table_index 3 a) s) \<and>
           is_RW (get_entry t2 (table_index 2 a) s) \<and> is_RW (get_entry t1 (table_index 1 a) s),
         (get_entry t1 (table_index 1 a) s AND address_mask) OR (a AND mask 12)) else None)"
    by (rule walk_entries) (use entries F way in \<open>simp_all add: crawlable_def\<close>)
  then show ?thesis using entries F b page_offset [OF page(1,3)] page(2) by (simp del: of_nat_mult of_nat_add)
qed

text \<open>Below one page table, the crawl is one loop over entries of that table.\<close>

lemma back_vmem_loop:
  assumes present: "tables_present (get_cr3 pl) a s" and way: "way (get_cr3 pl) a s = [get_cr3 pl, t3, t2, t1]"
    and can: "canonical_check a" "a AND mask 12 = 0" and fl: "flags AND 128 = 0"
    and m: "0 < m" "table_index 1 a + m \<le> 512"
  shows "back_vmem pl km a (of_nat (m * 4096)) flags 0 s =
    andthen (for_each [table_index 1 a..<table_index 1 a + m] (back_page (flags AND 0xfff) t1)) (\<lambda>_. ret True)
      (touched (back_dir (flags AND 0xfff)) (get_cr3 pl) a s)"
proof -
  let ?t4 = "get_cr3 pl" and ?i = "table_index 1 a"
  define f where "f = flags AND 0xfff"
  note F = back_dir_flags [where f = f, unfolded f_def, OF flag_part [OF fl], folded f_def]
  note same = region_page(1) [OF can(2) m(2)] and first = region_page(2,3) [OF can(2) m(2)]
  define e where "e = a - 1 + of_nat (m * 4096)"
  have e: "e = a + of_nat (m * 4096 - 1)" using m(1) by (simp add: e_def of_nat_diff)
  have last: "table_index 1 e = ?i + (m - 1)" unfolding e using first(1) [of "m * 4096 - 1"] m(1)
    by (cases m) simp_all
  have "crawl_tables pl km (back_dir f) (back_page f) ker 3 a e ?t4 s =
      crawl_tables_lvl1 (back_page f) a e t1 (touched (back_dir f) ?t4 a s)" for ker
    using crawl_same [where e = e, OF present _ F(1)] same [of "m * 4096 - 1"] m(1) way unfolding e by simp
  also have "\<dots> = for_each [?i..<?i + m] (back_page f t1) (touched (back_dir f) ?t4 a s)"
    using crawl_lvl1_eq [OF last, of "back_page f" t1] m(1) by simp
  finally show ?thesis unfolding f_def [symmetric]
    using can(1) by (simp add: back_vmem_def Let_def andthen_def e_def [symmetric] f_def [symmetric] del: of_nat_mult)
qed

section \<open>Properties\<close>

text \<open>
  C23: \<^verbatim>\<open>back_vmem\<close> of \<open>m\<close> pages that lie in one page table, with the tables above present and
  enough free pages: it succeeds, and afterwards every byte of the range is translated,
  writably, into the byte at the same offset of a physical page; these \<open>m\<close> pages are distinct,
  were free before, and are exactly those that stopped being free.
\<close>

theorem back_vmem_maps_range:
  fixes s :: vm and flags :: u64
  assumes present: "tables_present (get_cr3 pl) a s" and can: "canonical_check a" "a AND mask 12 = 0"
    and fl: "flags AND 128 = 0" and wf: "wf_ph 7 (palloc s)"
    and m: "0 < m" "table_index 1 a + m \<le> 512" "m \<le> card {n. free_at 7 (palloc s) n}"
  shows "\<exists>g s'. back_vmem pl km a (of_nat (m * 4096)) flags 0 s = (Ret True, s') \<and> inj_on g {..<m} \<and>
    (\<forall>j < m. free_at 7 (palloc s) (g j)) \<and>
    (\<forall>y < m * 4096. hw_walk 4 (pm s') (get_cr3 pl) (a + of_nat y) True =
      Some (True, of_nat (g (y div 4096) * 4096 + y mod 4096))) \<and>
    wf_ph 7 (palloc s') \<and> (\<forall>n. free_at 7 (palloc s') n \<longleftrightarrow> free_at 7 (palloc s) n \<and> n \<notin> g ` {..<m})"
proof -
  let ?t4 = "get_cr3 pl" and ?i = "table_index 1 a"
  define f where "f = flags AND 0xfff"
  note F = back_dir_flags [where f = f, unfolded f_def, OF flag_part [OF fl], folded f_def]
  obtain t3 t2 t1 where w: "way ?t4 a s = [?t4, t3, t2, t1]" "distinct [?t4, t3, t2, t1]"
    "table_base ?t4" "table_base t3" "table_base t2" "table_base t1"
    "crawlable (get_entry ?t4 (table_index 4 a) s)" "get_entry ?t4 (table_index 4 a) s AND address_mask = t3"
    "crawlable (get_entry t3 (table_index 3 a) s)" "get_entry t3 (table_index 3 a) s AND address_mask = t2"
    "crawlable (get_entry t2 (table_index 2 a) s)" "get_entry t2 (table_index 2 a) s AND address_mask = t1"
    using way_cases [OF present] by blast
  note same = region_page(1) [OF can(2) m(2)] and first = region_page(2,3) [OF can(2) m(2)]
  define js where "js = [?i..<?i + m]"
  define s1 where "s1 = touched (back_dir f) ?t4 a s"
  note T = touched_entries [OF present w(1), where cd = "back_dir f", folded s1_def]
  have run: "back_vmem pl km a (of_nat (m * 4096)) flags 0 s =
      andthen (for_each js (back_page f t1)) (\<lambda>_. ret True) s1"
    unfolding f_def js_def s1_def by (rule back_vmem_loop [OF present w(1) can fl m(1,2)])
  obtain g s' where B: "for_each js (back_page f t1) s1 = (Ret (), s')" "inj_on g (set js)"
    "\<And>j. j \<in> set js \<Longrightarrow> free_at 7 (palloc s) (g j) \<and> get_entry t1 j s' = back_dir f (of_nat (g j * 4096))"
    "wf_ph 7 (palloc s')" "\<And>n. free_at 7 (palloc s') n \<longleftrightarrow> free_at 7 (palloc s) n \<and> n \<notin> g ` set js"
    "\<And>x. x \<notin> entry_addr t1 ` set js \<Longrightarrow> pm s' x = pm s1 x"
    using back_pages [of s1 js f t1] wf m T(5) unfolding js_def by auto
  have keep: "pm s' (entry_addr t i) = pm s1 (entry_addr t i)" if "table_base t" "t \<noteq> t1" "i < 512" for t i
  proof (rule B(6), rule notI)
    assume "entry_addr t i \<in> entry_addr t1 ` set js"
    then obtain j where j: "j \<in> set js" "entry_addr t i = entry_addr t1 j" by (elim imageE)
    then have "j < 512" using m(2) by (simp add: js_def)
    with j entry_addr_apart [OF that(1) w(6) that(2,3)] show False by blast
  qed
  have E: "get_entry ?t4 (table_index 4 a) s' = back_dir f (get_entry ?t4 (table_index 4 a) s)"
    "get_entry t3 (table_index 3 a) s' = back_dir f (get_entry t3 (table_index 3 a) s)"
    "get_entry t2 (table_index 2 a) s' = back_dir f (get_entry t2 (table_index 2 a) s)"
    using w(2-6) T keep unfolding get_entry_def by auto
  have walk: "hw_walk 4 (pm s') ?t4 (a + of_nat y) True =
      Some (True, of_nat (g (?i + y div 4096) * 4096 + y mod 4096))" if y: "y < m * 4096" for y
  proof -
    have j: "y div 4096 < m" using y by (simp add: div_less_iff_less_mult)
    then have gj: "free_at 7 (palloc s) (g (?i + y div 4096))"
      "get_entry t1 (?i + y div 4096) s' = back_dir f (of_nat (g (?i + y div 4096) * 4096))"
      using B(3) [of "?i + y div 4096"] by (simp_all add: js_def)
    have n: "g (?i + y div 4096) < 2 ^ 20" using free_at_bound [OF gj(1) wf] by (simp add: npages_def)
    have idx: "table_index 4 (a + of_nat y) = table_index 4 a" "table_index 3 (a + of_nat y) = table_index 3 a"
      "table_index 2 (a + of_nat y) = table_index 2 a" by (rule same [OF y], simp)+
    show ?thesis
      by (rule backed_walk [OF flag_part [OF fl, folded f_def] w(7-12)], unfold idx first [OF y])
        (use E gj(2) n in simp_all)
  qed
  have js: "set js = (\<lambda>j. ?i + j) ` {..<m}" "\<And>j. j < m \<Longrightarrow> ?i + j \<in> set js"
    by (simp_all add: js_def lessThan_atLeast0 add.commute)
  show ?thesis
  proof (intro exI conjI allI impI)
    show "back_vmem pl km a (of_nat (m * 4096)) flags 0 s = (Ret True, s')"
      unfolding run by (simp add: andthen_def B(1) ret_def)
    show "inj_on (\<lambda>j. g (?i + j)) {..<m}"
      using B(2) unfolding js by (simp add: inj_on_def)
    show "free_at 7 (palloc s) (g (?i + j))" if "j < m" for j using B(3) js(2) [OF that] by blast
    show "wf_ph 7 (palloc s')" by (rule B(4))
    show "free_at 7 (palloc s') n \<longleftrightarrow> free_at 7 (palloc s) n \<and> n \<notin> (\<lambda>j. g (?i + j)) ` {..<m}" for n
      unfolding B(5) js by (simp add: image_image)
    show "hw_walk 4 (pm s') ?t4 (a + of_nat y) True =
        Some (True, of_nat (g (?i + y div 4096) * 4096 + y mod 4096))" if y: "y < m * 4096" for y
      using walk y by simp
  qed
qed

text \<open>
  Where the tables on the way to a page are present and a physical page is free,
  \<^verbatim>\<open>back_vmem\<close> of this page succeeds; afterwards the processor translates the page, writably,
  to a page that was free and is free no longer, no other page has changed hands, and no
  memory but the four entries on the way has been written.
\<close>

lemma back_vmem_maps_free_page:
  assumes "tables_present (get_cr3 pl) a s" "canonical_check a" "a AND mask 12 = 0" "flags AND 128 = 0"
    "wf_ph 7 (palloc s)" "free_at 7 (palloc s) k"
  shows "\<exists>n s'. back_vmem pl km a 4096 flags 0 s = (Ret True, s') \<and>
    free_at 7 (palloc s) n \<and> wf_ph 7 (palloc s') \<and>
    (\<forall>m. free_at 7 (palloc s') m \<longleftrightarrow> free_at 7 (palloc s) m \<and> m \<noteq> n) \<and>
    hw_walk 4 (pm s') (get_cr3 pl) a True = Some (True, of_nat (n * 4096)) \<and>
    (\<forall>x. x \<notin> entries_on_way (get_cr3 pl) a s \<longrightarrow> pm s' x = pm s x)"
proof -
  obtain n p' where g: "get_page 7 (palloc s) = (n * 4096, p')" "n < 2 ^ 20" "free_at 7 (palloc s) n"
    "wf_ph 7 p'" "\<And>m. free_at 7 p' m \<longleftrightarrow> free_at 7 (palloc s) m \<and> m \<noteq> n"
    using get_page_number [OF assms(5,6)] by blast
  note B = back_one [OF assms(1-4) g(1,2)]
  show ?thesis
    by (intro exI conjI, rule B(1)) (use B(2,6) g in \<open>auto simp del: of_nat_mult\<close>)
qed

text \<open>
  C24: unmapping the page that was just backed removes the translation and gives the physical
  page back: the free pages are those before \<^verbatim>\<open>back_vmem\<close>.
\<close>

theorem back_unback_roundtrip:
  assumes "tables_present (get_cr3 pl) a s" "canonical_check a" "a AND mask 12 = 0" "flags AND 128 = 0"
    "wf_ph 7 (palloc s)" "free_at 7 (palloc s) k"
  shows "\<exists>s1 s2. back_vmem pl km a 4096 flags 0 s = (Ret True, s1) \<and>
    unback_vmem pl km a 4096 s1 = (Ret (), s2) \<and> hw_walk 4 (pm s2) (get_cr3 pl) a True = None \<and>
    wf_ph 7 (palloc s2) \<and> (\<forall>m. free_at 7 (palloc s2) m \<longleftrightarrow> free_at 7 (palloc s) m)"
proof -
  obtain n p' where g: "get_page 7 (palloc s) = (n * 4096, p')" "n < 2 ^ 20" "free_at 7 (palloc s) n"
    "wf_ph 7 p'" "\<And>m. free_at 7 p' m \<longleftrightarrow> free_at 7 (palloc s) m \<and> m \<noteq> n"
    using get_page_number [OF assms(5,6)] by blast
  note B = back_one [OF assms(1-4) g(1,2)]
  have "n * 4096 < npages 7 * 4096" using g(2) by (simp add: npages_def)
  note R = release_page_spec [OF g(4) this]
  obtain u where u: "back_vmem pl km a 4096 flags 0 s = (Ret True, u\<lparr>palloc := p'\<rparr>)"
    "tables_present (get_cr3 pl) a u" "way (get_cr3 pl) a u = way (get_cr3 pl) a s"
    "get_entry (last (way (get_cr3 pl) a s)) (table_index 1 a) u AND address_mask = of_nat (n * 4096)"
    using B(1,3,4,5) by blast
  have "tables_present (get_cr3 pl) a (u\<lparr>palloc := p'\<rparr>)" using u(2) by simp
  moreover have "get_entry (last (way (get_cr3 pl) a (u\<lparr>palloc := p'\<rparr>))) (table_index 1 a) (u\<lparr>palloc := p'\<rparr>)
      AND address_mask = of_nat (n * 4096)"
    using u(3,4) by (simp del: of_nat_mult)
  ultimately obtain s2 where "unback_vmem pl km a 4096 (u\<lparr>palloc := p'\<rparr>) = (Ret (), s2)"
    "palloc s2 = release_page 7 (palloc (u\<lparr>palloc := p'\<rparr>)) (n * 4096)" "hw_walk 4 (pm s2) (get_cr3 pl) a True = None"
    using unback_one [OF _ assms(2,3) _ g(2)] by blast
  with u(1) R g(3,5) show ?thesis by auto
qed

text \<open>A machine with one chain of four tables.\<close>

definition chain_memory :: "u64 \<Rightarrow> u64" where
  "chain_memory x = (if x = 0x1000 then 0x2203 else if x = 0x2000 then 0x3203 else if x = 0x3000 then 0x4203 else 0)"

definition chain_vm :: vm where
  "chain_vm = \<lparr>pm = chain_memory, palloc = new_ph_tree 7, kvmem_alloc = new_buddy 18, repo_offset = 0\<rparr>"

definition chain_platform :: platform where
  "chain_platform = \<lparr>get_cr3 = 0x1000, kpt_repo = (\<lambda>i. 0x800000 + 4096 * of_nat i)\<rparr>"

lemma chain_present: "tables_present (get_cr3 chain_platform) 0 chain_vm"
  by (simp add: tables_present_def way_def table_on_way_def Let_def chain_platform_def chain_vm_def get_entry_def
    entry_addr_def table_index_def tindex_def chain_memory_def address_mask_def table_base_def crawlable_def
    OS_CRAWLABLE_def is_PS_def)

theorem back_unback_roundtrip_witness:
  "\<exists>s1 s2. back_vmem chain_platform (kmmap 3 chain_platform 0 4096) 0 4096 4 0 chain_vm = (Ret True, s1) \<and>
    unback_vmem chain_platform (kmmap 3 chain_platform 0 4096) 0 4096 s1 = (Ret (), s2)"
proof -
  have "free_at 7 (palloc chain_vm) 0" "wf_ph 7 (palloc chain_vm)"
    using new_ph_tree_spec [of 7] by (simp_all add: chain_vm_def npages_def)
  from back_unback_roundtrip [OF chain_present _ _ _ this(2,1), where flags = 4 and km = "kmmap 3 chain_platform 0 4096"]
  show ?thesis by (fastforce simp: canonical_check_def)
qed

theorem back_vmem_maps_range_witness:
  "\<exists>g s'. back_vmem chain_platform (kmmap 3 chain_platform 0 4096) 0 (of_nat (3 * 4096)) 0 0 chain_vm = (Ret True, s') \<and>
    inj_on g {..<3::nat} \<and> hw_walk 4 (pm s') (get_cr3 chain_platform) (0 + of_nat 8195) True = Some (True, of_nat (g 2 * 4096 + 3))"
proof -
  have wf: "wf_ph 7 (palloc chain_vm)" and free: "free_at 7 (palloc chain_vm) n \<longleftrightarrow> n < npages 7" for n
    using new_ph_tree_spec [of 7] by (simp_all add: chain_vm_def)
  have "{n. free_at 7 (palloc chain_vm) n} = {..<npages 7}" using free by auto
  then have "3 \<le> card {n. free_at 7 (palloc chain_vm) n}" by (simp add: npages_def)
  from back_vmem_maps_range [OF chain_present _ _ _ wf _ _ this, where flags = 0 and km = "kmmap 3 chain_platform 0 4096"]
  obtain g s' where B: "back_vmem chain_platform (kmmap 3 chain_platform 0 4096) 0 (of_nat (3 * 4096)) 0 0 chain_vm = (Ret True, s')"
    "inj_on g {..<3::nat}" "\<And>y. y < 3 * 4096 \<Longrightarrow> hw_walk 4 (pm s') (get_cr3 chain_platform) (0 + of_nat y) True =
      Some (True, of_nat (g (y div 4096) * 4096 + y mod 4096))"
    by (auto simp: canonical_check_def table_index_def tindex_def simp del: of_nat_mult)
  from B(1,2) B(3) [of 8195] show ?thesis by (auto simp del: of_nat_mult of_nat_add)
qed


end
