(* ===== verification/Vfs.thy ===== *)
theory Vfs
  imports FileSys
begin

text \<open>
  The tree of file systems of the kernel: the device file system (kernel/fs/devfs.cc), the root
  file system with its mount points (kernel/fs/rootfs.cc), and their composition with the FAT
  driver as \<^verbatim>\<open>kernel_main\<close> mounts them. Iterators of mounted file systems are called through the
  virtual functions of \<^verbatim>\<open>dir_iterator\<close>, here a record of operations on the iterator \<open>'x\<close>
  and on the state \<open>'w\<close> that the file systems share.
\<close>

section \<open>The device file system\<close>

text \<open>A serial driver is its port and its count of open files; of the screen only the count matters.\<close>

record devfs =
  pdarr :: "(nat \<times> nat) option list"
  td :: "nat option"

definition new_devfs :: devfs where
  "new_devfs = \<lparr>pdarr = replicate 32 None, td = None\<rparr>"

fun attach_loop :: "nat \<Rightarrow> (nat \<times> nat) option list \<Rightarrow> (nat \<times> nat) option list option" where
  "attach_loop x [] = None"
| "attach_loop x (p # ps) = (if p = None then Some (Some (x, 0) # ps) else map_option (\<lambda>qs. p # qs) (attach_loop x ps))"

definition attach_serial :: "nat \<Rightarrow> devfs \<Rightarrow> bool \<times> devfs" where
  "attach_serial port v = (case attach_loop port (pdarr v) of
     Some ps \<Rightarrow> (True, v\<lparr>pdarr := ps\<rparr>) | None \<Rightarrow> (False, v))"

definition attach_tty :: "devfs \<Rightarrow> bool \<times> devfs" where
  "attach_tty v = (if td v = None then (True, v\<lparr>td := Some 0\<rparr>) else (False, v))"

text \<open>The argument and a literal, both with their final zero, in memory at 8 and behind.\<close>

definition two_strings :: "cstring \<Rightarrow> cstring \<Rightarrow> memory" where
  "two_strings str lit = demo_mem 8 (str @ [0] @ lit @ [0])"

definition ser_name :: cstring where "ser_name = [115, 101, 114]"
definition tty0_name :: cstring where "tty0_name = [116, 116, 121, 48]"

text \<open>\<^verbatim>\<open>str == strstr(str, "ser")\<close>, the number that follows, and \<^verbatim>\<open>strcmp(str, "tty0") == 0\<close>.\<close>

definition is_ser :: "cstring \<Rightarrow> bool outcome" where
  "is_ser str = obind (strstr (two_strings str ser_name) 8 (9 + length str)) (\<lambda>r. Ret (r = 8))"

definition ser_number :: "cstring \<Rightarrow> int outcome" where
  "ser_number str = obind (strtol (two_strings str ser_name) 8 10) (\<lambda>(l, e). Ret l)"

definition is_tty0 :: "cstring \<Rightarrow> bool outcome" where
  "is_tty0 str = obind (strcmp (two_strings str tty0_name) 8 (9 + length str)) (\<lambda>r. Ret (r = 0))"

definition serial_there :: "int \<Rightarrow> devfs \<Rightarrow> bool" where
  "serial_there l v \<longleftrightarrow> l \<ge> 0 \<and> l < 32 \<and> pdarr v ! nat l \<noteq> None"

definition devfs_push :: "cstring \<Rightarrow> (devfs, drit_status) action" where
  "devfs_push str v =
    (obind (is_ser str) (\<lambda>ser.
       if ser then obind (ser_number str) (\<lambda>l. Ret (if serial_there l v then FILE_ENTRY else NP))
       else obind (is_tty0 str) (\<lambda>tty. Ret (if tty \<and> td v \<noteq> None then FILE_ENTRY else NP))), v)"

text \<open>An open device, with the mode of its handle. Opening counts it.\<close>

datatype device = Serial nat nat | Tty nat

definition get_serial :: "nat \<Rightarrow> nat \<Rightarrow> (devfs, device option) action" where
  "get_serial l mode v = (case pdarr v ! l of
     Some (port, refcnt) \<Rightarrow> (Ret (Some (Serial port mode)), v\<lparr>pdarr := (pdarr v)[l := Some (port, refcnt + 1)]\<rparr>)
   | None \<Rightarrow> (Fault ''null pointer'', v))"

definition get_tty :: "nat \<Rightarrow> (devfs, device option) action" where
  "get_tty mode v = (case td v of
     Some refcnt \<Rightarrow> (Ret (Some (Tty mode)), v\<lparr>td := Some (refcnt + 1)\<rparr>)
   | None \<Rightarrow> (Fault ''null pointer'', v))"

definition of_call :: "'a outcome \<Rightarrow> ('s, 'a) action" where
  "of_call r s = (r, s)"

definition devfs_open :: "cstring \<Rightarrow> nat \<Rightarrow> (devfs, device option) action" where
  "devfs_open str mode = andthen (of_call (is_ser str)) (\<lambda>ser.
     if ser then andthen (of_call (ser_number str)) (\<lambda>l v.
       if serial_there l v then get_serial (nat l) mode v else (Ret None, v))
     else andthen (of_call (is_tty0 str)) (\<lambda>tty v.
       if tty \<and> td v \<noteq> None then get_tty mode v else (Ret None, v)))"

text \<open>
  The name of a serial device is printed to a memory file of 30 bytes, \<open>junk\<close> at first, and ten
  bytes of it are read into \<^verbatim>\<open>buf\<close>, over the final zero that was put there.
\<close>

definition serial_name :: "u8 list \<Rightarrow> nat \<Rightarrow> cstring outcome" where
  "serial_name junk i = (case printf (memfile_write RW) (ser_name @ [37, 100]) [VInt (int i)] (new_memf junk) of
     None \<Rightarrow> Hang
   | Some (r, f) \<Rightarrow> fst (andthen (of_call r) (\<lambda>k.
       andthen (memfile_seek 0 SET) (\<lambda>o'.
       andthen (memfile_read RW 10) (\<lambda>buf.
         if 0 \<in> set buf then ret (c_string buf) else of_call (Fault ''unterminated string'')))) f))"

fun devfs_names :: "(nat \<Rightarrow> u8 list) \<Rightarrow> nat \<Rightarrow> (nat \<times> nat) option list \<Rightarrow> dirlist \<Rightarrow> dirlist outcome" where
  "devfs_names junk i [] acc = Ret acc"
| "devfs_names junk i (p # ps) acc =
    (if p = None then devfs_names junk (i + 1) ps acc
     else obind (serial_name (junk i) i) (\<lambda>n. devfs_names junk (i + 1) ps ((n, False, null64) # acc)))"

definition devfs_list :: "(nat \<Rightarrow> u8 list) \<Rightarrow> (devfs, dirlist) action" where
  "devfs_list junk v =
    (obind (devfs_names junk 0 (pdarr v) []) (\<lambda>l.
       let l = (if td v \<noteq> None then (tty0_name, False, null64) # l else l) in
       if l = [] then Throw Empty_directory else Ret l), v)"

definition devfs_raw :: "(nat \<Rightarrow> u8 list) \<Rightarrow> (devfs, device option) raw_iterator" where
  "devfs_raw junk = \<lparr>
     raw_push = devfs_push,
     raw_pop = ret (),
     raw_depth = (\<lambda>v. 0),
     raw_name = (\<lambda>i. ret []),
     raw_open = devfs_open,
     raw_list = Some (devfs_list junk)\<rparr>"

section \<open>Mount points\<close>

text \<open>An entry of \<^verbatim>\<open>mnts\<close>: the file system, if any, and \<^verbatim>\<open>mountpath\<close>, empty at first.\<close>

type_synonym 'f mntentry = "'f option \<times> cstring"

definition new_rootfs :: "'f mntentry list" where
  "new_rootfs = replicate 256 (None, [])"

fun lookup_loop :: "'f mntentry list \<Rightarrow> nat \<Rightarrow> cstring \<Rightarrow> int" where
  "lookup_loop [] i s = - 1"
| "lookup_loop ((f, p) # es) i s =
    (if f \<noteq> None \<and> p \<noteq> [] \<and> s = p then int i else lookup_loop es (i + 1) s)"

definition lookup_mnt :: "'f mntentry list \<Rightarrow> cstring \<Rightarrow> int" where
  "lookup_mnt mnts s = lookup_loop mnts 0 s"

text \<open>\<^verbatim>\<open>for(; mnts[i].fsys && i < 256; ++i)\<close> reads \<^verbatim>\<open>mnts[256]\<close> before it compares.\<close>

fun free_slot :: "'f mntentry list \<Rightarrow> nat \<Rightarrow> nat outcome" where
  "free_slot [] i = Fault ''out of bounds''"
| "free_slot ((f, p) # es) i = (if f = None then Ret i else free_slot es (i + 1))"

definition mount :: "'f \<Rightarrow> cstring \<Rightarrow> ('f mntentry list, unit) action" where
  "mount tomount mountpath mnts =
    andthen (of_call (free_slot mnts 0)) (\<lambda>i.
      if i = 256 then throw (Eoverflow ''Too many mounts!'')
      else (\<lambda>mnts. (Ret (), mnts[i := (Some tomount, mountpath)]))) mnts"

section \<open>\<^verbatim>\<open>rootfs_dit\<close>\<close>

text \<open>The virtual functions of \<^verbatim>\<open>dir_iterator\<close>.\<close>

record ('x, 'w, 'h) dir_ops =
  enter :: "cstring \<Rightarrow> ('x \<times> 'w, drit_status) action"
  canonical :: "('x \<times> 'w, cstring) action"
  read_link :: "cstring \<Rightarrow> ('x \<times> 'w, cstring) action"
  open_at :: "cstring \<Rightarrow> nat \<Rightarrow> ('x \<times> 'w, 'h) action"
  list_at :: "('x \<times> 'w, dirlist) action"

text \<open>
  \<^verbatim>\<open>drit_stk[0 .. stk_top]\<close>, the top first; a level is an iterator and the index of its mount.
  The entries above \<^verbatim>\<open>stk_top\<close> are never read.
\<close>

type_synonym 'x levels = "('x \<times> nat) list"
type_synonym ('x, 'w, 'a) vfs_call = "('x levels \<times> 'w, 'a) action"

definition on_top :: "('x \<times> 'w, 'a) action \<Rightarrow> ('x, 'w, 'a) vfs_call" where
  "on_top m = (\<lambda>(st, w). case st of
     [] \<Rightarrow> (Fault ''null pointer'', (st, w))
   | (x, i) # st' \<Rightarrow> (case m (x, w) of (r, (x', w')) \<Rightarrow> (r, ((x', i) # st', w'))))"

definition push_mount :: "('f \<Rightarrow> 'w \<Rightarrow> 'x) \<Rightarrow> 'f mntentry list \<Rightarrow> cstring \<Rightarrow> ('x, 'w, drit_status) vfs_call" where
  "push_mount get_iterator mnts path = (\<lambda>(st, w).
    let mntid = lookup_mnt mnts path in
    if mntid \<noteq> - 1 then
      if length st < 32
      then (Ret DIR_ENTRY, ((get_iterator (the (fst (mnts ! nat mntid))) w, nat mntid) # st, w))
      else (Fault ''[rootfs] Indirection overflow'', (st, w))
    else (Ret NP, (st, w)))"

definition rootfs_path :: "('x, 'w, 'h) dir_ops \<Rightarrow> 'f mntentry list \<Rightarrow> ('x, 'w, cstring) vfs_call" where
  "rootfs_path D mnts = (\<lambda>(st, w). case st of
     [] \<Rightarrow> (Ret [47], (st, w))
   | (x, i) # st' \<Rightarrow> andthen (on_top (canonical D)) (\<lambda>p. ret (snd (mnts ! i) @ p)) (st, w))"

text \<open>
  What follows the answer of the iterator. A link is read with the name in the string object
  that the call itself initialises.
\<close>

definition enter_result :: "('f \<Rightarrow> 'w \<Rightarrow> 'x) \<Rightarrow> ('x, 'w, 'h) dir_ops \<Rightarrow> 'f mntentry list \<Rightarrow> cstring \<Rightarrow> drit_status \<Rightarrow> ('x, 'w, drit_status) vfs_call" where
  "enter_result get_iterator D mnts str r = (case r of
     DIR_ENTRY \<Rightarrow> ret DIR_ENTRY
   | LINK_ENTRY \<Rightarrow> of_call (Fault ''uninitialised object'')
   | FILE_ENTRY \<Rightarrow> ret FILE_ENTRY
   | UNDERRUN \<Rightarrow> (\<lambda>(st, w). (Ret DIR_ENTRY, (tl st, w)))
   | NP \<Rightarrow> andthen (rootfs_path D mnts) (\<lambda>p. push_mount get_iterator mnts (p @ str)))"

definition rootfs_enter :: "('f \<Rightarrow> 'w \<Rightarrow> 'x) \<Rightarrow> ('x, 'w, 'h) dir_ops \<Rightarrow> 'f mntentry list \<Rightarrow> cstring \<Rightarrow> ('x, 'w, drit_status) vfs_call" where
  "rootfs_enter get_iterator D mnts str = (\<lambda>(st, w).
    if str = [] then (Ret DIR_ENTRY, (st, w))
    else if st = [] then
      if str = [46] \<or> str = [46, 46] then (Ret DIR_ENTRY, (st, w))
      else push_mount get_iterator mnts (47 # str) (st, w)
    else andthen (on_top (enter D str)) (enter_result get_iterator D mnts str) (st, w))"

definition rootfs_readlink :: "('x, 'w, 'h) dir_ops \<Rightarrow> cstring \<Rightarrow> ('x, 'w, cstring) vfs_call" where
  "rootfs_readlink D str = (\<lambda>(st, w). if st = [] then (Ret [], (st, w)) else on_top (read_link D str) (st, w))"

definition rootfs_open :: "('x, 'w, 'h option) dir_ops \<Rightarrow> cstring \<Rightarrow> nat \<Rightarrow> ('x, 'w, 'h option) vfs_call" where
  "rootfs_open D str mode = (\<lambda>(st, w). if st = [] then (Ret None, (st, w)) else on_top (open_at D str mode) (st, w))"

text \<open>A mount point is listed at the root when no \<^verbatim>\<open>/\<close> follows its first character.\<close>

fun mount_names :: "'f mntentry list \<Rightarrow> dirlist \<Rightarrow> dirlist outcome" where
  "mount_names [] acc = Ret acc"
| "mount_names ((f, p) # es) acc =
    (if f = None then mount_names es acc
     else if p = [] then Fault ''out of bounds''
     else if 47 \<in> set (tl p) then mount_names es acc
     else mount_names es ((tl p, True, 0) # acc))"

definition rootfs_list :: "('x, 'w, 'h) dir_ops \<Rightarrow> 'f mntentry list \<Rightarrow> ('x, 'w, dirlist) vfs_call" where
  "rootfs_list D mnts = (\<lambda>(st, w).
    if st = [] then
      (obind (mount_names mnts [([46, 46], True, 0), ([46], True, null64)])
         (\<lambda>l. Ret ((fst (hd l), fst (snd (hd l)), null64) # tl l)), (st, w))
    else on_top (list_at D) (st, w))"

section \<open>Devices by name\<close>

lemma str_at_list:
  "0 \<notin> set s \<Longrightarrow> (\<And>i. i < length s \<Longrightarrow> load m (p + i) = Some (s ! i)) \<Longrightarrow> load m (p + length s) = Some 0 \<Longrightarrow>
    str_at m p s"
proof (induction s arbitrary: p)
  case (Cons c s)
  have "load m p = Some c" using Cons.prems(2) [of 0] by simp
  moreover have "load m (Suc p + i) = Some (s ! i)" if "i < length s" for i using Cons.prems(2) [of "Suc i"] that by simp
  ultimately show ?case using Cons by simp
qed simp

lemma two_strings_at:
  assumes "0 \<notin> set s" "0 \<notin> set t" "length s + length t < 2 ^ 63"
  shows "str_at (two_strings s t) 8 s" "str_at (two_strings s t) (9 + length s) t"
proof -
  show "str_at (two_strings s t) 8 s"
    by (rule str_at_list) (use assms in \<open>auto simp: two_strings_def demo_mem_def load_def nth_append\<close>)
  show "str_at (two_strings s t) (9 + length s) t"
    by (rule str_at_list) (use assms in \<open>auto simp: two_strings_def demo_mem_def load_def nth_append\<close>)
qed

definition c_name :: "cstring \<Rightarrow> bool" where
  "c_name s \<longleftrightarrow> 0 \<notin> set s \<and> length s < 2 ^ 62"

lemma is_ser_prefix:
  assumes "c_name s"
  shows "is_ser s = Ret (prefix ser_name s)"
proof -
  note at = two_strings_at [of s ser_name, OF _ _ _]
  have at: "str_at (two_strings s ser_name) 8 s" "str_at (two_strings s ser_name) (9 + length s) ser_name"
    using assms two_strings_at [of s ser_name] by (simp_all add: c_name_def ser_name_def)
  obtain r where r: "strstr_loop (two_strings s ser_name) 8 (9 + length s) (length ser_name) = Ret r"
    using strstr_loop_returns [OF at(2,1)] by blast
  note f = strstr_loop_strings [OF at(2,1) r]
  have "r = 8 \<longleftrightarrow> prefix ser_name s"
  proof (cases "\<exists>i < length s. prefix ser_name (drop i s)")
    case True
    with f obtain i where i: "i < length s" "r = 8 + i" "prefix ser_name (drop i s)"
      "\<forall>j < i. \<not> prefix ser_name (drop j s)" by auto
    then show ?thesis by (cases i) auto
  next
    case False
    then have "\<not> prefix ser_name s" by (cases s) (auto simp: ser_name_def)
    then show ?thesis using False f by auto
  qed
  then show ?thesis using r by (simp add: is_ser_def strstr_def strlen_string [OF at(2)])
qed

text \<open>The number is always 0: \<^verbatim>\<open>strtol\<close> starts at the first letter of \<^verbatim>\<open>ser\<close>.\<close>

lemma ser_number_zero:
  assumes "c_name s" "prefix ser_name s"
  shows "ser_number s = Ret 0"
proof -
  obtain u where u: "s = ser_name @ u" using assms(2) by (auto elim: prefixE)
  have "str_at (two_strings s ser_name) 8 s"
    using assms two_strings_at [of s ser_name] by (simp add: c_name_def ser_name_def)
  then have "load (two_strings s ser_name) 8 = Some 115" by (simp add: u ser_name_def)
  moreover have "charValue 10 115 = - 1" by (simp add: charValue_def)
  ultimately show ?thesis by (simp add: ser_number_def strtol_def)
qed

lemma is_tty0_eq:
  assumes "c_name s"
  shows "is_tty0 s = Ret (s = tty0_name)"
proof -
  have at: "str_at (two_strings s tty0_name) 8 s" "str_at (two_strings s tty0_name) (9 + length s) tty0_name"
    using assms two_strings_at [of s tty0_name] by (simp_all add: c_name_def tty0_name_def)
  have "first_delta s tty0_name = 0 \<longleftrightarrow> s = tty0_name"
    by (rule first_delta_zero) (use assms in \<open>simp_all add: c_name_def tty0_name_def\<close>)
  then show ?thesis using strcmp_loop_strings [OF at]
    by (simp add: is_tty0_def strcmp_def sign_of_zero)
qed

definition device_there :: "cstring \<Rightarrow> devfs \<Rightarrow> bool" where
  "device_there s v \<longleftrightarrow> (if prefix ser_name s then pdarr v ! 0 \<noteq> None else s = tty0_name \<and> td v \<noteq> None)"

lemma devfs_push_name:
  "c_name s \<Longrightarrow> devfs_push s v = (Ret (if device_there s v then FILE_ENTRY else NP), v)"
  by (simp add: devfs_push_def is_ser_prefix ser_number_zero is_tty0_eq device_there_def serial_there_def)

lemma devfs_open_name:
  assumes "c_name s"
  shows "devfs_open s mode v = (if prefix ser_name s
    then (if pdarr v ! 0 = None then (Ret None, v) else get_serial 0 mode v)
    else if s = tty0_name \<and> td v \<noteq> None then get_tty mode v else (Ret None, v))"
  using assms by (simp add: devfs_open_def is_ser_prefix ser_number_zero is_tty0_eq serial_there_def
    andthen_def of_call_def)

section \<open>The contract of mounted file systems\<close>

text \<open>
  What the root file system needs of the iterators it calls: \<open>names x\<close> are the directories
  entered since the root of that file system. The laws speak of calls that return; no step of
  one iterator spoils another one of the same file system.
\<close>

locale mounted =
  fixes D :: "('x, 'w, 'h) dir_ops"
    and get_iterator :: "'f \<Rightarrow> 'w \<Rightarrow> 'x"
    and names :: "'x \<Rightarrow> cstring list"
    and ok :: "'x \<Rightarrow> 'w \<Rightarrow> bool"
    and good :: "'w \<Rightarrow> bool"
  assumes fresh: "good w \<Longrightarrow> ok (get_iterator f w) w \<and> names (get_iterator f w) = []"
    and step: "ok x w \<Longrightarrow> enter D n (x, w) = (Ret r, (x', w')) \<Longrightarrow>
      ok x' w' \<and> good w' \<and> names x' = path_step n r (names x) \<and> (\<forall>y. ok y w \<longrightarrow> ok y w')"
    and down: "ok x w \<Longrightarrow> enter D n (x, w) = (Ret DIR_ENTRY, (x', w')) \<Longrightarrow> n = [46, 46] \<Longrightarrow> names x \<noteq> []"
    and underrun: "ok x w \<Longrightarrow> enter D n (x, w) = (Ret UNDERRUN, (x', w')) \<Longrightarrow> n = [46, 46] \<and> names x = []"
    and absent: "ok x w \<Longrightarrow> enter D n (x, w) = (Ret NP, (x', w')) \<Longrightarrow> n \<noteq> [46] \<and> n \<noteq> [46, 46]"
    and path: "ok x w \<Longrightarrow> canonical D (x, w) = (Ret (path_text (names x)), (x, w))"

text \<open>
  The names along a stack: each level was mounted at the path of the levels below it, extended
  by one name.
\<close>

fun vfs_at :: "('x \<Rightarrow> cstring list) \<Rightarrow> 'f mntentry list \<Rightarrow> 'x levels \<Rightarrow> cstring list \<Rightarrow> bool" where
  "vfs_at names mnts [] ns \<longleftrightarrow> ns = []"
| "vfs_at names mnts ((x, i) # st) ns \<longleftrightarrow>
    (\<exists>ms n. vfs_at names mnts st ms \<and> snd (mnts ! i) = path_text ms @ n \<and> ns = ms @ n # names x)"

definition levels_ok :: "('x \<Rightarrow> 'w \<Rightarrow> bool) \<Rightarrow> ('w \<Rightarrow> bool) \<Rightarrow> 'x levels \<times> 'w \<Rightarrow> bool" where
  "levels_ok ok good = (\<lambda>(st, w). good w \<and> (\<forall>(x, i) \<in> set st. ok x w))"

fun vfs_walk :: "('f \<Rightarrow> 'w \<Rightarrow> 'x) \<Rightarrow> ('x, 'w, 'h) dir_ops \<Rightarrow> 'f mntentry list \<Rightarrow> cstring list \<Rightarrow> ('x, 'w, unit) vfs_call" where
  "vfs_walk geti D mnts [] = ret ()"
| "vfs_walk geti D mnts (n # ns) = andthen (rootfs_enter geti D mnts n) (\<lambda>r.
    if r = DIR_ENTRY then vfs_walk geti D mnts ns else throw (Enoent ''not found''))"

text \<open>What entering \<open>n\<close> does to the names; an empty name is no step.\<close>

definition vfs_step :: "cstring \<Rightarrow> cstring list \<Rightarrow> cstring list" where
  "vfs_step n ns = (if n = [] then ns else path_step n DIR_ENTRY ns)"

definition vfs_path :: "cstring list \<Rightarrow> cstring list \<Rightarrow> cstring list" where
  "vfs_path ns path = fold vfs_step path ns"

lemma lookup_loop_found:
  "lookup_loop es i s \<noteq> - 1 \<Longrightarrow>
    \<exists>k < length es. lookup_loop es i s = int (i + k) \<and> fst (es ! k) \<noteq> None \<and> snd (es ! k) = s"
proof (induction es arbitrary: i)
  case (Cons e es)
  obtain f p where e: "e = (f, p)" by fastforce
  show ?case
  proof (cases "f \<noteq> None \<and> p \<noteq> [] \<and> s = p")
    case True
    then show ?thesis by (auto simp: e intro!: exI [of _ 0])
  next
    case False
    with Cons.prems have "lookup_loop es (i + 1) s \<noteq> - 1" by (auto simp: e)
    from Cons.IH [OF this] obtain k where "k < length es" "lookup_loop es (i + 1) s = int (i + 1 + k)"
      "fst (es ! k) \<noteq> None" "snd (es ! k) = s" by blast
    then show ?thesis using False by (intro exI [of _ "Suc k"]) (auto simp: e)
  qed
qed simp

lemma push_mount_cases:
  assumes "push_mount geti mnts p (st, w) = (Ret r, s)"
  obtains "r = NP" "s = (st, w)"
    | i f where "r = DIR_ENTRY" "s = ((geti f w, i) # st, w)" "snd (mnts ! i) = p" "length st < 32"
proof (cases "lookup_mnt mnts p = - 1")
  case True
  with assms that(1) show thesis by (simp add: push_mount_def)
next
  case False
  then obtain k where "lookup_mnt mnts p = int k" "snd (mnts ! k) = p"
    using lookup_loop_found [of mnts 0 p] by (auto simp: lookup_mnt_def)
  with assms that(2) show thesis by (auto simp: push_mount_def Let_def split: if_splits)
qed

lemma path_text_append: "path_text (ms @ n # ns) = path_text ms @ n @ path_text ns"
  by (simp add: path_text_def)

context mounted
begin

lemma rootfs_path_names:
  assumes "levels_ok ok good (st, w)" "vfs_at names mnts st ns"
  shows "rootfs_path D mnts (st, w) = (Ret (path_text ns), (st, w))"
proof (cases st)
  case Nil
  then show ?thesis using assms by (simp add: rootfs_path_def path_text_def)
next
  case (Cons l st')
  obtain x i where l: "l = (x, i)" by fastforce
  obtain ms n where "snd (mnts ! i) = path_text ms @ n" "ns = ms @ n # names x"
    using assms(2) by (auto simp: Cons l)
  moreover have "on_top (canonical D) (st, w) = (Ret (path_text (names x)), (st, w))"
    using assms(1) path by (simp add: on_top_def Cons l levels_ok_def)
  ultimately show ?thesis by (simp add: rootfs_path_def Cons l andthen_def ret_def path_text_append)
qed

lemma mount_step:
  assumes "levels_ok ok good (st, w)" "vfs_at names mnts st ns" "n \<notin> {[], [46], [46, 46]}"
    "push_mount get_iterator mnts (path_text ns @ n) (st, w) = (Ret r, (st', w'))"
  shows "levels_ok ok good (st', w') \<and> (if r = DIR_ENTRY then vfs_at names mnts st' (vfs_step n ns) else vfs_at names mnts st' ns)"
  using assms(4)
proof (cases rule: push_mount_cases)
  case 1
  then show ?thesis using assms by simp
next
  case (2 i f)
  then have s: "st' = (get_iterator f w, i) # st" "w' = w" by simp_all
  have "good w" using assms(1) by (simp add: levels_ok_def)
  with fresh have f: "ok (get_iterator f w) w" "names (get_iterator f w) = []" by blast+
  have "vfs_at names mnts st' (ns @ [n])" using 2 assms(2) f(2) by (auto simp: s)
  moreover have "vfs_step n ns = ns @ [n]" using assms(3) by (simp add: vfs_step_def path_step_def)
  moreover have "levels_ok ok good (st', w')" using assms(1) f(1) by (auto simp: levels_ok_def s)
  ultimately show ?thesis using 2 by simp
qed

lemma enter_step:
  assumes l: "levels_ok ok good (st, w)" and at: "vfs_at names mnts st ns"
    and e: "rootfs_enter get_iterator D mnts n (st, w) = (Ret r, (st', w'))"
  shows "levels_ok ok good (st', w') \<and> (if r = DIR_ENTRY then vfs_at names mnts st' (vfs_step n ns) else vfs_at names mnts st' ns)"
proof -
  consider "n = []" | "n \<noteq> []" "st = []" | "n \<noteq> []" "st \<noteq> []" by blast
  then show ?thesis
  proof cases
    case 1
    then show ?thesis using assms by (auto simp: rootfs_enter_def enter_result_def vfs_step_def)
  next
    case 2
    then have ns: "ns = []" using at by simp
    show ?thesis
    proof (cases "n = [46] \<or> n = [46, 46]")
      case True
      then show ?thesis using 2 assms ns by (auto simp: rootfs_enter_def enter_result_def vfs_step_def path_step_def)
    next
      case False
      have "push_mount get_iterator mnts (path_text ns @ n) (st, w) = (Ret r, (st', w'))"
        using 2 False e ns by (simp add: rootfs_enter_def enter_result_def path_text_def)
      then show ?thesis using mount_step [OF l at] 2 False by simp
    qed
  next
    case 3
    obtain x i st1 where st: "st = (x, i) # st1" using 3 by (cases st) auto
    obtain ms k where ms: "vfs_at names mnts st1 ms" "snd (mnts ! i) = path_text ms @ k" "ns = ms @ k # names x"
      using at by (auto simp: st)
    have x: "ok x w" "\<forall>(y, j) \<in> set st1. ok y w" using l by (auto simp: levels_ok_def st)
    obtain q x1 w1 where d: "enter D n (x, w) = (q, (x1, w1))" by (metis prod.exhaust)
    then have top: "on_top (enter D n) (st, w) = (q, ((x1, i) # st1, w1))" by (simp add: on_top_def st)
    obtain q' where q: "q = Ret q'" using e top 3 st by (cases q) (auto simp: rootfs_enter_def enter_result_def andthen_def)
    note S = step [OF x(1), of n q' x1 w1]
    have l1: "levels_ok ok good ((x1, i) # st1, w1)" using S d q x(2) by (auto simp: levels_ok_def)
    have at1: "vfs_at names mnts ((x1, i) # st1) (ms @ k # path_step n q' (names x))"
      using S d q ms by auto
    show ?thesis
    proof (cases q')
      case DIR_ENTRY
      then have "r = DIR_ENTRY" "st' = (x1, i) # st1" "w' = w1"
        using e top 3 q st by (auto simp: rootfs_enter_def enter_result_def andthen_def ret_def)
      moreover have "n = [46, 46] \<Longrightarrow> names x \<noteq> []" using down [OF x(1), of n x1 w1] d q DIR_ENTRY by simp
      then have "vfs_step n ns = ms @ k # path_step n q' (names x)"
        using 3 DIR_ENTRY ms(3) by (auto simp: vfs_step_def path_step_def butlast_append)
      ultimately show ?thesis using l1 at1 by simp
    next
      case FILE_ENTRY
      then have "r = FILE_ENTRY" "st' = (x1, i) # st1" "w' = w1"
        using e top 3 q st by (auto simp: rootfs_enter_def enter_result_def andthen_def ret_def)
      then show ?thesis using l1 at1 FILE_ENTRY ms(3) by (simp add: path_step_def)
    next
      case LINK_ENTRY
      then show ?thesis using e top 3 q st by (auto simp: rootfs_enter_def enter_result_def andthen_def of_call_def)
    next
      case UNDERRUN
      then have s: "r = DIR_ENTRY" "st' = st1" "w' = w1"
        using e top 3 q st by (auto simp: rootfs_enter_def enter_result_def andthen_def ret_def)
      have "n = [46, 46] \<and> names x = []" using underrun [OF x(1), of n x1 w1] d q UNDERRUN by simp
      then have "vfs_step n ns = ms" using ms(3) by (simp add: vfs_step_def path_step_def)
      moreover have "levels_ok ok good (st1, w1)" using l1 by (simp add: levels_ok_def)
      ultimately show ?thesis using ms(1) s by simp
    next
      case NP
      have n: "n \<noteq> [46] \<and> n \<noteq> [46, 46]" using absent [OF x(1), of n x1 w1] d q NP by simp
      have at2: "vfs_at names mnts ((x1, i) # st1) ns" using at1 NP ms(3) by (simp add: path_step_def)
      have "push_mount get_iterator mnts (path_text ns @ n) ((x1, i) # st1, w1) = (Ret r, (st', w'))"
        using e top 3 q st NP rootfs_path_names [OF l1 at2] by (auto simp: rootfs_enter_def enter_result_def andthen_def)
      then show ?thesis using mount_step [OF l1 at2] n 3(1) by simp
    qed
  qed
qed

lemma walk_names:
  "levels_ok ok good s \<Longrightarrow> vfs_at names mnts (fst s) ns \<Longrightarrow> vfs_walk get_iterator D mnts p s = (Ret u, s') \<Longrightarrow>
    levels_ok ok good s' \<and> vfs_at names mnts (fst s') (vfs_path ns p)"
proof (induction p arbitrary: s ns)
  case (Cons n p)
  obtain st w where s: "s = (st, w)" by fastforce
  from Cons.prems(3) obtain r s1 where e: "rootfs_enter get_iterator D mnts n s = (Ret r, s1)"
    "(if r = DIR_ENTRY then vfs_walk get_iterator D mnts p else throw (Enoent ''not found'')) s1 = (Ret u, s')"
    by (auto elim: andthen_cases)
  then have r: "r = DIR_ENTRY" by (auto simp: throw_def split: if_splits)
  obtain st1 w1 where s1: "s1 = (st1, w1)" by fastforce
  note E = enter_step [OF Cons.prems(1,2) [unfolded s fst_conv] e(1) [unfolded s s1]]
  show ?case using Cons.IH [of s1 "vfs_step n ns"] E e(2) r by (simp add: vfs_path_def s1)
qed (simp add: vfs_path_def ret_def)

lemma walk_path:
  assumes "good w" "vfs_walk get_iterator D mnts p ([], w) = (Ret u, s')"
  shows "rootfs_path D mnts s' = (Ret (path_text (vfs_path [] p)), s')"
proof -
  obtain st' w' where s': "s' = (st', w')" by fastforce
  have "levels_ok ok good ([], w)" using assms(1) by (simp add: levels_ok_def)
  from walk_names [OF this _ assms(2), of "[]"] show ?thesis
    unfolding s' by (intro rootfs_path_names) simp_all
qed

end

section \<open>The file systems of the kernel\<close>

text \<open>
  \<^verbatim>\<open>kernel_main\<close> mounts the device file system and one FAT volume; iterators of the volume share its
  state, and so do those of the devices.
\<close>

record world =
  volume :: fat_fs
  devices :: devfs

datatype node = Home dir_iterator | Dev
datatype kernel_fs = Dev_fs | Home_fs
datatype file_handle = Fat_file "nat \<times> nat \<times> nat \<times> nat" | Device device

definition new_iterator :: "kernel_fs \<Rightarrow> world \<Rightarrow> node" where
  "new_iterator f w = (case f of Dev_fs \<Rightarrow> Dev | Home_fs \<Rightarrow> Home (FAT_dir_iterator (volume w) 32))"

definition dispatch :: "(dir_state, 'a) action \<Rightarrow> (devfs, 'a) action \<Rightarrow> (node \<times> world, 'a) action" where
  "dispatch fat dev = (\<lambda>(x, w). case x of
     Home d \<Rightarrow> (case fat (d, volume w) of (r, (d', s')) \<Rightarrow> (r, (Home d', w\<lparr>volume := s'\<rparr>)))
   | Dev \<Rightarrow> (case dev (devices w) of (r, v') \<Rightarrow> (r, (Dev, w\<lparr>devices := v'\<rparr>))))"

definition kernel_ops :: "nat \<Rightarrow> u8 list \<Rightarrow> (nat \<Rightarrow> u8 list) \<Rightarrow> (node, world, file_handle option) dir_ops" where
  "kernel_ops fuel junk djunk = \<lparr>
     enter = (\<lambda>n. dispatch (coh_enter (fat_raw fuel junk) n) (coh_enter (devfs_raw djunk) n)),
     canonical = dispatch (get_canonical_path (fat_raw fuel junk)) (get_canonical_path (devfs_raw djunk)),
     read_link = (\<lambda>n. ret []),
     open_at = (\<lambda>n mode. dispatch
       (andthen (coh_open_file (fat_raw fuel junk) n mode) (\<lambda>h. ret (Some (Fat_file h))))
       (andthen (coh_open_file (devfs_raw djunk) n mode) (\<lambda>h. ret (map_option Device h)))),
     list_at = dispatch (coh_list (fat_raw fuel junk)) (coh_list (devfs_raw djunk))\<rparr>"

definition node_names :: "node \<Rightarrow> cstring list" where
  "node_names x = (case x of Home d \<Rightarrow> map (\<lambda>e. fst (snd e)) (stack d) | Dev \<Rightarrow> [])"

definition world_ok :: "world \<Rightarrow> bool" where
  "world_ok w \<longleftrightarrow> \<not> lock (volume w) \<and> token_copied (volume w)"

definition node_ok :: "node \<Rightarrow> world \<Rightarrow> bool" where
  "node_ok x w \<longleftrightarrow> world_ok w \<and> (case x of Home d \<Rightarrow> fat_ok (d, volume w) | Dev \<Rightarrow> True)"

lemma fat_names_stack: "fat_names (d, s) = map (\<lambda>e. fst (snd e)) (stack d)"
  by (simp add: fat_names_def)

lemma fat_ok_cursor [simp]: "fat_ok (d, s\<lparr>fh_cursor := y\<rparr>) \<longleftrightarrow> fat_ok (d, s)"
  by (simp add: fat_ok_def fat_here_def)

lemma cursor_keeps:
  "world_ok (w\<lparr>volume := (volume w)\<lparr>fh_cursor := y\<rparr>\<rparr>) \<longleftrightarrow> world_ok w"
  "node_ok x (w\<lparr>volume := (volume w)\<lparr>fh_cursor := y\<rparr>\<rparr>) \<longleftrightarrow> node_ok x w"
  by (simp_all add: world_ok_def node_ok_def fat_ok_def fat_here_def split: node.split)

lemma fat_enter_effect:
  assumes "fat_ok (d, s)" "coh_enter (fat_raw fuel junk) n (d, s) = (Ret r, (d', s'))"
  shows "(\<exists>y. s' = s\<lparr>fh_cursor := y\<rparr>) \<and>
    (r = UNDERRUN \<longrightarrow> n = [46, 46] \<and> stack d = []) \<and> (r = NP \<longrightarrow> n \<noteq> [46] \<and> n \<noteq> [46, 46]) \<and>
    (r = DIR_ENTRY \<longrightarrow> n = [46, 46] \<longrightarrow> stack d \<noteq> [])"
proof -
  have s: "\<not> lock s" "token_copied s" using assms(1) by (simp_all add: fat_ok_def)
  have refl: "\<exists>y. s = s\<lparr>fh_cursor := y\<rparr>" by (rule exI [of _ "fh_cursor s"]) simp
  consider "n = [46, 46]" "stack d = []" | "n = [46, 46]" "stack d \<noteq> []" | "n = [46]" | "n \<noteq> [46, 46]" "n \<noteq> [46]" by blast
  then show ?thesis
  proof cases
    case 1
    then show ?thesis using assms(2) refl by (auto simp: coh_enter_def fat_raw_def depth_def)
  next
    case 2
    then show ?thesis using assms(2) s refl
      by (auto simp: coh_enter_def fat_raw_def depth_def pop_def locked_free Let_def release_free andthen_def ret_def)
  next
    case 3
    then show ?thesis using assms(2) refl by (auto simp: coh_enter_def)
  next
    case 4
    then have "push fuel junk n null64 (d, s\<lparr>fh_cursor := fh_cursor s\<rparr>) = (Ret r, (d', s'))"
      using assms(2) by (simp add: coh_enter_def fat_raw_def)
    from lookup_effectD [OF push_effect [OF s] this] show ?thesis using 4 by (auto simp: entered_def)
  qed
qed

lemma devfs_enter:
  assumes "coh_enter (devfs_raw djunk) n v = (Ret r, v')"
  shows "v' = v \<and> (r = UNDERRUN \<longleftrightarrow> n = [46, 46]) \<and> (r = DIR_ENTRY \<longleftrightarrow> n = [46]) \<and> (r = NP \<longrightarrow> n \<noteq> [46] \<and> n \<noteq> [46, 46])"
proof (cases "n = [46, 46] \<or> n = [46]")
  case True
  then show ?thesis using assms by (auto simp: coh_enter_def devfs_raw_def)
next
  case False
  then have p: "devfs_push n v = (Ret r, v')" using assms by (simp add: coh_enter_def devfs_raw_def)
  obtain b where b: "is_ser n = Ret b" using p by (cases "is_ser n") (auto simp: devfs_push_def)
  have "v' = v \<and> r \<in> {FILE_ENTRY, NP}"
  proof (cases b)
    case True
    then show ?thesis using p b by (cases "ser_number n") (auto simp: devfs_push_def split: if_splits)
  next
    case False
    then show ?thesis using p b by (cases "is_tty0 n") (auto simp: devfs_push_def split: if_splits)
  qed
  then show ?thesis using False by auto
qed

lemma kernel_enter_result:
  assumes "node_ok x w" "enter (kernel_ops fuel junk djunk) n (x, w) = (Ret r, (x', w'))"
  shows "(r = UNDERRUN \<longrightarrow> n = [46, 46] \<and> node_names x = []) \<and> (r = NP \<longrightarrow> n \<noteq> [46] \<and> n \<noteq> [46, 46]) \<and>
    (r = DIR_ENTRY \<longrightarrow> n = [46, 46] \<longrightarrow> node_names x \<noteq> [])"
proof (cases x)
  case (Home d)
  then obtain d' s' where c: "coh_enter (fat_raw fuel junk) n (d, volume w) = (Ret r, (d', s'))"
    using assms(2) by (auto simp: kernel_ops_def dispatch_def split: prod.splits)
  have "fat_ok (d, volume w)" using assms(1) Home by (simp add: node_ok_def)
  from fat_enter_effect [OF this c] show ?thesis by (simp add: node_names_def Home)
next
  case Dev
  then obtain v' where "coh_enter (devfs_raw djunk) n (devices w) = (Ret r, v')"
    using assms(2) by (auto simp: kernel_ops_def dispatch_def split: prod.splits)
  from devfs_enter [OF this] show ?thesis by (auto simp: node_names_def Dev)
qed

interpretation kernel_vfs: mounted "kernel_ops fuel junk djunk" new_iterator node_names node_ok world_ok
proof unfold_locales
  fix w f
  show "world_ok w \<Longrightarrow> node_ok (new_iterator f w) w \<and> node_names (new_iterator f w) = []"
    by (cases f) (auto simp: node_ok_def new_iterator_def node_names_def world_ok_def fat_ok_def
      FAT_dir_iterator_def fat_here_def)
next
  fix x w n r x' w'
  assume ok: "node_ok x w" and e: "enter (kernel_ops fuel junk djunk) n (x, w) = (Ret r, (x', w'))"
  show "node_ok x' w' \<and> world_ok w' \<and> node_names x' = path_step n r (node_names x) \<and>
      (\<forall>y. node_ok y w \<longrightarrow> node_ok y w')"
  proof (cases x)
    case (Home d)
    then obtain d' s' where c: "coh_enter (fat_raw fuel junk) n (d, volume w) = (Ret r, (d', s'))"
      "x' = Home d'" "w' = w\<lparr>volume := s'\<rparr>"
      using e by (auto simp: kernel_ops_def dispatch_def split: prod.splits)
    have f: "fat_ok (d, volume w)" using ok Home by (simp add: node_ok_def)
    obtain y where "s' = (volume w)\<lparr>fh_cursor := y\<rparr>" using fat_enter_effect [OF f c(1)] by blast
    then show ?thesis
      using fat_path.enter_path [OF f c(1)] ok c(2,3) Home
      by (simp add: node_names_def cursor_keeps fat_names_stack) (simp add: node_ok_def)
  next
    case Dev
    then obtain v' where c: "coh_enter (devfs_raw djunk) n (devices w) = (Ret r, v')" "x' = Dev" "w' = w\<lparr>devices := v'\<rparr>"
      using e by (auto simp: kernel_ops_def dispatch_def split: prod.splits)
    then show ?thesis
      using devfs_enter [OF c(1)] ok Dev by (auto simp: node_names_def path_step_def node_ok_def)
  qed
next
  fix x w n x' w'
  assume "node_ok x w" "n = [46, 46]" "enter (kernel_ops fuel junk djunk) n (x, w) = (Ret DIR_ENTRY, (x', w'))"
  then show "node_names x \<noteq> []" using kernel_enter_result by blast
next
  fix x w n x' w'
  assume "node_ok x w" "enter (kernel_ops fuel junk djunk) n (x, w) = (Ret UNDERRUN, (x', w'))"
  then show "n = [46, 46] \<and> node_names x = []" using kernel_enter_result by blast
next
  fix x w n x' w'
  assume "node_ok x w" "enter (kernel_ops fuel junk djunk) n (x, w) = (Ret NP, (x', w'))"
  then show "n \<noteq> [46] \<and> n \<noteq> [46, 46]" using kernel_enter_result by blast
next
  fix x w
  assume ok: "node_ok x w"
  show "canonical (kernel_ops fuel junk djunk) (x, w) = (Ret (path_text (node_names x)), (x, w))"
  proof (cases x)
    case (Home d)
    then show ?thesis using ok fat_path.canonical_names [of "(d, volume w)"]
      by (simp add: kernel_ops_def dispatch_def node_ok_def node_names_def fat_names_stack)
  next
    case Dev
    then show ?thesis
      by (simp add: kernel_ops_def dispatch_def node_names_def get_canonical_path_def devfs_raw_def ret_def path_text_def)
  qed
qed

section \<open>Properties\<close>

text \<open>
  C25: in the kernel's tree of file systems, whatever is mounted where, \<^verbatim>\<open>get_canonical_path\<close>
  after a walk from the root returns the path walked with \<^verbatim>\<open>.\<close>, \<^verbatim>\<open>..\<close> and empty components
  resolved: across mount points, up from the root of a mounted file system into the directory
  it is mounted on, at any depth of nested mounts, for every disk.
\<close>

theorem vfs_walk_canonical:
  assumes "\<not> lock (volume w)" "token_copied (volume w)"
    "vfs_walk new_iterator (kernel_ops fuel junk djunk) mnts p ([], w) = (Ret u, s')"
  shows "rootfs_path (kernel_ops fuel junk djunk) mnts s' = (Ret (path_text (vfs_path [] p)), s')"
  using kernel_vfs.walk_path [OF _ assms(3)] assms(1,2) by (simp add: world_ok_def)

text \<open>The mounts of \<^verbatim>\<open>kernel_main\<close>: \<^verbatim>\<open>/dev\<close> and \<^verbatim>\<open>/home\<close>.\<close>

definition kernel_mounts :: "kernel_fs mntentry list" where
  "kernel_mounts = [(Some Dev_fs, [47, 100, 101, 118]), (Some Home_fs, [47, 104, 111, 109, 101])] @ replicate 254 (None, [])"

definition kernel_world :: world where
  "kernel_world = \<lparr>volume = dir_volume, devices = new_devfs\<rparr>"

theorem vfs_walk_canonical_witness:
  "\<exists>s'. vfs_walk new_iterator (kernel_ops (Suc 0) [0, 0] (\<lambda>_. [])) kernel_mounts
      [[100, 101, 118], [46, 46], [], [104, 111, 109, 101], [97]] ([], kernel_world) = (Ret (), s') \<and>
    rootfs_path (kernel_ops (Suc 0) [0, 0] (\<lambda>_. [])) kernel_mounts s' = (Ret [47, 104, 111, 109, 101, 47, 97, 47], s')"
proof -
  let ?D = "kernel_ops (Suc 0) [0, 0] (\<lambda>_. [])" and ?w = kernel_world
  have sd: "FAT_dir_iterator dir_volume 32 = small_dir" by (simp add: small_dir_def FAT_dir_iterator_def dir_volume_def small_volume_def)
  have v: "\<not> lock (volume ?w)" "token_copied (volume ?w)" by (simp_all add: kernel_world_def dir_volume_def small_volume_def)
  have 1: "rootfs_enter new_iterator ?D kernel_mounts [100, 101, 118] ([], ?w) = (Ret DIR_ENTRY, ([(Dev, 0)], ?w))"
    by (simp add: rootfs_enter_def enter_result_def push_mount_def lookup_mnt_def kernel_mounts_def new_iterator_def)
  have 2: "rootfs_enter new_iterator ?D kernel_mounts [46, 46] ([(Dev, 0)], ?w) = (Ret DIR_ENTRY, ([], ?w))"
    by (simp add: rootfs_enter_def enter_result_def on_top_def kernel_ops_def dispatch_def coh_enter_def devfs_raw_def andthen_def)
  have 3: "rootfs_enter new_iterator ?D kernel_mounts [] ([], ?w) = (Ret DIR_ENTRY, ([], ?w))"
    by (simp add: rootfs_enter_def enter_result_def)
  have 4: "rootfs_enter new_iterator ?D kernel_mounts [104, 111, 109, 101] ([], ?w) =
      (Ret DIR_ENTRY, ([(Home small_dir, Suc 0)], ?w))"
    by (simp add: rootfs_enter_def enter_result_def push_mount_def lookup_mnt_def kernel_mounts_def new_iterator_def sd kernel_world_def)
  obtain d' s' where c: "coh_enter (fat_raw (Suc 0) [0, 0]) [97] (small_dir, dir_volume) = (Ret DIR_ENTRY, (d', s'))"
    using dir_entered [of 0 0 "[]"] by blast
  then have 5: "rootfs_enter new_iterator ?D kernel_mounts [97] ([(Home small_dir, Suc 0)], ?w) =
      (Ret DIR_ENTRY, ([(Home d', Suc 0)], ?w\<lparr>volume := s'\<rparr>))"
    by (simp add: rootfs_enter_def enter_result_def on_top_def kernel_ops_def dispatch_def andthen_def ret_def kernel_world_def)
  have w: "vfs_walk new_iterator ?D kernel_mounts [[100, 101, 118], [46, 46], [], [104, 111, 109, 101], [97]] ([], ?w) =
      (Ret (), ([(Home d', Suc 0)], ?w\<lparr>volume := s'\<rparr>))"
    by (simp add: andthen_def 1 2 3 4 5 ret_def)
  have "path_text (vfs_path [] [[100, 101, 118], [46, 46], [], [104, 111, 109, 101], [97]]) = [47, 104, 111, 109, 101, 47, 97, 47]"
    by (simp add: vfs_path_def vfs_step_def path_step_def path_text_def)
  with vfs_walk_canonical [OF v w] w show ?thesis by metis
qed

lemma free_slot_first:
  "free_slot es i = Ret k \<Longrightarrow> i \<le> k \<and> k - i < length es \<and> fst (es ! (k - i)) = None \<and>
    (\<forall>j < k - i. fst (es ! j) \<noteq> None)"
proof (induction es i rule: free_slot.induct)
  case (2 f p es i)
  show ?case
  proof (cases "f = None")
    case False
    with 2 have IH: "i + 1 \<le> k" "k - (i + 1) < length es" "fst (es ! (k - (i + 1))) = None"
      "\<forall>j < k - (i + 1). fst (es ! j) \<noteq> None" by auto
    have k: "k - i = Suc (k - (i + 1))" using IH(1) by simp
    show ?thesis unfolding k using IH False by (auto simp: less_Suc_eq_0_disj)
  qed (use 2 in auto)
qed simp

lemma free_slot_returns: "\<exists>e \<in> set es. fst e = None \<Longrightarrow> \<exists>k. free_slot es i = Ret k"
  by (induction es i rule: free_slot.induct) auto

lemma lookup_loop_unique:
  "k < length es \<Longrightarrow> fst (es ! k) \<noteq> None \<Longrightarrow> snd (es ! k) = s \<Longrightarrow> s \<noteq> [] \<Longrightarrow>
    (\<And>j. j < length es \<Longrightarrow> j \<noteq> k \<Longrightarrow> snd (es ! j) \<noteq> s) \<Longrightarrow> lookup_loop es i s = int (i + k)"
proof (induction es arbitrary: i k)
  case (Cons e es)
  obtain f p where e: "e = (f, p)" by fastforce
  show ?case
  proof (cases k)
    case 0
    then show ?thesis using Cons.prems by (auto simp: e)
  next
    case (Suc l)
    have "p \<noteq> s" using Cons.prems(5) [of 0] Suc by (simp add: e)
    moreover have "lookup_loop es (i + 1) s = int (i + 1 + l)"
      by (rule Cons.IH) (use Cons.prems Suc Cons.prems(5) [of "Suc j" for j] in auto)
    ultimately show ?thesis using Suc by (simp add: e)
  qed
qed simp

text \<open>
  Mounting a file system on \<^verbatim>\<open>/n\<close> takes the first free slot and changes no other one;
  when nothing was mounted there before, a walk into \<^verbatim>\<open>n\<close> from the root then enters the new file
  system with a fresh iterator.
\<close>

theorem mount_then_enter:
  assumes "length mnts = 256" "n \<notin> {[], [46], [46, 46]}" "\<And>j. j < 256 \<Longrightarrow> snd (mnts ! j) \<noteq> 47 # n"
  shows "if \<forall>j < 256. fst (mnts ! j) \<noteq> None
    then mount f (47 # n) mnts = (Fault ''out of bounds'', mnts)
    else \<exists>i mnts'. mount f (47 # n) mnts = (Ret (), mnts') \<and> i < 256 \<and> fst (mnts ! i) = None \<and>
      (\<forall>j < i. fst (mnts ! j) \<noteq> None) \<and> (\<forall>j. j \<noteq> i \<longrightarrow> mnts' ! j = mnts ! j) \<and>
      rootfs_enter geti D mnts' n ([], w) = (Ret DIR_ENTRY, ([(geti f w, i)], w))"
proof (cases "\<forall>j < 256. fst (mnts ! j) \<noteq> None")
  case True
  then have "\<forall>e \<in> set mnts. fst e \<noteq> None" using assms(1) by (metis in_set_conv_nth)
  then have "free_slot mnts i = Fault ''out of bounds''" for i by (induction mnts arbitrary: i) auto
  then show ?thesis using True by (simp add: mount_def andthen_def of_call_def)
next
  case False
  then have "\<exists>e \<in> set mnts. fst e = None" using assms(1) nth_mem by metis
  then obtain i where i: "free_slot mnts 0 = Ret i" using free_slot_returns by blast
  note F = free_slot_first [OF i]
  let ?m = "mnts[i := (Some f, 47 # n)]"
  have lt: "i < 256" using F assms(1) by simp
  have m: "mount f (47 # n) mnts = (Ret (), ?m)"
    using lt by (simp add: mount_def andthen_def of_call_def i)
  have l: "lookup_mnt ?m (47 # n) = int i" unfolding lookup_mnt_def
    using lookup_loop_unique [of i ?m "47 # n" 0] lt assms(1,3) by simp
  have "rootfs_enter geti D ?m n ([], w) = (Ret DIR_ENTRY, ([(geti f w, i)], w))"
    using assms(1,2) l lt by (auto simp: rootfs_enter_def enter_result_def push_mount_def)
  with m F lt False show ?thesis by auto
qed

theorem mount_then_enter_witness:
  "\<exists>i mnts'. mount Dev_fs [47, 97] new_rootfs = (Ret (), mnts') \<and> i < 256 \<and>
    rootfs_enter new_iterator (kernel_ops 1 [] (\<lambda>_. [])) mnts' [97] ([], kernel_world) =
      (Ret DIR_ENTRY, ([(new_iterator Dev_fs kernel_world, i)], kernel_world))"
proof -
  have "length (new_rootfs :: kernel_fs mntentry list) = 256" "[97] \<notin> {[], [46], [46, 46 :: u8]}"
    "\<And>j. j < 256 \<Longrightarrow> snd ((new_rootfs :: kernel_fs mntentry list) ! j) \<noteq> 47 # [97]"
    "\<not> (\<forall>j < 256. fst ((new_rootfs :: kernel_fs mntentry list) ! j) \<noteq> None)"
    by (auto simp: new_rootfs_def intro: exI [of _ 0])
  from mount_then_enter [OF this(1-3), of Dev_fs new_iterator "kernel_ops 1 [] (\<lambda>_. [])" kernel_world] this(4)
  show ?thesis by (simp only: if_False) blast
qed

text \<open>
  Which device a name under \<^verbatim>\<open>/dev\<close> opens: every name that starts with \<^verbatim>\<open>ser\<close> opens the serial
  port in slot 0, whatever number follows, and counts one more open file there; \<^verbatim>\<open>tty0\<close> opens
  the screen; any other name is refused, and so is a device that is not attached.
\<close>

theorem devfs_opens:
  assumes "c_name s"
  shows "coh_open_file (devfs_raw junk) s mode v =
    (if prefix ser_name s then
       case pdarr v ! 0 of
         Some (port, c) \<Rightarrow> (Ret (Some (Serial port mode)), v\<lparr>pdarr := (pdarr v)[0 := Some (port, c + 1)]\<rparr>)
       | None \<Rightarrow> (Throw (Enoent ''not found''), v)
     else
       case (if s = tty0_name then td v else None) of
         Some c \<Rightarrow> (Ret (Some (Tty mode)), v\<lparr>td := Some (c + 1)\<rparr>)
       | None \<Rightarrow> (Throw (Enoent ''not found''), v))"
  using assms by (auto simp: coh_open_file_def devfs_raw_def devfs_push_name devfs_open_name device_there_def
    andthen_def throw_def get_serial_def get_tty_def split: option.split)

theorem devfs_opens_witness:
  "coh_open_file (devfs_raw (\<lambda>_. [])) [115, 101, 114, 55] 3 \<lparr>pdarr = Some (1016, 0) # replicate 31 None, td = None\<rparr> =
    (Ret (Some (Serial 1016 3)), \<lparr>pdarr = Some (1016, 1) # replicate 31 None, td = None\<rparr>)"
  using devfs_opens [where s = "[115, 101, 114, 55]" and v = "\<lparr>pdarr = Some (1016, 0) # replicate 31 None, td = None\<rparr>" and mode = 3]
  by (simp add: c_name_def ser_name_def)

end
