(* ===== verification/Screen.thy ===== *)
theory Screen
  imports Stdio
begin

text \<open>
  The two text screens: \<^verbatim>\<open>Display\<close> of misc/display.cpp, which the boot code prints to, and the VGA
  text driver of drivers/vga_text/vga_text.cc behind \<^verbatim>\<open>/dev/tty0\<close>. A cell of the screen is the
  character with its colour in the upper byte.
\<close>

section \<open>\<^verbatim>\<open>Display\<close>\<close>

record display =
  terminal_row :: nat
  terminal_column :: nat
  terminal_color :: u8
  terminal_buffer :: "u16 list"

definition vga_entry_color :: "u8 \<Rightarrow> u8 \<Rightarrow> u8" where
  "vga_entry_color fg bg = fg OR push_bit 4 bg"

definition vga_entry :: "u8 \<Rightarrow> u8 \<Rightarrow> u16" where
  "vga_entry uc color = ucast uc OR push_bit 8 (ucast color)"

definition terminal_putentryat :: "u8 \<Rightarrow> u8 \<Rightarrow> nat \<Rightarrow> nat \<Rightarrow> (display, unit) action" where
  "terminal_putentryat c color x y d =
    (let index = y * 80 + x in
     if index < length (terminal_buffer d)
     then (Ret (), d\<lparr>terminal_buffer := (terminal_buffer d)[index := vga_entry c color]\<rparr>)
     else (Fault ''out of bounds'', d))"

fun put_blanks :: "(nat \<times> nat) list \<Rightarrow> (display, unit) action" where
  "put_blanks [] = ret ()"
| "put_blanks ((y, x) # ps) =
    andthen (\<lambda>d. terminal_putentryat 32 (terminal_color d) x y d) (\<lambda>_. put_blanks ps)"

definition clear :: "(display, unit) action" where
  "clear d = put_blanks (List.product [0..<25] [0..<80])
     (d\<lparr>terminal_row := 0, terminal_column := 0, terminal_color := vga_entry_color 7 0\<rparr>)"

definition next_row :: "display \<Rightarrow> display" where
  "next_row d = d\<lparr>terminal_column := 0,
     terminal_row := (if terminal_row d + 1 = 25 then 0 else terminal_row d + 1)\<rparr>"

text \<open>\<open>k\<close>: compiled with \<^verbatim>\<open>KERNEL\<close>, which makes a carriage return do nothing here.\<close>

definition terminal_putchar :: "bool \<Rightarrow> u8 \<Rightarrow> (display, unit) action" where
  "terminal_putchar k c d =
    (if c = 10 then
       andthen (put_blanks (map (\<lambda>i. (terminal_row d, i)) [terminal_column d..<80]))
         (\<lambda>_ d. (Ret (), next_row d)) d
     else if k \<and> c = 13 then (Ret (), d)
     else
       andthen (terminal_putentryat c (terminal_color d) (terminal_column d) (terminal_row d)) (\<lambda>_ d.
         let d = d\<lparr>terminal_column := terminal_column d + 1\<rparr> in
         (Ret (), if terminal_column d = 80 then next_row d else d)) d)"

fun terminal_write :: "bool \<Rightarrow> u8 list \<Rightarrow> (display, unit) action" where
  "terminal_write k [] = ret ()"
| "terminal_write k (c # cs) = andthen (terminal_putchar k c) (\<lambda>_. terminal_write k cs)"

function print_dec :: "bool \<Rightarrow> nat \<Rightarrow> (display, unit) action" where
  "print_dec k i =
    (if i \<ge> 10 then andthen (print_dec k (i div 10)) (\<lambda>_. terminal_putchar k (of_nat (i mod 10) + 48))
     else terminal_putchar k (of_nat i + 48))"
  by pat_completeness auto
termination by (relation "measure (\<lambda>(k, i). i)") simp_all

declare print_dec.simps [simp del]

definition hex_char :: "nat \<Rightarrow> u8" where
  "hex_char i = (if i < 10 then of_nat i + 48 else of_nat i - 10 + 65)"

function print_hex :: "bool \<Rightarrow> nat \<Rightarrow> (display, unit) action" where
  "print_hex k i =
    (if i \<ge> 16 then andthen (print_hex k (i div 16)) (\<lambda>_. terminal_putchar k (hex_char (i mod 16)))
     else terminal_putchar k (hex_char i))"
  by pat_completeness auto
termination by (relation "measure (\<lambda>(k, i). i)") simp_all

declare print_hex.simps [simp del]

text \<open>The nibbles of a pointer, from bit 60 down.\<close>

definition pointer_text :: "nat \<Rightarrow> u8 list" where
  "pointer_text x = map (\<lambda>i. hex_char (x div 2 ^ i mod 16)) (rev (map (\<lambda>j. 4 * j) [0..<16]))"

definition display_conversion :: "bool \<Rightarrow> u8 \<Rightarrow> arg list \<Rightarrow> (display, arg list) action" where
  "display_conversion k c args =
    (let then_args = (\<lambda>m rest. andthen m (\<lambda>_. ret rest)); bad = (\<lambda>d. (Fault ''va_arg'', d)) in
     if c = 99 then (case args of VInt x # rest \<Rightarrow> then_args (terminal_putchar k (word_of_int x)) rest | _ \<Rightarrow> bad)
     else if c = 100 then (case args of VInt x # rest \<Rightarrow>
         if x < 0 then
           if x \<le> - (2 ^ 31) then (\<lambda>d. (Fault ''signed overflow'', d))
           else then_args (andthen (terminal_putchar k 45) (\<lambda>_. print_dec k (nat (- x)))) rest
         else then_args (print_dec k (nat x)) rest | _ \<Rightarrow> bad)
     else if c = 117 then (case args of VUint x # rest \<Rightarrow> then_args (print_dec k x) rest | _ \<Rightarrow> bad)
     else if c = 112 then (case args of VPtr x # rest \<Rightarrow> then_args (terminal_write k (pointer_text x)) rest | _ \<Rightarrow> bad)
     else if c = 120 then (case args of VUint x # rest \<Rightarrow> then_args (print_hex k x) rest | _ \<Rightarrow> bad)
     else if c = 115 then (case args of VStr x # rest \<Rightarrow> then_args (terminal_write k x) rest | _ \<Rightarrow> bad)
     else if c = 37 then then_args (terminal_putchar k 37) args
     else ret args)"

text \<open>A format that ends with \<^verbatim>\<open>%\<close> makes the loop step over its final zero.\<close>

fun vprint :: "bool \<Rightarrow> u8 list \<Rightarrow> arg list \<Rightarrow> (display, unit) action" where
  "vprint k [] args = ret ()"
| "vprint k [c] args = (if c = 37 then (\<lambda>d. (Fault ''read past the end'', d)) else terminal_putchar k c)"
| "vprint k (c # f # cs) args =
    (if c \<noteq> 37 then andthen (terminal_putchar k c) (\<lambda>_. vprint k (f # cs) args)
     else andthen (display_conversion k f args) (vprint k cs))"

section \<open>The VGA text driver\<close>

text \<open>
  \<open>cells\<close> is memory in cells of 16 bits relative to \<^verbatim>\<open>buff_addr\<close>; \<open>shown_from\<close> is the start address
  in the registers 12 and 13 of the controller.
\<close>

record text_driver =
  curr_col :: nat
  curr_row :: nat
  curr_offset :: nat
  shown_from :: nat
  cells :: "int \<Rightarrow> u16"

definition new_text_driver :: "nat \<Rightarrow> (int \<Rightarrow> u16) \<Rightarrow> text_driver" where
  "new_text_driver start mem = \<lparr>curr_col = 0, curr_row = 0, curr_offset = 0, shown_from = start, cells = mem\<rparr>"

definition put_cell :: "int \<Rightarrow> u16 \<Rightarrow> text_driver \<Rightarrow> text_driver" where
  "put_cell i v t = t\<lparr>cells := (cells t)(i := v)\<rparr>"

definition clear_cells :: "int \<Rightarrow> nat \<Rightarrow> text_driver \<Rightarrow> text_driver" where
  "clear_cells i n t = t\<lparr>cells := (\<lambda>j. if i \<le> j \<and> j < i + int n then 0 else cells t j)\<rparr>"

definition do_scroll :: "text_driver \<Rightarrow> text_driver" where
  "do_scroll t =
    (let t = t\<lparr>curr_col := 0, curr_row := curr_row t + 1\<rparr> in
     if curr_row t = 25 then
       let t = t\<lparr>curr_row := 24, curr_offset := (curr_offset t + 80) mod 2 ^ 14\<rparr>;
           t = t\<lparr>shown_from := curr_offset t mod 2 ^ 16\<rparr>;
           last_line_off = (curr_offset t + 24 * 80) mod 2 ^ 16
       in clear_cells (int last_line_off) 25 t
     else t)"

definition scroll_back :: "text_driver \<Rightarrow> text_driver" where
  "scroll_back t =
    (if curr_row t = 0 then
       let o' = (curr_offset t + (2 ^ 32 - 80)) mod 2 ^ 32 mod 2 ^ 14
       in t\<lparr>curr_col := 79, curr_row := 0, curr_offset := o', shown_from := o' mod 2 ^ 16\<rparr>
     else t\<lparr>curr_col := 79, curr_row := curr_row t - 1\<rparr>)"

text \<open>\<^verbatim>\<open>char\<close> is signed: its conversion to 16 bits extends the sign.\<close>

definition text_cell :: "u16 \<Rightarrow> u8 \<Rightarrow> u16" where
  "text_cell color c = scast c OR push_bit 8 color"

definition text_char :: "u16 \<Rightarrow> u8 \<Rightarrow> text_driver \<Rightarrow> text_driver" where
  "text_char color c t =
    (let q = int (curr_col t + curr_row t * 80 + curr_offset t) in
     if c = 10 then do_scroll t
     else if c = 127 then
       let old = curr_col t;
           t = (put_cell (q - 1) (text_cell color 32) t)\<lparr>curr_col := (old + (2 ^ 32 - 1)) mod 2 ^ 32\<rparr>
       in if old = 0 then scroll_back t else t
     else
       let t = put_cell q (text_cell color c) t; t = t\<lparr>curr_col := curr_col t + 1\<rparr>
       in if curr_col t \<noteq> 80 then t else do_scroll t)"

definition text_write :: "u16 \<Rightarrow> u8 list \<Rightarrow> (text_driver, nat) action" where
  "text_write color buf t = (Ret (length buf), fold (text_char color) buf t)"

definition text_clear :: "text_driver \<Rightarrow> text_driver" where
  "text_clear t = clear_cells 0 (25 * 80) (t\<lparr>curr_col := 0, curr_row := 0, curr_offset := 0\<rparr>)"

section \<open>\<^verbatim>\<open>Display\<close> stays on the screen\<close>

definition display_ok :: "display \<Rightarrow> bool" where
  "display_ok d \<longleftrightarrow> terminal_row d < 25 \<and> terminal_column d < 80 \<and> length (terminal_buffer d) = 25 * 80"

lemma put_blanks_ok:
  assumes "length (terminal_buffer d) = 25 * 80" "\<forall>(y, x) \<in> set ps. y < 25 \<and> x < 80"
  shows "\<exists>b. put_blanks ps d = (Ret (), d\<lparr>terminal_buffer := b\<rparr>) \<and> length b = 25 * 80"
  using assms
proof (induction ps arbitrary: d)
  case (Cons p ps)
  obtain y x where p: "p = (y, x)" by fastforce
  have "y < 25" "x < 80" using Cons.prems(2) by (auto simp: p)
  then have "y * 80 + x < length (terminal_buffer d)" using Cons.prems(1) by simp
  then have put: "terminal_putentryat 32 (terminal_color d) x y d =
      (Ret (), d\<lparr>terminal_buffer := (terminal_buffer d)[y * 80 + x := vga_entry 32 (terminal_color d)]\<rparr>)"
    by (simp add: terminal_putentryat_def)
  let ?d = "d\<lparr>terminal_buffer := (terminal_buffer d)[y * 80 + x := vga_entry 32 (terminal_color d)]\<rparr>"
  have "\<exists>b. put_blanks ps ?d = (Ret (), ?d\<lparr>terminal_buffer := b\<rparr>) \<and> length b = 25 * 80"
    by (rule Cons.IH) (use Cons.prems in auto)
  then show ?case by (simp add: p andthen_def put)
next
  case Nil
  then show ?case by (intro exI [of _ "terminal_buffer d"]) (simp add: ret_def)
qed

lemma putchar_ok:
  assumes "display_ok d"
  shows "\<exists>d'. terminal_putchar k c d = (Ret (), d') \<and> display_ok d'"
proof -
  have len: "length (terminal_buffer d) = 25 * 80" using assms by (simp add: display_ok_def)
  show ?thesis
  proof (cases "c = 10")
    case True
    have "\<forall>(y, x) \<in> set (map (\<lambda>i. (terminal_row d, i)) [terminal_column d..<80]). y < 25 \<and> x < 80"
      using assms by (auto simp: display_ok_def)
    from put_blanks_ok [OF len this] show ?thesis
      using True assms by (auto simp: terminal_putchar_def andthen_def next_row_def display_ok_def)
  next
    case False
    have "terminal_row d * 80 + terminal_column d < length (terminal_buffer d)"
      using assms by (simp add: display_ok_def)
    then show ?thesis
      using False assms by (auto simp: terminal_putchar_def andthen_def terminal_putentryat_def next_row_def display_ok_def Let_def)
  qed
qed

lemma terminal_write_ok: "display_ok d \<Longrightarrow> \<exists>d'. terminal_write k s d = (Ret (), d') \<and> display_ok d'"
proof (induction s arbitrary: d)
  case (Cons c s)
  obtain d1 where "terminal_putchar k c d = (Ret (), d1)" "display_ok d1" using putchar_ok [OF Cons.prems] by blast
  with Cons.IH show ?case by (auto simp: andthen_def)
qed (simp add: ret_def)

section \<open>What \<^verbatim>\<open>print\<close> shows\<close>

lemma andthen_assoc: "andthen (andthen m f) g = andthen m (\<lambda>x. andthen (f x) g)"
  by (rule ext) (auto simp: andthen_def split: prod.splits outcome.splits)

lemma andthen_ret_left: "andthen (ret a) f = f a"
  by (rule ext) (simp add: action_simps)

lemma andthen_ret_right: "andthen m ret = m"
proof
  fix s
  show "andthen m ret s = m s"
    by (cases "m s"; cases "fst (m s)") (auto simp: andthen_def ret_def)
qed

lemma terminal_write_append: "terminal_write k (a @ b) = andthen (terminal_write k a) (\<lambda>_. terminal_write k b)"
proof (induction a)
  case Nil
  show ?case by (rule ext) (simp add: andthen_def ret_def)
qed (simp add: andthen_assoc)

lemma terminal_write_single: "terminal_write k [c] = terminal_putchar k c"
  by (simp add: andthen_ret_right)

text \<open>The characters \<^verbatim>\<open>print_number\<close> writes.\<close>

function dec_text :: "nat \<Rightarrow> u8 list" where
  "dec_text i = (if i \<ge> 10 then dec_text (i div 10) @ [of_nat (i mod 10) + 48] else [of_nat i + 48])"
  by pat_completeness auto
termination by (relation "measure id") simp_all

function hex_text :: "nat \<Rightarrow> u8 list" where
  "hex_text i = (if i \<ge> 16 then hex_text (i div 16) @ [hex_char (i mod 16)] else [hex_char i])"
  by pat_completeness auto
termination by (relation "measure id") simp_all

declare dec_text.simps [simp del] hex_text.simps [simp del]

lemma print_dec_text: "print_dec k i = terminal_write k (dec_text i)"
proof (induction i rule: dec_text.induct)
  case (1 i)
  then show ?case
    by (subst print_dec.simps, subst dec_text.simps)
      (simp add: terminal_write_append terminal_write_single del: terminal_write.simps)
qed

lemma print_hex_text: "print_hex k i = terminal_write k (hex_text i)"
proof (induction i rule: hex_text.induct)
  case (1 i)
  then show ?case
    by (subst print_hex.simps, subst hex_text.simps)
      (simp add: terminal_write_append terminal_write_single del: terminal_write.simps)
qed

lemma below_sixteen: "d < 16 \<Longrightarrow> d \<in> set [0, 1, 2, 3, 4, 5, 6, 7, 8, 9, 10, 11, 12, 13, 14, 15 :: nat]"
  by simp presburger

lemma digit_of_hex_char: "d < 16 \<Longrightarrow> digit_value (hex_char d) = Some (int d) \<and> hex_char d \<noteq> 45"
proof -
  assume "d < 16"
  moreover have "list_all (\<lambda>d. digit_value (hex_char d) = Some (int d) \<and> hex_char d \<noteq> 45)
      [0, 1, 2, 3, 4, 5, 6, 7, 8, 9, 10, 11, 12, 13, 14, 15 :: nat]"
    by (simp add: hex_char_def digit_value_def)
  ultimately show ?thesis using below_sixteen unfolding list_all_iff by blast
qed

lemma dec_char: "d < 10 \<Longrightarrow> of_nat d + 48 = hex_char d"
  by (simp add: hex_char_def)

lemma digits_value_dec: "digits_value 10 0 (dec_text i) = Some i"
proof (induction i rule: dec_text.induct)
  case (1 i)
  have m: "i mod 10 < 10" "i mod 10 < 16" by simp_all
  show ?case
  proof (cases "i \<ge> 10")
    case True
    then show ?thesis using 1 digit_of_hex_char [OF m(2)]
      by (subst dec_text.simps) (simp add: digits_value_append dec_char [OF m(1)])
  next
    case False
    then show ?thesis using digit_of_hex_char [of i] by (subst dec_text.simps) (simp add: dec_char)
  qed
qed

lemma digits_value_hex: "digits_value 16 0 (hex_text i) = Some i"
proof (induction i rule: hex_text.induct)
  case (1 i)
  have m: "i mod 16 < 16" by simp
  show ?case
  proof (cases "i \<ge> 16")
    case True
    then show ?thesis using 1 digit_of_hex_char [OF m]
      by (subst hex_text.simps) (simp add: digits_value_append)
  next
    case False
    then show ?thesis using digit_of_hex_char [of i] by (subst hex_text.simps) simp
  qed
qed

lemma hd_dec_text: "dec_text i \<noteq> [] \<and> hd (dec_text i) \<noteq> 45"
proof (induction i rule: dec_text.induct)
  case (1 i)
  then show ?case using digit_of_hex_char [of i]
    by (subst dec_text.simps, subst (2) dec_text.simps) (simp add: dec_char)
qed

lemma hd_hex_text: "hex_text i \<noteq> [] \<and> hd (hex_text i) \<noteq> 45"
proof (induction i rule: hex_text.induct)
  case (1 i)
  then show ?case using digit_of_hex_char [of i]
    by (subst hex_text.simps, subst (2) hex_text.simps) simp
qed

definition signed_text :: "int \<Rightarrow> u8 list" where
  "signed_text x = (if x < 0 then 45 # dec_text (nat (- x)) else dec_text (nat x))"

lemma signed_text_value: "numeral_value 10 (signed_text x) = Some x"
proof (cases "x < 0")
  case True
  then show ?thesis using digits_value_dec [of "nat (- x)"] by (simp add: signed_text_def numeral_value_def)
next
  case False
  then show ?thesis using digits_value_dec [of "nat x"] hd_dec_text [of "nat x"]
    by (cases "dec_text (nat x)") (simp_all add: signed_text_def numeral_value_def)
qed

text \<open>The text that a format and its arguments stand for; \<open>None\<close>: the call is undefined.\<close>

fun conversion_text :: "u8 \<Rightarrow> arg list \<Rightarrow> (u8 list \<times> arg list) option" where
  "conversion_text c args =
    (if c = 99 then (case args of VInt x # rest \<Rightarrow> Some ([word_of_int x], rest) | _ \<Rightarrow> None)
     else if c = 100 then (case args of VInt x # rest \<Rightarrow>
       (if x > - (2 ^ 31) then Some (signed_text x, rest) else None) | _ \<Rightarrow> None)
     else if c = 117 then (case args of VUint x # rest \<Rightarrow> Some (dec_text x, rest) | _ \<Rightarrow> None)
     else if c = 112 then (case args of VPtr x # rest \<Rightarrow> Some (pointer_text x, rest) | _ \<Rightarrow> None)
     else if c = 120 then (case args of VUint x # rest \<Rightarrow> Some (hex_text x, rest) | _ \<Rightarrow> None)
     else if c = 115 then (case args of VStr x # rest \<Rightarrow> Some (x, rest) | _ \<Rightarrow> None)
     else if c = 37 then Some ([37], args)
     else Some ([], args))"

fun format_text :: "u8 list \<Rightarrow> arg list \<Rightarrow> u8 list option" where
  "format_text [] args = Some []"
| "format_text [c] args = (if c = 37 then None else Some [c])"
| "format_text (c # f # cs) args =
    (if c \<noteq> 37 then map_option (\<lambda>s. c # s) (format_text (f # cs) args)
     else case conversion_text f args of None \<Rightarrow> None
       | Some (s, rest) \<Rightarrow> map_option (\<lambda>u. s @ u) (format_text cs rest))"

lemma conversion_writes:
  assumes "conversion_text f args = Some (s, rest)"
  shows "andthen (display_conversion k f args) m = andthen (terminal_write k s) (\<lambda>_. m rest)"
proof -
  have *: "andthen (andthen w (\<lambda>_. ret r)) m = andthen w (\<lambda>_. m r)" for w :: "(display, unit) action" and r
    unfolding andthen_assoc by (rule arg_cong [where f = "andthen w"], rule ext) (rule ext, simp add: action_simps)
  note single = terminal_write_single [symmetric]
  show ?thesis
    using assms
    by (auto simp: display_conversion_def Let_def * print_dec_text print_hex_text signed_text_def
        single terminal_write_append [symmetric]
        simp del: terminal_write.simps split: if_splits list.splits arg.splits) (simp add: andthen_ret_left)
qed

theorem vprint_format:
  "format_text fmt args = Some s \<Longrightarrow> vprint k fmt args = terminal_write k s"
proof (induction k fmt args arbitrary: s rule: vprint.induct)
  case (2 k c args)
  then show ?case by (auto simp: andthen_ret_right split: if_splits)
next
  case (3 k c f cs args)
  show ?case
  proof (cases "c = 37")
    case False
    with 3 show ?thesis by auto
  next
    case True
    with 3(3) obtain u rest v where u: "conversion_text f args = Some (u, rest)" "format_text cs rest = Some v" "s = u @ v"
      by (auto simp del: conversion_text.simps split: option.splits)
    have "vprint k (c # f # cs) args = andthen (terminal_write k u) (\<lambda>_. vprint k cs rest)"
      using True conversion_writes [OF u(1)] by simp
    also have "vprint k cs rest = terminal_write k v" using 3(2) True u(2) by blast
    finally show ?thesis by (simp add: terminal_write_append u(3))
  qed
qed simp

text \<open>Printable text in front of the last cell goes to the next cells.\<close>

definition display_pos :: "display \<Rightarrow> nat" where
  "display_pos d = terminal_row d * 80 + terminal_column d"

definition plain :: "u8 \<Rightarrow> bool" where
  "plain c \<longleftrightarrow> 32 \<le> c \<and> c < 127"

lemma putchar_plain:
  assumes "display_ok d" "plain c" "display_pos d + 1 < 2000"
  shows "\<exists>d'. terminal_putchar k c d = (Ret (), d') \<and> display_ok d' \<and> display_pos d' = display_pos d + 1 \<and>
    terminal_color d' = terminal_color d \<and>
    terminal_buffer d' = (terminal_buffer d)[display_pos d := vga_entry c (terminal_color d)]"
proof -
  have "c \<noteq> 10" "c \<noteq> 13" using assms(2) by (auto simp: plain_def)
  moreover have "terminal_row d * 80 + terminal_column d < length (terminal_buffer d)"
    using assms(1) by (simp add: display_ok_def)
  ultimately show ?thesis
    using assms(1,3) by (auto simp: terminal_putchar_def terminal_putentryat_def andthen_def next_row_def
      display_ok_def display_pos_def Let_def)
qed

lemma terminal_write_plain:
  assumes "display_ok d" "list_all plain s" "display_pos d + length s < 2000"
  shows "\<exists>d'. terminal_write k s d = (Ret (), d') \<and> display_ok d' \<and> display_pos d' = display_pos d + length s \<and>
    terminal_buffer d' = take (display_pos d) (terminal_buffer d) @ map (\<lambda>c. vga_entry c (terminal_color d)) s @
      drop (display_pos d + length s) (terminal_buffer d)"
  using assms
proof (induction s arbitrary: d)
  case (Cons c s)
  let ?p = "display_pos d"
  obtain d1 where d1: "terminal_putchar k c d = (Ret (), d1)" "display_ok d1" "display_pos d1 = ?p + 1"
    "terminal_color d1 = terminal_color d"
    "terminal_buffer d1 = (terminal_buffer d)[?p := vga_entry c (terminal_color d)]"
    using putchar_plain [of d c k] Cons.prems by auto
  obtain d' where d': "terminal_write k s d1 = (Ret (), d')" "display_ok d'" "display_pos d' = ?p + 1 + length s"
    "terminal_buffer d' = take (?p + 1) (terminal_buffer d1) @ map (\<lambda>c. vga_entry c (terminal_color d)) s @
      drop (?p + 1 + length s) (terminal_buffer d1)"
    using Cons.IH [OF d1(2)] Cons.prems d1(3,4) by auto
  have "?p < length (terminal_buffer d)" using Cons.prems(1,3) by (simp add: display_ok_def)
  then have "take (?p + 1) (terminal_buffer d1) = take ?p (terminal_buffer d) @ [vga_entry c (terminal_color d)]"
    by (simp add: d1(5) take_Suc_conv_app_nth)
  moreover have "drop (?p + 1 + length s) (terminal_buffer d1) = drop (?p + length (c # s)) (terminal_buffer d)"
    by (simp add: d1(5))
  ultimately show ?case using d1(1) d' by (auto simp: andthen_def)
qed (auto simp: ret_def)

lemma plain_hex_char: "d < 16 \<Longrightarrow> plain (hex_char d)"
proof -
  assume "d < 16"
  moreover have "list_all (\<lambda>d. plain (hex_char d)) [0, 1, 2, 3, 4, 5, 6, 7, 8, 9, 10, 11, 12, 13, 14, 15 :: nat]"
    by (simp add: hex_char_def plain_def)
  ultimately show ?thesis using below_sixteen unfolding list_all_iff by blast
qed

lemma plain_dec_text: "list_all plain (dec_text i)"
proof (induction i rule: dec_text.induct)
  case (1 i)
  have "plain (hex_char (i mod 10))" by (rule plain_hex_char) simp
  moreover have "i < 10 \<Longrightarrow> plain (hex_char i)" by (rule plain_hex_char) simp
  ultimately show ?case using 1 by (subst dec_text.simps) (simp add: dec_char [of "i mod 10"] dec_char [of i])
qed

lemma plain_signed_text: "list_all plain (signed_text x)"
  by (simp add: signed_text_def plain_dec_text) (simp add: plain_def)

lemma format_plain: "37 \<notin> set s \<Longrightarrow> format_text (s @ fmt) args = map_option (\<lambda>u. s @ u) (format_text fmt args)"
proof (induction s)
  case (Cons c s)
  show ?case
  proof (cases "s @ fmt")
    case Nil
    then show ?thesis using Cons.prems by simp
  next
    case (Cons f cs)
    then show ?thesis using Cons.IH Cons.prems by (simp add: option.map_comp comp_def)
  qed
qed (cases "format_text fmt args"; simp)

text \<open>
  C26: \<^verbatim>\<open>print\<close> of a text with a number in it writes the text and a numeral of exactly that number
  to the cells behind the cursor, in the current colour, and changes no other cell, when there
  is room before the end of the screen.
\<close>

theorem display_prints_number:
  assumes "display_ok d" "list_all plain pre" "37 \<notin> set pre" "list_all plain post" "37 \<notin> set post" "- (2 ^ 31) < x"
    "display_pos d + length (pre @ signed_text x @ post) < 2000"
  shows "\<exists>ds d'. numeral_value 10 ds = Some x \<and> vprint k (pre @ [37, 100] @ post) [VInt x] d = (Ret (), d') \<and>
    display_ok d' \<and> display_pos d' = display_pos d + length (pre @ ds @ post) \<and>
    terminal_buffer d' = take (display_pos d) (terminal_buffer d) @
      map (\<lambda>c. vga_entry c (terminal_color d)) (pre @ ds @ post) @
      drop (display_pos d + length (pre @ ds @ post)) (terminal_buffer d)"
proof -
  have "format_text post [] = Some post" using format_plain [OF assms(5), of "[]"] by simp
  then have "format_text ([37, 100] @ post) [VInt x] = Some (signed_text x @ post)" using assms(6) by simp
  then have "format_text (pre @ [37, 100] @ post) [VInt x] = Some (pre @ signed_text x @ post)"
    using format_plain [OF assms(3)] by simp
  from vprint_format [OF this] have v: "vprint k (pre @ [37, 100] @ post) [VInt x] = terminal_write k (pre @ signed_text x @ post)" .
  have "list_all plain (pre @ signed_text x @ post)" using assms(2,4) plain_signed_text by simp
  from terminal_write_plain [OF assms(1) this assms(7), of k] v signed_text_value show ?thesis by metis
qed

theorem display_prints_number_witness:
  "\<exists>ds d'. numeral_value 10 ds = Some (- 17) \<and>
    vprint False [120, 61, 37, 100] [VInt (- 17)] \<lparr>terminal_row = 24, terminal_column = 60, terminal_color = 7,
      terminal_buffer = replicate 2000 0\<rparr> = (Ret (), d')"
proof -
  let ?d = "\<lparr>terminal_row = 24, terminal_column = 60, terminal_color = 7, terminal_buffer = replicate 2000 0\<rparr>"
  have "display_ok ?d" by (simp add: display_ok_def)
  moreover have "display_pos ?d + length ([120, 61] @ signed_text (- 17) @ []) < 2000"
    by (simp add: display_pos_def signed_text_def dec_text.simps)
  ultimately show ?thesis
    using display_prints_number [of ?d "[120, 61]" "[]" "- 17" False] by (auto simp: plain_def)
qed

section \<open>The VGA driver\<close>

definition text_ok :: "text_driver \<Rightarrow> bool" where
  "text_ok t \<longleftrightarrow> curr_col t < 80 \<and> curr_row t < 25 \<and> curr_offset t < 2 ^ 14"

definition text_pos :: "text_driver \<Rightarrow> nat" where
  "text_pos t = curr_col t + curr_row t * 80 + curr_offset t"

lemma put_cell_fields [simp]:
  "curr_col (put_cell i v t) = curr_col t" "curr_row (put_cell i v t) = curr_row t"
  "curr_offset (put_cell i v t) = curr_offset t" "cells (put_cell i v t) = (cells t)(i := v)"
  by (simp_all add: put_cell_def)

lemma clear_cells_fields [simp]:
  "curr_col (clear_cells i n t) = curr_col t" "curr_row (clear_cells i n t) = curr_row t"
  "curr_offset (clear_cells i n t) = curr_offset t"
  "cells (clear_cells i n t) j = (if i \<le> j \<and> j < i + int n then 0 else cells t j)"
  by (simp_all add: clear_cells_def)

lemma do_scroll_ok:
  assumes "curr_row t < 25" "curr_offset t < 2 ^ 14"
  shows "text_ok (do_scroll t)"
    "j < 0 \<or> 2 ^ 14 + 2000 \<le> j \<Longrightarrow> cells (do_scroll t) j = cells t j"
proof -
  have o: "(curr_offset t + 80) mod 2 ^ 14 < 2 ^ 14" by simp
  show "text_ok (do_scroll t)" using assms o by (auto simp: do_scroll_def Let_def text_ok_def)
  define last where "last = ((curr_offset t + 80) mod 2 ^ 14 + 24 * 80) mod 2 ^ 16"
  have "last < 2 ^ 14 + 24 * 80" using o mod_less_eq_dividend [of "(curr_offset t + 80) mod 2 ^ 14 + 24 * 80" "2 ^ 16"]
    unfolding last_def by linarith
  then show "j < 0 \<or> 2 ^ 14 + 2000 \<le> j \<Longrightarrow> cells (do_scroll t) j = cells t j"
    by (auto simp: do_scroll_def Let_def last_def)
qed

lemma scroll_back_ok: "curr_row t < 25 \<Longrightarrow> curr_offset t < 2 ^ 14 \<Longrightarrow> text_ok (scroll_back t) \<and> cells (scroll_back t) = cells t"
  by (auto simp: scroll_back_def text_ok_def Let_def)

lemma text_char_ok:
  assumes "text_ok t"
  shows "text_ok (text_char color c t)"
    "j < - 1 \<or> 2 ^ 14 + 2000 \<le> j \<Longrightarrow> cells (text_char color c t) j = cells t j"
proof -
  have t: "curr_col t < 80" "curr_row t < 25" "curr_offset t < 2 ^ 14" using assms by (simp_all add: text_ok_def)
  note scroll = do_scroll_ok [OF t(2,3)]
  let ?q = "int (curr_col t + curr_row t * 80 + curr_offset t)"
  have q: "0 \<le> ?q" "?q < 2 ^ 14 + 2000" using t by auto
  define t1 where "t1 = (put_cell ?q (text_cell color c) t)\<lparr>curr_col := curr_col t + 1\<rparr>"
  have t1: "curr_row t1 < 25" "curr_offset t1 < 2 ^ 14" using t by (simp_all add: t1_def)
  define t2 where "t2 = (put_cell (?q - 1) (text_cell color 32) t)\<lparr>curr_col := (curr_col t + (2 ^ 32 - 1)) mod 2 ^ 32\<rparr>"
  have t2: "curr_row t2 < 25" "curr_offset t2 < 2 ^ 14" using t by (simp_all add: t2_def)
  have m: "curr_col t \<noteq> 0 \<Longrightarrow> (curr_col t + (2 ^ 32 - 1)) mod 2 ^ 32 = curr_col t - 1" using t(1)
    by (simp add: mod_if)
  have e: "text_char color c t = (if c = 10 then do_scroll t
     else if c = 127 then if curr_col t = 0 then scroll_back t2 else t2
     else if curr_col t + 1 \<noteq> 80 then t1 else do_scroll t1)"
    by (simp add: text_char_def Let_def t1_def t2_def)
  show "text_ok (text_char color c t)"
    using e scroll(1) scroll_back_ok [OF t2] do_scroll_ok(1) [OF t1] t m by (auto simp: text_ok_def t1_def t2_def)
  show "cells (text_char color c t) j = cells t j" if "j < - 1 \<or> 2 ^ 14 + 2000 \<le> j"
  proof -
    have "cells t1 j = cells t j" "cells t2 j = cells t j" using that q by (auto simp: t1_def t2_def)
    then show ?thesis
      using e scroll(2) [of j] scroll_back_ok [OF t2] do_scroll_ok(2) [OF t1, of j] that by auto
  qed
qed

text \<open>
  Whatever is written to the screen driver, the cursor stays on the screen, the offset within
  the 16384 cells of the plane, and nothing outside the cells from one before the plane to 2000
  behind it changes.
\<close>

theorem text_write_bounded:
  assumes "text_ok t"
  shows "\<exists>t'. text_write color buf t = (Ret (length buf), t') \<and> text_ok t' \<and>
    (\<forall>j. j < - 1 \<or> 2 ^ 14 + 2000 \<le> j \<longrightarrow> cells t' j = cells t j)"
proof -
  have "text_ok (fold (text_char color) buf t) \<and>
      (\<forall>j. j < - 1 \<or> 2 ^ 14 + 2000 \<le> j \<longrightarrow> cells (fold (text_char color) buf t) j = cells t j)"
    using assms
  proof (induction buf arbitrary: t)
    case (Cons c buf)
    from Cons.IH [OF text_char_ok(1) [OF Cons.prems, of color c]] text_char_ok(2) [OF Cons.prems, of _ color c]
    show ?case by simp
  qed simp
  then show ?thesis by (simp add: text_write_def)
qed

theorem text_write_bounded_witness:
  "\<exists>t'. text_write 15 [127, 10, 200] (new_text_driver 0 (\<lambda>_. 0)) = (Ret 3, t') \<and> text_ok t'"
  using text_write_bounded [of "new_text_driver 0 (\<lambda>_. 0)" 15 "[127, 10, 200]"]
  by (auto simp: text_ok_def new_text_driver_def)

text \<open>
  A printable character advances the position by one, over ends of lines and scrolling alike,
  and a scroll clears only cells behind the position.
\<close>

lemma do_scroll_pos:
  assumes "curr_col t = 80" "curr_row t < 25" "text_pos t < 2 ^ 14"
  shows "text_pos (do_scroll t) = text_pos t" "j < int (text_pos t) \<Longrightarrow> cells (do_scroll t) j = cells t j"
  using assms by (auto simp: do_scroll_def Let_def text_pos_def)

lemma plain_cell:
  assumes "plain c"
  shows "(scast c :: u16) = ucast c"
proof -
  have "uint c < 127" using assms by (simp add: plain_def word_less_def)
  then have "sint c = uint c"
    unfolding sint_uint by (intro signed_take_bit_int_eq_self) (simp_all add: order_trans [OF _ uint_nonnegative])
  then show ?thesis by (metis ucast_eq scast_eq)
qed

lemma text_char_plain:
  assumes "text_ok t" "plain c" "text_pos t + 1 < 2 ^ 14"
  shows "text_pos (text_char color c t) = text_pos t + 1" "cells (text_char color c t) (int (text_pos t)) = text_cell color c"
    "j < int (text_pos t) \<Longrightarrow> cells (text_char color c t) j = cells t j"
proof -
  have c: "c \<noteq> 10" "c \<noteq> 127" using assms(2) by (auto simp: plain_def)
  define t1 where "t1 = (put_cell (int (text_pos t)) (text_cell color c) t)\<lparr>curr_col := curr_col t + 1\<rparr>"
  have e: "text_char color c t = (if curr_col t + 1 \<noteq> 80 then t1 else do_scroll t1)"
    using c by (simp add: text_char_def Let_def t1_def text_pos_def)
  have p: "text_pos t1 = text_pos t + 1" by (simp add: t1_def text_pos_def)
  have r: "curr_row t1 < 25" using assms(1) by (simp add: t1_def text_ok_def)
  have s: "text_pos (do_scroll t1) = text_pos t1" "\<And>j. j < int (text_pos t1) \<Longrightarrow> cells (do_scroll t1) j = cells t1 j"
    if "curr_col t + 1 = 80"
    using do_scroll_pos [of t1] r that assms(3) p by (simp_all add: t1_def)
  have k: "cells t1 (int (text_pos t)) = text_cell color c" "j < int (text_pos t) \<Longrightarrow> cells t1 j = cells t j" for j
    by (simp_all add: t1_def)
  show "text_pos (text_char color c t) = text_pos t + 1" using e p s(1) by simp
  show "cells (text_char color c t) (int (text_pos t)) = text_cell color c"
    using e s(2) [of "int (text_pos t)"] p k(1) by simp
  show "j < int (text_pos t) \<Longrightarrow> cells (text_char color c t) j = cells t j"
    using e s(2) [of j] p k(2) [of j] by simp
qed

text \<open>
  Printable text written to the screen driver appears in the cells that follow the cursor, in
  order and in the colour of the handle, whether lines end or the screen scrolls in between;
  nothing in front changes.
\<close>

theorem text_write_shows:
  assumes "text_ok t" "list_all plain s" "text_pos t + length s < 2 ^ 14"
  shows "\<exists>t'. text_write color s t = (Ret (length s), t') \<and> text_pos t' = text_pos t + length s \<and>
    (\<forall>i < length s. cells t' (int (text_pos t + i)) = ucast (s ! i) OR push_bit 8 color) \<and>
    (\<forall>j < int (text_pos t). cells t' j = cells t j)"
proof -
  have "text_pos (fold (text_char color) s t) = text_pos t + length s \<and>
      (\<forall>i < length s. cells (fold (text_char color) s t) (int (text_pos t + i)) = text_cell color (s ! i)) \<and>
      (\<forall>j < int (text_pos t). cells (fold (text_char color) s t) j = cells t j)"
    using assms
  proof (induction s arbitrary: t)
    case (Cons c s)
    note C = text_char_plain [where t = t and c = c and color = color]
    have IH: "text_pos (fold (text_char color) s (text_char color c t)) = text_pos t + 1 + length s"
      "\<And>i. i < length s \<Longrightarrow> cells (fold (text_char color) s (text_char color c t)) (int (text_pos t + 1 + i)) = text_cell color (s ! i)"
      "\<And>j. j < int (text_pos t + 1) \<Longrightarrow> cells (fold (text_char color) s (text_char color c t)) j = cells (text_char color c t) j"
      using Cons.IH [OF text_char_ok(1) [OF Cons.prems(1), of color c]] Cons.prems C(1) by (simp_all add: add.assoc)
    have "cells (fold (text_char color) (c # s) t) (int (text_pos t + i)) = text_cell color ((c # s) ! i)"
      if "i < length (c # s)" for i
    proof (cases i)
      case 0
      then show ?thesis using IH(3) [of "int (text_pos t)"] C(2) Cons.prems by simp
    next
      case (Suc k)
      then show ?thesis using IH(2) [of k] that by (simp add: algebra_simps)
    qed
    moreover have "cells (fold (text_char color) (c # s) t) j = cells t j" if "j < int (text_pos t)" for j
      using IH(3) [of j] C(3) [of j] Cons.prems that by simp
    ultimately show ?case using IH(1) by simp
  qed simp
  moreover have "text_cell color c = ucast c OR push_bit 8 color" if "plain c" for c
    using plain_cell [OF that] by (simp add: text_cell_def)
  ultimately show ?thesis using assms(2) by (simp add: text_write_def list_all_length)
qed

theorem text_write_shows_witness:
  "\<exists>t'. text_write 15 (replicate 90 65) \<lparr>curr_col = 70, curr_row = 24, curr_offset = 0, shown_from = 0, cells = (\<lambda>_. 0)\<rparr> = (Ret 90, t') \<and>
    text_pos t' = 2080 \<and> cells t' 2079 = 0xF41"
proof -
  let ?t = "\<lparr>curr_col = 70, curr_row = 24, curr_offset = 0, shown_from = 0, cells = (\<lambda>_. 0)\<rparr>"
  have "text_ok ?t" "list_all plain (replicate 90 65)" "text_pos ?t + length (replicate 90 (65 :: u8)) < 2 ^ 14"
    by (simp_all add: text_ok_def text_pos_def plain_def list_all_iff)
  from text_write_shows [OF this, where color = 15] obtain t' where t':
    "text_write 15 (replicate 90 65) ?t = (Ret 90, t')" "text_pos t' = text_pos ?t + 90"
    "\<forall>i < 90. cells t' (int (text_pos ?t + i)) = ucast (replicate 90 (65 :: u8) ! i) OR push_bit 8 15" by auto
  have "cells t' (int (text_pos ?t + 89)) = 0xF41" using t'(3) [rule_format, of 89] by (simp add: push_bit_eq_mult)
  with t'(1,2) show ?thesis by (simp add: text_pos_def)
qed

text \<open>A character above 127 is sign-extended over the colour.\<close>

lemma high_char_cell: "text_cell 15 200 = 0xFFC8"
  by (simp add: text_cell_def push_bit_eq_mult)

text \<open>With the largest offset the lower lines of the screen lie behind the plane.\<close>

lemma text_write_behind_plane:
  "cells (snd (text_write 15 [65] \<lparr>curr_col = 0, curr_row = 24, curr_offset = 16320, shown_from = 0, cells = (\<lambda>_. 0)\<rparr>)) 18240 = 0xF41"
  by (simp add: text_write_def text_char_def put_cell_def text_cell_def push_bit_eq_mult Let_def)

end
