(* ===== verification/Ahci.thy ===== *)
theory Ahci
  imports Phmem
begin

text \<open>
  The disk: the file interface of drivers/ahci/interface.cc on top of the command slots of
  ahci.cc and hl_command.cc. The host bus adapter is not code of the repository: \<open>hba_run\<close> states
  what its specification promises of a single command. Physical memory and the disk are bytes;
  the window maps physical memory linearly, so that a buffer stands for its physical address.
\<close>

section \<open>Commands\<close>

text \<open>A region descriptor: physical address, and the number of bytes less one.\<close>

record phy_region_desc =
  loc :: nat
  dbc :: nat

record eff_command =
  prdt :: "phy_region_desc list"
  curr_prdt_offset :: int
  totlen :: nat
  direction :: bool

record command_header =
  prdt_entrylen :: nat
  xferred_bytecnt :: nat
  w :: bool
  cfl :: nat

record reg_h2d =
  command :: u8
  lbal24_device :: nat
  lbah24_featureh :: nat
  count :: nat

definition new_eff_command :: "bool \<Rightarrow> phy_region_desc list \<Rightarrow> eff_command" where
  "new_eff_command write junk = \<lparr>prdt = junk, curr_prdt_offset = - 1, totlen = 0, direction = write\<rparr>"

definition reset :: "bool \<Rightarrow> eff_command \<Rightarrow> eff_command" where
  "reset ndir c = c\<lparr>curr_prdt_offset := - 1, direction := ndir, totlen := 0\<rparr>"

text \<open>\<open>rest\<close> is \<^verbatim>\<open>len - cnt\<close>, \<open>start\<close> is \<^verbatim>\<open>start + cnt\<close>. The offset is not negative in the loop.\<close>

function prdt_loop :: "nat \<Rightarrow> nat \<Rightarrow> eff_command \<Rightarrow> eff_command" where
  "prdt_loop start rest c =
    (if curr_prdt_offset c < 248 \<and> 0 < rest then
       let delta = min rest (4096 * 1024) in
       prdt_loop (start + delta) (rest - delta)
         (c\<lparr>prdt := (prdt c)[nat (curr_prdt_offset c) := \<lparr>loc = start, dbc = delta - 1\<rparr>],
            curr_prdt_offset := curr_prdt_offset c + 1\<rparr>)
     else c)"
  by pat_completeness auto
termination by (relation "measure (\<lambda>(start, rest, c). rest)") auto

declare prdt_loop.simps [simp del]

definition setup_linear_prdt :: "nat \<Rightarrow> nat \<Rightarrow> (eff_command, unit) action" where
  "setup_linear_prdt start len c =
    (let c = c\<lparr>curr_prdt_offset := curr_prdt_offset c + 1\<rparr> in
     if len mod 2 \<noteq> 0 \<or> start mod 2 \<noteq> 0 then (Throw (Einval ''Transfers must be word-sized''), c)
     else let c = prdt_loop start len c in
       if curr_prdt_offset c = 248 then (Throw (Einval ''Too large transfer''), c)
       else (Ret (), c\<lparr>totlen := totlen c + len\<rparr>))"

definition setup_header :: "eff_command \<Rightarrow> command_header" where
  "setup_header c = \<lparr>prdt_entrylen = nat (curr_prdt_offset c + 1), xferred_bytecnt = totlen c,
     w = direction c, cfl = 5\<rparr>"

section \<open>The port\<close>

text \<open>
  \<open>pages\<close> is the allocator behind \<^verbatim>\<open>get_phpage\<close>; \<open>capability\<close> and \<open>command_issue\<close> are registers;
  \<open>total_size\<close> counts sectors of 512 bytes.
\<close>

record ahci =
  disk :: "nat \<Rightarrow> u8"
  pmem :: "nat \<Rightarrow> u8"
  pages :: ph_tree
  total_size :: nat
  pos :: nat
  capability :: u32
  command_issue :: u32
  cmdslot :: "eff_command list"

definition set_fis :: "bool \<Rightarrow> nat \<Rightarrow> nat \<Rightarrow> reg_h2d" where
  "set_fis write at numsec = \<lparr>command = (if write then 0x35 else 0x25),
     lbal24_device = (at mod 2 ^ 24) + 0x40000000, lbah24_featureh = (at div 2 ^ 24) mod 2 ^ 24,
     count = numsec\<rparr>"

definition max_slot :: "ahci \<Rightarrow> nat" where
  "max_slot s = unat (drop_bit 8 (capability s) AND 0x1f)"

text \<open>The first argument is the number of slots left to try.\<close>

fun slot_loop :: "nat \<Rightarrow> u32 \<Rightarrow> nat \<Rightarrow> nat" where
  "slot_loop 0 running slot = slot"
| "slot_loop (Suc k) running slot = (if bit running slot then slot_loop k running (slot + 1) else slot)"

text \<open>
  The bytes of memory the table describes, in the order of the transfer. A command moves 512
  bytes per sector (a count of 0 stands for 65536 sectors) between the disk and the first of
  these bytes. Where the table is too short, or the disk ends, it stops with an error and its
  bit in \<^verbatim>\<open>command_issue\<close> stays set.
\<close>

definition prdt_bytes :: "nat \<Rightarrow> phy_region_desc list \<Rightarrow> nat list" where
  "prdt_bytes n ds = concat (map (\<lambda>d. [loc d..<loc d + dbc d + 1]) (take n ds))"

definition sectors :: "reg_h2d \<Rightarrow> nat" where
  "sectors f = (if count f = 0 then 65536 else count f)"

definition lba :: "reg_h2d \<Rightarrow> nat" where
  "lba f = lbal24_device f mod 2 ^ 24 + lbah24_featureh f mod 2 ^ 24 * 2 ^ 24"

definition to_memory :: "(nat \<Rightarrow> u8) \<Rightarrow> nat \<Rightarrow> nat list \<Rightarrow> nat \<Rightarrow> (nat \<Rightarrow> u8) \<Rightarrow> nat \<Rightarrow> u8" where
  "to_memory d from as n = fold (\<lambda>i m. m(as ! i := d (from + i))) [0..<n]"

definition hba_run :: "reg_h2d \<Rightarrow> command_header \<Rightarrow> phy_region_desc list \<Rightarrow> ahci \<Rightarrow> bool \<times> ahci" where
  "hba_run f h ds s =
    (let as = prdt_bytes (prdt_entrylen h) ds; n = sectors f * 512; from = lba f * 512 in
     if length as < n \<or> lba f + sectors f > total_size s then (False, s)
     else if w h then
       (True, s\<lparr>disk := (\<lambda>b. if from \<le> b \<and> b < from + n then pmem s (as ! (b - from)) else disk s b)\<rparr>)
     else (True, s\<lparr>pmem := to_memory (disk s) from as n (pmem s)\<rparr>))"

text \<open>
  \<^verbatim>\<open>start_read\<close> and \<^verbatim>\<open>start_write\<close>. A command that completes does so at once: the driver looks at
  the data only after it has waited for the command. \<open>None\<close>: it will never complete.
\<close>

definition start_command :: "bool \<Rightarrow> nat \<Rightarrow> nat \<Rightarrow> nat \<Rightarrow> (ahci, nat option) action" where
  "start_command write buffer at numsec s =
    (let slot = slot_loop (max_slot s + 1) (command_issue s) 0 in
     if slot > max_slot s then (Throw (Ebusy ''''), s)
     else case setup_linear_prdt buffer (numsec * 512) (reset write (cmdslot s ! slot)) of (r, c) \<Rightarrow>
       let s = s\<lparr>cmdslot := (cmdslot s)[slot := c]\<rparr> in
       case r of
         Ret u \<Rightarrow> (case hba_run (set_fis write at numsec) (setup_header c) (prdt c) s of
             (True, s) \<Rightarrow> (Ret (Some slot), s)
           | (False, s) \<Rightarrow> (Ret None, s\<lparr>command_issue := command_issue s OR push_bit slot 1\<rparr>))
       | Throw e \<Rightarrow> (Throw e, s)
       | Fault e \<Rightarrow> (Fault e, s)
       | Hang \<Rightarrow> (Hang, s))"

text \<open>\<^verbatim>\<open>while(!check_on_read(c))\<close>\<close>

definition wait_for :: "nat option \<Rightarrow> (ahci, unit) action" where
  "wait_for c s = (if c = None then (Hang, s) else (Ret (), s))"

section \<open>The file of a disk\<close>

definition get_phpage :: "(ahci, nat) action" where
  "get_phpage s = (case get_page 7 (pages s) of (p, t) \<Rightarrow> (Ret p, s\<lparr>pages := t\<rparr>))"

definition release_phpage :: "nat \<Rightarrow> (ahci, unit) action" where
  "release_phpage p s = (Ret (), s\<lparr>pages := release_page 7 (pages s) p\<rparr>)"

definition move_pos :: "nat \<Rightarrow> (ahci, unit) action" where
  "move_pos n s = (Ret (), s\<lparr>pos := pos s + n\<rparr>)"

text \<open>The number of bytes one round moves: what is left of a page after the offset in the sector.\<close>

definition payload :: "nat \<Rightarrow> ahci \<Rightarrow> nat" where
  "payload cnt s = (if cnt < 4096 - pos s mod 512 then cnt else 4096 - pos s mod 512)"

definition read_round :: "nat \<Rightarrow> (ahci, u8 list) action" where
  "read_round cnt s =
    (let begin_lba = pos s div 512; n = payload cnt s; o' = pos s mod 512;
         to_rd = (if cnt < 4096 then (cnt + 511) div 512 else 4096 div 512)
     in andthen get_phpage (\<lambda>page.
        andthen (start_command False page begin_lba to_rd) (\<lambda>c.
        andthen (wait_for c) (\<lambda>_ s.
          let bs = map (\<lambda>i. pmem s (page + o' + i)) [0..<n] in
          andthen (move_pos n) (\<lambda>_. andthen (release_phpage page) (\<lambda>_. ret bs)) s))) s)"

function ahci_read :: "nat \<Rightarrow> (ahci, u8 list) action" where
  "ahci_read cnt s =
    (if cnt = 0 then (Ret [], s)
     else case read_round cnt s of
       (Ret bs, s') \<Rightarrow>
         if payload cnt s \<noteq> cnt
         then andthen (ahci_read (cnt - payload cnt s)) (\<lambda>bs'. ret (bs @ bs')) s'
         else (Ret bs, s')
     | (Throw e, s') \<Rightarrow> (Throw e, s') | (Fault e, s') \<Rightarrow> (Fault e, s') | (Hang, s') \<Rightarrow> (Hang, s'))"
  by pat_completeness auto

termination
proof (relation "measure (\<lambda>(cnt, s). cnt)", goal_cases)
  case (2 cnt s)
  have "0 < payload cnt s" using 2(1) mod_less_divisor [of 512 "pos s"] by (auto simp: payload_def)
  then show ?case using 2(1) by simp
qed simp

declare ahci_read.simps [simp del]

definition read_sector :: "bool \<Rightarrow> nat \<Rightarrow> nat \<Rightarrow> (ahci, nat option option) action" where
  "read_sector needed buffer at =
    (if needed then andthen (start_command False buffer at 1) (\<lambda>c. ret (Some c)) else ret None)"

text \<open>\<^verbatim>\<open>while(c != -1 && !check_on_read(c))\<close>\<close>

definition wait_if :: "nat option option \<Rightarrow> (ahci, unit) action" where
  "wait_if c = (case c of None \<Rightarrow> ret () | Some c \<Rightarrow> wait_for c)"

definition store_bytes :: "nat \<Rightarrow> u8 list \<Rightarrow> (ahci, unit) action" where
  "store_bytes a bs s = (Ret (), s\<lparr>pmem := (\<lambda>b. if a \<le> b \<and> b < a + length bs then bs ! (b - a) else pmem s b)\<rparr>)"

definition write_round :: "u8 list \<Rightarrow> (ahci, unit) action" where
  "write_round buf s =
    (let begin_lba = pos s div 512; o' = pos s mod 512; iter_size = payload (length buf) s;
         last_offset = iter_size - 1 + o'
     in andthen get_phpage (\<lambda>page.
        andthen (read_sector (o' \<noteq> 0) page begin_lba) (\<lambda>c1.
        andthen (read_sector (last_offset mod 512 \<noteq> 511) (page + last_offset div 512 * 512) (begin_lba + last_offset div 512)) (\<lambda>c2.
        andthen (wait_if c1) (\<lambda>_.
        andthen (wait_if c2) (\<lambda>_.
        andthen (store_bytes (page + o') (take iter_size buf)) (\<lambda>_.
        andthen (start_command True page begin_lba ((last_offset + 511) div 512)) (\<lambda>c3.
        andthen (wait_for c3) (\<lambda>_.
        andthen (move_pos iter_size) (\<lambda>_. release_phpage page))))))))) s)"

function ahci_write :: "u8 list \<Rightarrow> (ahci, nat) action" where
  "ahci_write buf s =
    (if buf = [] then (Ret 0, s)
     else let n = payload (length buf) s in
       case write_round buf s of
         (Ret u, s') \<Rightarrow>
           if n \<noteq> length buf then andthen (ahci_write (drop n buf)) (\<lambda>k. ret (n + k)) s'
           else (Ret n, s')
       | (Throw e, s') \<Rightarrow> (Throw e, s') | (Fault e, s') \<Rightarrow> (Fault e, s') | (Hang, s') \<Rightarrow> (Hang, s'))"
  by pat_completeness auto
termination
proof (relation "measure (\<lambda>(buf, s). length buf)", goal_cases)
  case (2 buf s)
  have "0 < payload (length buf) s" using 2(1) mod_less_divisor [of 512 "pos s"] by (auto simp: payload_def)
  then show ?case using 2(1,2) by simp
qed simp

declare ahci_write.simps [simp del]

text \<open>\<^verbatim>\<open>seek(total_size*512 - off, SET)\<close>: a positive offset moves back from the end.\<close>

definition ahci_seek_set :: "int \<Rightarrow> (ahci, int) action" where
  "ahci_seek_set off s =
    (if off < 0 \<or> off > int (total_size s * 512) then (Throw (Einval ''[ahci] Out of bounds seek''), s)
     else (Ret off, s\<lparr>pos := nat off\<rparr>))"

datatype whence = SEEK_SET | SEEK_CUR | SEEK_END

definition ahci_seek :: "int \<Rightarrow> whence \<Rightarrow> (ahci, int) action" where
  "ahci_seek off wh s = (case wh of
     SEEK_SET \<Rightarrow> ahci_seek_set off s
   | SEEK_CUR \<Rightarrow> ahci_seek_set (off + int (pos s)) s
   | SEEK_END \<Rightarrow> ahci_seek_set (int (total_size s * 512) - off) s)"

section \<open>A single command\<close>

definition ahci_ok :: "ahci \<Rightarrow> bool" where
  "ahci_ok s \<longleftrightarrow> wf_ph 7 (pages s) \<and> (\<exists>k. free_at 7 (pages s) k) \<and> length (cmdslot s) = 32 \<and>
    (\<forall>c \<in> set (cmdslot s). length (prdt c) = 248) \<and> \<not> bit (command_issue s) 0 \<and> total_size s \<le> 2 ^ 48"

lemma prdt_loop_small:
  assumes "0 < n" "n \<le> 4096 * 1024" "curr_prdt_offset c = 0"
  shows "prdt_loop p n c = c\<lparr>prdt := (prdt c)[0 := \<lparr>loc = p, dbc = n - 1\<rparr>], curr_prdt_offset := 1\<rparr>"
  using assms by (subst prdt_loop.simps) (simp add: Let_def min_def prdt_loop.simps)

lemma set_fis_sectors: "0 < n \<Longrightarrow> at < 2 ^ 48 \<Longrightarrow> sectors (set_fis wr at n) = n \<and> lba (set_fis wr at n) = at"
proof -
  assume a: "0 < n" "at < 2 ^ 48"
  have "at div 2 ^ 24 < 2 ^ 24" using a(2) by (simp add: div_less_iff_less_mult)
  then have "(at div 2 ^ 24) mod 2 ^ 24 = at div 2 ^ 24" by simp
  moreover have "at mod 2 ^ 24 + 0x40000000 = at mod 2 ^ 24 + 2 ^ 24 * 64" by simp
  then have "(at mod 2 ^ 24 + 0x40000000) mod 2 ^ 24 = at mod 2 ^ 24" by (simp only: mod_mult_self2 mod_mod_trivial)
  moreover have "at mod 2 ^ 24 + at div 2 ^ 24 * 2 ^ 24 = at" by (rule mod_div_mult_eq)
  ultimately show ?thesis using a(1) by (simp add: sectors_def lba_def set_fis_def)
qed

lemma to_memory_range:
  assumes "m \<le> n" "\<And>i. i < n \<Longrightarrow> ba ! i = p + i"
  shows "to_memory d from ba m mem = (\<lambda>a. if p \<le> a \<and> a < p + m then d (from + (a - p)) else mem a)"
  using assms(1)
proof (induction m)
  case (Suc m)
  then have "ba ! m = p + m" using assms(2) by simp
  moreover have "to_memory d from ba (Suc m) mem = (to_memory d from ba m mem)(ba ! m := d (from + m))"
    by (simp add: to_memory_def)
  ultimately have "to_memory d from ba (Suc m) mem =
      (\<lambda>a. if p \<le> a \<and> a < p + m then d (from + (a - p)) else mem a)(p + m := d (from + m))"
    using Suc by simp
  also have "\<dots> = (\<lambda>a. if p \<le> a \<and> a < p + Suc m then d (from + (a - p)) else mem a)"
    by (rule ext) auto
  finally show ?case .
qed (simp add: to_memory_def, rule ext, auto)

text \<open>One command of up to eight sectors on the first slot.\<close>

definition command_done :: "bool \<Rightarrow> nat \<Rightarrow> nat \<Rightarrow> nat \<Rightarrow> ahci \<Rightarrow> ahci \<Rightarrow> bool" where
  "command_done write p at n s s' \<longleftrightarrow> (\<exists>cs. (\<forall>c \<in> set cs. length (prdt c) = 248) \<and> length cs = 32 \<and>
    s' = (if write
      then s\<lparr>cmdslot := cs, disk := (\<lambda>b. if at * 512 \<le> b \<and> b < (at + n) * 512 then pmem s (p + (b - at * 512)) else disk s b)\<rparr>
      else s\<lparr>cmdslot := cs, pmem := (\<lambda>a. if p \<le> a \<and> a < p + n * 512 then disk s (at * 512 + (a - p)) else pmem s a)\<rparr>))"

lemma start_command_done:
  assumes ok: "length (cmdslot s) = 32" "\<forall>c \<in> set (cmdslot s). length (prdt c) = 248" "\<not> bit (command_issue s) 0"
    "total_size s \<le> 2 ^ 48"
    and a: "p mod 2 = 0" "0 < n" "n \<le> 8" "at + n \<le> total_size s"
  shows "\<exists>s'. start_command write p at n s = (Ret (Some 0), s') \<and> command_done write p at n s s'"
proof -
  let ?c0 = "(reset write (cmdslot s ! 0))\<lparr>curr_prdt_offset := 0\<rparr>"
  define c where "c = (reset write (cmdslot s ! 0))\<lparr>prdt := (prdt (cmdslot s ! 0))[0 := \<lparr>loc = p, dbc = n * 512 - 1\<rparr>],
    curr_prdt_offset := 1, totlen := n * 512\<rparr>"
  have l: "length (prdt (cmdslot s ! 0)) = 248" using ok(1,2) by simp
  have slot: "slot_loop (max_slot s + 1) (command_issue s) 0 = 0" using ok(3) by simp
  have "prdt_loop p (n * 512) ?c0 = ?c0\<lparr>prdt := (prdt ?c0)[0 := \<lparr>loc = p, dbc = n * 512 - 1\<rparr>], curr_prdt_offset := 1\<rparr>"
    using a(2,3) by (intro prdt_loop_small) simp_all
  then have su: "setup_linear_prdt p (n * 512) (reset write (cmdslot s ! 0)) = (Ret (), c)"
    using a(1) by (simp add: setup_linear_prdt_def Let_def c_def reset_def)
  define t where "t = s\<lparr>cmdslot := (cmdslot s)[0 := c]\<rparr>"
  obtain d2 ds where ds: "prdt c = \<lparr>loc = p, dbc = n * 512 - 1\<rparr> # d2 # ds"
  proof -
    obtain x y zs where "prdt (cmdslot s ! 0) = x # y # zs" using l by (auto simp: numeral_eq_Suc length_Suc_conv)
    then show thesis using that by (simp add: c_def)
  qed
  define ba where "ba = prdt_bytes (prdt_entrylen (setup_header c)) (prdt c)"
  have one: "Suc (p + (n * 512 - Suc 0)) = p + n * 512" using a(2) by simp
  have ba: "ba = [p..<p + n * 512] @ [loc d2..<loc d2 + dbc d2 + 1]"
    by (simp add: ba_def prdt_bytes_def setup_header_def ds one del: upt_Suc) (simp add: c_def one del: upt_Suc)
  have ba_nth: "i < n * 512 \<Longrightarrow> ba ! i = p + i" for i by (simp add: ba nth_append)
  note F = set_fis_sectors [OF a(2), of "at" "write"]
  have at: "at < 2 ^ 48" using a(2,4) ok(4) by simp
  have len: "\<not> length ba < n * 512" by (simp add: ba)
  have w: "w (setup_header c) = write" by (simp add: setup_header_def c_def reset_def)
  have ts: "total_size t = total_size s" by (simp add: t_def)
  have run: "hba_run (set_fis write at n) (setup_header c) (prdt c) t =
    (True, if write then t\<lparr>disk := (\<lambda>b. if at * 512 \<le> b \<and> b < at * 512 + n * 512 then pmem t (ba ! (b - at * 512)) else disk t b)\<rparr>
      else t\<lparr>pmem := to_memory (disk t) (at * 512) ba (n * 512) (pmem t)\<rparr>)"
    using F at len a(4) w ts by (simp add: hba_run_def Let_def flip: ba_def)
  have mem: "to_memory (disk s) (at * 512) ba (n * 512) (pmem s) =
      (\<lambda>b. if p \<le> b \<and> b < p + n * 512 then disk s (at * 512 + (b - p)) else pmem s b)"
    using ba_nth by (intro to_memory_range [where n = "n * 512"]) simp_all
  have dsk: "(\<lambda>b. if at * 512 \<le> b \<and> b < at * 512 + n * 512 then pmem s (ba ! (b - at * 512)) else disk s b) =
      (\<lambda>b. if at * 512 \<le> b \<and> b < (at + n) * 512 then pmem s (p + (b - at * 512)) else disk s b)"
  proof (rule ext)
    fix b
    have "ba ! (b - at * 512) = p + (b - at * 512)" if "at * 512 \<le> b" "b < at * 512 + n * 512"
      by (rule ba_nth) (use that in linarith)
    then show "(if at * 512 \<le> b \<and> b < at * 512 + n * 512 then pmem s (ba ! (b - at * 512)) else disk s b) =
        (if at * 512 \<le> b \<and> b < (at + n) * 512 then pmem s (p + (b - at * 512)) else disk s b)"
      by (simp add: add_mult_distrib)
  qed
  have cs: "length ((cmdslot s)[0 := c]) = 32" "\<forall>c \<in> set ((cmdslot s)[0 := c]). length (prdt c) = 248"
    using ok l by (auto simp: c_def reset_def dest!: set_update_subset_insert [THEN subsetD])
  let ?s' = "if write then t\<lparr>disk := (\<lambda>b. if at * 512 \<le> b \<and> b < at * 512 + n * 512 then pmem t (ba ! (b - at * 512)) else disk t b)\<rparr>
      else t\<lparr>pmem := to_memory (disk t) (at * 512) ba (n * 512) (pmem t)\<rparr>"
  have "start_command write p at n s = (Ret (Some 0), ?s')"
    using ok(3) run by (simp add: start_command_def Let_def su flip: t_def)
  moreover have tf: "pmem t = pmem s" "disk t = disk s" by (simp_all add: t_def)
  have "command_done write p at n s ?s'"
    unfolding command_done_def tf mem dsk by (rule exI [of _ "(cmdslot s)[0 := c]"]) (use cs in \<open>simp add: t_def\<close>)
  ultimately show ?thesis by blast
qed

text \<open>What every operation of the file keeps.\<close>

definition same_drive :: "ahci \<Rightarrow> ahci \<Rightarrow> bool" where
  "same_drive s s' \<longleftrightarrow> length (cmdslot s') = 32 \<and> (\<forall>c \<in> set (cmdslot s'). length (prdt c) = 248) \<and>
    command_issue s' = command_issue s \<and> total_size s' = total_size s"

lemma command_done_fields:
  assumes "command_done wr p at n s s'"
  shows "same_drive s s'" "pages s' = pages s" "pos s' = pos s"
    "wr \<Longrightarrow> pmem s' = pmem s"
    "wr \<Longrightarrow> disk s' b = (if at * 512 \<le> b \<and> b < (at + n) * 512 then pmem s (p + (b - at * 512)) else disk s b)"
    "\<not> wr \<Longrightarrow> disk s' = disk s"
    "\<not> wr \<Longrightarrow> pmem s' a = (if p \<le> a \<and> a < p + n * 512 then disk s (at * 512 + (a - p)) else pmem s a)"
proof -
  obtain cs where "\<forall>c \<in> set cs. length (prdt c) = 248" "length cs = 32"
    "s' = (if wr
      then s\<lparr>cmdslot := cs, disk := (\<lambda>b. if at * 512 \<le> b \<and> b < (at + n) * 512 then pmem s (p + (b - at * 512)) else disk s b)\<rparr>
      else s\<lparr>cmdslot := cs, pmem := (\<lambda>a. if p \<le> a \<and> a < p + n * 512 then disk s (at * 512 + (a - p)) else pmem s a)\<rparr>)"
    using assms unfolding command_done_def by blast
  then show "same_drive s s'" "pages s' = pages s" "pos s' = pos s"
    "wr \<Longrightarrow> pmem s' = pmem s"
    "wr \<Longrightarrow> disk s' b = (if at * 512 \<le> b \<and> b < (at + n) * 512 then pmem s (p + (b - at * 512)) else disk s b)"
    "\<not> wr \<Longrightarrow> disk s' = disk s"
    "\<not> wr \<Longrightarrow> pmem s' a = (if p \<le> a \<and> a < p + n * 512 then disk s (at * 512 + (a - p)) else pmem s a)"
    by (cases wr; simp add: same_drive_def)+
qed

lemma page_taken:
  assumes "ahci_ok s"
  obtains n t where "get_phpage s = (Ret (n * 4096), s\<lparr>pages := t\<rparr>)" "wf_ph 7 t"
    "wf_ph 7 (release_page 7 t (n * 4096))" "\<And>m. free_at 7 (release_page 7 t (n * 4096)) m \<longleftrightarrow> free_at 7 (pages s) m"
proof -
  obtain k where wf: "wf_ph 7 (pages s)" and k: "free_at 7 (pages s) k" using assms by (auto simp: ahci_ok_def)
  obtain a t where g: "get_page 7 (pages s) = (a, t)" by fastforce
  show thesis
  proof (rule get_page_cases [OF wf _ g])
    fix n
    assume n: "a = n * 4096" "free_at 7 (pages s) n" "wf_ph 7 t" "\<And>m. free_at 7 t m \<longleftrightarrow> free_at 7 (pages s) m \<and> m \<noteq> n"
    have "n * 4096 < npages 7 * 4096" using free_at_bound [OF n(2) wf] by simp
    from release_page_spec [OF n(3) this] n g show thesis
      by (intro that [of n t]) (auto simp: get_phpage_def)
  qed (use k in auto)
qed

lemma ahci_ok_kept:
  assumes "ahci_ok s" "same_drive s s'" "wf_ph 7 (pages s')" "\<And>m. free_at 7 (pages s') m \<longleftrightarrow> free_at 7 (pages s) m"
  shows "ahci_ok s'"
  using assms by (auto simp: ahci_ok_def same_drive_def)

lemma same_drive_trans: "same_drive s t \<Longrightarrow> same_drive t u \<Longrightarrow> same_drive s u"
  by (simp add: same_drive_def)

section \<open>Reading\<close>

text \<open>The sectors a round reads cover what it delivers.\<close>

definition read_fits :: "nat \<Rightarrow> nat \<Rightarrow> bool" where
  "read_fits o' cnt \<longleftrightarrow> o' + cnt \<le> 512 * ((cnt + 511) div 512) \<or> 4096 < o' + cnt"

lemma sectors_cover: "(m :: nat) \<le> 512 * ((m + 511) div 512)"
  using mult_div_mod_eq [of 512 "m + 511"] mod_less_divisor [of 512 "m + 511"] by linarith

lemma payload_bounds: "0 < cnt \<Longrightarrow> 0 < payload cnt s \<and> payload cnt s \<le> cnt \<and> pos s mod 512 + payload cnt s \<le> 4096"
proof -
  assume "0 < cnt"
  moreover have "pos s mod 512 < 512" by simp
  ultimately show ?thesis by (auto simp: payload_def)
qed

lemma read_round_done:
  assumes ok: "ahci_ok s" and cnt: "0 < cnt" "pos s + cnt \<le> total_size s * 512" "read_fits (pos s mod 512) cnt"
  shows "\<exists>s'. read_round cnt s = (Ret (map (\<lambda>i. disk s (pos s + i)) [0..<payload cnt s]), s') \<and> ahci_ok s' \<and>
    disk s' = disk s \<and> total_size s' = total_size s \<and> pos s' = pos s + payload cnt s"
proof -
  define at o' n k where "at = pos s div 512" and "o' = pos s mod 512" and "n = payload cnt s"
    and "k = (if cnt < 4096 then (cnt + 511) div 512 else 4096 div 512)"
  have pos: "pos s = at * 512 + o'" "o' < 512" by (simp_all add: at_def o'_def)
  have k8: "0 < k" "k \<le> 8" using cnt(1) by (auto simp: k_def)
  have end': "at + k \<le> total_size s"
  proof (cases "cnt < 4096")
    case True
    then have "at * 512 + cnt \<le> total_size s * 512" using cnt(2) pos by simp
    then have "(cnt + 511) div 512 \<le> total_size s - at" by linarith
    then show ?thesis using True k8(1) by (auto simp: k_def)
  qed (use cnt(2) pos in \<open>simp add: k_def\<close>)
  have fits: "o' + n \<le> k * 512"
  proof (cases "cnt < 4096 - o'")
    case True
    then have "n = cnt" "cnt < 4096" by (simp_all add: n_def payload_def o'_def)
    then show ?thesis using cnt(3) True by (auto simp: read_fits_def k_def o'_def mult.commute)
  next
    case False
    then have "n = 4096 - o'" by (simp add: n_def payload_def o'_def)
    moreover have "k = 8" using False pos(2) by (auto simp: k_def)
    ultimately show ?thesis using pos(2) by simp
  qed
  obtain q t where g: "get_phpage s = (Ret (q * 4096), s\<lparr>pages := t\<rparr>)" "wf_ph 7 t"
    "wf_ph 7 (release_page 7 t (q * 4096))" "\<And>m. free_at 7 (release_page 7 t (q * 4096)) m \<longleftrightarrow> free_at 7 (pages s) m"
    using page_taken [OF ok] by blast
  let ?p = "q * 4096" and ?s1 = "s\<lparr>pages := t\<rparr>"
  have "?p mod 2 = 0" by (simp add: mod_mult_right_eq [symmetric])
  then obtain s2 where s2: "start_command False ?p at k ?s1 = (Ret (Some 0), s2)" "command_done False ?p at k ?s1 s2"
    using start_command_done [of ?s1 ?p k "at" False] ok k8 end' by (auto simp: ahci_ok_def)
  note C = command_done_fields [OF s2(2)]
  define s' where "s' = s2\<lparr>pos := pos s + n, pages := release_page 7 t ?p\<rparr>"
  have "map (\<lambda>i. pmem s2 (?p + o' + i)) [0..<n] = map (\<lambda>i. disk s (pos s + i)) [0..<n]"
    using fits pos(1) by (simp add: C(7) add.assoc)
  then have "read_round cnt s = (Ret (map (\<lambda>i. disk s (pos s + i)) [0..<n]), s')"
    using g(1) s2(1) C(2,3)
    by (simp add: read_round_def Let_def andthen_def wait_for_def move_pos_def release_phpage_def ret_def s'_def
      flip: at_def o'_def n_def k_def)
  moreover have "ahci_ok s'"
    by (rule ahci_ok_kept [OF ok]) (use C(1) g(3,4) in \<open>simp_all add: s'_def same_drive_def\<close>)
  moreover have "disk s' = disk s" "total_size s' = total_size s" using C(1,6) by (simp_all add: s'_def same_drive_def)
  ultimately show ?thesis by (auto simp: n_def s'_def)
qed

lemma ahci_read_disk:
  assumes "ahci_ok s" "pos s + cnt \<le> total_size s * 512" "read_fits (pos s mod 512) cnt"
  shows "\<exists>s'. ahci_read cnt s = (Ret (map (\<lambda>i. disk s (pos s + i)) [0..<cnt]), s') \<and> ahci_ok s' \<and>
    disk s' = disk s \<and> pos s' = pos s + cnt"
  using assms
proof (induction cnt arbitrary: s rule: less_induct)
  case (less cnt)
  show ?case
  proof (cases "cnt = 0")
    case True
    then show ?thesis using less.prems by (simp add: ahci_read.simps)
  next
    case False
    let ?n = "payload cnt s"
    have n: "0 < ?n" "?n \<le> cnt" "pos s mod 512 + ?n \<le> 4096" using payload_bounds [of cnt s] False by auto
    obtain s1 where s1: "read_round cnt s = (Ret (map (\<lambda>i. disk s (pos s + i)) [0..<?n]), s1)" "ahci_ok s1"
      "disk s1 = disk s" "total_size s1 = total_size s" "pos s1 = pos s + ?n"
      using read_round_done [OF less.prems(1) _ less.prems(2,3)] False by auto
    show ?thesis
    proof (cases "?n = cnt")
      case True
      then show ?thesis using s1 False by (simp add: ahci_read.simps)
    next
      case rest: False
      then have "?n = 4096 - pos s mod 512" by (simp add: payload_def split: if_splits)
      moreover have "pos s mod 512 < 512" by simp
      ultimately have "pos s mod 512 + ?n = 4096" by linarith
      then have "pos s1 = pos s div 512 * 512 + 4096" using s1(5) div_mult_mod_eq [of "pos s" 512] by linarith
      then have "pos s1 = (pos s div 512 + 8) * 512" by simp
      then have "pos s1 mod 512 = 0" by (simp only: mod_mult_self2_is_0)
      then have "read_fits (pos s1 mod 512) (cnt - ?n)" using sectors_cover [of "cnt - ?n"] by (simp add: read_fits_def)
      moreover have "cnt - ?n < cnt" using n False by simp
      moreover have "pos s1 + (cnt - ?n) \<le> total_size s1 * 512" using less.prems(2) s1(4,5) n(2) by simp
      ultimately obtain s2 where s2: "ahci_read (cnt - ?n) s1 = (Ret (map (\<lambda>i. disk s1 (pos s1 + i)) [0..<cnt - ?n]), s2)"
        "ahci_ok s2" "disk s2 = disk s1" "pos s2 = pos s1 + (cnt - ?n)"
        using less.IH [of "cnt - ?n" s1] s1(2) by blast
      have "map (\<lambda>i. disk s (pos s + i)) [0..<?n] @ map (\<lambda>i. disk s1 (pos s1 + i)) [0..<cnt - ?n] =
          map (\<lambda>i. disk s (pos s + i)) [0..<cnt]"
        by (rule nth_equalityI) (use n s1(3,5) in \<open>auto simp: nth_append\<close>)
      then show ?thesis using s1(1) s2 rest False n s1(3,5)
        by (subst ahci_read.simps) (simp add: andthen_def ret_def)
    qed
  qed
qed

section \<open>Writing\<close>

text \<open>The page holds what the disk has, around the bytes that are written.\<close>

lemma sectors_prefilled:
  assumes ok: "ahci_ok s" and p: "p mod 2 = 0" and n: "0 < n" "o' < 512" "o' + n \<le> 4096" "at * 512 + o' + n \<le> total_size s * 512"
  defines "last' \<equiv> n - 1 + o'"
  shows "\<exists>s2. (\<forall>f. andthen (read_sector (o' \<noteq> 0) p at) (\<lambda>c1.
       andthen (read_sector (last' mod 512 \<noteq> 511) (p + last' div 512 * 512) (at + last' div 512)) (\<lambda>c2.
       andthen (wait_if c1) (\<lambda>_. andthen (wait_if c2) (\<lambda>_. f)))) (s\<lparr>pages := t\<rparr>) = (f s2 :: unit outcome \<times> ahci)) \<and>
    same_drive s s2 \<and> pages s2 = t \<and> pos s2 = pos s \<and> disk s2 = disk s \<and>
    (\<forall>k < (last' div 512 + 1) * 512. k < o' \<or> last' < k \<longrightarrow> pmem s2 (p + k) = disk s (at * 512 + k))"
proof -
  define L where "L = last' div 512"
  have L: "L * 512 \<le> last'" "last' < L * 512 + 512" "last' mod 512 = last' - L * 512"
    using mult_div_mod_eq [of 512 last'] mod_less_divisor [of 512 last'] by (auto simp: L_def minus_div_mult_eq_mod)
  have at: "at + L < total_size s" using n L(1) by (simp add: last'_def)
  let ?s0 = "s\<lparr>pages := t\<rparr>"
  have ok0: "length (cmdslot ?s0) = 32" "\<forall>c \<in> set (cmdslot ?s0). length (prdt c) = 248" "\<not> bit (command_issue ?s0) 0"
    "total_size ?s0 \<le> 2 ^ 48" using ok by (auto simp: ahci_ok_def)
  obtain s1 where s1: "read_sector (o' \<noteq> 0) p at ?s0 = (Ret (if o' \<noteq> 0 then Some (Some 0) else None), s1)"
    "same_drive s s1" "pages s1 = t" "pos s1 = pos s" "disk s1 = disk s"
    "\<And>k. o' \<noteq> 0 \<Longrightarrow> k < 512 \<Longrightarrow> pmem s1 (p + k) = disk s (at * 512 + k)"
  proof (cases "o' = 0")
    case True
    then show thesis using that [of ?s0] ok by (auto simp: read_sector_def ret_def same_drive_def ahci_ok_def)
  next
    case False
    obtain u where u: "start_command False p at 1 ?s0 = (Ret (Some 0), u)" "command_done False p at 1 ?s0 u"
      using start_command_done [OF ok0 p, of 1 "at" False] at by auto
    note C = command_done_fields [OF u(2)]
    show thesis
      by (rule that [of u]) (use False u(1) C in \<open>auto simp: read_sector_def andthen_def ret_def same_drive_def\<close>)
  qed
  have ok1: "length (cmdslot s1) = 32" "\<forall>c \<in> set (cmdslot s1). length (prdt c) = 248" "\<not> bit (command_issue s1) 0"
    "total_size s1 \<le> 2 ^ 48" "total_size s1 = total_size s" using ok s1(2) by (auto simp: ahci_ok_def same_drive_def)
  have p2: "(p + L * 512) mod 2 = 0" using p by presburger
  obtain s2 where s2: "read_sector (last' mod 512 \<noteq> 511) (p + L * 512) (at + L) s1 =
      (Ret (if last' mod 512 \<noteq> 511 then Some (Some 0) else None), s2)"
    "same_drive s s2" "pages s2 = t" "pos s2 = pos s" "disk s2 = disk s"
    "\<And>a. a < p + L * 512 \<Longrightarrow> pmem s2 a = pmem s1 a"
    "\<And>k. last' mod 512 \<noteq> 511 \<Longrightarrow> L * 512 \<le> k \<Longrightarrow> k < (L + 1) * 512 \<Longrightarrow> pmem s2 (p + k) = disk s (at * 512 + k)"
    "last' mod 512 = 511 \<Longrightarrow> pmem s2 = pmem s1"
  proof (cases "last' mod 512 = 511")
    case True
    then show thesis using that [of s1] s1 by (auto simp: read_sector_def ret_def)
  next
    case False
    obtain u where u: "start_command False (p + L * 512) (at + L) 1 s1 = (Ret (Some 0), u)"
      "command_done False (p + L * 512) (at + L) 1 s1 u"
      using start_command_done [OF ok1(1-4) p2, of 1 "at + L" False] at ok1(5) by auto
    note C = command_done_fields [OF u(2)]
    have k: "pmem u (p + k) = disk s (at * 512 + k)" if "L * 512 \<le> k" "k < (L + 1) * 512" for k
    proof -
      have "(at + L) * 512 + (p + k - (p + L * 512)) = at * 512 + k" using that(1) by simp
      then show ?thesis using C(7) [of "p + k"] that s1(5) by simp
    qed
    show thesis
      by (rule that [of u]) (use False u(1) C k s1 in \<open>auto simp: read_sector_def andthen_def ret_def same_drive_trans\<close>)
  qed
  have fill: "pmem s2 (p + k) = disk s (at * 512 + k)" if k: "k < (L + 1) * 512" "k < o' \<or> last' < k" for k
  proof (cases "last' mod 512 \<noteq> 511 \<and> L * 512 \<le> k")
    case True
    then show ?thesis using s2(7) k(1) by blast
  next
    case False
    have "k < o'" using k False L by auto
    then have "pmem s1 (p + k) = disk s (at * 512 + k)" using s1(6) [of k] n(2) by simp
    moreover have "pmem s2 (p + k) = pmem s1 (p + k)" using False s2(6) [of "p + k"] s2(8) by (cases "last' mod 512 = 511") auto
    ultimately show ?thesis by simp
  qed
  have w: "wait_if (if b then Some (Some i) else None) u = (Ret (), u)" for b i u
    by (simp add: wait_if_def wait_for_def ret_def)
  show ?thesis
    using s1(1) s2(1-5) fill w by (intro exI [of _ s2] conjI allI impI) (simp_all add: andthen_def L_def)
qed

text \<open>
  One round of a write: it writes \<open>(last_offset + 511) div 512\<close> sectors, which leaves the last byte
  out when that byte is the first of a sector.
\<close>

definition written :: "nat \<Rightarrow> u8 list \<Rightarrow> (nat \<Rightarrow> u8) \<Rightarrow> nat \<Rightarrow> u8" where
  "written p bs d = (\<lambda>b. if p \<le> b \<and> b < p + length bs then bs ! (b - p) else d b)"

definition kept_by_sectors :: "nat \<Rightarrow> u8 list \<Rightarrow> u8 list" where
  "kept_by_sectors p bs = (if (p + length bs - 1) mod 512 = 0 then butlast bs else bs)"

lemma sector_count:
  "if m mod 512 = 0 then (m + 511) div 512 = m div 512 \<and> m div 512 * 512 = m else (m + 511) div 512 = m div 512 + (1 :: nat)"
proof -
  define q r where "q = m div 512" and "r = m mod 512"
  have m: "m = q * 512 + r" and r: "r < 512" by (simp_all add: q_def r_def)
  have "(m + 511) div 512 = q + (r + 511) div 512" unfolding m by (simp add: add.assoc)
  moreover have "(r + 511) div 512 = (if r = 0 then 0 else 1)" using r by (simp add: div_nat_eqI)
  ultimately show ?thesis unfolding q_def [symmetric] r_def [symmetric] using m by (cases "r = 0") simp_all
qed

lemma write_round_done:
  assumes ok: "ahci_ok s" and buf: "buf \<noteq> []" "pos s + length buf \<le> total_size s * 512"
    and k0: "payload (length buf) s - 1 + pos s mod 512 \<noteq> 0"
  defines "n \<equiv> payload (length buf) s"
  shows "\<exists>s'. write_round buf s = (Ret (), s') \<and> ahci_ok s' \<and> total_size s' = total_size s \<and> pos s' = pos s + n \<and>
    disk s' = written (pos s) (kept_by_sectors (pos s) (take n buf)) (disk s)"
proof -
  define at o' last' where "at = pos s div 512" and "o' = pos s mod 512" and "last' = n - 1 + o'"
  define L K where "L = last' div 512" and "K = (last' + 511) div 512"
  have pos: "pos s = at * 512 + o'" "o' < 512" by (simp_all add: at_def o'_def)
  have n: "0 < n" "n \<le> length buf" "o' + n \<le> 4096" using payload_bounds [of "length buf" s] buf by (auto simp: n_def o'_def)
  have "0 < last'" using k0 n(1) by (auto simp: last'_def n_def o'_def)
  then have K: "0 < K" "K \<le> L + 1" by (auto simp: K_def L_def)
  have L: "L * 512 \<le> last'" "last' < L * 512 + 512" using mult_div_mod_eq [of 512 last'] mod_less_divisor [of 512 last'] by (auto simp: L_def)
  have last4096: "last' < 4096" using n by (simp add: last'_def)
  then have K8: "K \<le> 8" by (auto simp: K_def)
  have whole: "at * 512 + o' + n \<le> total_size s * 512" using buf(2) n(2) pos by simp
  have atK: "at + K \<le> total_size s"
  proof -
    have "at * 512 + last' < total_size s * 512" using whole n(1) by (simp add: last'_def)
    then have "at + L < total_size s" using L(1) by linarith
    then show ?thesis using K(2) by simp
  qed
  obtain q t where g: "get_phpage s = (Ret (q * 4096), s\<lparr>pages := t\<rparr>)" "wf_ph 7 t"
    "wf_ph 7 (release_page 7 t (q * 4096))" "\<And>m. free_at 7 (release_page 7 t (q * 4096)) m \<longleftrightarrow> free_at 7 (pages s) m"
    using page_taken [OF ok] by blast
  let ?p = "q * 4096"
  have p2: "?p mod 2 = 0" by (simp add: mod_mult_right_eq [symmetric])
  obtain s2 where s2: "\<And>f. andthen (read_sector (o' \<noteq> 0) ?p at) (\<lambda>c1.
       andthen (read_sector (last' mod 512 \<noteq> 511) (?p + last' div 512 * 512) (at + last' div 512)) (\<lambda>c2.
       andthen (wait_if c1) (\<lambda>_. andthen (wait_if c2) (\<lambda>_. f)))) (s\<lparr>pages := t\<rparr>) = (f s2 :: unit outcome \<times> ahci)"
    "same_drive s s2" "pages s2 = t" "pos s2 = pos s" "disk s2 = disk s"
    "\<And>k. k < (last' div 512 + 1) * 512 \<Longrightarrow> k < o' \<or> last' < k \<Longrightarrow> pmem s2 (?p + k) = disk s (at * 512 + k)"
    using sectors_prefilled [OF ok p2 n(1) pos(2) n(3) whole, of t] unfolding last'_def by blast
  define s3 where "s3 = s2\<lparr>pmem := (\<lambda>b. if ?p + o' \<le> b \<and> b < ?p + o' + n then take n buf ! (b - (?p + o')) else pmem s2 b)\<rparr>"
  have st: "store_bytes (?p + o') (take n buf) s2 = (Ret (), s3)"
    using n(2) by (simp add: store_bytes_def s3_def)
  have ok3: "length (cmdslot s3) = 32" "\<forall>c \<in> set (cmdslot s3). length (prdt c) = 248" "\<not> bit (command_issue s3) 0"
    "total_size s3 \<le> 2 ^ 48" "at + K \<le> total_size s3"
    using ok s2(2) atK by (auto simp: ahci_ok_def same_drive_def s3_def)
  obtain s4 where s4: "start_command True ?p at K s3 = (Ret (Some 0), s4)" "command_done True ?p at K s3 s4"
    using start_command_done [OF ok3(1-4) p2 K(1) K8 ok3(5)] by blast
  note C = command_done_fields [OF s4(2)]
  define s' where "s' = s4\<lparr>pos := pos s + n, pages := release_page 7 t ?p\<rparr>"
  have tail: "andthen (store_bytes (?p + o') (take n buf)) (\<lambda>_. andthen (start_command True ?p at K) (\<lambda>c3.
      andthen (wait_for c3) (\<lambda>_. andthen (move_pos n) (\<lambda>_. release_phpage ?p)))) s2 = (Ret (), s')"
    using C(2,3) s2(3,4)
    by (simp add: andthen_Ret [where m = "store_bytes (?p + o') (take n buf)" and s = s2, OF st] andthen_Ret [where m = "start_command True ?p at K" and s = s3, OF s4(1)]) (simp add: andthen_def wait_for_def move_pos_def release_phpage_def s'_def s3_def)
  have "write_round buf s = (Ret (), s')"
    unfolding write_round_def Let_def at_def [symmetric] o'_def [symmetric] n_def [symmetric]
    unfolding last'_def [symmetric] K_def [symmetric]
    unfolding andthen_Ret [where m = get_phpage and s = s, OF g(1)] s2(1) by (rule tail)
  moreover have "ahci_ok s'"
    by (rule ahci_ok_kept [OF ok]) (use C(1) s2(2) g(3,4) in \<open>simp_all add: s'_def s3_def same_drive_def\<close>)
  moreover have "total_size s' = total_size s" using C(1) s2(2) by (simp add: s'_def s3_def same_drive_def)
  moreover have "disk s' = written (pos s) (kept_by_sectors (pos s) (take n buf)) (disk s)"
  proof
    fix b
    define bs where "bs = kept_by_sectors (pos s) (take n buf)"
    have pn: "pos s + length (take n buf) - 1 = at * 512 + last'" using n(1,2) pos(1) by (simp add: last'_def)
    have K_eq: "(last' mod 512 = 0 \<and> K * 512 = last' \<and> length bs = n - 1) \<or> (K * 512 = L * 512 + 512 \<and> length bs = n)"
      using sector_count [of last'] n(2) pn by (auto simp: bs_def kept_by_sectors_def K_def L_def)
    have bs_nth: "i < length bs \<Longrightarrow> bs ! i = buf ! i" for i
      using n(2) by (auto simp: bs_def kept_by_sectors_def nth_butlast split: if_splits)
    have m: "o' + length bs \<le> K * 512" "\<And>k. k < K * 512 \<Longrightarrow> o' \<le> k \<Longrightarrow> k < o' + n \<longleftrightarrow> k < o' + length bs"
      using K_eq n(1) L by (auto simp: last'_def)
    have old: "k < K * 512 \<Longrightarrow> k < o' \<or> o' + n \<le> k \<Longrightarrow> pmem s2 (?p + k) = disk s (at * 512 + k)" for k
      using s2(6) [of k] K(2) n(1) unfolding L_def last'_def by fastforce
    have d: "disk s' b = (if at * 512 \<le> b \<and> b < (at + K) * 512 then pmem s3 (?p + (b - at * 512)) else disk s b)"
      using C(5) [of b] s2(5) by (simp add: s'_def s3_def)
    show "disk s' b = written (pos s) (kept_by_sectors (pos s) (take n buf)) (disk s) b"
    proof (cases "at * 512 \<le> b \<and> b < (at + K) * 512")
      case False
      then have out: "\<not> (pos s \<le> b \<and> b < pos s + length bs)" using m(1) pos by auto
      show ?thesis unfolding d written_def bs_def [symmetric] by (simp only: False out if_False)
    next
      case True
      define k where "k = b - at * 512"
      have k: "b = at * 512 + k" "k < K * 512" using True by (auto simp: k_def)
      have e: "disk s' b = (if o' \<le> k \<and> k < o' + n then buf ! (k - o') else pmem s2 (?p + k))"
        using d True by (simp add: s3_def k_def) (auto simp: nth_take)
      show ?thesis
      proof (cases "o' \<le> k \<and> k < o' + length bs")
        case True
        then have less: "k - o' < length bs" by linarith
        have "b - pos s = k - o'" "pos s \<le> b \<and> b < pos s + length bs" using True k(1) pos(1) by auto
        then show ?thesis using e m(2) [OF k(2)] True bs_nth [OF less] by (simp add: written_def flip: bs_def)
      next
        case False
        then have "\<not> (pos s \<le> b \<and> b < pos s + length bs)" using k(1) pos(1) by auto
        moreover have "\<not> (o' \<le> k \<and> k < o' + n)" using False m(2) [OF k(2)] by blast
        ultimately show ?thesis using e old [OF k(2)] k(1) by (auto simp: written_def not_less simp flip: bs_def)
      qed
    qed
  qed
  ultimately show ?thesis by (auto simp: s'_def)
qed

lemma written_append:
  "written (p + length a) b (written p a d) = written p (a @ b) d"
  by (rule ext) (auto simp: written_def nth_append)

lemma ahci_write_disk:
  assumes "ahci_ok s" "pos s + length buf \<le> total_size s * 512" "buf \<noteq> []" "(pos s mod 512 + length buf - 1) mod 4096 \<noteq> 0"
  shows "\<exists>s'. ahci_write buf s = (Ret (length buf), s') \<and> ahci_ok s' \<and> total_size s' = total_size s \<and> pos s' = pos s + length buf \<and>
    disk s' = written (pos s) (if (pos s + length buf - 1) mod 512 = 0 then butlast buf else buf) (disk s)"
  using assms
proof (induction buf arbitrary: s rule: length_induct)
  case (1 buf)
  note prems = "1.prems"
  let ?n = "payload (length buf) s" and ?o = "pos s mod 512"
  have n: "0 < ?n" "?n \<le> length buf" "?o + ?n \<le> 4096" using payload_bounds [of "length buf" s] prems(3) by auto
  have o: "?o < 512" by simp
  have k0: "?n - 1 + ?o \<noteq> 0"
  proof (cases "length buf < 4096 - ?o")
    case True
    then have "?n = length buf" by (simp add: payload_def)
    then show ?thesis using prems(4) n(1) by (metis Nat.add_diff_assoc2 Suc_leI One_nat_def add.commute mod_0)
  next
    case False
    then show ?thesis using o by (simp add: payload_def)
  qed
  obtain s1 where s1: "write_round buf s = (Ret (), s1)" "ahci_ok s1" "total_size s1 = total_size s" "pos s1 = pos s + ?n"
    "disk s1 = written (pos s) (kept_by_sectors (pos s) (take ?n buf)) (disk s)"
    using write_round_done [OF prems(1,3,2) k0] by blast
  show ?case
  proof (cases "?n = length buf")
    case True
    then show ?thesis using s1 prems(3) by (subst ahci_write.simps) (simp add: kept_by_sectors_def)
  next
    case False
    then have "?n = 4096 - ?o" by (simp add: payload_def split: if_splits)
    then have full: "?o + ?n = 4096" using o by linarith
    then have "pos s1 = pos s div 512 * 512 + 4096" using s1(4) div_mult_mod_eq [of "pos s" 512] by linarith
    then have p1: "pos s1 = (pos s div 512 + 8) * 512" by simp
    have "(pos s + ?n - 1) mod 512 = 511"
    proof -
      have "pos s + ?n - 1 = 511 + (pos s div 512 + 7) * 512" using p1 s1(4) by simp
      then show ?thesis by (simp only: mod_mult_self1) simp
    qed
    then have d1: "disk s1 = written (pos s) (take ?n buf) (disk s)" using s1(5) n(2) by (simp add: kept_by_sectors_def)
    define rest where "rest = drop ?n buf"
    have rest: "rest \<noteq> []" "length rest < length buf" "length rest + ?n = length buf" using False n by (auto simp: rest_def)
    have "(?o + length buf - 1) mod 4096 = (length rest - 1) mod 4096"
    proof -
      have "?o + length buf - 1 = (length rest - 1) + 4096" using full rest(1,3) by (cases rest) auto
      then show ?thesis by simp
    qed
    moreover have m0: "pos s1 mod 512 = 0" unfolding p1 by (simp only: mod_mult_self2_is_0)
    ultimately have "(pos s1 mod 512 + length rest - 1) mod 4096 \<noteq> 0" using prems(4) by simp
    moreover have "pos s1 + length rest \<le> total_size s1 * 512" using prems(2) s1(3,4) rest(3) by simp
    ultimately obtain s2 where s2: "ahci_write rest s1 = (Ret (length rest), s2)" "ahci_ok s2" "total_size s2 = total_size s1" "pos s2 = pos s1 + length rest"
      "disk s2 = written (pos s1) (if (pos s1 + length rest - 1) mod 512 = 0 then butlast rest else rest) (disk s1)"
      using 1 s1(2) rest(1,2) by blast
    have pa: "pos s1 = pos s + length (take ?n buf)" and tot: "pos s1 + length rest = pos s + length buf"
      using s1(4) n(2) rest(3) by simp_all
    have whole: "take ?n buf @ rest = buf" by (simp add: rest_def)
    have "take ?n buf @ butlast rest = butlast (take ?n buf @ rest)" using rest(1) by (simp only: butlast_append if_False)
    then have but: "take ?n buf @ butlast rest = butlast buf" by (simp only: whole)
    have "disk s2 = written (pos s) (if (pos s + length buf - 1) mod 512 = 0 then butlast buf else buf) (disk s)"
      unfolding s2(5) tot d1 unfolding pa written_append
      by (cases "(pos s + length buf - 1) mod 512 = 0") (simp_all only: if_True if_False simp_thms whole but)
    then show ?thesis using s1(1,3,4) s2 False rest prems(3)
      by (subst ahci_write.simps) (simp add: Let_def andthen_def ret_def flip: rest_def)
  qed
qed

section \<open>Properties\<close>

definition demo_disk :: ahci where
  "demo_disk = \<lparr>disk = (\<lambda>b. of_nat b), pmem = (\<lambda>_. 0), pages = new_ph_tree 7, total_size = 64, pos = 700,
     capability = 0, command_issue = 0, cmdslot = replicate 32 (new_eff_command False (replicate 248 \<lparr>loc = 0, dbc = 0\<rparr>))\<rparr>"

lemma demo_disk_ok: "ahci_ok demo_disk"
proof -
  have "wf_ph 7 (new_ph_tree 7)" "free_at 7 (new_ph_tree 7) 0" using new_ph_tree_spec [of 7] by (simp_all add: npages_def)
  then show ?thesis by (auto simp: ahci_ok_def demo_disk_def new_eff_command_def)
qed





text \<open>
  What was written to a disk is read back after seeking to where it was written, when the
  last byte is not the first one of a sector and the request fits the sectors it asks for.
\<close>

theorem ahci_roundtrip:
  assumes "ahci_ok s" "pos s + length buf \<le> total_size s * 512" "buf \<noteq> []" "(pos s + length buf - 1) mod 512 \<noteq> 0"
    "read_fits (pos s mod 512) (length buf)"
  shows "\<exists>s1 s2 s3. ahci_write buf s = (Ret (length buf), s1) \<and>
    ahci_seek (int (pos s)) SEEK_SET s1 = (Ret (int (pos s)), s2) \<and> ahci_read (length buf) s2 = (Ret buf, s3)"
proof -
  have "(pos s mod 512 + length buf - 1) mod 4096 \<noteq> 0"
  proof
    assume z: "(pos s mod 512 + length buf - 1) mod 4096 = 0"
    have "pos s + length buf - 1 = pos s mod 512 + length buf - 1 + pos s div 512 * 512"
      using assms(3) mod_div_mult_eq [of "pos s" 512] by (cases buf) auto
    then have "(pos s + length buf - 1) mod 512 = (pos s mod 512 + length buf - 1) mod 512" by (simp only: mod_mult_self1)
    also have "\<dots> = (pos s mod 512 + length buf - 1) mod 4096 mod 512" by (simp add: mod_mod_cancel)
    finally show False using z assms(4) by simp
  qed
  from ahci_write_disk [OF assms(1-3) this] obtain s1 where s1: "ahci_write buf s = (Ret (length buf), s1)" "ahci_ok s1"
    "total_size s1 = total_size s" "disk s1 = written (pos s) buf (disk s)" using assms(4) by auto
  define s2 where "s2 = s1\<lparr>pos := pos s\<rparr>"
  have "ahci_seek (int (pos s)) SEEK_SET s1 = (Ret (int (pos s)), s2)"
    using assms(2) s1(3) by (simp add: ahci_seek_def ahci_seek_set_def s2_def)
  moreover have "ahci_ok s2" "pos s2 = pos s" "total_size s2 = total_size s" using s1(2,3) by (simp_all add: s2_def ahci_ok_def)
  then obtain s3 where "ahci_read (length buf) s2 = (Ret (map (\<lambda>i. disk s2 (pos s2 + i)) [0..<length buf]), s3)"
    using ahci_read_disk [of s2 "length buf"] assms(2,5) by auto
  moreover have "map (\<lambda>i. disk s2 (pos s2 + i)) [0..<length buf] = buf"
    by (rule nth_equalityI) (simp_all add: s2_def s1(4) written_def)
  ultimately show ?thesis using s1(1) by metis
qed

theorem ahci_roundtrip_witness:
  "\<exists>s1 s2 s3. ahci_write (replicate 5000 7) demo_disk = (Ret 5000, s1) \<and>
    ahci_seek 700 SEEK_SET s1 = (Ret 700, s2) \<and> ahci_read 5000 s2 = (Ret (replicate 5000 7), s3)"
proof -
  have "pos demo_disk + length (replicate 5000 (7 :: u8)) \<le> total_size demo_disk * 512" "replicate 5000 (7 :: u8) \<noteq> []"
    "(pos demo_disk + length (replicate 5000 (7 :: u8)) - 1) mod 512 \<noteq> 0"
    "read_fits (pos demo_disk mod 512) (length (replicate 5000 (7 :: u8)))"
    by (simp_all add: demo_disk_def read_fits_def)
  from ahci_roundtrip [OF demo_disk_ok this] show ?thesis by (simp add: demo_disk_def)
qed

end
