(* ===== verification/Loader.thy ===== *)
theory Loader
  imports Prelude
begin

text \<open>
  The loading of the kernel: \<^verbatim>\<open>load_kernel\<close> of boot/load_kernel.cpp, which copies the segments
  of an ELF file that the boot loader left in memory. It runs in 32-bit mode without paging,
  so that memory is a total function on 32-bit addresses, and pointers wrap around; sizes and
  addresses of the file are 64-bit numbers. The file is read from the memory that the loader
  writes to, at every step.
\<close>

section \<open>The file in memory\<close>

type_synonym memory = "u32 \<Rightarrow> u8"

text \<open>A little-endian number of \<open>n\<close> bytes.\<close>

fun value_at :: "memory \<Rightarrow> nat \<Rightarrow> u32 \<Rightarrow> nat" where
  "value_at m 0 a = 0"
| "value_at m (Suc n) a = unat (m a) + 256 * value_at m n (a + 1)"

record file_header =
  ident :: "u8 list"
  etype :: nat
  machine :: nat
  obj_version :: nat
  entrypoint :: nat
  ph_offset :: nat
  sh_offset :: nat
  proc_flags :: nat
  ehsize :: nat
  ph_entry_size :: nat
  ph_entry_num :: nat
  sh_entry_size :: nat
  sh_entry_num :: nat
  sh_strndx :: nat

definition read_file_header :: "memory \<Rightarrow> u32 \<Rightarrow> file_header" where
  "read_file_header m a =
    \<lparr>ident = map (\<lambda>i. m (a + of_nat i)) [0..<16], etype = value_at m 2 (a + 16),
     machine = value_at m 2 (a + 18), obj_version = value_at m 4 (a + 20),
     entrypoint = value_at m 8 (a + 24), ph_offset = value_at m 8 (a + 32),
     sh_offset = value_at m 8 (a + 40), proc_flags = value_at m 4 (a + 48),
     ehsize = value_at m 2 (a + 52), ph_entry_size = value_at m 2 (a + 54),
     ph_entry_num = value_at m 2 (a + 56), sh_entry_size = value_at m 2 (a + 58),
     sh_entry_num = value_at m 2 (a + 60), sh_strndx = value_at m 2 (a + 62)\<rparr>"

text \<open>\<^verbatim>\<open>file_header::type\<close> and \<^verbatim>\<open>program_header::type\<close>, of which the loader knows these.\<close>

definition EXEC :: nat where "EXEC = 2"
definition CORE :: nat where "CORE = 4"
definition LOAD :: nat where "LOAD = 1"
definition DYNAMIC :: nat where "DYNAMIC = 2"

record program_header =
  ptype :: nat
  pflags :: nat
  file_off :: nat
  vaddr :: nat
  paddr :: nat
  filesz :: nat
  memsz :: nat
  align :: nat

definition read_program_header :: "memory \<Rightarrow> u32 \<Rightarrow> program_header" where
  "read_program_header m a =
    \<lparr>ptype = value_at m 4 a, pflags = value_at m 4 (a + 4), file_off = value_at m 8 (a + 8),
     vaddr = value_at m 8 (a + 16), paddr = value_at m 8 (a + 24), filesz = value_at m 8 (a + 32),
     memsz = value_at m 8 (a + 40), align = value_at m 8 (a + 48)\<rparr>"

section \<open>\<^verbatim>\<open>load_kernel\<close>\<close>

datatype lk_code =
  LK_OK | BAD_MAGIC | BAD_ELF | NOT_EXEC | NOT_X64 | CANNOT_RELOC | SAFEZONE_VIOLATION

record lk_result =
  result_code :: lk_code
  lk_entry :: nat
  diagnostic :: int

text \<open>The address of a segment: that of the upper half moves down to the kernel's place.\<close>

definition start_addr :: "nat \<Rightarrow> program_header \<Rightarrow> nat" where
  "start_addr kernel_zero ph =
    (let start = vaddr ph;
         start = (if start div 2 ^ 63 \<noteq> 0 then wrap64 (start + 2 * 1024 * 1024 * 1024) else start)
     in wrap64 (start + kernel_zero))"

fun copy_bytes :: "nat \<Rightarrow> u32 \<Rightarrow> u32 \<Rightarrow> memory \<Rightarrow> memory" where
  "copy_bytes 0 memptr fileptr m = m"
| "copy_bytes (Suc n) memptr fileptr m = copy_bytes n (memptr + 1) (fileptr + 1) (m(memptr := m fileptr))"

fun zero_bytes :: "nat \<Rightarrow> u32 \<Rightarrow> memory \<Rightarrow> memory" where
  "zero_bytes 0 memptr m = m"
| "zero_bytes (Suc n) memptr m = zero_bytes n (memptr + 1) (m(memptr := 0))"

definition load_segment :: "nat \<Rightarrow> u32 \<Rightarrow> program_header \<Rightarrow> memory \<Rightarrow> memory" where
  "load_segment start elf ph m =
    zero_bytes (memsz ph - filesz ph) (of_nat start + of_nat (filesz ph))
      (copy_bytes (filesz ph) (of_nat start) (elf + of_nat (file_off ph)) m)"

text \<open>
  The loop over the headers. The first argument counts the iterations left; \<open>None\<close> is the end
  of the loop. A header that is not \<open>LOAD\<close> leads to \<^verbatim>\<open>continue\<close>, which does not move \<open>toparse\<close>.
\<close>

fun segment_loop ::
  "nat \<Rightarrow> nat \<Rightarrow> nat \<Rightarrow> u32 \<Rightarrow> nat \<Rightarrow> nat \<Rightarrow> u32 \<Rightarrow> memory \<Rightarrow> lk_result option \<times> memory"
where
  "segment_loop 0 kernel_zero safezone elf entry_size i toparse m = (None, m)"
| "segment_loop (Suc n) kernel_zero safezone elf entry_size i toparse m =
    (let ph = read_program_header m toparse in
     if ptype ph \<noteq> LOAD then
       (if ptype ph = DYNAMIC
        then (Some \<lparr>result_code = CANNOT_RELOC, lk_entry = 0, diagnostic = 0\<rparr>, m)
        else segment_loop n kernel_zero safezone elf entry_size (i + 1) toparse m)
     else
       let start = start_addr kernel_zero ph in
       if start < safezone \<or> wrap64 (start + memsz ph) \<ge> 0x100000000
       then (Some \<lparr>result_code = SAFEZONE_VIOLATION, lk_entry = 0, diagnostic = int i\<rparr>, m)
       else segment_loop n kernel_zero safezone elf entry_size (i + 1)
         (toparse + of_nat entry_size) (load_segment start elf ph m))"

definition lk_error :: "lk_code \<Rightarrow> int \<Rightarrow> lk_result" where
  "lk_error c d = \<lparr>result_code = c, lk_entry = 0, diagnostic = d\<rparr>"

definition load_kernel :: "nat \<Rightarrow> nat \<Rightarrow> u32 \<Rightarrow> memory \<Rightarrow> lk_result \<times> memory" where
  "load_kernel kernel_zero safezone elf m =
    (let fh = read_file_header m elf in
     if ident fh ! 0 \<noteq> 0x7f \<or> ident fh ! 1 \<noteq> 0x45 \<or> ident fh ! 2 \<noteq> 0x4c \<or> ident fh ! 3 \<noteq> 0x46
     then (lk_error BAD_MAGIC 0, m)
     else if etype fh \<noteq> EXEC \<and> etype fh \<noteq> CORE then (lk_error NOT_EXEC (int (etype fh)), m)
     else if machine fh \<noteq> 0x3e then (lk_error NOT_X64 (int (machine fh)), m)
     else if obj_version fh \<noteq> 1 then (lk_error BAD_ELF (sint (of_nat (obj_version fh) :: u32)), m)
     else case segment_loop (ph_entry_num fh) kernel_zero safezone elf (ph_entry_size fh) 0
         (elf + of_nat (ph_offset fh)) m of
       (Some r, m) \<Rightarrow> (r, m)
     | (None, m) \<Rightarrow>
         (\<lparr>result_code = LK_OK, lk_entry = entrypoint (read_file_header m elf) mod 2 ^ 32, diagnostic = 0\<rparr>, m))"

section \<open>The loaded image\<close>

text \<open>
  What loading a segment means: the bytes from \<open>start\<close> on are those of the file as it was
  before the loader ran (\<open>m0\<close>), and zero behind them.
\<close>

definition place :: "memory \<Rightarrow> u32 \<Rightarrow> nat \<Rightarrow> program_header \<Rightarrow> memory \<Rightarrow> memory" where
  "place m0 elf start ph m = (\<lambda>a.
     if start \<le> unat a \<and> unat a < start + memsz ph then
       (if unat a - start < filesz ph then m0 (elf + of_nat (file_off ph + (unat a - start))) else 0)
     else m a)"

definition headers :: "memory \<Rightarrow> u32 \<Rightarrow> program_header list" where
  "headers m elf = (let fh = read_file_header m elf in
     map (\<lambda>k. read_program_header m (elf + of_nat (ph_offset fh + k * ph_entry_size fh))) [0..<ph_entry_num fh])"

text \<open>The headers the loop loads: all up to the first that is not \<open>LOAD\<close> or leaves the zone.\<close>

definition in_zone :: "nat \<Rightarrow> nat \<Rightarrow> program_header \<Rightarrow> bool" where
  "in_zone kernel_zero safezone ph \<longleftrightarrow>
    safezone \<le> start_addr kernel_zero ph \<and> start_addr kernel_zero ph + memsz ph < 2 ^ 32"

definition loads :: "nat \<Rightarrow> nat \<Rightarrow> program_header \<Rightarrow> bool" where
  "loads kernel_zero safezone ph \<longleftrightarrow> ptype ph = LOAD \<and> in_zone kernel_zero safezone ph"

definition loaded_image ::
  "nat \<Rightarrow> u32 \<Rightarrow> memory \<Rightarrow> program_header list \<Rightarrow> memory \<Rightarrow> memory" where
  "loaded_image kernel_zero elf m0 phs m = fold (\<lambda>ph. place m0 elf (start_addr kernel_zero ph) ph) phs m"

text \<open>
  The file lies below the safe zone, with its headers and the bytes of its segments, and its
  sizes are sane: no segment has more bytes in the file than in memory or an end beyond \<open>2 ^ 64\<close>.
\<close>

definition segment_sane :: "nat \<Rightarrow> nat \<Rightarrow> u32 \<Rightarrow> program_header \<Rightarrow> bool" where
  "segment_sane kernel_zero safezone elf ph \<longleftrightarrow>
    filesz ph \<le> memsz ph \<and> unat elf + file_off ph + filesz ph \<le> safezone \<and>
    start_addr kernel_zero ph + memsz ph < 2 ^ 64"

definition file_sane :: "nat \<Rightarrow> nat \<Rightarrow> u32 \<Rightarrow> memory \<Rightarrow> bool" where
  "file_sane kernel_zero safezone elf m \<longleftrightarrow> (let fh = read_file_header m elf in
    safezone < 2 ^ 32 \<and> unat elf + 64 \<le> safezone \<and>
    unat elf + ph_offset fh + ph_entry_num fh * ph_entry_size fh + 56 \<le> safezone \<and>
    list_all (segment_sane kernel_zero safezone elf) (headers m elf))"

definition elf_accepted :: "memory \<Rightarrow> u32 \<Rightarrow> bool" where
  "elf_accepted m elf \<longleftrightarrow> (let fh = read_file_header m elf in
    take 4 (ident fh) = [0x7f, 0x45, 0x4c, 0x46] \<and> (etype fh = EXEC \<or> etype fh = CORE) \<and>
    machine fh = 0x3e \<and> obj_version fh = 1)"

text \<open>Two memories that agree below the safe zone.\<close>

definition same_below :: "nat \<Rightarrow> memory \<Rightarrow> memory \<Rightarrow> bool" where
  "same_below z m m' \<longleftrightarrow> (\<forall>a. unat a < z \<longrightarrow> m' a = m a)"

lemma unat_u32: "n < 2 ^ 32 \<Longrightarrow> unat (of_nat n :: u32) = n"
  by (simp add: unat_of_nat)

lemma value_at_same:
  assumes "same_below z m m'" "p + n \<le> z" "z < 2 ^ 32"
  shows "value_at m' n (of_nat p) = value_at m n (of_nat p)"
  using assms(2)
proof (induction n arbitrary: p)
  case (Suc n)
  have "unat (of_nat p :: u32) = p"
    using Suc.prems assms(3) by (intro unat_u32) simp
  then have "m' (of_nat p) = m (of_nat p)" using assms(1) Suc.prems by (simp add: same_below_def)
  moreover have "(of_nat p :: u32) + 1 = of_nat (p + 1)" by simp
  ultimately show ?case using Suc.IH[of "p + 1"] Suc.prems by (simp only: value_at.simps)
qed simp

lemma copy_bytes_spec:
  assumes "p + n \<le> 2 ^ 32" "f + n \<le> p"
  shows "copy_bytes n (of_nat p) (of_nat f) m =
    (\<lambda>a. if p \<le> unat a \<and> unat a < p + n then m (of_nat (f + (unat a - p))) else m a)"
  using assms
proof (induction n arbitrary: p f m)
  case 0
  show ?case by (rule ext) auto
next
  case (Suc n)
  have p: "unat (of_nat p :: u32) = p"
    using Suc.prems by (intro unat_u32) simp
  have s: "(of_nat p :: u32) + 1 = of_nat (p + 1)" "(of_nat f :: u32) + 1 = of_nat (f + 1)" by simp_all
  have at_p: "a = of_nat p \<longleftrightarrow> unat a = p" for a :: u32 using p by (auto simp flip: word_unat_eq_iff)
  have src: "(of_nat (f + k) :: u32) \<noteq> of_nat p" if "k < Suc n" for k
  proof -
    have "unat (of_nat (f + k) :: u32) = f + k" using Suc.prems that by (intro unat_u32) simp
    then show ?thesis using at_p Suc.prems that by auto
  qed
  have "copy_bytes (Suc n) (of_nat p) (of_nat f) m =
      copy_bytes n (of_nat (p + 1)) (of_nat (f + 1)) (m(of_nat p := m (of_nat f)))"
    by (simp only: copy_bytes.simps s)
  also have "\<dots> = (\<lambda>a. if p + 1 \<le> unat a \<and> unat a < p + 1 + n
      then (m(of_nat p := m (of_nat f))) (of_nat (f + 1 + (unat a - (p + 1))))
      else (m(of_nat p := m (of_nat f))) a)"
    by (rule Suc.IH) (use Suc.prems in simp_all)
  also have "\<dots> = (\<lambda>a. if p \<le> unat a \<and> unat a < p + Suc n then m (of_nat (f + (unat a - p))) else m a)"
  proof (rule ext)
    fix a :: u32
    consider "unat a < p" | "unat a = p" | "p < unat a" by linarith
    then show "(if p + 1 \<le> unat a \<and> unat a < p + 1 + n
        then (m(of_nat p := m (of_nat f))) (of_nat (f + 1 + (unat a - (p + 1))))
        else (m(of_nat p := m (of_nat f))) a) =
      (if p \<le> unat a \<and> unat a < p + Suc n then m (of_nat (f + (unat a - p))) else m a)"
    proof cases
      case 3
      then have "f + 1 + (unat a - (p + 1)) = f + (unat a - p)" by simp
      then show ?thesis using 3 src[of "unat a - p"] by (simp add: at_p del: of_nat_add)
    qed (simp_all add: at_p)
  qed
  finally show ?case .
qed

lemma zero_bytes_spec:
  assumes "p + n \<le> 2 ^ 32"
  shows "zero_bytes n (of_nat p) m = (\<lambda>a. if p \<le> unat a \<and> unat a < p + n then 0 else m a)"
  using assms
proof (induction n arbitrary: p m)
  case 0
  show ?case by (rule ext) auto
next
  case (Suc n)
  have p: "unat (of_nat p :: u32) = p"
    using Suc.prems by (intro unat_u32) simp
  have s: "(of_nat p :: u32) + 1 = of_nat (p + 1)" by simp
  have at_p: "a = of_nat p \<longleftrightarrow> unat a = p" for a :: u32 using p by (auto simp flip: word_unat_eq_iff)
  have "zero_bytes (Suc n) (of_nat p) m = zero_bytes n (of_nat (p + 1)) (m(of_nat p := 0))"
    by (simp only: zero_bytes.simps s)
  also have "\<dots> = (\<lambda>a. if p + 1 \<le> unat a \<and> unat a < p + 1 + n then 0 else (m(of_nat p := 0)) a)"
    by (rule Suc.IH) (use Suc.prems in simp)
  finally show ?case by (auto simp: fun_eq_iff at_p)
qed


lemma load_segment_place:
  assumes sane: "segment_sane kz z elf ph" and zone: "in_zone kz z ph" and m: "same_below z m0 m"
  shows "load_segment (start_addr kz ph) elf ph m = place m0 elf (start_addr kz ph) ph m"
proof -
  let ?s = "start_addr kz ph" and ?f = "filesz ph" and ?e = "unat elf + file_off ph"
  have le: "?f \<le> memsz ph" "?e + ?f \<le> z" "z \<le> ?s" "?s + memsz ph < 2 ^ 32"
    using sane zone by (simp_all add: segment_sane_def in_zone_def)
  have src: "elf + of_nat (file_off ph) = of_nat ?e" by simp
  have c: "copy_bytes ?f (of_nat ?s) (elf + of_nat (file_off ph)) m =
      (\<lambda>a. if ?s \<le> unat a \<and> unat a < ?s + ?f then m (of_nat (?e + (unat a - ?s))) else m a)"
    unfolding src by (rule copy_bytes_spec) (use le in simp_all)
  have dst: "(of_nat ?s :: u32) + of_nat ?f = of_nat (?s + ?f)" by simp
  have z: "load_segment ?s elf ph m = (\<lambda>a. if ?s + ?f \<le> unat a \<and> unat a < ?s + memsz ph then 0
      else copy_bytes ?f (of_nat ?s) (elf + of_nat (file_off ph)) m a)"
    unfolding load_segment_def dst using zero_bytes_spec[of "?s + ?f" "memsz ph - ?f"] le by simp
  have bytes: "m (of_nat (?e + k)) = m0 (elf + of_nat (file_off ph + k))" if "k < ?f" for k
  proof -
    have "unat (of_nat (?e + k) :: u32) = ?e + k" by (rule unat_u32) (use le that in linarith)
    then have "unat (of_nat (?e + k) :: u32) < z" using le that by linarith
    then have "m (of_nat (?e + k)) = m0 (of_nat (?e + k))" using m by (simp add: same_below_def del: of_nat_add)
    moreover have "(of_nat (?e + k) :: u32) = elf + of_nat (file_off ph + k)" by simp
    ultimately show ?thesis by (simp only:)
  qed
  show ?thesis
  proof (rule ext)
    fix a
    show "load_segment ?s elf ph m a = place m0 elf ?s ph m a"
      using le bytes[of "unat a - ?s"] unfolding z c place_def by (auto simp del: of_nat_add)
  qed
qed

lemma place_same_below:
  assumes "in_zone kz z ph" "same_below z m0 m"
  shows "same_below z m0 (place m0 elf (start_addr kz ph) ph m)"
  using assms by (auto simp: same_below_def place_def in_zone_def)

lemma read_program_header_same:
  assumes "same_below z m m'" "unat elf + p + 56 \<le> z" "z < 2 ^ 32"
  shows "read_program_header m' (elf + of_nat p) = read_program_header m (elf + of_nat p)"
proof -
  have v: "value_at m' n (elf + of_nat p + of_nat k) = value_at m n (elf + of_nat p + of_nat k)"
    if "k + n \<le> 56" for n k
  proof -
    have "elf + of_nat p + of_nat k = (of_nat (unat elf + p + k) :: u32)" by simp
    then show ?thesis using value_at_same[OF assms(1), of "unat elf + p + k" n] assms(2,3) that
      by (simp only:)
  qed
  show ?thesis unfolding read_program_header_def
    using v[of 0 4] v[of 4 4] v[of 8 8] v[of 16 8] v[of 24 8] v[of 32 8] v[of 40 8] v[of 48 8] by simp
qed

text \<open>A header that is neither \<open>LOAD\<close> nor \<open>DYNAMIC\<close> is read again until the loop ends.\<close>

lemma segment_loop_stuck:
  assumes "ptype (read_program_header m toparse) \<noteq> LOAD" "ptype (read_program_header m toparse) \<noteq> DYNAMIC"
  shows "segment_loop n kz z elf es i toparse m = (None, m)"
  using assms by (induction n arbitrary: i) (simp_all add: Let_def)

definition loop_result :: "nat \<Rightarrow> program_header list \<Rightarrow> lk_result option" where
  "loop_result i rest = (case rest of
      [] \<Rightarrow> None
    | ph # _ \<Rightarrow> if ptype ph = LOAD then Some (lk_error SAFEZONE_VIOLATION (int i))
        else if ptype ph = DYNAMIC then Some (lk_error CANNOT_RELOC 0) else None)"

lemma loop_result_error: "loop_result i rest = Some r \<Longrightarrow> result_code r \<noteq> LK_OK"
  by (auto simp: loop_result_def lk_error_def split: list.splits if_splits)

lemma loaded_image_Cons:
  "loaded_image kz elf m0 (ph # phs) m =
    loaded_image kz elf m0 phs (place m0 elf (start_addr kz ph) ph m)"
  by (simp add: loaded_image_def)

lemma segment_loop_spec:
  fixes m0 :: memory and elf :: u32
  assumes off: "unat elf + po + n * es + 56 \<le> z" and z: "z < 2 ^ 32"
    and phs: "phs = map (\<lambda>k. read_program_header m0 (elf + of_nat (po + k * es))) [0..<n]"
    and sane: "list_all (segment_sane kz z elf) phs" and m: "same_below z m0 m"
  shows "segment_loop n kz z elf es i (elf + of_nat po) m =
      (loop_result (i + length (takeWhile (loads kz z) phs)) (dropWhile (loads kz z) phs),
       loaded_image kz elf m0 (takeWhile (loads kz z) phs) m) \<and>
    same_below z m0 (loaded_image kz elf m0 (takeWhile (loads kz z) phs) m)"
  using assms
proof (induction n arbitrary: po phs i m)
  case 0
  then show ?case by (simp add: loop_result_def loaded_image_def)
next
  case (Suc n)
  define ph where "ph = read_program_header m0 (elf + of_nat po)"
  define ps where "ps = map (\<lambda>k. read_program_header m0 (elf + of_nat (po + es + k * es))) [0..<n]"
  have "[0..<Suc n] = 0 # map Suc [0..<n]" by (simp add: upt_conv_Cons map_Suc_upt)
  then have phs: "phs = ph # ps" unfolding Suc.prems(3) ps_def ph_def
    by (simp add: o_def algebra_simps del: upt_Suc)
  have now: "read_program_header m (elf + of_nat po) = ph" unfolding ph_def
    by (rule read_program_header_same[OF Suc.prems(5) _ Suc.prems(2)]) (use Suc.prems(1) in simp)
  have sane: "segment_sane kz z elf ph" "list_all (segment_sane kz z elf) ps"
    using Suc.prems(4) by (simp_all add: phs)
  have wrap: "wrap64 (start_addr kz ph + memsz ph) = start_addr kz ph + memsz ph"
    using sane(1) by (simp add: segment_sane_def)
  show ?case
  proof (cases "ptype ph = LOAD \<and> in_zone kz z ph")
    case True
    let ?m = "place m0 elf (start_addr kz ph) ph m"
    have step: "segment_loop (Suc n) kz z elf es i (elf + of_nat po) m =
        segment_loop n kz z elf es (i + 1) (elf + of_nat (po + es)) ?m"
      using True load_segment_place[OF sane(1) _ Suc.prems(5)]
      by (simp add: now Let_def wrap in_zone_def ac_simps)
    have "same_below z m0 ?m" using place_same_below[OF _ Suc.prems(5)] True by blast
    moreover have "unat elf + (po + es) + n * es + 56 \<le> z" using Suc.prems(1) by simp
    ultimately show ?thesis unfolding step using Suc.IH[OF _ z ps_def sane(2)] True
      by (simp add: phs loads_def loaded_image_Cons)
  next
    case False
    then have "takeWhile (loads kz z) phs = []" "dropWhile (loads kz z) phs = phs"
      by (auto simp: phs loads_def)
    moreover have "segment_loop (Suc n) kz z elf es i (elf + of_nat po) m = (loop_result i phs, m)"
    proof (cases "ptype ph = LOAD")
      case True
      then show ?thesis using False
        by (auto simp: now Let_def wrap in_zone_def phs loop_result_def lk_error_def not_less not_le)
    next
      case nl: False
      show ?thesis
      proof (cases "ptype ph = DYNAMIC")
        case True
        then show ?thesis using nl by (simp add: now Let_def phs loop_result_def lk_error_def)
      next
        case False
        then have "segment_loop (Suc n) kz z elf es i (elf + of_nat po) m = (None, m)"
          using nl by (intro segment_loop_stuck) (simp_all only: now not_False_eq_True)
        then show ?thesis using False nl by (simp only: phs loop_result_def list.case if_False)
      qed
    qed
    ultimately show ?thesis using Suc.prems(5) by (simp add: loaded_image_def)
  qed
qed


lemma read_file_header_same:
  assumes "same_below z m m'" "unat elf + 64 \<le> z" "z < 2 ^ 32"
  shows "read_file_header m' elf = read_file_header m elf"
proof -
  have v: "value_at m' n (elf + of_nat k) = value_at m n (elf + of_nat k)" if "k + n \<le> 64" for n k
  proof -
    have "elf + of_nat k = (of_nat (unat elf + k) :: u32)" by simp
    then show ?thesis using value_at_same[OF assms(1), of "unat elf + k" n] assms(2,3) that
      by (simp only:)
  qed
  have b: "m' (elf + of_nat i) = m (elf + of_nat i)" if "i < 16" for i
  proof -
    have "unat (of_nat (unat elf + i) :: u32) = unat elf + i"
      by (rule unat_u32) (use assms(2,3) that in linarith)
    then have "unat (elf + of_nat i) < z" using assms(2) that by simp
    then show ?thesis using assms(1) by (simp add: same_below_def)
  qed
  show ?thesis unfolding read_file_header_def
    using v[of 16 2] v[of 18 2] v[of 20 4] v[of 24 8] v[of 32 8] v[of 40 8] v[of 48 4] v[of 52 2]
      v[of 54 2] v[of 56 2] v[of 58 2] v[of 60 2] v[of 62 2] b by simp
qed

lemma load_kernel_spec:
  assumes acc: "elf_accepted m elf" and sane: "file_sane kz z elf m"
  shows "load_kernel kz z elf m =
    ((case loop_result (length (takeWhile (loads kz z) (headers m elf))) (dropWhile (loads kz z) (headers m elf)) of
        Some r \<Rightarrow> r
      | None \<Rightarrow> \<lparr>result_code = LK_OK, lk_entry = entrypoint (read_file_header m elf) mod 2 ^ 32, diagnostic = 0\<rparr>),
     loaded_image kz elf m (takeWhile (loads kz z) (headers m elf)) m)"
    "same_below z m (loaded_image kz elf m (takeWhile (loads kz z) (headers m elf)) m)"
proof -
  define fh where "fh = read_file_header m elf"
  define m' where "m' = loaded_image kz elf m (takeWhile (loads kz z) (headers m elf)) m"
  have z: "z < 2 ^ 32" "unat elf + 64 \<le> z"
    and off: "unat elf + ph_offset fh + ph_entry_num fh * ph_entry_size fh + 56 \<le> z"
    and segs: "list_all (segment_sane kz z elf) (headers m elf)"
    using sane by (simp_all add: file_sane_def Let_def fh_def)
  have hs: "headers m elf = map (\<lambda>k. read_program_header m (elf + of_nat (ph_offset fh + k * ph_entry_size fh)))
      [0..<ph_entry_num fh]"
    by (simp add: headers_def fh_def Let_def)
  have "same_below z m m" by (simp add: same_below_def)
  note loop = segment_loop_spec[OF off z(1) hs segs this, of 0]
  show sb: "same_below z m (loaded_image kz elf m (takeWhile (loads kz z) (headers m elf)) m)"
    using loop by blast
  have "read_file_header m' elf = fh" unfolding fh_def m'_def by (rule read_file_header_same[OF sb z(2,1)])
  moreover have "length (ident fh) = 16" by (simp add: fh_def read_file_header_def)
  moreover have "take 4 (ident fh) = [ident fh ! 0, ident fh ! 1, ident fh ! 2, ident fh ! 3]"
    using calculation(2) by (intro nth_equalityI) (auto simp: less_Suc_eq numeral_eq_Suc)
  ultimately show "load_kernel kz z elf m =
    ((case loop_result (length (takeWhile (loads kz z) (headers m elf))) (dropWhile (loads kz z) (headers m elf)) of
        Some r \<Rightarrow> r
      | None \<Rightarrow> \<lparr>result_code = LK_OK, lk_entry = entrypoint (read_file_header m elf) mod 2 ^ 32, diagnostic = 0\<rparr>),
     loaded_image kz elf m (takeWhile (loads kz z) (headers m elf)) m)"
    using acc conjunct1[OF loop] unfolding elf_accepted_def Let_def load_kernel_def fh_def[symmetric] m'_def[symmetric]
    by (auto split: option.split)
qed

text \<open>The byte of a segment that no later segment covers.\<close>

lemma loaded_image_other:
  assumes "list_all (\<lambda>q. \<not> (start_addr kz q \<le> unat a \<and> unat a < start_addr kz q + memsz q)) phs"
  shows "loaded_image kz elf m0 phs m a = m a"
  using assms by (induction phs arbitrary: m) (auto simp: loaded_image_def place_def)

lemma loaded_image_byte:
  assumes phs: "phs = before @ ph # after"
    and apart: "list_all (\<lambda>q. \<not> (start_addr kz q \<le> unat a \<and> unat a < start_addr kz q + memsz q)) after"
    and a: "unat a = start_addr kz ph + i" "i < memsz ph"
  shows "loaded_image kz elf m0 phs m a =
    (if i < filesz ph then m0 (elf + of_nat (file_off ph + i)) else 0)"
proof -
  have "loaded_image kz elf m0 phs m a =
      loaded_image kz elf m0 after (place m0 elf (start_addr kz ph) ph (loaded_image kz elf m0 before m)) a"
    by (simp add: phs loaded_image_def)
  also have "\<dots> = place m0 elf (start_addr kz ph) ph (loaded_image kz elf m0 before m) a"
    by (rule loaded_image_other[OF apart])
  finally show ?thesis using a by (simp add: place_def)
qed


section \<open>Properties\<close>

text \<open>
  C29: \<^verbatim>\<open>load_kernel\<close> loads the kernel. For an accepted ELF file that lies below the safe
  zone, although the file is read from the memory that the loader overwrites, the memory
  afterwards is the old one with the segments of the original file placed in the order of
  their headers, zeroed behind their bytes of the file, up to the first header that is not
  \<open>LOAD\<close> or whose segment leaves the zone. The answer is \<open>OK\<close> with the entry point when
  there is no such header and, against the intention of skipping it, also when that header
  has another type: nothing behind it is loaded. It is \<open>SAFEZONE_VIOLATION\<close> or
  \<open>CANNOT_RELOC\<close> in the other cases. Nothing below the safe zone changes.
\<close>

theorem load_kernel_places_segments:
  assumes "elf_accepted m elf" and "file_sane kz z elf m"
    and "phs = takeWhile (loads kz z) (headers m elf)" and "rest = dropWhile (loads kz z) (headers m elf)"
    and "done_ok = \<lparr>result_code = LK_OK, lk_entry = entrypoint (read_file_header m elf) mod 2 ^ 32, diagnostic = 0\<rparr>"
  shows "load_kernel kz z elf m =
      (case rest of [] \<Rightarrow> done_ok
       | ph # _ \<Rightarrow> if ptype ph = LOAD then lk_error SAFEZONE_VIOLATION (int (length phs))
           else if ptype ph = DYNAMIC then lk_error CANNOT_RELOC 0 else done_ok,
       loaded_image kz elf m phs m) \<and>
    (\<forall>a. unat a < z \<longrightarrow> loaded_image kz elf m phs m a = m a)"
  using load_kernel_spec[OF assms(1,2)] unfolding assms(3-5) loop_result_def same_below_def
  by (cases "dropWhile (loads kz z) (headers m elf)"; simp only: list.case option.case if_True if_False split: if_split; simp)

text \<open>A file of one segment of two bytes, of which four are kept in memory.\<close>

definition demo_file :: "u8 list" where
  "demo_file =
    [127, 69, 76, 70, 0, 0, 0, 0, 0, 0, 0, 0, 0, 0, 0, 0,
     2, 0, 62, 0, 1, 0, 0, 0, 0, 0, 0, 128, 255, 255, 255, 255,
     64, 0, 0, 0, 0, 0, 0, 0, 0, 0, 0, 0, 0, 0, 0, 0,
     0, 0, 0, 0, 0, 0, 56, 0, 1, 0, 0, 0, 0, 0, 0, 0,
     1, 0, 0, 0, 0, 0, 0, 0, 120, 0, 0, 0, 0, 0, 0, 0,
     0, 0, 0, 128, 255, 255, 255, 255, 0, 0, 0, 0, 0, 0, 0, 0,
     2, 0, 0, 0, 0, 0, 0, 0, 4, 0, 0, 0, 0, 0, 0, 0,
     0, 0, 0, 0, 0, 0, 0, 0, 170, 187]"

text \<open>What a boot loader leaves beside it: the information, one module and its command line.\<close>

definition demo_info :: "u8 list" where
  "demo_info =
    [12, 0, 0, 0, 0, 0, 0, 0, 0, 0, 0, 0, 0, 0, 0, 0,
     80, 1, 0, 0, 1, 0, 0, 0, 64, 1, 0, 0, 0, 0, 0, 0,
     0, 0, 0, 0, 0, 0, 0, 0, 0, 0, 0, 0, 0, 0, 0, 0,
     0, 0, 0, 0, 0, 0, 0, 0, 0, 0, 0, 0, 0, 0, 0, 0,
     0, 16, 0, 0, 122, 16, 0, 0, 80, 1, 0, 0, 0, 0, 0, 0,
     107, 0]"

definition demo_memory :: memory where
  "demo_memory a =
    (if 0x1000 \<le> unat a \<and> unat a < 0x1000 + 122 then demo_file ! (unat a - 0x1000)
     else if 0x100 \<le> unat a \<and> unat a < 0x100 + 82 then demo_info ! (unat a - 0x100) else 0xcc)"

lemma value_at_numeral:
  "value_at m (numeral k) a = unat (m a) + 256 * value_at m (pred_numeral k) (a + 1)"
  by (simp add: numeral_eq_Suc)

lemma demo_byte:
  "demo_memory (numeral k) = (if 0x1000 \<le> unat (numeral k :: u32) \<and> unat (numeral k :: u32) < 0x1000 + 122
     then demo_file ! (unat (numeral k :: u32) - 0x1000)
     else if 0x100 \<le> unat (numeral k :: u32) \<and> unat (numeral k :: u32) < 0x100 + 82
     then demo_info ! (unat (numeral k :: u32) - 0x100) else 0xcc)"
  by (simp add: demo_memory_def)

lemma demo_header:
  "read_file_header demo_memory 0x1000 =
    \<lparr>ident = [0x7f, 0x45, 0x4c, 0x46, 0, 0, 0, 0, 0, 0, 0, 0, 0, 0, 0, 0], etype = 2, machine = 0x3e, obj_version = 1,
     entrypoint = 0xffffffff80000000, ph_offset = 64, sh_offset = 0, proc_flags = 0, ehsize = 0,
     ph_entry_size = 56, ph_entry_num = 1, sh_entry_size = 0, sh_entry_num = 0, sh_strndx = 0\<rparr>"
  by (simp add: read_file_header_def value_at_numeral demo_byte demo_file_def upt_rec)


lemma demo_program_header:
  "read_program_header demo_memory 0x1040 =
    \<lparr>ptype = 1, pflags = 0, file_off = 120, vaddr = 0xffffffff80000000, paddr = 0, filesz = 2,
     memsz = 4, align = 0\<rparr>"
  by (simp add: read_program_header_def value_at_numeral demo_byte demo_file_def)

lemma demo_headers: "headers demo_memory 0x1000 = [read_program_header demo_memory 0x1040]"
  by (simp add: headers_def demo_header)

lemma demo_loads: "loads 0x200000 0x2000 (read_program_header demo_memory 0x1040)"
  by (simp add: demo_program_header loads_def in_zone_def start_addr_def LOAD_def wrap64_def)

lemma demo_accepted: "elf_accepted demo_memory 0x1000" "file_sane 0x200000 0x2000 0x1000 demo_memory"
  by (simp_all add: elf_accepted_def file_sane_def segment_sane_def demo_header demo_headers
      demo_program_header EXEC_def start_addr_def wrap64_def)

lemma load_kernel_places_segments_witness:
  "result_code (fst (load_kernel 0x200000 0x2000 0x1000 demo_memory)) = LK_OK \<and>
   map (snd (load_kernel 0x200000 0x2000 0x1000 demo_memory)) [0x1ffff, 0x200000, 0x200001, 0x200002, 0x200003, 0x200004] =
     [0xcc, 0xaa, 0xbb, 0, 0, 0xcc]"
  using load_kernel_places_segments[OF demo_accepted refl refl refl] demo_loads
  by (simp add: demo_headers loaded_image_def place_def demo_program_header start_addr_def wrap64_def demo_byte demo_file_def)

end
