(* ===== verification/Boot.thy ===== *)
theory Boot
  imports Loader Paging Kheap "HOL-Library.Signed_Division"
begin

text \<open>
  The boot program, boot/x64bootstrap.cpp: what it takes from the multiboot information
  (multiboot.hh), the choice of the kernel's module, the place of the kernel, and the page
  tables under which the kernel starts. It prints to a screen of its own, which is that of
  misc/display.cpp and is left out here. \<^verbatim>\<open>halt\<close> is a call that does not return.
\<close>

section \<open>Multiboot information\<close>

record mb_info =
  reported_flags :: nat
  cmdline :: u32
  module_count :: nat
  module_arr_addr :: u32
  mmap_length :: nat
  mmap_addr :: u32

definition read_info :: "memory \<Rightarrow> u32 \<Rightarrow> mb_info" where
  "read_info m a =
    \<lparr>reported_flags = value_at m 4 a, cmdline = of_nat (value_at m 4 (a + 16)),
     module_count = value_at m 4 (a + 20), module_arr_addr = of_nat (value_at m 4 (a + 24)),
     mmap_length = value_at m 4 (a + 44), mmap_addr = of_nat (value_at m 4 (a + 48))\<rparr>"

record module_decl =
  mod_start :: u32
  mod_end :: u32
  mod_cmdline :: u32

definition read_module :: "memory \<Rightarrow> u32 \<Rightarrow> module_decl" where
  "read_module m a =
    \<lparr>mod_start = of_nat (value_at m 4 a), mod_end = of_nat (value_at m 4 (a + 4)),
     mod_cmdline = of_nat (value_at m 4 (a + 8))\<rparr>"

definition CMDLINE :: nat where "CMDLINE = 4"
definition MODS :: nat where "MODS = 8"

text \<open>An entry of the memory map that the boot loader hands over: its size and its contents.\<close>

definition read_map_entry :: "memory \<Rightarrow> u32 \<Rightarrow> nat \<times> memory_map_entry" where
  "read_map_entry m a =
    (value_at m 4 a,
     \<lparr>base = value_at m 8 (a + 4), len = value_at m 8 (a + 12), mtype = value_at m 4 (a + 20)\<rparr>)"

section \<open>Page tables\<close>

definition boot_directory :: "u64 \<Rightarrow> u64 list" where
  "boot_directory offset = map (\<lambda>i. (offset + of_nat i * 2 * 1024 * 1024) OR 0x83) [0..<512]"

text \<open>\<^verbatim>\<open>page_directory_table\<close>, \<^verbatim>\<open>page_directory_table_highhalf\<close> and the upper tables.\<close>

record boot_tables =
  pd0 :: "u64 list"
  pd1 :: "u64 list"
  pd2 :: "u64 list"
  pd3 :: "u64 list"
  pd_high0 :: "u64 list"
  pd_high1 :: "u64 list"
  level3 :: "u64 list"
  level3_high :: "u64 list"
  level4 :: "u64 list"

definition boot_static_tables :: boot_tables where
  "boot_static_tables =
    \<lparr>pd0 = boot_directory 0, pd1 = boot_directory 0x40000000, pd2 = boot_directory 0x80000000,
     pd3 = boot_directory 0xC0000000, pd_high0 = boot_directory 0, pd_high1 = boot_directory 0x40000000,
     level3 = replicate 512 0, level3_high = replicate 512 0, level4 = replicate 512 0\<rparr>"

text \<open>Where the linker puts them; there is no paging yet, so these are physical addresses.\<close>

record boot_addrs =
  at_pd0 :: u64
  at_pd1 :: u64
  at_pd2 :: u64
  at_pd3 :: u64
  at_pd_high0 :: u64
  at_pd_high1 :: u64
  at_level3 :: u64
  at_level3_high :: u64
  at_level4 :: u64

definition ready_paging :: "boot_addrs \<Rightarrow> u64 \<Rightarrow> boot_tables \<Rightarrow> boot_tables" where
  "ready_paging at kernel_zero t =
    (let t = t\<lparr>level3 := (level3 t)[0 := dir_link id (at_pd0 at), 1 := dir_link id (at_pd1 at),
           2 := dir_link id (at_pd2 at), 3 := dir_link id (at_pd3 at)]\<rparr>;
         t = t\<lparr>pd_high0 := boot_directory kernel_zero,
               pd_high1 := boot_directory (kernel_zero + 0x40000000)\<rparr>;
         t = t\<lparr>level3_high := (level3_high t)[0 := dir_link id (at_pd0 at), 1 := dir_link id (at_pd1 at),
           2 := dir_link id (at_pd2 at), 3 := dir_link id (at_pd3 at),
           510 := dir_link id (at_pd_high0 at), 511 := dir_link id (at_pd_high1 at)]\<rparr>
     in t\<lparr>level4 := (level4 t)[0 := dir_link id (at_level3 at), 511 := dir_link id (at_level3_high at)]\<rparr>)"

section \<open>\<^verbatim>\<open>bootstrap\<close>\<close>

record boot =
  mem :: memory
  map_buffer :: "memory_map_entry list"
  kernel_zero :: nat
  tables :: boot_tables

definition halt :: "(boot, 'a) action" where
  "halt = (\<lambda>s. (Hang, s))"

definition set_buffer :: "nat \<Rightarrow> memory_map_entry \<Rightarrow> (boot, unit) action" where
  "set_buffer i e = (\<lambda>s. if i < 256 then (Ret (), s\<lparr>map_buffer := (map_buffer s)[i := e]\<rparr>)
     else (Fault ''write behind the memory map'', s))"

definition terminator :: memory_map_entry where
  "terminator = \<lparr>base = 0, len = 0, mtype = 5\<rparr>"

text \<open>
  The loop over the map: \<open>i\<close> is the index in the buffer, \<open>offset\<close> the place in the map, a
  32-bit number. The buffer's size bounds the number of rounds.
\<close>

function map_loop :: "mb_info \<Rightarrow> nat \<Rightarrow> u32 \<Rightarrow> (boot, unit) action" where
  "map_loop info i offset s =
    (if unat offset < mmap_length info then
       (let (size, x) = read_map_entry (mem s) (mmap_addr info + offset) in
        if i < 256
        then map_loop info (i + 1) (offset + of_nat size + 4) (s\<lparr>map_buffer := (map_buffer s)[i := x]\<rparr>)
        else (Fault ''write behind the memory map'', s))
     else set_buffer i terminator s)"
  by pat_completeness auto
termination by (relation "measure (\<lambda>(info, i, offset, s). 256 - i)") auto

declare map_loop.simps [simp del]

definition read_map :: "mb_info \<Rightarrow> (boot, unit) action" where
  "read_map info = (if mmap_length info = 0 \<or> mmap_length info > 256 then ret () else map_loop info 0 0)"

text \<open>
  \<^verbatim>\<open>strcmp\<close> of this file, whose loop goes on while the characters differ. \<open>None\<close>: it does not
  return, when the memory behind the two pointers always differs and holds no zero.
\<close>

partial_function (option) boot_strcmp :: "memory \<Rightarrow> u32 \<Rightarrow> u32 \<Rightarrow> int option" where
  "boot_strcmp m c d =
    (if m c \<noteq> m d \<and> m c \<noteq> 0 \<and> m d \<noteq> 0 then boot_strcmp m (c + 1) (d + 1)
     else Some (sint (m d) - sint (m c)))"

text \<open>The loop over the modules, of which the first \<open>n\<close> are still to come: the last match stays.\<close>

fun module_loop :: "memory \<Rightarrow> mb_info \<Rightarrow> nat \<Rightarrow> u32 \<Rightarrow> u32 option \<Rightarrow> u32 option option" where
  "module_loop m info 0 a kernel_decl = Some kernel_decl"
| "module_loop m info (Suc n) a kernel_decl =
    (case boot_strcmp m (cmdline info) (mod_cmdline (read_module m a)) of
       None \<Rightarrow> None
     | Some r \<Rightarrow> module_loop m info n (a + 16) (if r = 0 then Some a else kernel_decl))"

definition find_kernel :: "mb_info \<Rightarrow> (boot, module_decl) action" where
  "find_kernel info = (\<lambda>s.
     case module_loop (mem s) info (module_count info) (module_arr_addr info) None of
       None \<Rightarrow> (Hang, s)
     | Some None \<Rightarrow> halt s
     | Some (Some a) \<Rightarrow> (Ret (read_module (mem s) a), s))"

text \<open>The end of the kernel's file or of this program, the greater of the two as signed numbers.\<close>

definition safe_offset :: "module_decl \<Rightarrow> u32 \<Rightarrow> int" where
  "safe_offset d bootstrapper_end =
    (if sint (mod_end d) > sint bootstrapper_end then sint (mod_end d) else sint bootstrapper_end)"

text \<open>The division of C rounds to zero; an overflow of a signed sum is undefined.\<close>

definition place_kernel :: "int \<Rightarrow> (boot, unit) action" where
  "place_kernel safe = (\<lambda>s.
     if safe + 2 * 1024 * 1024 - 1 \<ge> 2 ^ 31 then (Fault ''signed overflow'', s)
     else (Ret (), s\<lparr>kernel_zero :=
       unat (of_int (2 * 1024 * 1024 * ((safe + 2 * 1024 * 1024 - 1) sdiv (2 * 1024 * 1024))) :: u64)\<rparr>))"

definition run_loader :: "int \<Rightarrow> module_decl \<Rightarrow> (boot, lk_result) action" where
  "run_loader safe d = (\<lambda>s.
     (case load_kernel (kernel_zero s) (unat (of_int safe :: u32)) (mod_start d) (mem s) of
        (r, m) \<Rightarrow> (Ret r, s\<lparr>mem := m\<rparr>)))"

definition install_tables :: "boot_addrs \<Rightarrow> (boot, unit) action" where
  "install_tables at = (\<lambda>s. (Ret (), s\<lparr>tables := ready_paging at (of_nat (kernel_zero s)) (tables s)\<rparr>))"

definition bootloader_magic :: nat where "bootloader_magic = 0x2BADB002"

text \<open>\<open>long_mode\<close> is what \<^verbatim>\<open>__get_cpuid\<close> reports; \<open>AND\<close> of the flags is a test of one bit.\<close>

definition bootstrap :: "boot_addrs \<Rightarrow> u32 \<Rightarrow> bool \<Rightarrow> nat \<Rightarrow> u32 \<Rightarrow> (boot, nat) action" where
  "bootstrap at bootstrapper_end long_mode magic info_ptr = (\<lambda>s.
    (let info = read_info (mem s) info_ptr in
     if magic \<noteq> bootloader_magic then halt s
     else andthen (read_map info) (\<lambda>_.
       if reported_flags info AND MODS = 0 \<or> module_count info = 0 then halt
       else if reported_flags info AND CMDLINE = 0 then halt
       else andthen (find_kernel info) (\<lambda>d.
         let safe = safe_offset d bootstrapper_end in
         andthen (place_kernel safe) (\<lambda>_.
         andthen (run_loader safe d) (\<lambda>r.
         if result_code r \<noteq> LK_OK then halt
         else if \<not> long_mode then halt
         else andthen (install_tables at) (\<lambda>_. ret (lk_entry r)))))) s))"

section \<open>The tables translate\<close>

definition boot_tables_in_memory :: "(u64 \<Rightarrow> u64) \<Rightarrow> boot_addrs \<Rightarrow> boot_tables \<Rightarrow> bool" where
  "boot_tables_in_memory pm at t \<longleftrightarrow>
    holds pm (at_pd0 at) (pd0 t) \<and> holds pm (at_pd1 at) (pd1 t) \<and> holds pm (at_pd2 at) (pd2 t) \<and>
    holds pm (at_pd3 at) (pd3 t) \<and> holds pm (at_pd_high0 at) (pd_high0 t) \<and>
    holds pm (at_pd_high1 at) (pd_high1 t) \<and> holds pm (at_level3 at) (level3 t) \<and>
    holds pm (at_level3_high at) (level3_high t) \<and> holds pm (at_level4 at) (level4 t)"

definition boot_tables_placed :: "boot_addrs \<Rightarrow> bool" where
  "boot_tables_placed at \<longleftrightarrow> list_all (\<lambda>l. table_base l \<and> low32 l)
     [at_pd0 at, at_pd1 at, at_pd2 at, at_pd3 at, at_pd_high0 at, at_pd_high1 at, at_level3 at,
      at_level3_high at, at_level4 at]"

lemma boot_flags: "large_flags 0x83"
  by (simp add: large_flags_def address_mask_def)

lemma boot_directory_entry:
  assumes "holds pm l (boot_directory off)"
  shows "pm (l + 8 * tindex lv a) = (off + push_bit 21 (tindex lv a)) OR 0x83"
proof -
  have "unat (tindex lv a) < 512" using tindex_less[of lv a] by (simp add: word_less_nat_alt)
  then have "boot_directory off ! unat (tindex lv a) = (off + of_nat (unat (tindex lv a)) * 2 * 1024 * 1024) OR 0x83"
    by (simp add: boot_directory_def)
  moreover have "of_nat (unat (tindex lv a)) * 2 * 1024 * 1024 = push_bit 21 (tindex lv a)"
    by (simp add: push_bit_eq_mult)
  ultimately show ?thesis using holds_entry[OF assms] by simp
qed

lemma ready_tables:
  assumes "t = ready_paging at kz boot_static_tables"
  shows "level4 t ! 511 = dir_link id (at_level3_high at)" "level4 t ! 0 = dir_link id (at_level3 at)"
    "level3_high t ! 510 = dir_link id (at_pd_high0 at)" "level3_high t ! 511 = dir_link id (at_pd_high1 at)"
    "pd_high0 t = boot_directory kz" "pd_high1 t = boot_directory (kz + 0x40000000)"
  unfolding assms by (simp_all add: ready_paging_def boot_static_tables_def Let_def)

lemma boot_kernel_walk:
  assumes t: "t = ready_paging at kz boot_static_tables"
    and pm: "boot_tables_in_memory pm at t" and placed: "boot_tables_placed at"
    and kz: "kz AND mask 21 = 0" "unat kz + 2 ^ 31 \<le> 2 ^ 52" and x: "x AND NOT (mask 31) = 0"
  shows "hw_walk 4 pm (at_level4 at) (x - 2 ^ 31) True = Some (True, kz + x)"
proof -
  note t = ready_tables[OF t]
  note idx = kernel_indices[OF x]
  have pl: "table_base l \<and> low32 l"
    if "l \<in> {at_pd_high0 at, at_pd_high1 at, at_level3_high at, at_level4 at}" for l
    using placed that by (auto simp: boot_tables_placed_def)
  have hi: "holds pm (at_level3_high at) (level3_high t)" and top: "holds pm (at_level4 at) (level4 t)"
    using pm unfolding boot_tables_in_memory_def t by auto
  have e4: "pm (at_level4 at + 8 * tindex 4 (x - 2 ^ 31)) = dir_link id (at_level3_high at)"
    using holds_at[OF top, of 511] t by (simp only: idx) simp
  define off where "off = kz + push_bit 30 (drop_bit 30 x)"
  have v: "off + push_bit 21 (tindex 2 (x - 2 ^ 31)) = kz + (x AND NOT (mask 21))"
    by (simp only: off_def idx(3) split_address add.assoc)
  obtain l where l: "l \<in> {at_pd_high0 at, at_pd_high1 at}"
    "pm (at_level3_high at + 8 * tindex 3 (x - 2 ^ 31)) = dir_link id l" "holds pm l (boot_directory off)"
  proof (cases "bit x 30")
    case False
    have "pm (at_level3_high at + 8 * tindex 3 (x - 2 ^ 31)) = dir_link id (at_pd_high0 at)"
      using holds_at[OF hi, of 510] False unfolding idx(2) t(3) by simp
    moreover have "holds pm (at_pd_high0 at) (boot_directory off)"
      using pm False unfolding boot_tables_in_memory_def t off_def idx(5) by simp
    ultimately show thesis by (intro that[of "at_pd_high0 at"]) simp_all
  next
    case True
    have "pm (at_level3_high at + 8 * tindex 3 (x - 2 ^ 31)) = dir_link id (at_pd_high1 at)"
      using holds_at[OF hi, of 511] True unfolding idx(2) t(4) by simp
    moreover have "holds pm (at_pd_high1 at) (boot_directory off)"
      using pm True unfolding boot_tables_in_memory_def t off_def idx(5) by simp
    ultimately show thesis by (intro that[of "at_pd_high1 at"]) simp_all
  qed
  have "unat kz + unat x < 2 ^ 52" using kz(2) low_mask_bound[OF x] by simp
  from offset_walk[where res = id and hi = "at_level3_high at" and d = l, OF _ _ _ _ _ _ _ boot_flags v idx(4) kz(1) this]
  show ?thesis using e4 l(1,2) pl boot_directory_entry[OF l(3)] by auto
qed

section \<open>The choice of the module\<close>

definition string_at :: "memory \<Rightarrow> u32 \<Rightarrow> u8 list \<Rightarrow> bool" where
  "string_at m a s \<longleftrightarrow> (\<forall>i < length s. m (a + of_nat i) = s ! i) \<and> 0 \<notin> set s \<and> m (a + of_nat (length s)) = 0"

text \<open>Two strings that agree at a place, or end at the same one.\<close>

definition touch :: "u8 list \<Rightarrow> u8 list \<Rightarrow> bool" where
  "touch s t \<longleftrightarrow> length s = length t \<or> (\<exists>i < min (length s) (length t). s ! i = t ! i)"

lemma string_at_Cons:
  "string_at m a (x # s) \<longleftrightarrow> m a = x \<and> x \<noteq> 0 \<and> string_at m (a + 1) s"
  unfolding string_at_def by (auto simp: All_less_Suc2 nth_Cons' add.assoc)

lemma string_at_Nil: "string_at m a [] \<longleftrightarrow> m a = 0"
  by (simp add: string_at_def)

lemma touch_Cons: "touch (x # s) (y # t) \<longleftrightarrow> x = y \<or> touch s t"
  by (auto simp: touch_def Ex_less_Suc2)

lemma sint_zero: "sint (w :: u8) = 0 \<longleftrightarrow> w = 0"
proof
  assume "sint w = 0"
  then have "(of_int (sint w) :: u8) = of_int 0" by (simp only:)
  then show "w = 0" by simp
qed simp

lemma boot_strcmp_strings:
  assumes "string_at m a s" "string_at m b t"
  shows "\<exists>r. boot_strcmp m a b = Some r \<and> (r = 0 \<longleftrightarrow> touch s t)"
  using assms
proof (induction s arbitrary: a b t)
  case Nil
  then show ?case by (cases t) (auto simp: boot_strcmp.simps[of m a b] string_at_Nil string_at_Cons touch_def sint_zero)
next
  case (Cons x s)
  show ?case
  proof (cases t)
    case Nil
    then show ?thesis using Cons.prems
      by (auto simp: boot_strcmp.simps[of m a b] string_at_Nil string_at_Cons touch_def sint_zero)
  next
    case t: (Cons y t')
    note p = Cons.prems[unfolded t string_at_Cons]
    show ?thesis
    proof (cases "x = y")
      case True
      then show ?thesis using p by (simp add: boot_strcmp.simps[of m a b] t touch_Cons)
    next
      case False
      then have "boot_strcmp m a b = boot_strcmp m (a + 1) (b + 1)"
        using p by (subst boot_strcmp.simps) simp
      then show ?thesis using Cons.IH[of "a + 1" "b + 1" t'] p False by (simp add: t touch_Cons)
    qed
  qed
qed


text \<open>The modules, in the order of their declarations, with their command lines.\<close>

fun modules_at :: "memory \<Rightarrow> u32 \<Rightarrow> u8 list list \<Rightarrow> bool" where
  "modules_at m a [] = True"
| "modules_at m a (c # cs) = (string_at m (mod_cmdline (read_module m a)) c \<and> modules_at m (a + 16) cs)"

definition last_touching :: "u8 list \<Rightarrow> u8 list list \<Rightarrow> nat option" where
  "last_touching s cs = (if \<exists>c \<in> set cs. touch s c then Some (Max {k. k < length cs \<and> touch s (cs ! k)}) else None)"

lemma last_touching_Cons:
  "last_touching s (c # cs) = (case last_touching s cs of
      Some k \<Rightarrow> Some (Suc k) | None \<Rightarrow> if touch s c then Some 0 else None)"
proof -
  let ?A = "{k. k < length cs \<and> touch s (cs ! k)}"
  have split: "{k. k < length (c # cs) \<and> touch s ((c # cs) ! k)} = (if touch s c then {0} else {}) \<union> Suc ` ?A"
    by (auto simp: image_iff less_Suc_eq_0_disj)
  show ?thesis
  proof (cases "\<exists>x \<in> set cs. touch s x")
    case True
    then have ne: "?A \<noteq> {}" "finite ?A" by (auto simp: in_set_conv_nth)
    have "Max (Suc ` ?A) = Suc (Max ?A)" using ne by (simp add: mono_Max_commute[OF mono_Suc])
    then have "Max ((if touch s c then {0} else {}) \<union> Suc ` ?A) = Suc (Max ?A)"
      using ne by (auto simp: Max_insert)
    then show ?thesis using True unfolding last_touching_def split by auto
  next
    case False
    then have "?A = {}" using nth_mem by blast
    then show ?thesis using False unfolding last_touching_def split by (auto simp: \<open>?A = {}\<close>)
  qed
qed

lemma module_loop_spec:
  assumes "string_at m (cmdline info) s" "modules_at m a cs"
  shows "module_loop m info (length cs) a d =
    Some (case last_touching s cs of Some k \<Rightarrow> Some (a + 16 * of_nat k) | None \<Rightarrow> d)"
  using assms(2)
proof (induction cs arbitrary: a d)
  case Nil
  then show ?case by (simp add: last_touching_def)
next
  case (Cons c cs)
  obtain r where r: "boot_strcmp m (cmdline info) (mod_cmdline (read_module m a)) = Some r" "r = 0 \<longleftrightarrow> touch s c"
    using boot_strcmp_strings[OF assms(1)] Cons.prems by auto
  show ?case using Cons.IH[of "a + 16"] Cons.prems r
    by (auto simp: last_touching_Cons algebra_simps split: option.split)
qed

section \<open>The memory map\<close>

fun map_at :: "memory \<Rightarrow> u32 \<Rightarrow> (nat \<times> memory_map_entry) list \<Rightarrow> bool" where
  "map_at m a [] = True"
| "map_at m a (e # es) = (read_map_entry m a = e \<and> map_at m (a + of_nat (fst e) + 4) es)"

definition map_size :: "(nat \<times> memory_map_entry) list \<Rightarrow> nat" where
  "map_size es = (\<Sum>e \<leftarrow> es. fst e + 4)"

lemma length_map_size: "4 * length es \<le> map_size es"
  by (induction es) (simp_all add: map_size_def)

lemma map_loop_spec:
  assumes "map_at (mem s) (mmap_addr info + of_nat off) es" "off + map_size es = mmap_length info"
    "mmap_length info \<le> 256" "i + length es < 256" "length (map_buffer s) = 256"
  shows "map_loop info i (of_nat off) s = (Ret (), s\<lparr>map_buffer :=
    take i (map_buffer s) @ map snd es @ [terminator] @ drop (i + length es + 1) (map_buffer s)\<rparr>)"
  using assms
proof (induction es arbitrary: i off s)
  case Nil
  have "unat (of_nat off :: u32) = off" by (rule unat_u32) (use Nil in \<open>simp add: map_size_def\<close>)
  then show ?case using Nil
    by (simp add: map_loop.simps[of info i] map_size_def set_buffer_def upd_conv_take_nth_drop)
next
  case (Cons e es)
  obtain sz x where e: "e = (sz, x)" by (cases e)
  have le: "off + sz + 4 + map_size es = mmap_length info" using Cons.prems(2) by (simp add: e map_size_def)
  have u: "unat (of_nat off :: u32) = off" by (rule unat_u32) (use le Cons.prems(3) in simp)
  let ?s = "s\<lparr>map_buffer := (map_buffer s)[i := x]\<rparr>"
  have pos: "(of_nat off :: u32) + of_nat sz + 4 = of_nat (off + sz + 4)" by simp
  have at: "mmap_addr info + of_nat (off + sz + 4) = mmap_addr info + of_nat off + of_nat sz + 4" by simp
  have step: "map_loop info i (of_nat off) s = map_loop info (i + 1) (of_nat (off + sz + 4)) ?s"
    using Cons.prems le by (subst map_loop.simps) (simp only: u map_at.simps e fst_conv pos Let_def split
      if_True if_False, simp)
  have "map_at (mem ?s) (mmap_addr info + of_nat (off + sz + 4)) es"
    unfolding at using Cons.prems(1) by (simp add: e)
  from Cons.IH[OF this le Cons.prems(3)] Cons.prems(4,5) show ?case unfolding step
    by (simp add: e take_Suc_conv_app_nth)
qed


section \<open>What the program does when it comes to the kernel\<close>

text \<open>The place of the kernel: the first multiple of 2 MiB that is not below the safe zone's start.\<close>

definition kernel_place :: "nat \<Rightarrow> nat" where
  "kernel_place safe = 2 ^ 21 * ((safe + 2 ^ 21 - 1) div 2 ^ 21)"

lemma kernel_place_bounds:
  "safe \<le> kernel_place safe" "kernel_place safe < safe + 2 ^ 21" "kernel_place safe mod 2 ^ 21 = 0"
proof -
  have eq: "(safe + 2 ^ 21 - 1) = 2 ^ 21 * ((safe + 2 ^ 21 - 1) div 2 ^ 21) + (safe + 2 ^ 21 - 1) mod 2 ^ 21"
    by (simp only: mult_div_mod_eq)
  have "(safe + 2 ^ 21 - 1) mod 2 ^ 21 < (2 :: nat) ^ 21" by (rule mod_less_divisor) simp
  then show "safe \<le> kernel_place safe" "kernel_place safe < safe + 2 ^ 21"
    unfolding kernel_place_def using eq by linarith+
  show "kernel_place safe mod 2 ^ 21 = 0" by (simp only: kernel_place_def mod_mult_self1_is_0)
qed

lemma place_kernel_spec:
  assumes "safe + 2 ^ 21 \<le> 2 ^ 31"
  shows "place_kernel (int safe) s = (Ret (), s\<lparr>kernel_zero := kernel_place safe\<rparr>)"
proof -
  have "int safe + 2 * 1024 * 1024 - 1 = int (safe + 2 ^ 21 - 1)" by simp
  then have d: "(int safe + 2 * 1024 * 1024 - 1) sdiv (2 * 1024 * 1024) = int ((safe + 2 ^ 21 - 1) div 2 ^ 21)"
    by (simp add: signed_divide_int_def sgn_if zdiv_int of_nat_diff)
  have "2 * 1024 * 1024 * ((int safe + 2 * 1024 * 1024 - 1) sdiv (2 * 1024 * 1024)) = int (kernel_place safe)"
    unfolding d kernel_place_def by simp
  then have "unat (of_int (2 * 1024 * 1024 * ((int safe + 2 * 1024 * 1024 - 1) sdiv (2 * 1024 * 1024))) :: u64) =
      unat (of_nat (kernel_place safe) :: u64)"
    by (simp only: of_int_of_nat_eq)
  moreover have "unat (of_nat (kernel_place safe) :: u64) = kernel_place safe"
    using kernel_place_bounds(2)[of safe] assms by (simp add: unat_of_nat)
  ultimately show ?thesis using assms unfolding place_kernel_def by simp
qed

lemma sint_small: "unat (w :: u32) < 2 ^ 31 \<Longrightarrow> sint w = int (unat w)"
proof -
  assume w: "unat w < 2 ^ 31"
  have u: "uint w = int (unat w)" by simp
  then have "uint w < 2 ^ 31" using w by (metis of_nat_less_iff of_nat_numeral of_nat_power)
  moreover have "0 \<le> uint w" by simp
  moreover have "sint w = (uint w + 2147483648) mod 4294967296 - 2147483648"
    by (simp add: sint_uint signed_take_bit_eq_take_bit_shift take_bit_eq_mod del: uint_nat)
  moreover have "(uint w + 2147483648) mod 4294967296 = uint w + 2147483648"
    by (rule mod_pos_pos_trivial) (use calculation(1,2) in simp_all)
  ultimately have "sint w = uint w" by linarith
  from this u show ?thesis by (rule trans)
qed

lemma safe_offset_small:
  assumes "unat (mod_end d) < 2 ^ 31" "unat e < 2 ^ 31"
  shows "safe_offset d e = int (max (unat (mod_end d)) (unat e))"
  using assms by (simp only: safe_offset_def sint_small of_nat_less_iff max_def split: if_split) auto

lemma map_loop_keeps:
  "map_loop info i off s = (r, s') \<Longrightarrow> mem s' = mem s \<and> tables s' = tables s"
proof (induction info i off s rule: map_loop.induct)
  case (1 info i offset s)
  show ?case
  proof (cases "unat offset < mmap_length info \<and> i < 256")
    case True
    obtain size x where e: "read_map_entry (mem s) (mmap_addr info + offset) = (size, x)" by fastforce
    have "map_loop info (i + 1) (offset + of_nat size + 4) (s\<lparr>map_buffer := (map_buffer s)[i := x]\<rparr>) = (r, s')"
      using "1.prems" True by (subst (asm) map_loop.simps) (simp add: e)
    with "1.IH"[OF _ e[symmetric] refl] True show ?thesis by simp
  next
    case False
    then show ?thesis using "1.prems"
      by (subst (asm) map_loop.simps) (auto simp: set_buffer_def Let_def split: if_splits prod.splits)
  qed
qed

lemma read_map_keeps: "read_map info s = (r, s') \<Longrightarrow> mem s' = mem s \<and> tables s' = tables s"
  by (auto simp: read_map_def ret_def split: if_splits dest: map_loop_keeps)

lemma find_kernel_keeps: "find_kernel info s = (r, s') \<Longrightarrow> s' = s"
  by (auto simp: find_kernel_def halt_def split: option.splits)

lemma bootstrap_returns:
  assumes run: "bootstrap at be lm magic ip s = (Ret e, s')" and info: "info = read_info (mem s) ip"
  obtains d s1 where "read_map info s = (Ret (), s1)" "find_kernel info s1 = (Ret d, s1)"
    "mem s1 = mem s" "tables s1 = tables s"
    "\<And>safe. safe_offset d be = int safe \<Longrightarrow> safe + 2 ^ 21 \<le> 2 ^ 31 \<Longrightarrow>
      \<exists>r. load_kernel (kernel_place safe) (unat (of_nat safe :: u32)) (mod_start d) (mem s) = (r, mem s') \<and>
      result_code r = LK_OK \<and> e = lk_entry r \<and> map_buffer s' = map_buffer s1 \<and>
      kernel_zero s' = kernel_place safe \<and>
      tables s' = ready_paging at (of_nat (kernel_place safe)) (tables s)"
proof -
  define last where "last = (\<lambda>d. let safe = safe_offset d be in
         andthen (place_kernel safe) (\<lambda>_.
         andthen (run_loader safe d) (\<lambda>r.
         if result_code r \<noteq> LK_OK then halt
         else if \<not> lm then halt
         else andthen (install_tables at) (\<lambda>_. ret (lk_entry r)))))"
  have "magic = bootloader_magic"
    using run by (auto simp: bootstrap_def halt_def Let_def split: if_splits)
  then have "andthen (read_map info) (\<lambda>_.
       if reported_flags info AND MODS = 0 \<or> module_count info = 0 then halt
       else if reported_flags info AND CMDLINE = 0 then halt
       else andthen (find_kernel info) last) s = (Ret e, s')"
    using run unfolding bootstrap_def info last_def Let_def by (simp only: simp_thms if_False)
  then obtain s1 where r1: "read_map info s = (Ret (), s1)"
    and k1: "(if reported_flags info AND MODS = 0 \<or> module_count info = 0 then halt
       else if reported_flags info AND CMDLINE = 0 then halt
       else andthen (find_kernel info) last) s1 = (Ret e, s')"
    by (auto elim!: andthen_cases)
  then have "andthen (find_kernel info) last s1 = (Ret e, s')"
    by (auto simp: halt_def split: if_splits)
  then obtain d s2 where f: "find_kernel info s1 = (Ret d, s2)" and k2: "last d s2 = (Ret e, s')"
    by (rule andthen_cases)
  note keep = read_map_keeps[OF r1] find_kernel_keeps[OF f]
  show thesis
  proof (rule that[OF r1 f[unfolded keep(2)]])
    fix safe assume safe: "safe_offset d be = int safe" "safe + 2 ^ 21 \<le> 2 ^ 31"
    let ?s = "s1\<lparr>kernel_zero := kernel_place safe\<rparr>"
    obtain r m where lk: "load_kernel (kernel_place safe) (unat (of_nat safe :: u32)) (mod_start d) (mem s1) = (r, m)"
      by fastforce
    have "andthen (run_loader (int safe) d) (\<lambda>r. if result_code r \<noteq> LK_OK then halt
         else if \<not> lm then halt else andthen (install_tables at) (\<lambda>_. ret (lk_entry r))) ?s = (Ret e, s')"
      using k2 unfolding last_def safe(1) Let_def keep(2) andthen_Ret[OF place_kernel_spec[OF safe(2)]] .
    moreover have "run_loader (int safe) d ?s = (Ret r, ?s\<lparr>mem := m\<rparr>)"
      by (simp add: run_loader_def lk)
    ultimately have "(if result_code r \<noteq> LK_OK then halt
         else if \<not> lm then halt else andthen (install_tables at) (\<lambda>_. ret (lk_entry r))) (?s\<lparr>mem := m\<rparr>) = (Ret e, s')"
      by (simp only: andthen_Ret)
    then show "\<exists>r. load_kernel (kernel_place safe) (unat (of_nat safe :: u32)) (mod_start d) (mem s) = (r, mem s') \<and>
      result_code r = LK_OK \<and> e = lk_entry r \<and> map_buffer s' = map_buffer s1 \<and>
      kernel_zero s' = kernel_place safe \<and>
      tables s' = ready_paging at (of_nat (kernel_place safe)) (tables s)"
      using lk keep(1) by (auto simp: halt_def install_tables_def andthen_def ret_def split: if_splits)
  qed (use keep in auto)
qed


section \<open>Properties\<close>

lemma find_kernel_mem: "mem s1 = mem s \<Longrightarrow> find_kernel info s = (Ret d, s) \<Longrightarrow> find_kernel info s1 = (Ret d', s1) \<Longrightarrow> d' = d"
  by (auto simp: find_kernel_def halt_def split: option.splits)

lemma upper_address:
  assumes "2 ^ 64 - 2 ^ 31 \<le> v" "v < 2 ^ 64"
  shows "(of_nat v :: u64) = of_nat (v - (2 ^ 64 - 2 ^ 31)) - 2 ^ 31"
    "(of_nat (v - (2 ^ 64 - 2 ^ 31)) :: u64) AND NOT (mask 31) = 0"
proof -
  define off where "off = v - (2 ^ 64 - 2 ^ 31)"
  have off: "off < 2 ^ 31" "v + 2 ^ 31 = off + 2 ^ 64" using assms by (simp_all add: off_def)
  have "(of_nat (v + 2 ^ 31) :: u64) = of_nat (off + 2 ^ 64)" by (simp only: off)
  moreover have "(of_nat (2 ^ 64) :: u64) = 0" by (simp add: word_eq_iff_unsigned unat_of_nat)
  ultimately have "(of_nat v :: u64) + of_nat (2 ^ 31) = of_nat off" by (simp only: of_nat_add add_0_right)
  then show "(of_nat v :: u64) = of_nat (v - (2 ^ 64 - 2 ^ 31)) - 2 ^ 31"
    unfolding off_def[symmetric] by (simp add: eq_diff_eq)
  have "unat (of_nat off :: u64) = off" using off(1) by (simp add: unat_of_nat)
  then have "take_bit 31 (of_nat off :: u64) = of_nat off"
    using off(1) by (simp add: word_unat_eq_iff unsigned_take_bit_eq take_bit_nat_eq_self)
  then have m: "(of_nat off :: u64) AND mask 31 = of_nat off" by (simp add: take_bit_eq_mask)
  have "(of_nat off :: u64) AND NOT (mask 31) = (of_nat off AND mask 31) AND NOT (mask 31)" by (simp only: m)
  also have "\<dots> = 0" by (rule bit_word_eqI) (auto simp: bit_simps)
  finally show "(of_nat (v - (2 ^ 64 - 2 ^ 31)) :: u64) AND NOT (mask 31) = 0" by (simp only: off_def)
qed

lemma start_addr_upper:
  assumes "2 ^ 64 - 2 ^ 31 \<le> vaddr ph" "vaddr ph < 2 ^ 64" "kz < 2 ^ 32"
  shows "start_addr kz ph = kz + (vaddr ph - (2 ^ 64 - 2 ^ 31))"
proof -
  define off where "off = vaddr ph - (2 ^ 64 - 2 ^ 31)"
  have off: "off < 2 ^ 31" "vaddr ph + 2 * 1024 * 1024 * 1024 = off + 2 ^ 64" using assms by (simp_all add: off_def)
  have "vaddr ph div 2 ^ 63 \<noteq> 0" using assms(1) by simp
  moreover have "wrap64 (vaddr ph + 2 * 1024 * 1024 * 1024) = off"
    unfolding off(2) using off(1) by (simp add: wrap64_def)
  moreover have "wrap64 (off + kz) = kz + off" using off(1) assms(3) by simp
  ultimately show ?thesis by (simp only: start_addr_def Let_def if_True if_False not_False_eq_True off_def[symmetric])
qed

lemma boot_mapped:
  assumes run: "bootstrap at be lm magic ip s = (Ret e, s')" and st: "tables s = boot_static_tables"
    and kernel: "find_kernel (read_info (mem s) ip) s = (Ret d, s)"
    and safe: "safe = max (unat (mod_end d)) (unat be)" "safe + 2 ^ 21 \<le> 2 ^ 31"
    and elf: "elf_accepted (mem s) (mod_start d)" "file_sane (kernel_place safe) safe (mod_start d) (mem s)"
    and seg: "takeWhile (loads (kernel_place safe) safe) (headers (mem s) (mod_start d)) = before @ ph # after"
    and half: "2 ^ 64 - 2 ^ 31 \<le> vaddr ph" "vaddr ph + memsz ph \<le> 2 ^ 64"
    and i: "i < memsz ph" and adr: "adr = start_addr (kernel_place safe) ph + i"
    and apart: "list_all (\<lambda>q. \<not> (start_addr (kernel_place safe) q \<le> adr \<and>
        adr < start_addr (kernel_place safe) q + memsz q)) after"
    and tables: "boot_tables_in_memory pm at (tables s')" "boot_tables_placed at"
  shows "hw_walk 4 pm (at_level4 at) (of_nat (vaddr ph + i)) True = Some (True, of_nat adr)"
    "mem s' (of_nat adr) = (if i < filesz ph then mem s (mod_start d + of_nat (file_off ph + i)) else 0)"
    "e = entrypoint (read_file_header (mem s) (mod_start d)) mod 2 ^ 32"
proof -
  let ?kz = "kernel_place safe" and ?m0 = "mem s" and ?elf = "mod_start d"
  have kz: "?kz < 2 ^ 31" "?kz mod 2 ^ 21 = 0"
    using kernel_place_bounds[of safe] safe(2) by linarith+
  obtain d' s1 where s1: "find_kernel (read_info ?m0 ip) s1 = (Ret d', s1)" "mem s1 = ?m0"
    and load: "\<And>safe. safe_offset d' be = int safe \<Longrightarrow> safe + 2 ^ 21 \<le> 2 ^ 31 \<Longrightarrow>
      \<exists>r. load_kernel (kernel_place safe) (unat (of_nat safe :: u32)) (mod_start d') ?m0 = (r, mem s') \<and>
      result_code r = LK_OK \<and> e = lk_entry r \<and> map_buffer s' = map_buffer s1 \<and>
      kernel_zero s' = kernel_place safe \<and> tables s' = ready_paging at (of_nat (kernel_place safe)) (tables s)"
    by (rule bootstrap_returns[OF run refl]) blast
  have d': "d' = d" by (rule find_kernel_mem[OF s1(2) kernel s1(1)])
  have "unat (mod_end d) \<le> safe" "unat be \<le> safe" by (simp_all only: safe(1) max.cobounded1 max.cobounded2)
  then have "unat (mod_end d) < 2 ^ 31" "unat be < 2 ^ 31" using safe(2) by simp_all
  then have "safe_offset d be = int safe" unfolding safe(1) by (rule safe_offset_small)
  moreover have "unat (of_nat safe :: u32) = safe" by (rule unat_u32) (use safe(2) in simp)
  ultimately obtain r where r: "load_kernel ?kz safe ?elf ?m0 = (r, mem s')" "result_code r = LK_OK" "e = lk_entry r"
    and t: "tables s' = ready_paging at (of_nat ?kz) boot_static_tables"
    using load[of safe] safe(2) st unfolding d' by auto
  note spec = load_kernel_spec(1)[OF elf]
  have m': "mem s' = loaded_image ?kz ?elf ?m0 (before @ ph # after) ?m0"
    using spec r(1) unfolding seg by simp
  show "e = entrypoint (read_file_header ?m0 ?elf) mod 2 ^ 32"
    using spec r loop_result_error by (auto split: option.splits)
  have "ph \<in> set (takeWhile (loads ?kz safe) (headers ?m0 ?elf))" unfolding seg by simp
  then have "loads ?kz safe ph" by (rule set_takeWhileD[THEN conjunct2])
  then have zone: "start_addr ?kz ph + memsz ph < 2 ^ 32" by (simp add: loads_def in_zone_def)
  define off where "off = vaddr ph + i - (2 ^ 64 - 2 ^ 31)"
  have start: "start_addr ?kz ph = ?kz + (vaddr ph - (2 ^ 64 - 2 ^ 31))"
    by (rule start_addr_upper) (use half i kz in simp_all)
  have adr_off: "adr = ?kz + off" unfolding adr start off_def using half(1) by simp
  have u: "unat (of_nat adr :: u32) = adr" by (rule unat_u32) (use zone i adr in linarith)
  show "mem s' (of_nat adr) = (if i < filesz ph then ?m0 (?elf + of_nat (file_off ph + i)) else 0)"
    unfolding m' by (rule loaded_image_byte[OF refl]) (use apart u adr i in simp_all)
  have v: "vaddr ph + i < 2 ^ 64" "2 ^ 64 - 2 ^ 31 \<le> vaddr ph + i" using half i by linarith+
  note up = upper_address[OF v(2,1), folded off_def]
  have "unat (of_nat ?kz :: u64) = ?kz" using kz(1) by (simp add: unat_of_nat)
  moreover have "unat (take_bit 21 (of_nat ?kz :: u64)) = 0"
    unfolding unsigned_take_bit_eq calculation using kz(2) by (simp add: take_bit_eq_mod)
  ultimately have "unat (of_nat ?kz :: u64) + 2 ^ 31 \<le> 2 ^ 52" "take_bit 21 (of_nat ?kz :: u64) = 0"
    using kz(1) by (simp_all only: unat_eq_zero) simp_all
  then have w: "hw_walk 4 pm (at_level4 at) (of_nat off - 2 ^ 31) True = Some (True, of_nat ?kz + of_nat off)"
    by (intro boot_kernel_walk[OF t tables]) (simp_all only: up(2) take_bit_eq_mask)
  then show "hw_walk 4 pm (at_level4 at) (of_nat (vaddr ph + i)) True = Some (True, of_nat adr)"
    by (simp only: up(1) adr_off of_nat_add[of ?kz off])
qed


text \<open>
  C30: the kernel runs where it was loaded. When \<^verbatim>\<open>bootstrap\<close> returns, with the program and the
  kernel's file below 2 GiB, then for every byte of a loaded segment of the upper half the
  page tables that it has built translate the byte's linear address to the physical address
  at which the loader has stored that byte of the file (or the zero behind the bytes of the
  file), unless a later segment covers it; and the result is the low half of the entry point.
\<close>

theorem boot_kernel_mapped:
  assumes "bootstrap at be lm magic ip s = (Ret e, s')" and "tables s = boot_static_tables"
    and "find_kernel (read_info (mem s) ip) s = (Ret d, s)"
    and "safe = max (unat (mod_end d)) (unat be)" "safe + 2 ^ 21 \<le> 2 ^ 31"
    and "elf_accepted (mem s) (mod_start d)" "file_sane (kernel_place safe) safe (mod_start d) (mem s)"
    and "takeWhile (loads (kernel_place safe) safe) (headers (mem s) (mod_start d)) = before @ ph # after"
    and "2 ^ 64 - 2 ^ 31 \<le> vaddr ph" "vaddr ph + memsz ph \<le> 2 ^ 64"
    and "i < memsz ph" and "adr = start_addr (kernel_place safe) ph + i"
    and "list_all (\<lambda>q. \<not> (start_addr (kernel_place safe) q \<le> adr \<and>
        adr < start_addr (kernel_place safe) q + memsz q)) after"
    and "boot_tables_in_memory pm at (tables s')" "boot_tables_placed at"
  shows "hw_walk 4 pm (at_level4 at) (of_nat (vaddr ph + i)) True = Some (True, of_nat adr) \<and>
    mem s' (of_nat adr) = (if i < filesz ph then mem s (mod_start d + of_nat (file_off ph + i)) else 0) \<and>
    e = entrypoint (read_file_header (mem s) (mod_start d)) mod 2 ^ 32"
  using boot_mapped[OF assms] by blast

definition demo_addrs :: boot_addrs where
  "demo_addrs = \<lparr>at_pd0 = 0x10000, at_pd1 = 0x11000, at_pd2 = 0x12000, at_pd3 = 0x13000,
    at_pd_high0 = 0x14000, at_pd_high1 = 0x15000, at_level3 = 0x16000, at_level3_high = 0x17000,
    at_level4 = 0x18000\<rparr>"

definition demo_boot :: boot where
  "demo_boot = \<lparr>mem = demo_memory, map_buffer = replicate 256 \<lparr>base = 0, len = 0, mtype = 0\<rparr>,
    kernel_zero = 0, tables = boot_static_tables\<rparr>"

definition demo_tables_memory :: "boot_tables \<Rightarrow> u64 \<Rightarrow> u64" where
  "demo_tables_memory t = memory_with [(0x10000, pd0 t), (0x11000, pd1 t), (0x12000, pd2 t), (0x13000, pd3 t),
    (0x14000, pd_high0 t), (0x15000, pd_high1 t), (0x16000, level3 t), (0x17000, level3_high t), (0x18000, level4 t)]"

lemma demo_tables: "boot_tables_in_memory (demo_tables_memory t) demo_addrs t" "boot_tables_placed demo_addrs"
proof -
  have b: "table_base 0x10000" "table_base 0x11000" "table_base 0x12000" "table_base 0x13000"
    "table_base 0x14000" "table_base 0x15000" "table_base 0x16000" "table_base 0x17000" "table_base 0x18000"
    by (simp_all add: table_base_def address_mask_def)
  show "boot_tables_placed demo_addrs"
    by (simp add: boot_tables_placed_def demo_addrs_def b low32_def mask_eq_exp_minus_1)
  show "boot_tables_in_memory (demo_tables_memory t) demo_addrs t"
    unfolding boot_tables_in_memory_def demo_addrs_def demo_tables_memory_def boot_addrs.simps
    by (intro conjI; rule memory_with_holds) (simp_all add: b)
qed

lemma demo_read_info:
  "read_info demo_memory 0x100 = \<lparr>reported_flags = 12, cmdline = 0x150, module_count = 1,
     module_arr_addr = 0x140, mmap_length = 0, mmap_addr = 0\<rparr>"
  "read_module demo_memory 0x140 = \<lparr>mod_start = 0x1000, mod_end = 0x107a, mod_cmdline = 0x150\<rparr>"
  by (simp_all add: read_info_def read_module_def value_at_numeral demo_byte demo_info_def)

lemma demo_find_kernel:
  "find_kernel (read_info demo_memory 0x100) demo_boot = (Ret (read_module demo_memory 0x140), demo_boot)"
  by (simp add: find_kernel_def demo_read_info demo_boot_def boot_strcmp.simps)

lemma demo_load:
  "load_kernel 0x200000 0x2000 0x1000 demo_memory =
    (\<lparr>result_code = LK_OK, lk_entry = 0x80000000, diagnostic = 0\<rparr>,
     loaded_image 0x200000 0x1000 demo_memory [read_program_header demo_memory 0x1040] demo_memory)"
  using load_kernel_spec(1)[OF demo_accepted] demo_loads by (simp add: demo_headers loop_result_def demo_header)

lemma demo_bootstrap:
  "\<exists>s'. bootstrap demo_addrs 0x2000 True bootloader_magic 0x100 demo_boot = (Ret 0x80000000, s')"
proof -
  have safe: "safe_offset (read_module demo_memory 0x140) 0x2000 = int 0x2000"
    by (simp add: safe_offset_def demo_read_info)
  have kp: "kernel_place 0x2000 = 0x200000" by (simp add: kernel_place_def)
  have p: "place_kernel (int 0x2000) demo_boot = (Ret (), demo_boot\<lparr>kernel_zero := 0x200000\<rparr>)"
    using place_kernel_spec[of "0x2000" demo_boot] unfolding kp by simp
  have l: "run_loader (int 0x2000) (read_module demo_memory 0x140) (demo_boot\<lparr>kernel_zero := 0x200000\<rparr>) =
      (Ret \<lparr>result_code = LK_OK, lk_entry = 0x80000000, diagnostic = 0\<rparr>,
       demo_boot\<lparr>kernel_zero := 0x200000,
         mem := loaded_image 0x200000 0x1000 demo_memory [read_program_header demo_memory 0x1040] demo_memory\<rparr>)"
    using demo_load by (simp add: run_loader_def demo_boot_def demo_read_info(2))
  have m: "mem demo_boot = demo_memory" by (simp add: demo_boot_def)
  have info: "mmap_length (read_info demo_memory 0x100) = 0"
    "reported_flags (read_info demo_memory 0x100) AND MODS \<noteq> 0" "module_count (read_info demo_memory 0x100) \<noteq> 0"
    "reported_flags (read_info demo_memory 0x100) AND CMDLINE \<noteq> 0"
    by (simp_all add: demo_read_info(1) MODS_def CMDLINE_def)
  have "read_map (read_info demo_memory 0x100) demo_boot = (Ret (), demo_boot)"
    by (simp add: read_map_def info(1) ret_def)
  note steps = this demo_find_kernel p l
  show ?thesis
    unfolding bootstrap_def Let_def m using info(2-4)
    by (simp only: andthen_Ret steps safe simp_thms if_False lk_result.simps install_tables_def ret_def)
      blast
qed

lemma boot_kernel_mapped_witness:
  "\<exists>pm s'. bootstrap demo_addrs 0x2000 True bootloader_magic 0x100 demo_boot = (Ret 0x80000000, s') \<and>
    hw_walk 4 pm (at_level4 demo_addrs) 0xffffffff80000001 True = Some (True, 0x200001) \<and> mem s' 0x200001 = 0xbb"
proof -
  obtain s' where run: "bootstrap demo_addrs 0x2000 True bootloader_magic 0x100 demo_boot = (Ret 0x80000000, s')"
    using demo_bootstrap by blast
  have m: "mem demo_boot = demo_memory" "tables demo_boot = boot_static_tables" by (simp_all add: demo_boot_def)
  have kp: "kernel_place 0x2000 = 0x200000" by (simp add: kernel_place_def)
  have s: "0x2000 = max (unat (mod_end (read_module demo_memory 0x140))) (unat (0x2000 :: u32))" "(0x2000::nat) + 2 ^ 21 \<le> 2 ^ 31"
    by (simp_all add: demo_read_info(2))
  have start: "start_addr 0x200000 (read_program_header demo_memory 0x1040) = 0x200000"
    by (simp add: demo_program_header start_addr_def wrap64_def)
  have d: "mod_start (read_module demo_memory 0x140) = 0x1000" by (simp add: demo_read_info(2))
  have "takeWhile (loads 0x200000 0x2000) (headers demo_memory 0x1000) = [] @ read_program_header demo_memory 0x1040 # []"
    using demo_loads by (simp add: demo_headers)
  from boot_kernel_mapped[OF run m(2), unfolded m(1), OF demo_find_kernel s, unfolded kp d, OF demo_accepted this,
      where i = 1 and adr = "0x200001" and pm = "demo_tables_memory (tables s')"]
  show ?thesis using run demo_tables start
    by (intro exI[of _ "demo_tables_memory (tables s')"] exI[of _ s'])
      (simp add: demo_program_header demo_byte demo_file_def)
qed

text \<open>
  C31: which module is taken for the kernel. The comparison of the command lines goes on
  while the characters differ, so that it calls any two strings equal that agree at some
  place, the first letter for instance; the last module with such a command line is loaded,
  and the program halts when there is none.
\<close>

theorem boot_takes_touching_module:
  assumes "string_at (mem s) (cmdline info) name" and "modules_at (mem s) (module_arr_addr info) names"
    and "module_count info = length names"
  shows "find_kernel info s = (case last_touching name names of
      Some k \<Rightarrow> (Ret (read_module (mem s) (module_arr_addr info + 16 * of_nat k)), s)
    | None \<Rightarrow> (Hang, s))"
  using module_loop_spec[OF assms(1,2)] assms(3)
  by (simp add: find_kernel_def halt_def split: option.split)

lemma boot_takes_touching_module_witness:
  "find_kernel (read_info demo_memory 0x100) demo_boot = (Ret (read_module demo_memory 0x140), demo_boot)"
proof -
  have str: "string_at demo_memory 0x150 [0x6b]"
    by (simp add: string_at_def demo_byte demo_info_def)
  have "last_touching [0x6b] [[0x6b]] = Some 0" by (simp add: last_touching_Cons touch_def) (simp add: last_touching_def)
  moreover have "mem demo_boot = demo_memory" by (simp add: demo_boot_def)
  ultimately show ?thesis using str
    using boot_takes_touching_module[of demo_boot "read_info demo_memory 0x100" "[0x6b]" "[[0x6b]]"]
    by (simp add: demo_read_info)
qed

text \<open>
  The memory map reaches the kernel. A map of at most 256 bytes whose sizes add up to its
  length is stored in order in front of a terminator, so that \<^verbatim>\<open>setup_heap\<close> of the kernel,
  which reads the buffer, sees the entries up to the first empty one and stops there.
\<close>

theorem boot_map_reaches_kernel:
  assumes "map_at (mem s) (mmap_addr info) es" "map_size es = mmap_length info"
    "0 < mmap_length info" "mmap_length info \<le> 256" "length (map_buffer s) = 256"
  shows "\<exists>rest. read_map info s = (Ret (), s\<lparr>map_buffer := map snd es @ terminator # rest\<rparr>) \<and>
    (\<forall>kb ke kz. setup_heap kb ke (map snd es @ terminator # rest) kz = setup_heap kb ke (map snd es @ [terminator]) kz)"
proof -
  have "length es \<le> 64" using length_map_size[of es] assms(2,4) by linarith
  then have l: "read_map info s = (Ret (), s\<lparr>map_buffer := map snd es @ terminator # drop (length es + 1) (map_buffer s)\<rparr>)"
    using map_loop_spec[of s info 0 es 0] assms by (simp add: read_map_def)
  have stop: "setup_loop prev (xs @ terminator # rest) alloc = setup_loop prev (xs @ [terminator]) alloc" for prev xs rest alloc
    by (induction xs arbitrary: prev alloc) (simp_all add: terminator_def)
  have "setup_heap kb ke (map snd es @ terminator # r) kz = setup_heap kb ke (map snd es @ [terminator]) kz" for kb ke kz r
    by (simp only: setup_heap_def stop[of _ _ r])
  then show ?thesis using l by blast
qed

lemma boot_map_reaches_kernel_witness:
  "\<exists>rest. map_buffer (snd (read_map \<lparr>reported_flags = 64, cmdline = 0, module_count = 0, module_arr_addr = 0,
      mmap_length = 24, mmap_addr = 0x200\<rparr>
      (demo_boot\<lparr>mem := (\<lambda>a. if a = 0x200 then 20 else if a = 0x212 then 1 else if a = 0x214 then 1 else 0)\<rparr>))) =
    [\<lparr>base = 0, len = 0x1000000000000, mtype = 1\<rparr>, terminator] @ rest"
proof -
  let ?m = "(\<lambda>a. if a = 0x200 then 20 else if a = 0x212 then 1 else if a = 0x214 then 1 else 0) :: memory"
  have "map_at ?m 0x200 [(20, \<lparr>base = 0, len = 0x1000000000000, mtype = 1\<rparr>)]"
    by (simp add: read_map_entry_def value_at_numeral)
  then show ?thesis
    using boot_map_reaches_kernel[of "demo_boot\<lparr>mem := ?m\<rparr>"
        "\<lparr>reported_flags = 64, cmdline = 0, module_count = 0, module_arr_addr = 0, mmap_length = 24, mmap_addr = 0x200\<rparr>"
        "[(20, \<lparr>base = 0, len = 0x1000000000000, mtype = 1\<rparr>)]"]
    by (auto simp: map_size_def demo_boot_def)
qed

end
