(* ===== verification/Kproc.thy ===== *)
theory Kproc
  imports Sched Vfs
begin

text \<open>
  What a process meets of the kernel, kernel/proc/scheduler_main.cc: the switch from one
  process to the next, on top of the scheduler, and the system calls, on top of files and
  directory iterators. Objects that the kernel hands out as pointers lie in two maps, from
  the address to the object; an address that is in no map is a dangling pointer.
\<close>

section \<open>Switching processes\<close>

text \<open>
  The saved registers of a process are a value of type \<open>'r\<close>. \<open>initial_count\<close> is the register
  of the timer of that name, 32 bits wide; \<open>eois\<close> counts the interrupts acknowledged. A
  process is known by its pid.
\<close>

record 'r switch =
  sched :: "hl_sched option"
  registers :: 'r
  saved :: "nat \<Rightarrow> 'r"
  current_process :: nat
  initial_count :: nat
  eois :: nat

definition on_sched :: "(hl_sched \<Rightarrow> 'a outcome \<times> hl_sched) \<Rightarrow> ('r switch, 'a) action" where
  "on_sched f = (\<lambda>k. case sched k of
     None \<Rightarrow> (Fault ''no scheduler'', k)
   | Some h \<Rightarrow> (case f h of (r, h') \<Rightarrow> (r, k\<lparr>sched := Some h'\<rparr>)))"

definition send_EOI :: "('r switch, unit) action" where
  "send_EOI = (\<lambda>k. (Ret (), k\<lparr>eois := eois k + 1\<rparr>))"

text \<open>The scheduler of the first call, with the three processes in a chain.\<close>

definition launch :: "nat option \<Rightarrow> nat \<Rightarrow> nat \<Rightarrow> nat \<Rightarrow> ('r switch, unit) action" where
  "launch junk p0 p1 p2 =
    andthen (\<lambda>k. (Ret (), k\<lparr>sched := Some (new_sched junk 100000 100)\<rparr>)) (\<lambda>_.
    andthen (on_sched (add_process p0 null64 False)) (\<lambda>_.
    andthen (on_sched (add_process p1 null64 False)) (\<lambda>_.
    andthen (on_sched (add_edge p0 p1)) (\<lambda>_.
    andthen (on_sched (add_process p2 null64 False)) (\<lambda>_.
    andthen (on_sched (add_edge p1 p2)) (\<lambda>_.
    andthen (\<lambda>k. (Ret (), k\<lparr>current_process := p0\<rparr>)) (\<lambda>_. send_EOI)))))))"

definition suspend :: "bool \<Rightarrow> ('r switch, unit) action" where
  "suspend has_been_interrupted =
    andthen (\<lambda>k. (Ret (), k\<lparr>saved := (saved k)(current_process k := registers k)\<rparr>)) (\<lambda>_.
    andthen (if has_been_interrupted then send_EOI else ret ()) (\<lambda>_.
      on_sched (exec_report (\<not> has_been_interrupted))))"

definition resume :: "nat \<Rightarrow> ('r switch, unit) action" where
  "resume fuel = andthen (on_sched (next_command fuel)) (\<lambda>com k.
     (Ret (), k\<lparr>registers := saved k (to_exec com), current_process := to_exec com,
                initial_count := run_for com mod 2 ^ 32\<rparr>))"

text \<open>An exception of the scheduler is caught and stops the machine.\<close>

definition halt_on_throw :: "('s, unit) action \<Rightarrow> ('s, unit) action" where
  "halt_on_throw f = (\<lambda>s. case f s of (Throw e, s') \<Rightarrow> (Hang, s') | r \<Rightarrow> r)"

definition scheduler_main ::
  "nat option \<Rightarrow> nat \<Rightarrow> nat \<Rightarrow> nat \<Rightarrow> nat \<Rightarrow> bool \<Rightarrow> ('r switch, unit) action" where
  "scheduler_main junk p0 p1 p2 fuel interrupted = (\<lambda>k.
    andthen (case sched k of None \<Rightarrow> launch junk p0 p1 p2 | Some _ \<Rightarrow> suspend interrupted)
      (\<lambda>_. halt_on_throw (resume fuel)) k)"

text \<open>
  The life of the system: between two turns the running process changes the registers; each
  entry gives the registers found and whether an interrupt led here.
\<close>

fun switches ::
  "nat option \<Rightarrow> nat \<Rightarrow> nat \<Rightarrow> nat \<Rightarrow> nat \<Rightarrow> ('r \<times> bool) list \<Rightarrow> ('r switch, (nat \<times> 'r) list) action"
where
  "switches junk p0 p1 p2 fuel [] = ret []"
| "switches junk p0 p1 p2 fuel ((r, i) # turns) =
    andthen (\<lambda>k. scheduler_main junk p0 p1 p2 fuel i (k\<lparr>registers := r\<rparr>)) (\<lambda>_ k.
      andthen (switches junk p0 p1 p2 fuel turns) (\<lambda>out. ret ((current_process k, registers k) # out)) k)"

text \<open>The registers a process must find, from those that the entries saved.\<close>

fun expected :: "nat \<Rightarrow> (nat \<Rightarrow> 'r) \<Rightarrow> ('r \<times> bool) list \<Rightarrow> (nat \<times> 'r) list \<Rightarrow> bool" where
  "expected cur ctx [] [] = True"
| "expected cur ctx ((r, i) # turns) ((p, r') # out) =
    (let ctx = ctx(cur := r) in r' = ctx p \<and> expected p ctx turns out)"
| "expected cur ctx _ _ = False"

definition launched :: "'r switch \<Rightarrow> bool" where
  "launched k \<longleftrightarrow> (case sched k of None \<Rightarrow> False
    | Some h \<Rightarrow> waiting_for_report h \<and> current_node h = current_process k)"

lemma next_command_waits:
  "next_command fuel h = (Ret c, h') \<Longrightarrow> waiting_for_report h' \<and> current_node h' = to_exec c"
  by (auto simp: next_command_def Let_def andthen_def split: if_splits prod.splits outcome.splits list.splits)

lemma resume_Ret:
  assumes "resume fuel k = (Ret u, k')"
  shows "launched k' \<and> saved k' = saved k \<and> registers k' = saved k (current_process k') \<and> eois k' = eois k \<and>
    (\<exists>h c h'. sched k = Some h \<and> next_command fuel h = (Ret c, h') \<and> current_process k' = to_exec c \<and>
      initial_count k' = run_for c mod 2 ^ 32)"
  using assms next_command_waits
  by (fastforce simp: resume_def on_sched_def launched_def andthen_def split: option.splits prod.splits outcome.splits)

lemma suspend_Ret:
  assumes "launched k"
  shows "\<exists>h. suspend i k = (Ret (), k\<lparr>saved := (saved k)(current_process k := registers k),
      eois := eois k + (if i then 1 else 0), sched := Some h\<rparr>)"
proof -
  obtain h where h: "sched k = Some h" "waiting_for_report h" using assms by (auto simp: launched_def split: option.splits)
  obtain h' where h': "exec_report (\<not> i) h = (Ret (), h')" using h(2) by (simp add: exec_report_def Let_def)
  show ?thesis using h h'
    by (intro exI[of _ h']) (cases i; simp add: suspend_def on_sched_def send_EOI_def andthen_def ret_def)
qed

lemma scheduler_main_Ret:
  assumes "launched k" and "scheduler_main junk p0 p1 p2 fuel i k = (Ret u, k')"
  shows "launched k' \<and> saved k' = (saved k)(current_process k := registers k) \<and>
    registers k' = saved k' (current_process k') \<and> eois k' = eois k + (if i then 1 else 0)"
proof -
  obtain h where h: "suspend i k = (Ret (), k\<lparr>saved := (saved k)(current_process k := registers k),
      eois := eois k + (if i then 1 else 0), sched := Some h\<rparr>)" (is "_ = (_, ?k)")
    using suspend_Ret[OF assms(1)] by blast
  obtain g where "sched k = Some g" using assms(1) by (auto simp: launched_def split: option.splits)
  then have "halt_on_throw (resume fuel) ?k = (Ret u, k')"
    using assms(2) unfolding scheduler_main_def by (simp only: option.case andthen_Ret[where m = "suspend i" and s = k, OF h])
  then have "resume fuel ?k = (Ret u, k')" by (auto simp: halt_on_throw_def split: prod.splits outcome.splits)
  from resume_Ret[OF this] show ?thesis by simp
qed

lemma switches_expected:
  assumes "launched k" and "switches junk p0 p1 p2 fuel turns k = (Ret out, k')"
  shows "expected (current_process k) (saved k) turns out \<and> launched k'"
  using assms
proof (induction turns arbitrary: k out)
  case Nil
  then show ?case by (auto simp: ret_def)
next
  case (Cons e turns)
  obtain r i where e: "e = (r, i)" by (cases e)
  obtain k1 out1 where k1: "scheduler_main junk p0 p1 p2 fuel i (k\<lparr>registers := r\<rparr>) = (Ret (), k1)"
    and rest: "switches junk p0 p1 p2 fuel turns k1 = (Ret out1, k')"
    and out: "out = (current_process k1, registers k1) # out1"
    using Cons.prems(2) unfolding e switches.simps by (elim andthen_cases) (auto simp: ret_def)
  have "launched (k\<lparr>registers := r\<rparr>)" using Cons.prems(1) by (simp add: launched_def split: option.splits)
  from scheduler_main_Ret[OF this k1] Cons.IH[OF _ rest] show ?case
    by (simp add: e out Let_def del: fun_upd_apply)
qed

section \<open>System calls\<close>

text \<open>
  What the calls use of a file, of a directory iterator and of the root file system, over a
  state \<open>'w\<close> of devices and volumes.
\<close>

record ('w, 'x, 'h) kernel_api =
  file_read :: "'h \<Rightarrow> nat \<Rightarrow> ('w, u8 list) action"
  file_write :: "'h \<Rightarrow> u8 list \<Rightarrow> ('w, nat) action"
  dir_open :: "cstring \<Rightarrow> nat \<Rightarrow> ('x \<times> 'w, 'h option) action"
  dir_enter :: "cstring \<Rightarrow> ('x \<times> 'w, drit_status) action"
  dir_path :: "('x \<times> 'w, cstring) action"
  dir_list :: "('x \<times> 'w, dirlist) action"
  get_iterator :: "'w \<Rightarrow> 'x option"

record ('w, 'x, 'h) sys =
  umem :: memory
  kstate :: 'w
  files :: "nat \<Rightarrow> 'h option"
  dirs :: "nat \<Rightarrow> 'x option"
  open_files :: "nat list"
  open_dirs :: "nat list"

type_synonym ('w, 'x, 'h, 'a) sys_call = "(('w, 'x, 'h) sys, 'a) action"

text \<open>A size or a pointer returned as a \<^verbatim>\<open>long\<close>.\<close>

definition to_long :: "nat \<Rightarrow> int" where
  "to_long n = (if n mod 2 ^ 64 < 2 ^ 63 then int (n mod 2 ^ 64) else int (n mod 2 ^ 64) - 2 ^ 64)"

text \<open>Bytes and strings of the process, read and written by the kernel through its pointers.\<close>

fun put_bytes :: "nat \<Rightarrow> u8 list \<Rightarrow> memory \<Rightarrow> memory outcome" where
  "put_bytes p [] m = Ret m"
| "put_bytes p (c # cs) m = (case store p c m of None \<Rightarrow> Fault ''page fault'' | Some m' \<Rightarrow> put_bytes (p + 1) cs m')"

fun get_bytes :: "memory \<Rightarrow> nat \<Rightarrow> nat \<Rightarrow> u8 list outcome" where
  "get_bytes m p 0 = Ret []"
| "get_bytes m p (Suc n) = (case load m p of None \<Rightarrow> Fault ''page fault''
     | Some c \<Rightarrow> obind (get_bytes m (p + 1) n) (\<lambda>cs. Ret (c # cs)))"

function get_string :: "memory \<Rightarrow> nat \<Rightarrow> u8 list outcome" where
  "get_string m p = (case load m p of None \<Rightarrow> Fault ''page fault''
     | Some c \<Rightarrow> if c = 0 then Ret [] else obind (get_string m (p + 1)) (\<lambda>cs. Ret (c # cs)))"
  by pat_completeness auto
termination by (relation "measure (\<lambda>(m, p). 2 ^ 64 - p)") (auto dest!: load_bound)

declare get_string.simps [simp del]

definition of_mem :: "(memory \<Rightarrow> 'a outcome) \<Rightarrow> ('w, 'x, 'h, 'a) sys_call" where
  "of_mem f = (\<lambda>s. (f (umem s), s))"

definition to_mem :: "(memory \<Rightarrow> memory outcome) \<Rightarrow> ('w, 'x, 'h, unit) sys_call" where
  "to_mem f = (\<lambda>s. case f (umem s) of Ret m \<Rightarrow> (Ret (), s\<lparr>umem := m\<rparr>)
     | Throw e \<Rightarrow> (Throw e, s) | Fault e \<Rightarrow> (Fault e, s) | Hang \<Rightarrow> (Hang, s))"

text \<open>A call through a pointer to a file or to an iterator.\<close>

definition on_file :: "nat \<Rightarrow> ('h \<Rightarrow> ('w, 'a) action) \<Rightarrow> ('w, 'x, 'h, 'a) sys_call" where
  "on_file ptr f = (\<lambda>s. case files s ptr of
     None \<Rightarrow> (Fault ''dangling pointer'', s)
   | Some h \<Rightarrow> (case f h (kstate s) of (r, w) \<Rightarrow> (r, s\<lparr>kstate := w\<rparr>)))"

definition on_dir :: "nat \<Rightarrow> ('x \<times> 'w, 'a) action \<Rightarrow> ('w, 'x, 'h, 'a) sys_call" where
  "on_dir ptr f = (\<lambda>s. case dirs s ptr of
     None \<Rightarrow> (Fault ''dangling pointer'', s)
   | Some x \<Rightarrow> (case f (x, kstate s) of (r, (x', w)) \<Rightarrow>
       (r, s\<lparr>dirs := (dirs s)(ptr \<mapsto> x'), kstate := w\<rparr>)))"

definition sys_read :: "('w, 'x, 'h) kernel_api \<Rightarrow> nat \<Rightarrow> nat \<Rightarrow> nat \<Rightarrow> ('w, 'x, 'h, int) sys_call" where
  "sys_read K ptr arg1 arg2 =
    (if ptr = 0 then ret (- 1)
     else andthen (on_file ptr (\<lambda>h. file_read K h arg2)) (\<lambda>bs.
       andthen (to_mem (put_bytes arg1 bs)) (\<lambda>_. ret (to_long (length bs)))))"

definition sys_write :: "('w, 'x, 'h) kernel_api \<Rightarrow> nat \<Rightarrow> nat \<Rightarrow> nat \<Rightarrow> ('w, 'x, 'h, int) sys_call" where
  "sys_write K ptr arg1 arg2 =
    (if ptr = 0 then ret (- 1)
     else andthen (of_mem (\<lambda>m. get_bytes m arg1 arg2)) (\<lambda>bs.
       andthen (on_file ptr (\<lambda>h. file_write K h bs)) (\<lambda>n. ret (to_long n))))"

text \<open>
  \<open>fresh\<close> is the address of the handle that the iterator creates. The owner \<open>x\<close> of the handle
  is destroyed at the end of the case, behind the \<^verbatim>\<open>return\<close>.
\<close>

definition sys_open ::
  "('w, 'x, 'h) kernel_api \<Rightarrow> nat \<Rightarrow> nat \<Rightarrow> nat \<Rightarrow> nat \<Rightarrow> ('w, 'x, 'h, int) sys_call" where
  "sys_open K fresh ptr arg1 arg2 =
    (if ptr = 0 then ret (- 1)
     else andthen (of_mem (\<lambda>m. get_string m arg1)) (\<lambda>name.
       andthen (on_dir ptr (dir_open K name (arg2 mod 2 ^ 32))) (\<lambda>x. case x of
         None \<Rightarrow> ret 0
       | Some h \<Rightarrow> andthen (\<lambda>s. (Ret (), s\<lparr>files := (files s)(fresh \<mapsto> h), open_files := fresh # open_files s\<rparr>)) (\<lambda>_.
           andthen (\<lambda>s. (Ret (), s\<lparr>files := (files s)(fresh := None)\<rparr>)) (\<lambda>_. ret (to_long fresh))))))"

fun status_code :: "drit_status \<Rightarrow> int" where
  "status_code DIR_ENTRY = 0"
| "status_code FILE_ENTRY = 1"
| "status_code LINK_ENTRY = 2"
| "status_code UNDERRUN = 3"
| "status_code NP = 4"

definition sys_traverse :: "('w, 'x, 'h) kernel_api \<Rightarrow> nat \<Rightarrow> nat \<Rightarrow> ('w, 'x, 'h, int) sys_call" where
  "sys_traverse K ptr arg1 =
    (if ptr = 0 then ret (- 1)
     else andthen (of_mem (\<lambda>m. get_string m arg1)) (\<lambda>name.
       andthen (on_dir ptr (dir_enter K name)) (\<lambda>r. ret (status_code r))))"

definition sys_iterator :: "('w, 'x, 'h) kernel_api \<Rightarrow> nat \<Rightarrow> ('w, 'x, 'h, int) sys_call" where
  "sys_iterator K fresh = (\<lambda>s. case get_iterator K (kstate s) of
     None \<Rightarrow> (Ret 0, s)
   | Some x \<Rightarrow> (Ret (to_long fresh), s\<lparr>dirs := (dirs s)(fresh \<mapsto> x), open_dirs := fresh # open_dirs s\<rparr>))"

text \<open>The part of a string object before its first zero, which is all that \<^verbatim>\<open>c_str\<close> shows.\<close>

definition c_part :: "cstring \<Rightarrow> u8 list" where
  "c_part = takeWhile (\<lambda>c. c \<noteq> 0)"

text \<open>\<^verbatim>\<open>strncpy\<close> with the characters of a string object as source.\<close>

definition strncpy_object :: "nat \<Rightarrow> cstring \<Rightarrow> nat \<Rightarrow> memory \<Rightarrow> memory outcome" where
  "strncpy_object dest name count m = put_bytes dest (take count (c_part name @ [0])) m"

definition sys_path :: "('w, 'x, 'h) kernel_api \<Rightarrow> nat \<Rightarrow> nat \<Rightarrow> nat \<Rightarrow> ('w, 'x, 'h, int) sys_call" where
  "sys_path K ptr arg1 arg2 =
    (if ptr = 0 then ret (- 1)
     else andthen (on_dir ptr (dir_path K)) (\<lambda>p. andthen (to_mem (strncpy_object arg1 p arg2)) (\<lambda>_. ret 0)))"

text \<open>The loop of the listing: the place of the next name, and the bytes that remain.\<close>

fun list_loop :: "cstring list \<Rightarrow> nat \<Rightarrow> nat \<Rightarrow> memory \<Rightarrow> (nat \<times> memory) outcome" where
  "list_loop [] result remaining m = Ret (remaining, m)"
| "list_loop (name # names) result remaining m =
    (if remaining = 0 then Ret (remaining, m)
     else obind (strncpy_object result name (remaining - 1) m) (\<lambda>m.
       let k = min (length (c_part name)) (remaining - 1) in
       obind (put_bytes (result + k) [0] m) (\<lambda>m.
         list_loop names (result + k + 1) (if k = remaining - 1 then 0 else remaining - (k + 1)) m)))"

definition sys_list :: "('w, 'x, 'h) kernel_api \<Rightarrow> nat \<Rightarrow> nat \<Rightarrow> nat \<Rightarrow> ('w, 'x, 'h, int) sys_call" where
  "sys_list K ptr arg1 arg2 = (\<lambda>s.
     if ptr = 0 then (Ret (- 1), s)
     else case on_dir ptr (dir_list K) s of
       (Ret tokens, s') \<Rightarrow>
         (if arg2 = 0 then (Ret (- 1), s')
          else case list_loop (map fst tokens) arg1 arg2 (umem s') of
            Ret (remaining, m) \<Rightarrow> (Ret (to_long (sub64 arg2 remaining)), s'\<lparr>umem := m\<rparr>)
          | Throw e \<Rightarrow> (Throw e, s') | Fault e \<Rightarrow> (Fault e, s') | Hang \<Rightarrow> (Hang, s'))
     | (Throw e, s') \<Rightarrow> (if e = Empty_directory then (Ret 0, s') else (Throw e, s'))
     | (Fault e, s') \<Rightarrow> (Fault e, s')
     | (Hang, s') \<Rightarrow> (Hang, s'))"

text \<open>The dispatch; every exception that is left becomes -1.\<close>

definition syscall_main ::
  "('w, 'x, 'h) kernel_api \<Rightarrow> nat \<Rightarrow> int \<Rightarrow> nat \<Rightarrow> nat \<Rightarrow> nat \<Rightarrow> ('w, 'x, 'h, int) sys_call" where
  "syscall_main K fresh callnum ptr arg1 arg2 = (\<lambda>s.
    (case (if callnum = 0 then sys_read K ptr arg1 arg2
           else if callnum = 1 then sys_write K ptr arg1 arg2
           else if callnum = 2 then sys_open K fresh ptr arg1 arg2
           else if callnum = 3 then sys_traverse K ptr arg1
           else if callnum = 4 then sys_iterator K fresh
           else if callnum = 5 then sys_path K ptr arg1 arg2
           else if callnum = 6 then sys_list K ptr arg1 arg2
           else ret (- 1)) s of
       (Throw e, s') \<Rightarrow> (Ret (- 1), s')
     | r \<Rightarrow> r))"

section \<open>The listing fills the buffer of the caller\<close>

text \<open>What \<^verbatim>\<open>strncpy_object\<close> does is what \<^verbatim>\<open>strncpy\<close> does from a copy of the string elsewhere.\<close>

lemma strncpy_is_object:
  assumes "str_at m src t" "\<forall>i < length t + 1. \<forall>j < min count (length t + 1). src + i \<noteq> dest + j"
  shows "strncpy_loop count dest src m = put_bytes dest (take count (t @ [0])) m"
  using assms
proof (induction count arbitrary: dest src m t)
  case (Suc n)
  have keep: "str_at m' (Suc src) t'" if "t = c # t'" "store dest c m = Some m'" for c t' m'
  proof -
    have ne: "dest \<noteq> Suc src + i" if "i < length t' + 1" for i
      using Suc.prems(2)[rule_format, of "Suc i" 0] \<open>t = c # t'\<close> that by simp
    have "str_at m q u \<Longrightarrow> \<forall>i < length u + 1. dest \<noteq> q + i \<Longrightarrow> str_at m' q u" for q u
    proof (induction u arbitrary: q)
      case Nil
      then show ?case using load_store[OF \<open>store dest c m = Some m'\<close>] by simp
    next
      case (Cons a u)
      have "\<forall>i < length u + 1. dest \<noteq> Suc q + i" using Cons.prems(2) by (metis add_Suc_shift length_Cons Suc_less_eq Suc_eq_plus1)
      then show ?case using Cons.prems Cons.IH[of "Suc q"] load_store[OF \<open>store dest c m = Some m'\<close>] by force
    qed
    then show ?thesis using Suc.prems(1) \<open>t = c # t'\<close> ne by simp
  qed
  show ?case
  proof (cases t)
    case Nil
    then show ?thesis using Suc.prems(1) by (auto split: option.split)
  next
    case t: (Cons c t')
    have apart: "\<forall>i < length t' + 1. \<forall>j < min n (length t' + 1). Suc src + i \<noteq> dest + 1 + j"
    proof (intro allI impI)
      fix i j assume "i < length t' + 1" "j < min n (length t' + 1)"
      then show "Suc src + i \<noteq> dest + 1 + j"
        using Suc.prems(2)[rule_format, of "Suc i" "Suc j"] t by simp
    qed
    show ?thesis
    proof (cases "store dest c m")
      case None
      then show ?thesis using Suc.prems(1) t by simp
    next
      case (Some m')
      from Suc.IH[OF keep[OF t Some] apart] show ?thesis using Suc.prems(1) t Some by simp
    qed
  qed
qed simp

lemma put_bytes_append: "put_bytes p (a @ b) m = obind (put_bytes p a m) (put_bytes (p + length a) b)"
  by (induction a arbitrary: p m) (auto split: option.split simp: put_bytes.simps)

definition filled :: "nat \<Rightarrow> u8 list \<Rightarrow> memory \<Rightarrow> memory" where
  "filled p bs m = (\<lambda>a. if p \<le> a \<and> a < p + length bs then Some (bs ! (a - p)) else m a)"

lemma put_bytes_filled:
  assumes "mapped m p (length bs)"
  shows "put_bytes p bs m = Ret (filled p bs m)"
  using assms
proof (induction bs arbitrary: p m)
  case Nil
  then show ?case by (auto simp: filled_def fun_eq_iff)
next
  case (Cons c cs)
  have "load m p \<noteq> None" using Cons.prems mapped_Suc by auto
  then have st: "store p c m = Some (m(p \<mapsto> c))" by (simp add: store_def)
  have "mapped (m(p \<mapsto> c)) (p + 1) (length cs)"
    using Cons.prems mapped_Suc mapped_store[OF st] by auto
  from Cons.IH[OF this] have "put_bytes p (c # cs) m = Ret (filled (p + 1) cs (m(p \<mapsto> c)))"
    using st by (simp only: put_bytes.simps option.case)
  also have "filled (p + 1) cs (m(p \<mapsto> c)) = filled p (c # cs) m"
    by (auto simp: filled_def fun_eq_iff nth_Cons')
  finally show ?case .
qed

lemma filled_append: "filled (p + length a) b (filled p a m) = filled p (a @ b) m"
  by (auto simp: filled_def fun_eq_iff nth_append)

lemma mapped_filled: "mapped m p n \<Longrightarrow> mapped (filled q bs m) p n"
  by (auto simp: mapped_def list_all_iff filled_def load_def split: if_splits)

lemma mapped_part: "mapped m p n \<Longrightarrow> k + l \<le> n \<Longrightarrow> mapped m (p + k) l"
  using mappedD[of m p n "k + _"] by (intro mappedI) (simp add: add.assoc)

definition list_text :: "cstring list \<Rightarrow> u8 list" where
  "list_text names = concat (map (\<lambda>name. c_part name @ [0]) names)"

definition cut_text :: "nat \<Rightarrow> u8 list \<Rightarrow> u8 list" where
  "cut_text n t = (if length t \<le> n then t else take (n - 1) t @ [0])"

lemma one_name:
  assumes "0 < n" "k = min (length c) (n - 1)"
  shows "filled (r + k) [0] (filled r (take (n - 1) (c @ [0])) m) = filled r (take k c @ [0]) m"
proof (cases "length c < n - 1")
  case True
  then have "take (n - 1) (c @ [0]) = c @ [0]" "take k c = c" "k = length c" using assms by simp_all
  then show ?thesis by (auto simp: filled_def fun_eq_iff nth_append)
next
  case False
  then have "take (n - 1) (c @ [0]) = take k c" "length (take k c) = k" using assms by simp_all
  then show ?thesis using filled_append[of r "take k c" "[0]" m] by simp
qed

lemma cut_text_step:
  assumes "0 < n" "k = min (length c) (n - 1)"
  shows "cut_text n (c @ 0 # t) = take k c @ 0 # (if n - (k + 1) = 0 then [] else cut_text (n - (k + 1)) t)"
proof (cases "length c < n - 1")
  case True
  then have "k = length c" using assms by simp
  moreover have "n - Suc 0 - length c = Suc (n - Suc (Suc (length c)))" using True by simp
  ultimately show ?thesis using True by (auto simp: cut_text_def)
next
  case False
  then have k: "k = n - 1" using assms by simp
  then have "take (n - 1) (c @ 0 # t) = take k c" using False by simp
  moreover have "cut_text n (c @ 0 # t) = take (n - 1) (c @ 0 # t) @ [0]"
  proof (cases "length (c @ 0 # t) \<le> n")
    case True
    then have "t = []" "n = length c + 1" using False by (cases t; simp)+
    then show ?thesis by (simp add: cut_text_def)
  qed (simp add: cut_text_def)
  ultimately show ?thesis using k by simp
qed

lemma list_loop_spec:
  assumes "mapped m r n"
  shows "list_loop names r n m =
    Ret (n - length (list_text names), if n = 0 then m else filled r (cut_text n (list_text names)) m)"
  using assms
proof (induction names arbitrary: r n m)
  case Nil
  then show ?case by (auto simp: list_text_def cut_text_def filled_def fun_eq_iff)
next
  case (Cons name names)
  show ?case
  proof (cases "n = 0")
    case False
    define c where "c = c_part name"
    define k where "k = min (length c) (n - 1)"
    let ?m1 = "filled r (take (n - 1) (c @ [0])) m" and ?m2 = "filled r (take k c @ [0]) m"
    have "mapped m r (length (take (n - 1) (c @ [0])))"
      using mapped_part[OF Cons.prems, of 0] by simp
    then have s1: "strncpy_object r name (n - 1) m = Ret ?m1"
      by (simp only: strncpy_object_def c_def[symmetric] put_bytes_filled)
    have "mapped ?m1 (r + k) (length [0 :: u8])"
      using mapped_part[OF Cons.prems, of k 1] False by (intro mapped_filled) (simp add: k_def)
    then have s2: "put_bytes (r + k) [0] ?m1 = Ret ?m2"
      using one_name[OF _ k_def] False by (simp only: put_bytes_filled)
    have rem: "(if k = n - 1 then 0 else n - (k + 1)) = n - (k + 1)" using False by simp
    have len: "length (take k c @ [0 :: u8]) = k + 1" by (simp add: k_def)
    have "mapped ?m2 (r + (k + 1)) (n - (k + 1))"
      using mapped_part[OF Cons.prems, of "k + 1" "n - (k + 1)"] False by (intro mapped_filled) (simp add: k_def)
    from Cons.IH[OF this]
    have "list_loop (name # names) r n m = Ret (n - (k + 1) - length (list_text names),
        if n - (k + 1) = 0 then ?m2 else filled (r + (k + 1)) (cut_text (n - (k + 1)) (list_text names)) ?m2)"
      using False s1 s2 rem by (simp only: list_loop.simps if_False obind.simps Let_def c_def[symmetric] k_def[symmetric] add.assoc)
    moreover have "list_text (name # names) = c @ 0 # list_text names" by (simp add: list_text_def c_def)
    moreover have "n - (k + 1) - length (list_text names) = n - length (c @ 0 # list_text names)"
      by (auto simp: k_def min_def)
    moreover have "(if n - (k + 1) = 0 then ?m2 else filled (r + (k + 1)) (cut_text (n - (k + 1)) (list_text names)) ?m2) =
        filled r (cut_text n (c @ 0 # list_text names)) m"
      using filled_append[of r "take k c @ [0]" "cut_text (n - (k + 1)) (list_text names)" m] cut_text_step[OF _ k_def] False
      by (simp only: len) auto
    ultimately show ?thesis using False by (simp only: if_False)
  qed simp
qed

section \<open>The calls on the kernel's file systems\<close>

text \<open>
  The root file system as the calls see it; what a file does is left open. Every iterator
  starts at the root.
\<close>

definition vfs_api ::
  "nat \<Rightarrow> u8 list \<Rightarrow> (nat \<Rightarrow> u8 list) \<Rightarrow> kernel_fs mntentry list \<Rightarrow>
   (file_handle \<Rightarrow> nat \<Rightarrow> (world, u8 list) action) \<Rightarrow> (file_handle \<Rightarrow> u8 list \<Rightarrow> (world, nat) action) \<Rightarrow>
   (world, node levels, file_handle) kernel_api"
where
  "vfs_api fuel junk djunk mnts fr fw =
    (let D = kernel_ops fuel junk djunk in
     \<lparr>file_read = fr, file_write = fw, dir_open = rootfs_open D, dir_enter = rootfs_enter new_iterator D mnts,
      dir_path = rootfs_path D mnts, dir_list = rootfs_list D mnts, get_iterator = (\<lambda>w. Some [])\<rparr>)"

text \<open>A process walks along the strings at the addresses \<open>as\<close>; every step must reach a directory.\<close>

fun traverse_all ::
  "('w, 'x, 'h) kernel_api \<Rightarrow> nat \<Rightarrow> nat list \<Rightarrow> ('w, 'x, 'h) sys \<Rightarrow> ('w, 'x, 'h) sys option" where
  "traverse_all K ptr [] s = Some s"
| "traverse_all K ptr (a # as) s = (case syscall_main K 0 3 ptr a 0 s of
     (Ret r, s') \<Rightarrow> if r = 0 then traverse_all K ptr as s' else None
   | _ \<Rightarrow> None)"

lemma status_code_zero: "status_code r = 0 \<longleftrightarrow> r = DIR_ENTRY"
  by (cases r) simp_all

lemma traverse_step:
  assumes "ptr \<noteq> 0" "dirs s ptr = Some x" "get_string (umem s) a = Ret n"
    and "syscall_main K 0 3 ptr a 0 s = (Ret 0, s')"
  shows "\<exists>x'. dir_enter K n (x, kstate s) = (Ret DIR_ENTRY, (x', kstate s')) \<and> dirs s' ptr = Some x' \<and> umem s' = umem s"
  using assms
  by (auto simp: syscall_main_def sys_traverse_def of_mem_def on_dir_def andthen_def ret_def status_code_zero
      split: prod.splits outcome.splits)

lemma traverse_all_walks:
  assumes "ptr \<noteq> 0" "dirs s ptr = Some x" "list_all2 (\<lambda>a n. get_string (umem s) a = Ret n) as ns"
    and "traverse_all (vfs_api fuel junk djunk mnts fr fw) ptr as s = Some s'"
  shows "\<exists>x'. vfs_walk new_iterator (kernel_ops fuel junk djunk) mnts ns (x, kstate s) = (Ret (), (x', kstate s')) \<and>
    dirs s' ptr = Some x' \<and> umem s' = umem s"
  using assms(2-4)
proof (induction "as" arbitrary: ns x s)
  case Nil
  then show ?case by (simp add: ret_def)
next
  case (Cons a "as")
  let ?K = "vfs_api fuel junk djunk mnts fr fw" and ?D = "kernel_ops fuel junk djunk"
  obtain n ns' where ns: "ns = n # ns'" "get_string (umem s) a = Ret n" "list_all2 (\<lambda>a n. get_string (umem s) a = Ret n) as ns'"
    using Cons.prems(2) by (auto simp: list_all2_Cons1)
  obtain s1 where s1: "syscall_main ?K 0 3 ptr a 0 s = (Ret 0, s1)" "traverse_all ?K ptr as s1 = Some s'"
    using Cons.prems(3) by (auto split: prod.splits outcome.splits if_splits)
  from traverse_step[OF assms(1) Cons.prems(1) ns(2) s1(1)] obtain x1 where
    x1: "rootfs_enter new_iterator ?D mnts n (x, kstate s) = (Ret DIR_ENTRY, (x1, kstate s1))"
      "dirs s1 ptr = Some x1" "umem s1 = umem s"
    by (auto simp: vfs_api_def Let_def)
  show ?case using Cons.IH[OF x1(2) _ s1(2), of ns'] ns(3) x1 by (auto simp: ns(1) andthen_def)
qed

lemma get_string_clean: "get_string m p = Ret s \<Longrightarrow> 0 \<notin> set s"
proof (induction m p arbitrary: s rule: get_string.induct)
  case (1 m p)
  show ?case
  proof (cases "load m p")
    case None
    then show ?thesis using "1.prems" by (simp add: get_string.simps[of m p])
  next
    case (Some c)
    show ?thesis
    proof (cases "c = 0")
      case True
      then show ?thesis using "1.prems" Some by (simp add: get_string.simps[of m p])
    next
      case False
      then obtain r where "get_string m (p + 1) = Ret r" "s = c # r"
        using "1.prems" Some by (cases "get_string m (p + 1)") (auto simp: get_string.simps[of m p])
      then show ?thesis using "1.IH"[OF Some False] False by simp
    qed
  qed
qed

lemma vfs_path_clean:
  assumes "\<forall>n \<in> set ns. 0 \<notin> set n"
  shows "0 \<notin> set (path_text (vfs_path [] ns))"
proof -
  have "\<forall>m \<in> set (fold vfs_step ns acc). 0 \<notin> set m" if "\<forall>m \<in> set acc. 0 \<notin> set m" for acc
    using assms that
  proof (induction ns arbitrary: acc)
    case (Cons n ns)
    have "\<forall>m \<in> set (vfs_step n acc). 0 \<notin> set m"
      using Cons.prems by (auto simp: vfs_step_def path_step_def dest: in_set_butlastD)
    from Cons.IH[OF _ this] show ?case using Cons.prems(1) by simp
  qed simp
  from this[of "[]"] show ?thesis by (auto simp: vfs_path_def path_text_def)
qed

lemma c_part_clean: "0 \<notin> set s \<Longrightarrow> c_part s = s"
  unfolding c_part_def by (rule takeWhile_eq_all_conv[THEN iffD2]) auto

section \<open>Properties\<close>


text \<open>
  C33: the listing of a directory for a process. In a mapped buffer of \<open>arg2\<close> bytes the call
  leaves the names, each with a final zero, cut behind \<open>arg2 - 1\<close> bytes with a zero at the
  end when they do not fit; it writes no byte outside the buffer and returns the number of
  bytes that it has written.
\<close>

theorem syscall_list_fills_buffer:
  assumes "ptr \<noteq> 0" "dirs s ptr = Some x" "dir_list K (x, kstate s) = (Ret tokens, (x', w))"
    and "mapped (umem s) arg1 arg2" "0 < arg2" "arg2 < 2 ^ 63" "t = cut_text arg2 (list_text (map fst tokens))"
  shows "syscall_main K fresh 6 ptr arg1 arg2 s =
    (Ret (int (length t)), s\<lparr>dirs := (dirs s)(ptr \<mapsto> x'), kstate := w, umem := filled arg1 t (umem s)\<rparr>) \<and>
    length t \<le> arg2"
proof -
  let ?n = "length (list_text (map fst tokens))"
  have t: "length t = min ?n arg2" using assms(5) by (auto simp: assms(7) cut_text_def)
  have "sub64 arg2 (arg2 - ?n) = arg2 - (arg2 - ?n)" using assms(6) by (intro sub64_small) simp_all
  then have "sub64 arg2 (arg2 - ?n) = length t" by (simp add: t min_def)
  moreover have "to_long (length t) = int (length t)" using t assms(6) by (simp add: to_long_def)
  ultimately show ?thesis using assms(1-3,5) t list_loop_spec[OF assms(4), of "map fst tokens"]
    by (simp add: syscall_main_def sys_list_def on_dir_def assms(7))
qed

definition running :: "nat switch" where
  "running = \<lparr>sched = Some ((new_sched None 100000 100)\<lparr>
       nodes := (\<lambda>_. Some \<lparr>weight = 1, how_long = 5, balance = 0, weight_fixed = False, new_process = False\<rparr>),
       ready_queue := [0, 1, 0], ready_queue_iterator := [1, 0], current_node := 0, waiting_for_report := True\<rparr>),
     registers = 0, saved = (\<lambda>p. 100 + p), current_process = 0, initial_count = 5, eois = 0\<rparr>"


lemma syscall_list_fills_buffer_witness:
  "\<exists>K :: (unit, unit, unit) kernel_api. \<exists>s. fst (syscall_main K 0 6 16 100 4 s) = Ret 4 \<and>
    map (umem (snd (syscall_main K 0 6 16 100 4 s))) [99, 100, 101, 102, 103, 104] =
      [Some 9, Some 97, Some 0, Some 98, Some 0, Some 9]"
proof -
  define K :: "(unit, unit, unit) kernel_api" where
    "K = \<lparr>file_read = (\<lambda>_ _. ret []), file_write = (\<lambda>_ _. ret 0), dir_open = (\<lambda>_ _. ret None),
      dir_enter = (\<lambda>_. ret NP), dir_path = ret [], dir_list = ret [([97], False, 0), ([98, 99], False, 0)],
      get_iterator = (\<lambda>_. None)\<rparr>"
  define s :: "(unit, unit, unit) sys" where
    "s = \<lparr>umem = (\<lambda>a. if a < 200 then Some 9 else None), kstate = (), files = (\<lambda>_. None),
      dirs = (\<lambda>_. Some ()), open_files = [], open_dirs = []\<rparr>"
  have t: "cut_text 4 (list_text (map fst [([97], False, 0), ([98, 99], False, 0)])) = [97, 0, 98, 0 :: u8]"
    by (simp add: cut_text_def list_text_def c_part_def)
  have m: "mapped (umem s) 100 4" by (auto simp: s_def load_def intro!: mappedI)
  have "syscall_main K 0 6 16 100 4 s = (Ret (int (length [97, 0, 98, 0 :: u8])),
      s\<lparr>dirs := (dirs s)(16 \<mapsto> ()), kstate := (), umem := filled 100 [97, 0, 98, 0] (umem s)\<rparr>)"
    using syscall_list_fills_buffer[where K = K and s = s and ptr = 16 and x = "()" and x' = "()" and w = "()",
        OF _ _ _ m _ _ t[symmetric]] by (simp add: K_def s_def ret_def)
  then show ?thesis by (intro exI[of _ K] exI[of _ s]) (simp add: filled_def s_def nth_Cons')
qed

text \<open>
  A file opened by a system call is a dangling pointer. When an iterator opens a file, the
  call returns the address of the handle and remembers it, but has destroyed the handle: the
  first read or write through it runs on freed memory. No call ever throws.
\<close>

theorem syscall_open_dangles:
  assumes "ptr \<noteq> 0" "dirs s ptr = Some x" "get_string (umem s) arg1 = Ret name"
    and "dir_open K name (arg2 mod 2 ^ 32) (x, kstate s) = (Ret (Some h), (x', w))" "fresh \<noteq> 0"
  shows "\<exists>s'. syscall_main K fresh 2 ptr arg1 arg2 s = (Ret (to_long fresh), s') \<and> hd (open_files s') = fresh \<and>
    (\<forall>buf n. fst (syscall_main K fresh2 0 fresh buf n s') = Fault ''dangling pointer'')"
  using assms
  by (simp add: syscall_main_def sys_open_def sys_read_def of_mem_def on_dir_def on_file_def andthen_def ret_def)

lemma caught: "fst (case r of (Throw e, s') \<Rightarrow> (Ret d, s') | r \<Rightarrow> r) \<noteq> Throw e'"
  by (auto split: prod.split outcome.split)

lemma syscall_never_throws: "fst (syscall_main K fresh c ptr arg1 arg2 s) \<noteq> Throw e"
  unfolding syscall_main_def by (rule caught)

lemma syscall_open_dangles_witness:
  "\<exists>K :: (unit, unit, unit) kernel_api. \<exists>s s'. syscall_main K 64 2 16 100 1 s = (Ret 64, s') \<and> hd (open_files s') = 64 \<and>
    fst (syscall_main K 0 0 64 100 1 s') = Fault ''dangling pointer''"
proof -
  define K :: "(unit, unit, unit) kernel_api" where
    "K = \<lparr>file_read = (\<lambda>_ _. ret []), file_write = (\<lambda>_ _. ret 0), dir_open = (\<lambda>_ _. ret (Some ())),
      dir_enter = (\<lambda>_. ret NP), dir_path = ret [], dir_list = ret [], get_iterator = (\<lambda>_. None)\<rparr>"
  define s :: "(unit, unit, unit) sys" where
    "s = \<lparr>umem = (\<lambda>a. Some 0), kstate = (), files = (\<lambda>_. None), dirs = (\<lambda>_. Some ()), open_files = [], open_dirs = []\<rparr>"
  have "get_string (umem s) 100 = Ret []" by (simp add: s_def get_string.simps load_def)
  then have "\<exists>s'. syscall_main K 64 2 16 100 1 s = (Ret (to_long 64), s') \<and> hd (open_files s') = 64 \<and>
      (\<forall>buf n. fst (syscall_main K 0 0 64 buf n s') = Fault ''dangling pointer'')"
    by (intro syscall_open_dangles[of 16 s "()" 100 "[]" K 1 "()" "()" "()"]) (simp_all add: K_def s_def ret_def)
  moreover have "to_long 64 = 64" by (simp add: to_long_def)
  ultimately obtain s' where s': "syscall_main K 64 2 16 100 1 s = (Ret 64, s')" "hd (open_files s') = 64"
    "\<forall>buf n. fst (syscall_main K 0 0 64 buf n s') = Fault ''dangling pointer''" by auto
  then show ?thesis by (intro exI[of _ K] exI[of _ s] exI[of _ s'] conjI) (simp_all only:)
qed


text \<open>
  C34: a process learns where it is. After a process has entered directories one by one with
  the system call, every step succeeding, the call for the path leaves in its buffer the
  normalised path of these steps, over the mounted file systems, with a final zero when the
  buffer has room for it.
\<close>

theorem syscalls_give_path:
  assumes "ptr \<noteq> 0" "dirs s ptr = Some []" "list_all2 (\<lambda>a n. get_string (umem s) a = Ret n) as names"
    and "traverse_all (vfs_api fuel junk djunk mnts fr fw) ptr as s = Some s'"
    and "\<not> lock (volume (kstate s))" "token_copied (volume (kstate s))"
    and "t = take n (path_text (vfs_path [] names) @ [0])" "mapped (umem s) buf (length t)"
  shows "\<exists>st. syscall_main (vfs_api fuel junk djunk mnts fr fw) 0 5 ptr buf n s' = (Ret 0, st) \<and>
    umem st = filled buf t (umem s)"
proof -
  obtain x where walk: "vfs_walk new_iterator (kernel_ops fuel junk djunk) mnts names ([], kstate s) = (Ret (), (x, kstate s'))"
    and x: "dirs s' ptr = Some x" "umem s' = umem s"
    using traverse_all_walks[OF assms(1-4)] by blast
  have p: "rootfs_path (kernel_ops fuel junk djunk) mnts (x, kstate s') =
      (Ret (path_text (vfs_path [] names)), (x, kstate s'))"
    using kernel_vfs.walk_path[OF _ walk] assms(5,6) by (simp add: world_ok_def)
  have "\<forall>m \<in> set names. 0 \<notin> set m"
    using assms(3) get_string_clean by (fastforce simp: list_all2_conv_all_nth in_set_conv_nth)
  then have "strncpy_object buf (path_text (vfs_path [] names)) n (umem s') = Ret (filled buf t (umem s))"
    using assms(8) x(2) by (simp add: strncpy_object_def c_part_clean vfs_path_clean put_bytes_filled assms(7))
  then show ?thesis using assms(1) x(1) p
    by (simp add: syscall_main_def sys_path_def on_dir_def to_mem_def vfs_api_def Let_def andthen_def ret_def)
qed


lemma syscalls_give_path_witness:
  "\<exists>s s' :: (world, node levels, file_handle) sys.
    traverse_all (vfs_api 1 [0, 0] (\<lambda>_. []) kernel_mounts (\<lambda>_ _. ret []) (\<lambda>_ _. ret 0)) 16 [100] s = Some s' \<and>
    map (umem (snd (syscall_main (vfs_api 1 [0, 0] (\<lambda>_. []) kernel_mounts (\<lambda>_ _. ret []) (\<lambda>_ _. ret 0)) 0 5 16 104 9 s')))
      [104, 105, 106, 107, 108, 109] = [Some 47, Some 100, Some 101, Some 118, Some 47, Some 0]"
proof -
  define K :: "(world, node levels, file_handle) kernel_api" where
    "K = vfs_api 1 [0, 0] (\<lambda>_. []) kernel_mounts (\<lambda>_ _. ret []) (\<lambda>_ _. ret 0)"
  define s :: "(world, node levels, file_handle) sys" where
    "s = \<lparr>umem = (\<lambda>a. if a = 100 then Some 100 else if a = 101 then Some 101 else if a = 102 then Some 118 else Some 0),
      kstate = Vfs.kernel_world, files = (\<lambda>_. None), dirs = [16 \<mapsto> []], open_files = [], open_dirs = []\<rparr>"
  let ?D = "kernel_ops (Suc 0) [0, 0] (\<lambda>_. [])"
  have name: "get_string (umem s) 100 = Ret [100, 101, 118]"
    by (simp add: s_def get_string.simps load_def)
  have enter: "rootfs_enter new_iterator ?D kernel_mounts [100, 101, 118] ([], Vfs.kernel_world) =
      (Ret DIR_ENTRY, ([(Dev, 0)], Vfs.kernel_world))"
    by (simp add: rootfs_enter_def push_mount_def lookup_mnt_def kernel_mounts_def new_iterator_def)
  have "syscall_main K 0 3 16 100 0 s = (Ret 0, s\<lparr>dirs := (dirs s)(16 \<mapsto> [(Dev, 0)])\<rparr>)"
    using enter name by (simp add: syscall_main_def sys_traverse_def of_mem_def on_dir_def andthen_def ret_def K_def vfs_api_def Let_def
        s_def)
  then obtain s' where t: "traverse_all K 16 [100] s = Some s'" by simp
  have w: "\<not> lock (volume (kstate s))" "token_copied (volume (kstate s))"
    by (simp_all add: s_def Vfs.kernel_world_def dir_volume_def small_volume_def)
  have d: "dirs s 16 = Some []" by (simp add: s_def)
  have p: "take 9 (path_text (vfs_path [] [[100, 101, 118]]) @ [0]) = [47, 100, 101, 118, 47, 0 :: u8]"
    by (simp add: vfs_path_def vfs_step_def path_step_def path_text_def)
  have m: "mapped (umem s) 104 (length [47, 100, 101, 118, 47, 0 :: u8])"
    by (rule mappedI) (simp add: s_def load_def)
  obtain st where "syscall_main K 0 5 16 104 9 s' = (Ret 0, st)" "umem st = filled 104 [47, 100, 101, 118, 47, 0] (umem s)"
    using syscalls_give_path[OF _ d _ t[unfolded K_def] w p[symmetric] m] name unfolding K_def by auto
  then show ?thesis using t unfolding K_def[symmetric]
    by (intro exI[of _ s] exI[of _ s'] conjI) (simp_all add: filled_def nth_Cons')
qed

end
