(* ===== verification/Interrupts.thy ===== *)
theory Interrupts
  imports Allocator "HOL-Library.Log_Nat"
begin

text \<open>
  Descriptors and interrupt vectors: x86/descriptors.hh, with the segments that
  kernel/kernel.cpp builds, and kernel/interrupts.cc. The registers of the local and of the
  I/O interrupt controller are maps from register to value; what the controllers do with
  them is hardware.
\<close>

section \<open>Segment descriptors\<close>

record segment_descriptor =
  limit_lo :: u16
  base_lo :: u16
  base_mid :: u8
  seg_access :: u8
  limit_hi :: "4 word"
  seg_flags :: "4 word"
  base_hi :: u8

definition new_segment :: segment_descriptor where
  "new_segment = \<lparr>limit_lo = 0, base_lo = 0, base_mid = 0, seg_access = 0, limit_hi = 0, seg_flags = 0, base_hi = 0\<rparr>"

definition set_limit :: "u32 \<Rightarrow> segment_descriptor \<Rightarrow> segment_descriptor" where
  "set_limit l d = d\<lparr>limit_lo := ucast (l AND 0xffff), limit_hi := ucast (drop_bit 16 l AND 0xf)\<rparr>"

definition get_limit :: "segment_descriptor \<Rightarrow> u32" where
  "get_limit d = ucast (limit_lo d) OR push_bit 16 (ucast (limit_hi d))"

definition set_base :: "u32 \<Rightarrow> segment_descriptor \<Rightarrow> segment_descriptor" where
  "set_base b d = d\<lparr>base_lo := ucast (b AND 0xffff), base_mid := ucast (drop_bit 16 b AND 0xff),
     base_hi := ucast (drop_bit 24 b AND 0xff)\<rparr>"

definition get_base :: "segment_descriptor \<Rightarrow> u32" where
  "get_base d = ucast (base_lo d) OR push_bit 16 (ucast (base_mid d)) OR push_bit 24 (ucast (base_hi d))"

record system_segment_descriptor =
  inner :: segment_descriptor
  extended_base :: u32

definition set_system_base :: "u64 \<Rightarrow> system_segment_descriptor \<Rightarrow> system_segment_descriptor" where
  "set_system_base b d = d\<lparr>inner := (inner d)\<lparr>base_lo := ucast (b AND 0xffff),
     base_mid := ucast (drop_bit 16 b AND 0xff), base_hi := ucast (drop_bit 24 b AND 0xff)\<rparr>,
     extended_base := ucast (drop_bit 32 b)\<rparr>"

definition set_system_limit :: "u32 \<Rightarrow> system_segment_descriptor \<Rightarrow> system_segment_descriptor" where
  "set_system_limit l d = d\<lparr>inner := (inner d)\<lparr>limit_lo := ucast (l AND 0xffff),
     limit_hi := ucast (drop_bit 16 l AND 0xf)\<rparr>\<rparr>"

definition craft_code_segment :: "u32 \<Rightarrow> segment_descriptor" where
  "craft_code_segment dpl =
    (set_limit 0x0fffff (new_segment\<lparr>seg_access := ucast (0x9b OR push_bit 5 (dpl AND 3))\<rparr>))\<lparr>seg_flags := 0xa\<rparr>"

definition craft_data_segment :: "u32 \<Rightarrow> segment_descriptor" where
  "craft_data_segment dpl =
    (set_limit 0x0fffff (new_segment\<lparr>seg_access := ucast (0x93 OR push_bit 5 (dpl AND 3))\<rparr>))\<lparr>seg_flags := 0xc\<rparr>"

text \<open>The table and the task segment that \<^verbatim>\<open>kernel_early_main\<close> fills; both are static.\<close>

record gdt =
  null_entry :: segment_descriptor
  code_segment :: segment_descriptor
  data_segment :: segment_descriptor
  code_segment_ring3 :: segment_descriptor
  data_segment_ring3 :: segment_descriptor
  tss_desc :: system_segment_descriptor

record TSS =
  tss_rsp :: "u64 list"
  tss_ist :: "u64 list"
  iopb :: u16

definition new_TSS :: TSS where
  "new_TSS = \<lparr>tss_rsp = replicate 3 0, tss_ist = replicate 8 0, iopb = 104\<rparr>"

definition early_gdt :: "u64 \<Rightarrow> gdt" where
  "early_gdt tss =
    (let system = \<lparr>inner = new_segment\<lparr>seg_access := 0x89, seg_flags := 0\<rparr>, extended_base = 0\<rparr>
     in \<lparr>null_entry = new_segment, code_segment = craft_code_segment 0, data_segment = craft_data_segment 0,
       code_segment_ring3 = craft_code_segment 3, data_segment_ring3 = craft_data_segment 3,
       tss_desc = set_system_limit 0x67 (set_system_base tss system)\<rparr>)"

definition early_tss :: "u64 \<Rightarrow> TSS \<Rightarrow> TSS" where
  "early_tss istack t = (let t = t\<lparr>tss_rsp := (tss_rsp t)[0 := istack], tss_ist := (tss_ist t)[1 := istack]\<rparr>
     in t\<lparr>tss_ist := fold (\<lambda>i xs. xs[i := istack + 8096]) [2..<8] (tss_ist t)\<rparr>)"

lemma descriptor_masks: "(0xffff :: 'a::len word) = mask 16" "(0xff :: 'a word) = mask 8" "(0xf :: 'a word) = mask 4"
  by (simp_all add: mask_eq_exp_minus_1)

lemma limit_roundtrip: "get_limit (set_limit l d) = take_bit 20 l"
  unfolding get_limit_def set_limit_def descriptor_masks
  by (rule bit_word_eqI) (auto simp: bit_simps)

lemma base_roundtrip: "get_base (set_base b d) = b"
proof (rule bit_word_eqI)
  fix n
  show "bit (get_base (set_base b d)) n = bit b n" unfolding get_base_def set_base_def descriptor_masks
    by (cases "n < 16"; cases "n < 24"; cases "n < 32") (auto simp: bit_simps dest: bit_imp_le_length)
qed

lemma system_base_roundtrip:
  "ucast (get_base (inner (set_system_base b d))) OR push_bit 32 (ucast (extended_base (set_system_base b d))) = b"
  (is "?l = b")
proof (rule bit_word_eqI)
  fix n
  show "bit ?l n = bit b n"
    unfolding get_base_def set_system_base_def descriptor_masks
    by (cases "n < 16"; cases "n < 24"; cases "n < 32") (auto simp: bit_simps dest: bit_imp_le_length)
qed

section \<open>Gates and vectors\<close>

record gate_descriptor =
  offset_lo :: u16
  cs_segment_selector :: u16
  ist_value :: u8
  attributes :: u8
  offset_mid :: u16
  offset_hi :: u32

definition new_gate :: gate_descriptor where
  "new_gate = \<lparr>offset_lo = 0, cs_segment_selector = 0, ist_value = 0, attributes = 0x0e, offset_mid = 0, offset_hi = 0\<rparr>"

text \<open>The address the processor takes from a gate.\<close>

definition gate_offset :: "gate_descriptor \<Rightarrow> u64" where
  "gate_offset g = ucast (offset_lo g) OR push_bit 16 (ucast (offset_mid g)) OR push_bit 32 (ucast (offset_hi g))"

record interrupt_manager =
  idt :: "gate_descriptor list"
  isinit :: bool
  isallocd :: "u32 list"
  apic :: "nat \<Rightarrow> u32"
  ioapic :: "nat \<Rightarrow> u32"
  pic_masks :: "u8 \<times> u8"
  flags_if :: bool

text \<open>\<^verbatim>\<open>ioapic_write(off*2 + 0x13, 0x10000)\<close> for every \<open>off\<close> below the bound, with 32-bit registers.\<close>

fun mask_ioapic :: "nat \<Rightarrow> nat \<Rightarrow> (nat \<Rightarrow> u32) \<Rightarrow> (nat \<Rightarrow> u32)" where
  "mask_ioapic off 0 regs = regs"
| "mask_ioapic off (Suc n) regs = mask_ioapic (off + 1) n (regs((off * 2 + 0x13) mod 2 ^ 32 := 0x10000))"

definition disable_all :: "interrupt_manager \<Rightarrow> interrupt_manager" where
  "disable_all s =
    (let a = fold (\<lambda>off a. a(off := 0x10000)) [0x320 div 4, 0x330 div 4, 0x340 div 4, 0x350 div 4, 0x360 div 4, 0x370 div 4] (apic s)
     in s\<lparr>isinit := True, idt := replicate 256 new_gate, pic_masks := (0xff, 0xff),
       apic := a(0x2f0 div 4 := 0x10000), ioapic := mask_ioapic 0 (unat (ioapic s 1)) (ioapic s)\<rparr>)"

definition new_manager :: "interrupt_manager \<Rightarrow> interrupt_manager" where
  "new_manager s = (if isinit s then s else disable_all s)"

definition register_gate :: "nat \<Rightarrow> u8 \<Rightarrow> u64 \<Rightarrow> u8 \<Rightarrow> interrupt_manager \<Rightarrow> interrupt_manager" where
  "register_gate vector ist isr pl s =
    (let g = idt s ! vector;
         g = g\<lparr>attributes := attributes g OR (0x80 OR push_bit 5 pl)\<rparr>;
         g = g\<lparr>offset_lo := ucast (isr AND 0xffff), cs_segment_selector := 8,
               offset_mid := ucast (drop_bit 16 isr AND 0xffff), ist_value := ist,
               offset_hi := ucast (drop_bit 32 isr)\<rparr>;
         s = s\<lparr>idt := (idt s)[vector := g]\<rparr>
     in if vector \<ge> 32
        then s\<lparr>isallocd := (isallocd s)[(vector - 32) div 32 :=
          isallocd s ! ((vector - 32) div 32) OR push_bit ((vector - 32) mod 32) 1]\<rparr>
        else s)"

definition enable :: "interrupt_manager \<Rightarrow> interrupt_manager" where
  "enable s = s\<lparr>flags_if := True, apic := (apic s)(0x2f0 div 4 := apic s (0x2f0 div 4) OR 0x1ff)\<rparr>"

definition disable :: "interrupt_manager \<Rightarrow> interrupt_manager" where
  "disable s = s\<lparr>flags_if := False\<rparr>"

definition send_EOI :: "interrupt_manager \<Rightarrow> interrupt_manager" where
  "send_EOI s = s\<lparr>apic := (apic s)(0xb0 div 4 := 0)\<rparr>"

text \<open>The search: the words in order, in each the multiples of \<open>number\<close> in order.\<close>

definition block_places :: "nat \<Rightarrow> (nat \<times> nat) list" where
  "block_places number = concat (map (\<lambda>i. map (\<lambda>m. (i, m * number)) [0..<32 div number]) [0..<7])"

definition seems_free :: "nat \<Rightarrow> interrupt_manager \<Rightarrow> nat \<times> nat \<Rightarrow> bool" where
  "seems_free number s p \<longleftrightarrow> drop_bit (snd p) (isallocd s ! fst p) AND of_nat (2 * number - 1) = 0"

fun register_block :: "nat \<Rightarrow> nat \<Rightarrow> nat \<Rightarrow> u64 list \<Rightarrow> interrupt_manager \<Rightarrow> interrupt_manager" where
  "register_block i j k [] s = s"
| "register_block i j k (isr # irq) s =
    (let s = register_gate (0x20 + 0x20 * i + j + k) 1 isr 0 s;
         s = s\<lparr>isallocd := (isallocd s)[i := isallocd s ! i OR push_bit (j + k) 1]\<rparr>
     in register_block i j (k + 1) irq s)"

text \<open>The list holds the \<open>number\<close> handlers. 0 stands for failure.\<close>

definition register_interrupt_block :: "nat \<Rightarrow> u64 list \<Rightarrow> interrupt_manager \<Rightarrow> nat \<times> interrupt_manager" where
  "register_interrupt_block number irq s =
    (if number \<notin> {1, 2, 4, 8, 16, 32} then (0, s)
     else case List.find (seems_free number s) (block_places number) of
       None \<Rightarrow> (0, s)
     | Some (i, j) \<Rightarrow> (0x20 + 0x20 * i + j, register_block i j 0 (take number irq) s))"

text \<open>The part of \<^verbatim>\<open>kernel_early_main\<close> that sets up the interrupts.\<close>

datatype isr = DE_handler | UD_handler | PF_handler | NP_handler | GP_handler | DF_handler
  | saveregs_hook | syscall_hook

definition exception_gates :: "(isr \<Rightarrow> u64) \<Rightarrow> interrupt_manager \<Rightarrow> interrupt_manager" where
  "exception_gates address s = fold (\<lambda>(vector, i). register_gate vector 1 (address i) 0)
    [(0, DE_handler), (0x6, UD_handler), (0xe, PF_handler), (0xb, NP_handler), (0xd, GP_handler), (0x8, DF_handler)] s"

definition early_gates :: "(isr \<Rightarrow> u64) \<Rightarrow> interrupt_manager \<Rightarrow> interrupt_manager" where
  "early_gates address s = register_gate 33 3 (address syscall_hook) 3
    (register_gate 32 2 (address saveregs_hook) 3 (exception_gates address s))"

definition early_interrupts :: "(isr \<Rightarrow> u64) \<Rightarrow> interrupt_manager \<Rightarrow> nat \<times> interrupt_manager" where
  "early_interrupts address s =
    (case register_interrupt_block 1 [address saveregs_hook] (early_gates address (new_manager s)) of
      (base_vector, s) \<Rightarrow>
        (base_vector, enable (s\<lparr>apic := (apic s)(0x320 div 4 := 0x10000 OR of_nat base_vector)\<rparr>)))"

section \<open>Vectors in use\<close>

definition vector_free :: "interrupt_manager \<Rightarrow> nat \<Rightarrow> bool" where
  "vector_free s v \<longleftrightarrow> 32 \<le> v \<and> v < 256 \<and> \<not> bit (isallocd s ! ((v - 32) div 32)) ((v - 32) mod 32)"

definition manager_ok :: "interrupt_manager \<Rightarrow> bool" where
  "manager_ok s \<longleftrightarrow> length (idt s) = 256 \<and> length (isallocd s) = 7"

lemma register_gate_ok:
  assumes "manager_ok s" "v < 256"
  shows "manager_ok (register_gate v ist isr pl s)"
    "gate_offset (idt (register_gate v ist isr pl s) ! v) = isr"
    "u \<noteq> v \<Longrightarrow> idt (register_gate v ist isr pl s) ! u = idt s ! u"
    "vector_free (register_gate v ist isr pl s) u \<longleftrightarrow> vector_free s u \<and> u \<noteq> v"
proof -
  show "manager_ok (register_gate v ist isr pl s)"
    using assms by (simp add: manager_ok_def register_gate_def Let_def)
  have "gate_offset (g\<lparr>offset_lo := ucast (isr AND 0xffff), cs_segment_selector := 8,
      offset_mid := ucast (drop_bit 16 isr AND 0xffff), ist_value := ist, offset_hi := ucast (drop_bit 32 isr)\<rparr>) = isr" (is "?l = _") for g
  proof (rule bit_word_eqI)
    fix n
    show "bit ?l n = bit isr n" unfolding gate_offset_def descriptor_masks
      by (cases "n < 16"; cases "n < 32") (auto simp: bit_simps dest: bit_imp_le_length)
  qed
  then show "gate_offset (idt (register_gate v ist isr pl s) ! v) = isr"
    using assms by (simp add: manager_ok_def register_gate_def Let_def)
  show "u \<noteq> v \<Longrightarrow> idt (register_gate v ist isr pl s) ! u = idt s ! u"
    by (simp add: register_gate_def Let_def)
  show "vector_free (register_gate v ist isr pl s) u \<longleftrightarrow> vector_free s u \<and> u \<noteq> v"
  proof (cases "32 \<le> v \<and> 32 \<le> u \<and> u < 256 \<and> (u - 32) div 32 = (v - 32) div 32")
    case True
    have "(v - 32) div 32 < 7" using assms(2) True by (simp add: div_less_iff_less_mult)
    moreover have "(u - 32) mod 32 = (v - 32) mod 32 \<longleftrightarrow> u = v"
      using True div_mod_split[of "u - 32" "v - 32" 32] by auto
    ultimately show ?thesis using True assms(1)
      by (auto simp: vector_free_def register_gate_def manager_ok_def Let_def bit_simps)
  next
    case False
    then show ?thesis using assms by (auto simp: vector_free_def register_gate_def manager_ok_def Let_def)
  qed
qed


lemma again_ok:
  assumes "manager_ok s" "i < 7" "b < 32"
  shows "manager_ok (s\<lparr>isallocd := (isallocd s)[i := isallocd s ! i OR push_bit b 1]\<rparr>)"
    "vector_free (s\<lparr>isallocd := (isallocd s)[i := isallocd s ! i OR push_bit b 1]\<rparr>) u \<longleftrightarrow>
      vector_free s u \<and> u \<noteq> 32 + 32 * i + b"
proof -
  show "manager_ok (s\<lparr>isallocd := (isallocd s)[i := isallocd s ! i OR push_bit b 1]\<rparr>)"
    using assms by (simp add: manager_ok_def)
  have "(u - 32) div 32 = i \<and> (u - 32) mod 32 = b \<longleftrightarrow> u = 32 + 32 * i + b" if "32 \<le> u"
    using div_mod_split[of "u - 32" "32 * i + b" 32] that assms(3) by auto
  then show "vector_free (s\<lparr>isallocd := (isallocd s)[i := isallocd s ! i OR push_bit b 1]\<rparr>) u \<longleftrightarrow>
      vector_free s u \<and> u \<noteq> 32 + 32 * i + b"
    using assms by (auto simp: vector_free_def manager_ok_def bit_simps nth_list_update)
qed

text \<open>What the loop over the handlers does from vector \<open>v\<close> on.\<close>

definition block_done :: "nat \<Rightarrow> u64 list \<Rightarrow> interrupt_manager \<Rightarrow> interrupt_manager \<Rightarrow> bool" where
  "block_done v irq s s' \<longleftrightarrow> manager_ok s' \<and>
    (\<forall>u. vector_free s' u \<longleftrightarrow> vector_free s u \<and> \<not> (v \<le> u \<and> u < v + length irq)) \<and>
    (\<forall>m < length irq. gate_offset (idt s' ! (v + m)) = irq ! m) \<and>
    (\<forall>u. u < v \<or> v + length irq \<le> u \<longrightarrow> idt s' ! u = idt s ! u)"

lemma block_done_step:
  assumes v: "v < 256" and s: "manager_ok s1" "\<And>u. vector_free s1 u \<longleftrightarrow> vector_free s u \<and> u \<noteq> v"
    and gate: "gate_offset (idt s1 ! v) = isr" "\<And>u. u \<noteq> v \<Longrightarrow> idt s1 ! u = idt s ! u"
    and rest: "block_done (v + 1) irq s1 s'"
  shows "block_done v (isr # irq) s s'"
proof -
  have "gate_offset (idt s' ! (v + m)) = (isr # irq) ! m" if "m < length (isr # irq)" for m
    using rest gate(1) that by (cases m) (auto simp: block_done_def)
  moreover have "idt s' ! u = idt s ! u" if "u < v \<or> v + length (isr # irq) \<le> u" for u
    using rest gate(2)[of u] that by (auto simp: block_done_def)
  moreover have "vector_free s' u \<longleftrightarrow> vector_free s u \<and> \<not> (v \<le> u \<and> u < v + length (isr # irq))" for u
    using rest s(2) by (auto simp: block_done_def)
  ultimately show ?thesis using rest by (auto simp: block_done_def)
qed

lemma register_block_spec:
  assumes "manager_ok s" "i < 7" "j + k + length irq \<le> 32"
  shows "block_done (32 + 32 * i + j + k) irq s (register_block i j k irq s)"
  using assms
proof (induction irq arbitrary: k s)
  case Nil
  then show ?case by (simp add: block_done_def)
next
  case (Cons isr irq)
  let ?v = "32 + 32 * i + j + k"
  define s1 where "s1 = register_gate ?v 1 isr 0 s"
  define s2 where "s2 = s1\<lparr>isallocd := (isallocd s1)[i := isallocd s1 ! i OR push_bit (j + k) 1]\<rparr>"
  have v: "?v < 256" and jk: "j + k < 32" and len: "j + (k + 1) + length irq \<le> 32"
    using Cons.prems(2,3) by simp_all
  note g = register_gate_ok[OF Cons.prems(1) v, where ist = 1 and isr = isr and pl = 0, folded s1_def]
  note a = again_ok[OF g(1) Cons.prems(2) jk, folded s2_def]
  have eq: "register_block i j k (isr # irq) s = register_block i j (k + 1) irq s2"
    by (simp add: s1_def s2_def Let_def)
  have idt2: "idt s2 = idt s1" by (simp add: s2_def)
  have "vector_free s2 u \<longleftrightarrow> vector_free s u \<and> u \<noteq> ?v" for u
    using a(2)[of u] g(4)[of u] by (auto simp: add.assoc)
  from block_done_step[OF v a(1) this g(2,3)[folded idt2]]
  show ?case unfolding eq using Cons.IH[OF a(1) Cons.prems(2) len] by (simp add: add.assoc)
qed

lemma block_places_mem:
  assumes "(i, j) \<in> set (block_places number)" "number \<in> {1, 2, 4, 8, 16, 32}"
  shows "i < 7" "j + number \<le> 32" "number dvd j"
  using assms by (auto simp: block_places_def)

lemma block_places_all:
  "i < 7 \<Longrightarrow> m * number < 32 \<Longrightarrow> number \<in> {1, 2, 4, 8, 16, 32} \<Longrightarrow> (i, m * number) \<in> set (block_places number)"
  by (auto simp: block_places_def intro!: bexI[of _ i])

text \<open>The mask \<open>2 * number - 1\<close> is the right one for blocks of one and of two vectors.\<close>

lemma seems_free_small:
  assumes "number \<in> {1, 2}" "manager_ok s" "i < 7" "j + number \<le> 32"
  shows "seems_free number s (i, j) \<longleftrightarrow> (\<forall>k < number. vector_free s (32 + 32 * i + j + k))"
proof -
  have free: "vector_free s (32 + 32 * i + j + k) \<longleftrightarrow> \<not> bit (isallocd s ! i) (j + k)" if "k < number" for k
  proof -
    have jk: "j + k < 32" using assms(4) that by linarith
    then have "(32 + 32 * i + j + k - 32) div 32 = i" "(32 + 32 * i + j + k - 32) mod 32 = j + k" by simp_all
    moreover have "32 + 32 * i + j + k < 256" using assms(3) jk by linarith
    ultimately show ?thesis by (simp add: vector_free_def)
  qed
  have m: "of_nat (2 * number - 1) = (mask number :: u32)" using assms(1) by (auto simp: mask_eq_exp_minus_1)
  have "seems_free number s (i, j) \<longleftrightarrow> (\<forall>k < number. \<not> bit (isallocd s ! i) (j + k))"
    unfolding seems_free_def fst_conv snd_conv m
    using assms(4) by (auto simp: bit_eq_iff bit_simps) (meson add_leD2 less_le_trans)
  then show ?thesis using free by auto
qed

section \<open>Blocks of vectors\<close>

lemma find_SomeD: "List.find P xs = Some x \<Longrightarrow> x \<in> set xs \<and> P x"
  by (auto simp: find_Some_iff)

lemma register_interrupt_block_grants:
  assumes "manager_ok s" "number \<in> {1, 2}" "length irq = number"
    "register_interrupt_block number irq s = (v, s')"
  shows "v = 0 \<and> s' = s \<or>
    32 \<le> v \<and> v + number \<le> 256 \<and> (\<forall>k < number. vector_free s (v + k)) \<and> block_done v irq s s'"
proof (cases "List.find (seems_free number s) (block_places number)")
  case None
  then show ?thesis using assms(2,4) by (auto simp: register_interrupt_block_def)
next
  case (Some p)
  obtain i j where p: "p = (i, j)" by fastforce
  have n: "number \<in> {1, 2, 4, 8, 16, 32}" using assms(2) by auto
  have "(i, j) \<in> set (block_places number)" and free: "seems_free number s (i, j)"
    using find_SomeD[OF Some] p by auto
  note at = block_places_mem[OF this(1) n]
  have v: "v = 32 + 32 * i + j" "s' = register_block i j 0 irq s"
    using assms(3,4) n Some p by (auto simp: register_interrupt_block_def split: if_splits)
  have "block_done v irq s s'"
    using register_block_spec[OF assms(1) at(1), of j 0 irq] at(2) assms(3) by (simp add: v)
  moreover have "\<forall>k < number. vector_free s (v + k)"
    using free seems_free_small[OF assms(2,1) at(1,2)] by (simp add: v)
  ultimately show ?thesis using at(1,2) by (simp add: v)
qed

text \<open>A full table is the only reason to refuse a single vector.\<close>

lemma register_interrupt_block_refuses:
  assumes "manager_ok s" "register_interrupt_block 1 irq s = (0, s')"
  shows "\<not> vector_free s v"
proof
  assume free: "vector_free s v"
  define i j where "i = (v - 32) div 32" and "j = (v - 32) mod 32"
  have ij: "i < 7" "j < 32" "32 + 32 * i + j = v"
    using free by (auto simp: vector_free_def i_def j_def div_less_iff_less_mult)
  then have "seems_free 1 s (i, j)" using seems_free_small[of 1 s i j] assms(1) free by simp
  moreover have "(i, j) \<in> set (block_places 1)" using block_places_all[of i j 1] ij by simp
  ultimately have "List.find (seems_free 1 s) (block_places 1) \<noteq> None" by (auto simp: find_None_iff)
  then show False using assms(2) by (auto simp: register_interrupt_block_def)
qed

datatype vector_request = One u64 | Two u64 u64

fun handlers :: "vector_request \<Rightarrow> u64 list" where
  "handlers (One f) = [f]"
| "handlers (Two f g) = [f, g]"

definition grant_vectors :: "vector_request \<Rightarrow> interrupt_manager \<Rightarrow> nat option \<times> interrupt_manager" where
  "grant_vectors q s = (case register_interrupt_block (length (handlers q)) (handlers q) s of
     (v, s') \<Rightarrow> (if v = 0 then None else Some v, s'))"

definition granted_vectors :: "vector_request \<Rightarrow> nat \<Rightarrow> nat set" where
  "granted_vectors q v = {v..<v + length (handlers q)}"

lemma grant_vectors_cases:
  assumes "manager_ok s" "grant_vectors q s = (x, s')"
  shows "case x of None \<Rightarrow> s' = s
    | Some v \<Rightarrow> (\<forall>u \<in> granted_vectors q v. vector_free s u) \<and> block_done v (handlers q) s s'"
proof -
  have "length (handlers q) \<in> {1, 2}" by (cases q) auto
  moreover obtain v s1 where r: "register_interrupt_block (length (handlers q)) (handlers q) s = (v, s1)" by fastforce
  ultimately have "v = 0 \<and> s1 = s \<or> 32 \<le> v \<and> (\<forall>k < length (handlers q). vector_free s (v + k)) \<and>
      block_done v (handlers q) s s1"
    using register_interrupt_block_grants[OF assms(1) _ refl] by blast
  moreover have "u = v + (u - v) \<and> u - v < length (handlers q)" if "u \<in> granted_vectors q v" for u
    using that by (auto simp: granted_vectors_def)
  moreover have "x = (if v = 0 then None else Some v)" "s' = s1"
    using assms(2) r by (auto simp: grant_vectors_def)
  ultimately show ?thesis by (cases "v = 0"; simp) metis+
qed

interpretation vectors: allocator manager_ok vector_free grant_vectors granted_vectors
proof
  show "manager_ok s' \<and> (\<forall>n \<in> granted_vectors q v. vector_free s n) \<and>
      (\<forall>n. vector_free s' n \<longleftrightarrow> vector_free s n \<and> n \<notin> granted_vectors q v)"
    if "manager_ok s" "grant_vectors q s = (Some v, s')" for s q v s'
    using grant_vectors_cases[OF that] by (auto simp: block_done_def granted_vectors_def)
  show "manager_ok s' \<and> (\<forall>n. vector_free s' n \<longleftrightarrow> vector_free s n)"
    if "manager_ok s" "grant_vectors q s = (None, s')" for s q s'
    using grant_vectors_cases[OF that] that(1) by simp
qed

lemma serve_vectors_keeps:
  assumes "manager_ok s" "serve grant_vectors qs s = (gs, s')" "\<not> vector_free s u"
  shows "idt s' ! u = idt s ! u"
  using assms
proof (induction qs arbitrary: s gs)
  case (Cons q qs)
  obtain x s1 where st: "grant_vectors q s = (x, s1)" by fastforce
  obtain gs1 where run: "serve grant_vectors qs s1 = (gs1, s')"
    using Cons.prems(2) st by (auto split: option.splits prod.splits)
  have s1: "manager_ok s1" "\<not> vector_free s1 u"
    using vectors.serve_step[OF Cons.prems(1), of q] st Cons.prems(3) by auto
  have "idt s1 ! u = idt s ! u"
    using grant_vectors_cases[OF Cons.prems(1) st] Cons.prems(3)
    by (cases x) (simp, auto simp: block_done_def granted_vectors_def, meson atLeastLessThan_iff not_le)
  then show ?case using Cons.IH[OF s1(1) run s1(2)] by simp
qed simp

lemma serve_vectors_gates:
  assumes "manager_ok s" "serve grant_vectors qs s = (gs, s')" "(q, v) \<in> set gs" "k < length (handlers q)"
  shows "gate_offset (idt s' ! (v + k)) = handlers q ! k"
  using assms
proof (induction qs arbitrary: s gs)
  case (Cons r qs)
  obtain x s1 where st: "grant_vectors r s = (x, s1)" by fastforce
  obtain gs1 where run: "serve grant_vectors qs s1 = (gs1, s')"
    and gs: "gs = (case x of None \<Rightarrow> gs1 | Some w \<Rightarrow> (r, w) # gs1)"
    using Cons.prems(2) st by (auto split: option.splits prod.splits)
  have ok: "manager_ok s1" using vectors.serve_step[OF Cons.prems(1), of r] st by auto
  show ?case
  proof (cases "(q, v) \<in> set gs1")
    case True
    then show ?thesis using Cons.IH[OF ok run] Cons.prems(4) by blast
  next
    case False
    then have "q = r" "x = Some v" using gs Cons.prems(3) by (auto split: option.splits)
    then have "block_done v (handlers q) s s1" using grant_vectors_cases[OF Cons.prems(1) st] by simp
    then show ?thesis using serve_vectors_keeps[OF ok run, of "v + k"] Cons.prems(4)
      by (simp add: block_done_def)
  qed
qed simp

text \<open>
  C35: requests for blocks of one and of two interrupt vectors are granted vectors that were
  free, no vector twice; exactly the granted ones are taken, and after all requests the gate
  of every granted vector leads to the handler it was requested for.
\<close>

theorem interrupt_blocks_apart:
  assumes "manager_ok s" "serve grant_vectors qs s = (gs, s')"
  shows "sorted_wrt (\<lambda>(q, v) (q', v'). granted_vectors q v \<inter> granted_vectors q' v' = {}) gs \<and>
    (\<forall>u. vector_free s' u \<longleftrightarrow> vector_free s u \<and> (\<forall>(q, v) \<in> set gs. u \<notin> granted_vectors q v)) \<and>
    (\<forall>(q, v) \<in> set gs. (\<forall>u \<in> granted_vectors q v. vector_free s u) \<and>
      (\<forall>k < length (handlers q). gate_offset (idt s' ! (v + k)) = handlers q ! k))"
  using vectors.serve_spec[OF assms] serve_vectors_gates[OF assms] by auto

definition idle_manager :: interrupt_manager where
  "idle_manager = disable_all \<lparr>idt = [], isinit = False, isallocd = replicate 7 0, apic = (\<lambda>_. 0),
     ioapic = (\<lambda>_. 0), pic_masks = (0, 0), flags_if = False\<rparr>"

lemma idle_manager_free: "manager_ok idle_manager" "vector_free idle_manager u \<longleftrightarrow> 32 \<le> u \<and> u < 256"
  by (auto simp: idle_manager_def disable_all_def manager_ok_def vector_free_def Let_def div_less_iff_less_mult)

lemma first_place_free:
  assumes "seems_free number s (0, 0)" "number \<in> {1, 2, 4, 8, 16, 32}"
  shows "register_interrupt_block number irq s = (32, register_block 0 0 0 (take number irq) s)"
proof -
  have "[0..<32 div number] = 0 # [1..<32 div number]" using assms(2) by (auto simp: upt_conv_Cons)
  then have "block_places number = (0, 0) # tl (block_places number)"
    by (simp add: block_places_def upt_conv_Cons)
  then have "List.find (seems_free number s) (block_places number) = Some (0, 0)"
    using assms(1) by (metis List.find.simps(2))
  then show ?thesis using assms(2) by (simp add: register_interrupt_block_def)
qed

lemma serve_two:
  "register_interrupt_block 2 [f, g] s = (32, t) \<Longrightarrow> serve grant_vectors [Two f g] s = ([(Two f g, 32)], t)"
  by (simp add: grant_vectors_def numeral_2_eq_2)

theorem interrupt_blocks_apart_witness:
  "\<exists>s'. serve grant_vectors [Two 10 20] idle_manager = ([(Two 10 20, 32)], s') \<and>
     (\<forall>u. vector_free s' u \<longleftrightarrow> 34 \<le> u \<and> u < 256)"
proof -
  have "isallocd idle_manager ! 0 = 0" by (simp add: idle_manager_def disable_all_def Let_def)
  then have "seems_free 2 idle_manager (0, 0)" by (simp only: seems_free_def) simp
  then have "register_interrupt_block 2 [10, 20] idle_manager =
      (32, register_block 0 0 0 (take 2 [10, 20]) idle_manager)"
    by (rule first_place_free) simp
  from serve_two[OF this] obtain s' where r: "serve grant_vectors [Two 10 20] idle_manager = ([(Two 10 20, 32)], s')"
    by blast
  show ?thesis
    using interrupt_blocks_apart[OF idle_manager_free(1) r] r
    by (intro exI[of _ s']) (auto simp: idle_manager_free(2) granted_vectors_def)
qed

text \<open>
  From four vectors on the mask covers too few places: with a free word but for its fourth
  vector, a block of four is placed over that vector.
\<close>

lemma block_of_four_overlaps:
  assumes "manager_ok s" "isallocd s ! 0 = 8" "length irq = 4"
  shows "\<not> vector_free s 35 \<and> fst (register_interrupt_block 4 irq s) = 32 \<and>
    gate_offset (idt (snd (register_interrupt_block 4 irq s)) ! 35) = irq ! 3"
proof -
  have "seems_free 4 s (0, 0)" by (simp add: seems_free_def assms(2))
  then have r: "register_interrupt_block 4 irq s = (32, register_block 0 0 0 irq s)"
    using first_place_free[of 4 s irq] assms(3) by simp
  have "block_done 32 irq s (register_block 0 0 0 irq s)"
    using register_block_spec[OF assms(1), of 0 0 0 irq] assms(3) by simp
  then have "\<forall>m < 4. gate_offset (idt (register_block 0 0 0 irq s) ! (32 + m)) = irq ! m"
    using assms(3) by (simp add: block_done_def)
  from this[rule_format, of 3] have "gate_offset (idt (register_block 0 0 0 irq s) ! 35) = irq ! 3" by simp
  then show ?thesis using r assms(2) by (simp add: vector_free_def)
qed

text \<open>
  After \<^verbatim>\<open>kernel_early_main\<close> the timer interrupt has vector 34, the vectors from 35 on
  are left, and the gates of the scheduler and of the system calls lead to their routines.
\<close>

lemma third_place_free:
  assumes "\<not> seems_free 1 s (0, 0)" "\<not> seems_free 1 s (0, 1)" "seems_free 1 s (0, 2)"
  shows "register_interrupt_block 1 [f] s = (34, register_block 0 2 0 [f] s)"
proof -
  have "block_places 1 = (0, 0) # (0, 1) # (0, 2) # drop 3 (block_places 1)"
    by (simp add: block_places_def upt_conv_Cons)
  then have "List.find (seems_free 1 s) (block_places 1) = Some (0, 2)"
    using assms by (metis List.find.simps(2))
  then show ?thesis by (simp add: register_interrupt_block_def)
qed

lemma low_gate:
  assumes "v < 32" "manager_ok s"
  shows "isallocd (register_gate v ist isr pl s) = isallocd s" "manager_ok (register_gate v ist isr pl s)"
  using assms by (simp_all add: register_gate_def manager_ok_def Let_def)

lemma exception_gates_words:
  assumes "manager_ok s"
  shows "isallocd (exception_gates address s) = isallocd s" "manager_ok (exception_gates address s)"
  using assms by (simp_all add: exception_gates_def low_gate)

lemma vector_free_words: "isallocd s' = isallocd s \<Longrightarrow> vector_free s' u \<longleftrightarrow> vector_free s u"
  by (simp add: vector_free_def)

lemma early_gates_words:
  assumes "manager_ok s" "isallocd s = replicate 7 0"
  shows "manager_ok (early_gates address s)" "isallocd (early_gates address s) ! 0 = 3"
    "vector_free (early_gates address s) u \<longleftrightarrow> 34 \<le> u \<and> u < 256"
proof -
  note e = exception_gates_words[OF assms(1), of address]
  have fresh: "vector_free (exception_gates address s) u \<longleftrightarrow> 32 \<le> u \<and> u < 256" for u
    by (auto simp: vector_free_def e assms(2) div_less_iff_less_mult)
  note g = register_gate_ok[OF e(2), where v = 32 and ist = 2 and isr = "address saveregs_hook" and pl = 3, simplified]
  note g2 = register_gate_ok[OF g(1), where v = 33 and ist = 3 and isr = "address syscall_hook" and pl = 3, simplified]
  show "manager_ok (early_gates address s)" using g2(1) by (simp add: early_gates_def)
  show "vector_free (early_gates address s) u \<longleftrightarrow> 34 \<le> u \<and> u < 256"
    by (auto simp: early_gates_def g2(4) g(4) fresh)
  show "isallocd (early_gates address s) ! 0 = 3"
    by (simp add: early_gates_def register_gate_def[of 33] register_gate_def[of 32] Let_def e assms(2))
qed

lemma early_interrupts_vectors:
  assumes "\<not> isinit s" "isallocd s = replicate 7 0"
  shows "fst (early_interrupts address s) = 34"
    "vector_free (snd (early_interrupts address s)) u \<longleftrightarrow> 35 \<le> u \<and> u < 256"
    "gate_offset (idt (snd (early_interrupts address s)) ! 34) = address saveregs_hook"
proof -
  define t where "t = early_gates address (new_manager s)"
  have "manager_ok (new_manager s)" "isallocd (new_manager s) = replicate 7 0"
    using assms by (simp_all add: new_manager_def disable_all_def manager_ok_def Let_def)
  note t = early_gates_words[OF this, of address, folded t_def]
  define t1 where "t1 = register_block 0 2 0 [address saveregs_hook] t"
  have "seems_free 1 t (0, 2)" "\<not> seems_free 1 t (0, 0)" "\<not> seems_free 1 t (0, 1)"
    by (simp_all add: seems_free_def t(2))
  from third_place_free[OF this(2,3,1), of "address saveregs_hook"]
  have "early_interrupts address s = (34, enable (t1\<lparr>apic := (apic t1)(0x320 div 4 := 0x10000 OR of_nat 34)\<rparr>))"
    unfolding early_interrupts_def t_def[symmetric] t1_def by simp
  then have e: "fst (early_interrupts address s) = 34" "isallocd (snd (early_interrupts address s)) = isallocd t1"
    "idt (snd (early_interrupts address s)) = idt t1" by (simp_all add: enable_def)
  have d: "block_done 34 [address saveregs_hook] t t1"
    unfolding t1_def using register_block_spec[OF t(1), of 0 2 0 "[address saveregs_hook]"] by simp
  show "fst (early_interrupts address s) = 34" by (rule e)
  show "vector_free (snd (early_interrupts address s)) u \<longleftrightarrow> 35 \<le> u \<and> u < 256"
    using d unfolding vector_free_words[OF e(2)] by (auto simp: block_done_def t(3))
  show "gate_offset (idt (snd (early_interrupts address s)) ! 34) = address saveregs_hook"
    using d unfolding e by (simp add: block_done_def)
qed

end
