(* ===== verification/Ports.thy ===== *)
theory Ports
  imports FileSys
begin

text \<open>
  The drivers that talk through input and output ports: the PCI configuration space
  (drivers/pci/configspace.cc, kernel/pci.cc) and the serial line (drivers/serial/serial.cc).
  What is behind the ports is not in the code: the four port instructions are an argument, on
  a state of the devices of any type.
\<close>

record 'd bus =
  outl :: "u16 \<Rightarrow> u32 \<Rightarrow> 'd \<Rightarrow> 'd"
  inl :: "u16 \<Rightarrow> 'd \<Rightarrow> u32 \<times> 'd"
  outb :: "u16 \<Rightarrow> u8 \<Rightarrow> 'd \<Rightarrow> 'd"
  inb :: "u16 \<Rightarrow> 'd \<Rightarrow> u8 \<times> 'd"

section \<open>Configuration space\<close>

text \<open>The position is stored by \<^verbatim>\<open>seek\<close>, never negative, and goes up to 256.\<close>

record cspace_fh =
  pciaddr :: u32
  curpos :: nat

text \<open>Bytes as they lie in an unsigned integer.\<close>

definition byte_of :: "nat \<Rightarrow> u32 \<Rightarrow> u8" where
  "byte_of k w = ucast (drop_bit (8 * k) w)"

definition set_byte :: "nat \<Rightarrow> u8 \<Rightarrow> u32 \<Rightarrow> u32" where
  "set_byte k b w = (w AND NOT (push_bit (k * 8) 0xff)) OR push_bit (k * 8) (ucast b)"

text \<open>The state of a call: the handle and the devices.\<close>

type_synonym 'd csp = "cspace_fh \<times> 'd"

fun csp_read_loop :: "'d bus \<Rightarrow> nat \<Rightarrow> nat \<Rightarrow> u32 \<Rightarrow> ('d csp, u8 list) action" where
  "csp_read_loop io 0 y cword (h, d) = (Ret [], (h, d))"
| "csp_read_loop io (Suc n) y cword (h, d) =
    (if curpos h < 256 then
       let x = curpos h - curpos h mod 4;
           (y, cword, d) =
             (if x \<noteq> y
              then case inl io 0xcfc (outl io 0xcf8 (of_nat x OR pciaddr h OR 0x80000000) d) of (w, d) \<Rightarrow> (x, w, d)
              else (y, cword, d));
           b = byte_of (curpos h - y) cword
       in case csp_read_loop io n y cword (h\<lparr>curpos := curpos h + 1\<rparr>, d) of
            (Ret bs, s) \<Rightarrow> (Ret (b # bs), s) | r \<Rightarrow> r
     else (Ret [], (h, d)))"

definition csp_read :: "'d bus \<Rightarrow> nat \<Rightarrow> ('d csp, u8 list) action" where
  "csp_read io cnt = csp_read_loop io cnt 1 0"

text \<open>\<^verbatim>\<open>read\<close> into an unsigned integer: the bytes that are not read keep their value.\<close>

definition csp_read_word :: "'d bus \<Rightarrow> u32 \<Rightarrow> ('d csp, u32) action" where
  "csp_read_word io w = andthen (csp_read io 4) (\<lambda>bs. ret (fold (\<lambda>(k, b). set_byte k b) (zip [0..<4] bs) w))"

text \<open>A word leaves for the device when its \<^emph>\<open>first\<close> byte has been put into it.\<close>

fun csp_write_loop :: "'d bus \<Rightarrow> u8 list \<Rightarrow> u32 \<Rightarrow> ('d csp, nat \<times> u32) action" where
  "csp_write_loop io [] cword (h, d) = (Ret (0, cword), (h, d))"
| "csp_write_loop io (b # bs) cword (h, d) =
    (if curpos h < 256 then
       let modpos = curpos h mod 4;
           wordpos = curpos h - curpos h mod 4;
           cword = set_byte modpos b cword;
           d = (if modpos = 0
                then outl io 0xcfc cword (outl io 0xcf8 (of_nat wordpos OR pciaddr h OR 0x80000000) d) else d)
       in case csp_write_loop io bs cword (h\<lparr>curpos := curpos h + 1\<rparr>, d) of
            (Ret (c, cword), s) \<Rightarrow> (Ret (c + 1, cword), s) | r \<Rightarrow> r
     else (Ret (0, cword), (h, d)))"

definition csp_commit :: "'d bus \<Rightarrow> u32 \<Rightarrow> u32 \<Rightarrow> ('d csp, unit) action" where
  "csp_commit io junk cword s =
    (let wordpos = curpos (fst s) - curpos (fst s) mod 4; modpos = curpos (fst s) mod 4 in
     if modpos \<noteq> 0 then
       andthen (csp_read_word io junk) (\<lambda>buf (h, d).
         let cword = (cword AND NOT (push_bit (modpos * 8) 0xffffffff)) OR
               (buf AND NOT (drop_bit ((4 - modpos) * 8) 0xffffffff))
         in (Ret (), h, outl io 0xcfc cword (outl io 0xcf8 (of_nat wordpos + pciaddr h + 0x80000000) d))) s
     else (Ret (), s))"

text \<open>\<open>junk\<close> and \<open>junk'\<close>: what the two local variables hold at first.\<close>

definition csp_write :: "'d bus \<Rightarrow> u32 \<Rightarrow> u32 \<Rightarrow> u8 list \<Rightarrow> ('d csp, nat) action" where
  "csp_write io junk junk' buf s =
    andthen (if curpos (fst s) mod 4 \<noteq> 0 then csp_read_word io junk else ret junk) (\<lambda>cword.
    andthen (csp_write_loop io buf cword) (\<lambda>(c, cword).
    andthen (csp_commit io junk' cword) (\<lambda>_. ret c))) s"

definition csp_seek_set :: "int \<Rightarrow> ('d csp, int) action" where
  "csp_seek_set off s =
    (if off < 0 \<or> off > 64 then throw (Einval ''Out of bounds seek'') s
     else (Ret off, (fst s)\<lparr>curpos := nat off\<rparr>, snd s))"

text \<open>From the end: \<^verbatim>\<open>seek(64 - off, END)\<close> calls itself for ever.\<close>

definition csp_seek :: "int \<Rightarrow> seekref \<Rightarrow> ('d csp, int) action" where
  "csp_seek off whence s = (case whence of
     SET \<Rightarrow> csp_seek_set off s
   | CUR \<Rightarrow> csp_seek_set (int (curpos (fst s)) + off) s
   | END \<Rightarrow> (Hang, s))"

definition new_cspace_fh :: "'d bus \<Rightarrow> u32 \<Rightarrow> 'd \<Rightarrow> cspace_fh outcome \<times> 'd" where
  "new_cspace_fh io addr d =
    (case andthen (csp_read io 2) (\<lambda>vendor.
            andthen (if vendor = [0xff, 0xff] then throw (Einval ''No device at specified address'') else ret ()) (\<lambda>_.
            csp_seek 0 SET)) (\<lparr>pciaddr = push_bit 8 addr, curpos = 0\<rparr>, d) of
       (Ret _, h, d) \<Rightarrow> (Ret h, d)
     | (Throw e, _, d) \<Rightarrow> (Throw e, d)
     | (Fault f, _, d) \<Rightarrow> (Fault f, d)
     | (Hang, _, d) \<Rightarrow> (Hang, d))"

text \<open>The devices that \<^verbatim>\<open>enumerate\<close> reports, with their class.\<close>

fun enumerate_from :: "'d bus \<Rightarrow> (nat \<times> nat) list \<Rightarrow> 'd \<Rightarrow> (nat \<times> nat \<times> u16) list \<times> 'd" where
  "enumerate_from io [] d = ([], d)"
| "enumerate_from io ((b, dev) # ps) d =
    (let conf_access = 0x80000000 OR push_bit 16 (of_nat b) OR push_bit 11 (of_nat dev) OR 8;
         (w, d) = inl io 0xcfc (outl io 0xcf8 conf_access d);
         res = ucast (drop_bit 16 w AND 0xffff);
         (found, d) = enumerate_from io ps d
     in (if res \<noteq> 0xffff then (b, dev, res) # found else found, d))"

definition pci_enumerate :: "'d bus \<Rightarrow> 'd \<Rightarrow> (nat \<times> nat \<times> u16) list \<times> 'd" where
  "pci_enumerate io = enumerate_from io (List.product [0..<256] [0..<32])"

section \<open>Reading the configuration space\<close>

text \<open>
  The documented behaviour of the two ports: a word is read at the address that was stored
  last, and neither step changes what the configuration space holds.
\<close>

definition config_ports :: "'d bus \<Rightarrow> ('d \<Rightarrow> u32 \<Rightarrow> u32) \<Rightarrow> bool" where
  "config_ports io conf \<longleftrightarrow> (\<forall>a d. fst (inl io 0xcfc (outl io 0xcf8 a d)) = conf d a \<and>
     conf (snd (inl io 0xcfc (outl io 0xcf8 a d))) = conf d)"

definition config_byte :: "('d \<Rightarrow> u32 \<Rightarrow> u32) \<Rightarrow> 'd \<Rightarrow> u32 \<Rightarrow> nat \<Rightarrow> u8" where
  "config_byte conf d pci p = byte_of (p mod 4) (conf d (of_nat (p - p mod 4) OR pci OR 0x80000000))"

lemma csp_read_loop_spec:
  assumes "config_ports io conf"
    "y = curpos h - curpos h mod 4 \<Longrightarrow> cword = conf d (of_nat y OR pciaddr h OR 0x80000000)"
  shows "\<exists>d'. conf d' = conf d \<and> csp_read_loop io n y cword (h, d) =
    (Ret (map (config_byte conf d (pciaddr h)) [curpos h..<max (curpos h) (min 256 (curpos h + n))]),
     h\<lparr>curpos := max (curpos h) (min 256 (curpos h + n))\<rparr>, d')"
  using assms(2)
proof (induction n arbitrary: y cword h d)
  case (Suc n)
  show ?case
  proof (cases "curpos h < 256")
    case True
    define x where "x = curpos h - curpos h mod 4"
    define a where "a = (of_nat x OR pciaddr h OR 0x80000000 :: u32)"
    define d1 where "d1 = (if x \<noteq> y then snd (inl io 0xcfc (outl io 0xcf8 a d)) else d)"
    define h1 where "h1 = h\<lparr>curpos := curpos h + 1\<rparr>"
    have c: "conf d1 = conf d" using assms(1) by (simp add: config_ports_def d1_def)
    have inl: "inl io 0xcfc (outl io 0xcf8 a d) = (conf d a, d1)" if "x \<noteq> y"
      using assms(1) that by (auto simp: config_ports_def d1_def intro!: prod_eqI)
    have d1: "d1 = d" if "x = y" using that by (simp add: d1_def)
    have same: "conf d1 a = conf d1 (of_nat x OR pciaddr h1 OR 0x80000000)" by (simp add: a_def h1_def)
    obtain d' where d': "conf d' = conf d1" "csp_read_loop io n x (conf d1 a) (h1, d1) =
        (Ret (map (config_byte conf d1 (pciaddr h1)) [curpos h1..<max (curpos h1) (min 256 (curpos h1 + n))]),
         h1\<lparr>curpos := max (curpos h1) (min 256 (curpos h1 + n))\<rparr>, d')"
      using Suc.IH[of x h1 "conf d1 a" d1] same by (auto simp: x_def)
    have y: "x = y \<Longrightarrow> cword = conf d a" using Suc.prems by (simp add: x_def a_def)
    have b: "config_byte conf d1 (pciaddr h1) = config_byte conf d (pciaddr h)"
      by (simp add: fun_eq_iff config_byte_def c h1_def)
    have "csp_read_loop io (Suc n) y cword (h, d) =
        (case csp_read_loop io n x (conf d a) (h1, d1) of
           (Ret bs, s) \<Rightarrow> (Ret (byte_of (curpos h - x) (conf d a) # bs), s) | r \<Rightarrow> r)"
    proof (cases "x = y")
      case False
      then show ?thesis using True inl
        by (simp add: x_def[symmetric] a_def[symmetric] h1_def Let_def)
    next
      case here: True
      then have "y = x" by simp
      then show ?thesis using True y[OF here] d1[OF here] by (simp add: x_def[symmetric] h1_def Let_def)
    qed
    then have "csp_read_loop io (Suc n) y cword (h, d) =
        (Ret (byte_of (curpos h - x) (conf d a) # map (config_byte conf d (pciaddr h))
           [curpos h + 1..<max (curpos h + 1) (min 256 (curpos h + 1 + n))]),
         h\<lparr>curpos := max (curpos h + 1) (min 256 (curpos h + 1 + n))\<rparr>, d')"
      using d'(2) unfolding c b by (simp add: h1_def)
    moreover have "byte_of (curpos h - x) (conf d a) = config_byte conf d (pciaddr h) (curpos h)"
      by (simp add: config_byte_def x_def a_def)
    ultimately show ?thesis using True d'(1) c
      by (intro exI[of _ d']) (simp add: upt_conv_Cons max_def min_def)
  qed (auto simp: max_def min_def)
qed (auto simp: max_def)

lemma csp_read_loop_other:
  "\<not> curpos h < 256 \<Longrightarrow> csp_read_loop io n y cword (h, d) = (Ret [], (h, d))"
  by (cases n) simp_all

lemma config_reads:
  assumes "config_ports io conf"
  shows "\<exists>d'. conf d' = conf d \<and> csp_read io n (h, d) =
      (Ret (map (config_byte conf d (pciaddr h)) [curpos h..<max (curpos h) (min 256 (curpos h + n))]),
       h\<lparr>curpos := max (curpos h) (min 256 (curpos h + n))\<rparr>, d')"
    "config_byte conf d (push_bit 8 addr) 0 = 0xff \<and> config_byte conf d (push_bit 8 addr) 1 = 0xff \<Longrightarrow>
      fst (new_cspace_fh io addr d) = Throw (Einval ''No device at specified address'')"
    "\<not> (config_byte conf d (push_bit 8 addr) 0 = 0xff \<and> config_byte conf d (push_bit 8 addr) 1 = 0xff) \<Longrightarrow>
      fst (new_cspace_fh io addr d) = Ret \<lparr>pciaddr = push_bit 8 addr, curpos = 0\<rparr>"
proof -
  have "1 = curpos h - curpos h mod 4 \<Longrightarrow> 0 = conf d (of_nat 1 OR pciaddr h OR 0x80000000)" for h :: cspace_fh and d
  proof -
    have "1 \<noteq> curpos h - curpos h mod 4" by presburger
    then show "1 = curpos h - curpos h mod 4 \<Longrightarrow> 0 = conf d (of_nat 1 OR pciaddr h OR 0x80000000)" by blast
  qed
  note read = csp_read_loop_spec[OF assms this, folded csp_read_def]
  then show "\<exists>d'. conf d' = conf d \<and> csp_read io n (h, d) =
      (Ret (map (config_byte conf d (pciaddr h)) [curpos h..<max (curpos h) (min 256 (curpos h + n))]),
       h\<lparr>curpos := max (curpos h) (min 256 (curpos h + n))\<rparr>, d')" by blast
  obtain d' where two: "csp_read io 2 (\<lparr>pciaddr = push_bit 8 addr, curpos = 0\<rparr>, d) =
      (Ret [config_byte conf d (push_bit 8 addr) 0, config_byte conf d (push_bit 8 addr) 1],
       \<lparr>pciaddr = push_bit 8 addr, curpos = 2\<rparr>, d')"
    using read[of "\<lparr>pciaddr = push_bit 8 addr, curpos = 0\<rparr>" d 2] by (auto simp: upt_rec)
  show "config_byte conf d (push_bit 8 addr) 0 = 0xff \<and> config_byte conf d (push_bit 8 addr) 1 = 0xff \<Longrightarrow>
      fst (new_cspace_fh io addr d) = Throw (Einval ''No device at specified address'')"
    by (simp add: new_cspace_fh_def andthen_def two throw_def)
  show "\<not> (config_byte conf d (push_bit 8 addr) 0 = 0xff \<and> config_byte conf d (push_bit 8 addr) 1 = 0xff) \<Longrightarrow>
      fst (new_cspace_fh io addr d) = Ret \<lparr>pciaddr = push_bit 8 addr, curpos = 0\<rparr>"
    by (auto simp: new_cspace_fh_def andthen_def two ret_def csp_seek_def csp_seek_set_def)
qed

text \<open>
  C36: a read from the configuration space delivers its bytes from the position on, up to the
  end of the 256 bytes, moves the position behind them and changes nothing in the space;
  a handle is made exactly for a device that answers.
\<close>

theorem config_read_correct:
  assumes "config_ports io conf"
  shows "(\<exists>d'. conf d' = conf d \<and> csp_read io n (h, d) =
      (Ret (map (config_byte conf d (pciaddr h)) [curpos h..<max (curpos h) (min 256 (curpos h + n))]),
       h\<lparr>curpos := max (curpos h) (min 256 (curpos h + n))\<rparr>, d')) \<and>
    fst (new_cspace_fh io addr d) =
      (if config_byte conf d (push_bit 8 addr) 0 = 0xff \<and> config_byte conf d (push_bit 8 addr) 1 = 0xff
       then Throw (Einval ''No device at specified address'')
       else Ret \<lparr>pciaddr = push_bit 8 addr, curpos = 0\<rparr>)"
  using config_reads[OF assms] by simp

text \<open>A space in which every word holds its address; the devices keep the address stored last.\<close>

definition demo_bus :: "u32 bus" where
  "demo_bus = \<lparr>outl = \<lambda>p v d. if p = 0xcf8 then v else d, inl = \<lambda>p d. (if p = 0xcfc then d else 0, d),
     outb = \<lambda>p v d. d, inb = \<lambda>p d. (0, d)\<rparr>"

lemma demo_bus_ports: "config_ports demo_bus (\<lambda>_ a. a)"
  by (simp add: config_ports_def demo_bus_def)

lemma demo_bytes: "(2147483908 :: u8) = 4" "(8388609 :: u8) = 1" "(32768 :: u8) = 0" "(2147483912 :: u8) = 8"
  by (simp_all add: word_unat_eq_iff)

theorem config_read_correct_witness:
  "(\<exists>d'. csp_read demo_bus 6 (\<lparr>pciaddr = 0x100, curpos = 3\<rparr>, 0) =
     (Ret [0x80, 4, 1, 0, 0x80, 8], \<lparr>pciaddr = 0x100, curpos = 9\<rparr>, d')) \<and>
   fst (new_cspace_fh demo_bus 1 0) = Ret \<lparr>pciaddr = 0x100, curpos = 0\<rparr>"
  using config_read_correct[OF demo_bus_ports, where d = 0 and n = 6 and h = "\<lparr>pciaddr = 0x100, curpos = 3\<rparr>" and addr = 1]
  by (simp add: config_byte_def byte_of_def upt_rec demo_bytes)

text \<open>
  Writing does not work: of four bytes at the beginning of a word only the first is stored,
  with the other bytes of a variable that was never set.
\<close>

lemma config_write_first_byte_only:
  assumes "curpos h mod 4 = 0" "curpos h \<le> 252"
  shows "csp_write io junk junk' [a, b, c, e] (h, d) = (Ret 4, h\<lparr>curpos := curpos h + 4\<rparr>,
    outl io 0xcfc (set_byte 0 a junk) (outl io 0xcf8 (of_nat (curpos h) OR pciaddr h OR 0x80000000) d))"
proof -
  have "Suc (curpos h) mod 4 = 1" "Suc (Suc (curpos h)) mod 4 = 2" "Suc (Suc (Suc (curpos h))) mod 4 = 3"
    "Suc (Suc (Suc (Suc (curpos h)))) mod 4 = 0" using assms(1) by presburger+
  then show ?thesis using assms
    by (simp add: csp_write_def csp_commit_def andthen_def ret_def Let_def)
qed

lemma config_seek_end_hangs: "csp_seek off END s = (Hang, s)"
  by (simp add: csp_seek_def)

section \<open>The serial line\<close>

text \<open>\<^verbatim>\<open>refcnt\<close> counts the handles that are open.\<close>

record portdriver =
  port :: u16
  refcnt :: nat

definition new_portdriver :: "'d bus \<Rightarrow> u16 \<Rightarrow> 'd \<Rightarrow> portdriver outcome \<times> 'd" where
  "new_portdriver io p d =
    (let d = outb io (p + 7) 0xaa d; (b, d) = inb io (p + 7) d
     in if b \<noteq> 0xaa then (Throw (Logic_error ''No UART at location given''), d)
        else
          let d = outb io (p + 1) 0 d;
              d = outb io (p + 3) 0x80 d;
              d = outb io (p + 0) 0x01 d;
              d = outb io (p + 1) 0 d;
              d = outb io (p + 3) 0x03 d;
              d = outb io (p + 2) 0xe1 d
          in (Ret \<lparr>port = p, refcnt = 0\<rparr>, d))"

definition driver_in_use :: "portdriver \<Rightarrow> bool" where
  "driver_in_use p \<longleftrightarrow> refcnt p > 0"

text \<open>A handle without a driver cannot be made.\<close>

definition new_porthandler :: "portdriver option \<Rightarrow> portdriver option outcome" where
  "new_porthandler p = (case p of
     None \<Rightarrow> Throw (Logic_error ''Can't create orphan serial handler'')
   | Some p \<Rightarrow> Ret (Some (p\<lparr>refcnt := wrap64 (refcnt p + 1)\<rparr>)))"

definition delete_porthandler :: "portdriver \<Rightarrow> portdriver" where
  "delete_porthandler p = (if refcnt p \<noteq> 0 then p\<lparr>refcnt := refcnt p - 1\<rparr> else p)"

fun serial_write :: "'d bus \<Rightarrow> u16 \<Rightarrow> u8 list \<Rightarrow> ('d, nat) action" where
  "serial_write io p [] d = (Ret 0, d)"
| "serial_write io p (b # bs) d =
    (case inb io (p + 5) d of (status, d) \<Rightarrow>
      if status AND 0x20 \<noteq> 0
      then andthen (serial_write io p bs) (\<lambda>i. ret (i + 1)) (outb io (p + 0) b d)
      else (Ret 0, d))"

fun serial_read :: "'d bus \<Rightarrow> u16 \<Rightarrow> nat \<Rightarrow> ('d, u8 list) action" where
  "serial_read io p 0 d = (Ret [], d)"
| "serial_read io p (Suc cnt) d =
    (case inb io (p + 5) d of (status, d) \<Rightarrow>
      if status AND 0x1 \<noteq> 0
      then case inb io p d of (b, d) \<Rightarrow> andthen (serial_read io p cnt) (\<lambda>bs. ret (b # bs)) d
      else (Ret [], d))"

text \<open>
  What the line has sent and received, as a terminal sees it: a byte stored to the port is
  sent, the status port only tells; a byte is taken from the port when one is there.
\<close>

definition uart :: "'d bus \<Rightarrow> u16 \<Rightarrow> ('d \<Rightarrow> u8 list) \<Rightarrow> ('d \<Rightarrow> u8 list) \<Rightarrow> bool" where
  "uart io p sent waiting \<longleftrightarrow>
    (\<forall>b d. sent (outb io p b d) = sent d @ [b] \<and> waiting (outb io p b d) = waiting d) \<and>
    (\<forall>d. sent (snd (inb io (p + 5) d)) = sent d \<and> waiting (snd (inb io (p + 5) d)) = waiting d \<and>
       (fst (inb io (p + 5) d) AND 0x1 \<noteq> 0 \<longleftrightarrow> waiting d \<noteq> [])) \<and>
    (\<forall>d. sent (snd (inb io p d)) = sent d \<and>
       (waiting d \<noteq> [] \<longrightarrow> fst (inb io p d) = hd (waiting d) \<and>
         waiting (snd (inb io p d)) = tl (waiting d)))"

lemma serial_write_sends:
  assumes "uart io p sent waiting"
  shows "\<exists>n d'. serial_write io p buf d = (Ret n, d') \<and> n \<le> length buf \<and>
    sent d' = sent d @ take n buf \<and> waiting d' = waiting d"
proof (induction buf arbitrary: d)
  case (Cons b bs)
  obtain st d1 where i: "inb io (p + 5) d = (st, d1)" by fastforce
  then have d1: "sent d1 = sent d" "waiting d1 = waiting d" using assms by (auto simp: uart_def dest: spec[of _ d])
  obtain n d' where "serial_write io p bs (outb io p b d1) = (Ret n, d')" "n \<le> length bs"
    "sent d' = sent d @ b # take n bs" "waiting d' = waiting d"
    using Cons.IH[of "outb io p b d1"] assms d1 by (auto simp: uart_def)
  then show ?case using d1
    by (cases "st AND 0x20 = 0") (auto simp: i andthen_def ret_def)
qed simp

lemma serial_read_receives:
  assumes "uart io p sent waiting"
  shows "\<exists>d'. serial_read io p cnt d = (Ret (take cnt (waiting d)), d') \<and>
    waiting d' = drop cnt (waiting d) \<and> sent d' = sent d"
proof (induction cnt arbitrary: d)
  case (Suc cnt)
  obtain st d1 where i: "inb io (p + 5) d = (st, d1)" by fastforce
  have "sent (snd (inb io (p + 5) d)) = sent d" "waiting (snd (inb io (p + 5) d)) = waiting d"
    "fst (inb io (p + 5) d) AND 0x1 \<noteq> 0 \<longleftrightarrow> waiting d \<noteq> []" using assms by (simp_all add: uart_def)
  then have d1: "sent d1 = sent d" "waiting d1 = waiting d" "st AND 1 \<noteq> 0 \<longleftrightarrow> waiting d \<noteq> []"
    by (simp_all add: i)
  show ?case
  proof (cases "waiting d")
    case (Cons w ws)
    define d2 where "d2 = snd (inb io p d1)"
    have r: "inb io p d1 = (w, d2)" "waiting d2 = ws" "sent d2 = sent d"
      using assms d1 Cons by (auto simp: uart_def d2_def intro!: prod_eqI)
    then show ?thesis using Suc.IH[of d2] d1 Cons by (auto simp: i andthen_def ret_def)
  qed (use d1 in \<open>simp add: i\<close>)
qed simp

end
