(* ===== verification/Gpt.thy ===== *)
theory Gpt
  imports FileSys
begin

text \<open>
  The partition table driver, drivers/gpt. The disk is a file handle whose operations are an
  argument; \<open>dmode\<close> is the mode that its \<^verbatim>\<open>stat\<close> reports. What a variable or a new array holds
  before it is stored to is an argument as well.
\<close>

record 'f disk =
  dseek :: "int \<Rightarrow> ('f, int) action"
  dread :: "nat \<Rightarrow> ('f, u8 list) action"
  dwrite :: "u8 list \<Rightarrow> ('f, nat) action"
  dmode :: u32

record gpt =
  blk_size :: nat
  grefcnt :: nat
  num_part :: nat
  partdesc_size :: nat
  partentry_arr :: "u8 list"

text \<open>The bytes read over the first ones of a block.\<close>

definition read_over :: "u8 list \<Rightarrow> u8 list \<Rightarrow> u8 list" where
  "read_over bs block = take (length block) bs @ drop (length bs) block"

definition number_at :: "nat \<Rightarrow> nat \<Rightarrow> u8 list \<Rightarrow> nat" where
  "number_at n p bs = le_value (take n (drop p bs))"

text \<open>\<^verbatim>\<open>memcmp\<close> of kstdlib on the bytes of \<open>ys\<close> and as many of \<open>xs\<close>, in memory of their own.\<close>

definition blocks_differ :: "u8 list \<Rightarrow> u8 list \<Rightarrow> bool outcome" where
  "blocks_differ xs ys =
    obind (memcmp (demo_mem (2 ^ 62) ys ++ demo_mem 8 xs) (2 ^ 62) 8 (length ys)) (\<lambda>r. Ret (r \<noteq> 0))"

definition computed :: "'a outcome \<Rightarrow> ('s, 'a) action" where
  "computed r = (\<lambda>s. (r, s))"

section \<open>The driver\<close>

definition EFI_PART :: "u8 list" where
  "EFI_PART = [0x45, 0x46, 0x49, 0x20, 0x50, 0x41, 0x52, 0x54]"

text \<open>
  \<open>pt_header\<close> is the new block of 0x5c bytes, which is compared but never read from the disk;
  \<^verbatim>\<open>refcnt\<close> is not initialised.
\<close>

definition new_driver ::
  "'f disk \<Rightarrow> nat \<Rightarrow> u8 list \<Rightarrow> u8 list \<Rightarrow> nat \<Rightarrow> (nat \<Rightarrow> u8 list) \<Rightarrow> ('f, gpt) action"
where
  "new_driver fh log_sec lba0 pt_header refcnt0 new_array =
    andthen (dseek fh 0) (\<lambda>_.
    andthen (dread fh 16) (\<lambda>bs.
    let lba0 = read_over bs lba0 in
    if lba0 ! 4 \<noteq> 0xee then throw (Runtime_error ''Illegal PMBR found. Disk not GPT-formatted?'') else
    andthen (dseek fh (int ((log_sec * number_at 4 8 lba0) mod 2 ^ 32))) (\<lambda>_.
    andthen (computed (blocks_differ pt_header EFI_PART)) (\<lambda>differ.
    if differ then throw (Runtime_error ''Illegal GPT header. Disk corrupted?'') else
    let num = number_at 4 0x50 pt_header;
        desc = number_at 4 0x54 pt_header;
        arr = new_array ((num * desc) mod 2 ^ 32)
    in andthen (dseek fh (to_off_t (int (log_sec * number_at 8 0x48 pt_header)))) (\<lambda>_.
       andthen (dread fh ((num * desc) mod 2 ^ 32)) (\<lambda>bs.
       ret \<lparr>blk_size = log_sec, grefcnt = refcnt0, num_part = num, partdesc_size = desc,
            partentry_arr = read_over bs arr\<rparr>))))))"

text \<open>
  \<^verbatim>\<open>partition_entry\<close> has two identifiers of 32 bytes, and only 0x38 bytes are copied: they end
  within the second one, and the fields behind keep what the variable held. \<open>pname\<close> is the
  place of the name in the array.
\<close>

record partition_entry =
  guid_bytes :: "u8 list"
  start_lba :: nat
  end_lba :: nat
  attribs :: nat
  pname :: nat
  name_size :: nat
  pblk :: nat

definition get_partinfo :: "partition_entry \<Rightarrow> gpt \<Rightarrow> nat \<Rightarrow> partition_entry outcome" where
  "get_partinfo pe g i =
    (if i \<ge> num_part g then Throw (Eaccess '''')
     else if (i * 0x38) mod 2 ^ 32 + 0x38 > length (partentry_arr g) then Fault ''out of bounds''
     else Ret (pe\<lparr>guid_bytes := read_over (take 0x38 (drop ((i * 0x38) mod 2 ^ 32) (partentry_arr g))) (guid_bytes pe),
       pname := 0x38, name_size := (partdesc_size g + (2 ^ 32 - 0x38)) mod 2 ^ 32, pblk := blk_size g\<rparr>))"

record raw_partition =
  partinfo :: partition_entry
  offset :: nat

definition new_partition :: "partition_entry \<Rightarrow> (gpt, raw_partition) action" where
  "new_partition pe g = (Ret \<lparr>partinfo = pe, offset = 0\<rparr>, g\<lparr>grefcnt := wrap64 (grefcnt g + 1)\<rparr>)"

definition delete_partition :: "gpt \<Rightarrow> gpt" where
  "delete_partition g = (if grefcnt g \<noteq> 0 then g\<lparr>grefcnt := grefcnt g - 1\<rparr> else g)"

definition get_part :: "'f disk \<Rightarrow> partition_entry \<Rightarrow> nat \<Rightarrow> u32 \<Rightarrow> (gpt, raw_partition) action" where
  "get_part fh junk by_id mode g =
    (if by_id \<ge> num_part g then throw (Eaccess '''') g
     else if mode AND dmode fh \<noteq> mode then throw (Eperm '''') g
     else andthen (computed (get_partinfo junk g by_id)) new_partition g)"

text \<open>The loops over the entries: the first whose block at \<open>at\<close> agrees.\<close>

fun find_part :: "u8 list \<Rightarrow> nat \<Rightarrow> nat list \<Rightarrow> gpt \<Rightarrow> nat option outcome" where
  "find_part block at [] g = Ret None"
| "find_part block at (i # is) g =
    obind (blocks_differ (drop ((partdesc_size g * i + at) mod 2 ^ 32) (partentry_arr g)) block) (\<lambda>differ.
      if differ then find_part block at is g else Ret (Some i))"

text \<open>
  By identifier: the parameter is a pointer, and it is the pointer itself (with what follows
  it on the stack) that is compared, \<open>here\<close>. By name: the sizes must agree.
\<close>

definition get_part_guid :: "'f disk \<Rightarrow> partition_entry \<Rightarrow> u8 list \<Rightarrow> u32 \<Rightarrow> (gpt, raw_partition) action" where
  "get_part_guid fh junk here mode g =
    andthen (computed (find_part (take 0x10 here) 0x10 [0..<num_part g] g)) (\<lambda>found.
      case found of Some i \<Rightarrow> get_part fh junk i mode | None \<Rightarrow> throw (Eaccess '''')) g"

definition get_part_name :: "'f disk \<Rightarrow> partition_entry \<Rightarrow> u8 list \<Rightarrow> u32 \<Rightarrow> (gpt, raw_partition) action" where
  "get_part_name fh junk name mode g =
    (if length name \<noteq> (partdesc_size g + (2 ^ 32 - 0x38)) mod 2 ^ 32 then throw (Eaccess '''') g
     else andthen (computed (find_part name 0x38 [0..<num_part g] g)) (\<lambda>found.
       case found of Some i \<Rightarrow> get_part fh junk i mode | None \<Rightarrow> throw (Eaccess '''')) g)"

section \<open>A partition\<close>

definition part_size :: "raw_partition \<Rightarrow> nat" where
  "part_size p = wrap64 (sub64 (wrap64 (end_lba (partinfo p) + 1)) (start_lba (partinfo p)) * pblk (partinfo p))"

text \<open>The position 0 is refused, except from the end.\<close>

definition part_seek_set :: "int \<Rightarrow> (raw_partition, int) action" where
  "part_seek_set off p =
    (if off > 0 \<and> nat off < part_size p then (Ret off, p\<lparr>offset := nat off\<rparr>) else throw (Einval '''') p)"

definition part_seek :: "int \<Rightarrow> seekref \<Rightarrow> (raw_partition, int) action" where
  "part_seek off whence p = (case whence of
     SET \<Rightarrow> part_seek_set off p
   | CUR \<Rightarrow> part_seek_set (to_off_t (off + int (offset p))) p
   | END \<Rightarrow> (if off \<le> 0 \<and> nat (- off) \<le> sub64 (part_size p) 1
             then (let o' = nat ((int (sub64 (part_size p) 1) + off) mod 2 ^ 64)
                   in (Ret (to_off_t (int o')), p\<lparr>offset := o'\<rparr>))
             else throw (Einval '''') p))"

definition clipped :: "nat \<Rightarrow> raw_partition \<Rightarrow> nat" where
  "clipped cnt p = (if wrap64 (offset p + cnt) \<ge> part_size p then sub64 (part_size p) (offset p) else cnt)"

definition part_start :: "raw_partition \<Rightarrow> int" where
  "part_start p = to_off_t (int (offset p + start_lba (partinfo p) * pblk (partinfo p)))"

text \<open>Both are \<^verbatim>\<open>const\<close>: the offset stays.\<close>

definition part_read :: "'f disk \<Rightarrow> raw_partition \<Rightarrow> nat \<Rightarrow> ('f, u8 list) action" where
  "part_read fh p cnt = andthen (dseek fh (part_start p)) (\<lambda>_. dread fh (clipped cnt p))"

definition part_write :: "'f disk \<Rightarrow> raw_partition \<Rightarrow> u8 list \<Rightarrow> ('f, nat) action" where
  "part_write fh p buf = andthen (dseek fh (part_start p)) (\<lambda>_. dwrite fh (take (clipped (length buf) p) buf))"

section \<open>Staying inside\<close>

text \<open>The partition lies on the disk, and the offset inside it.\<close>

definition part_ok :: "raw_partition \<Rightarrow> bool" where
  "part_ok p \<longleftrightarrow> start_lba (partinfo p) \<le> end_lba (partinfo p) \<and> 0 < pblk (partinfo p) \<and>
    (end_lba (partinfo p) + 1) * pblk (partinfo p) < 2 ^ 63 \<and>
    offset p < (end_lba (partinfo p) + 1 - start_lba (partinfo p)) * pblk (partinfo p)"

lemma to_off_t_nat: "n < 2 ^ 63 \<Longrightarrow> to_off_t (int n) = int n"
  by (simp add: to_off_t_def Let_def)

lemma part_ok_size:
  assumes "part_ok p"
  shows "part_size p = (end_lba (partinfo p) + 1 - start_lba (partinfo p)) * pblk (partinfo p)"
    "start_lba (partinfo p) * pblk (partinfo p) + part_size p = (end_lba (partinfo p) + 1) * pblk (partinfo p)"
proof -
  let ?n = "end_lba (partinfo p) + 1" and ?b = "pblk (partinfo p)" and ?s = "start_lba (partinfo p)"
  have big: "?n * ?b < 2 ^ 63" "?s \<le> ?n" "0 < ?b" using assms by (auto simp: part_ok_def)
  have "?n * 1 \<le> ?n * ?b" using big(3) by (intro mult_le_mono2) simp
  then have n: "?n < 2 ^ 63" using big(1) by (metis le_less_trans mult.right_neutral)
  have "(?n - ?s) * ?b \<le> ?n * ?b" by (intro mult_le_mono1) simp
  then have "(?n - ?s) * ?b < 2 ^ 63" using big(1) by (rule le_less_trans)
  then have "(?n - ?s) * ?b < 2 ^ 64" by simp
  then show size: "part_size p = (?n - ?s) * ?b" using n big(2) by (simp add: part_size_def)
  show "?s * ?b + part_size p = ?n * ?b"
    unfolding size add_mult_distrib[symmetric] using big(2) by simp
qed

lemma clipped_inside:
  assumes "part_ok p" "cnt < 2 ^ 63"
  shows "clipped cnt p = min cnt (part_size p - offset p)"
proof -
  have "offset p < part_size p" "part_size p < 2 ^ 63"
    using assms(1) part_ok_size[OF assms(1)] by (auto simp: part_ok_def)
  moreover have "wrap64 (offset p + cnt) = offset p + cnt"
    using calculation assms(2) by (intro wrap64_small) simp
  ultimately show ?thesis by (simp add: clipped_def)
qed

text \<open>
  A read or write of a partition is one access of the disk, at the place of the offset, cut at
  the end of the partition; seeks keep the offset inside.
\<close>

lemma partition_access_inside:
  assumes "part_ok p" "cnt < 2 ^ 63" "length buf < 2 ^ 63"
  shows "part_read fh p cnt = andthen (dseek fh (int (start_lba (partinfo p) * pblk (partinfo p) + offset p)))
      (\<lambda>_. dread fh (min cnt (part_size p - offset p)))"
    "part_write fh p buf = andthen (dseek fh (int (start_lba (partinfo p) * pblk (partinfo p) + offset p)))
      (\<lambda>_. dwrite fh (take (part_size p - offset p) buf))"
    "part_ok (snd (part_seek off whence p))"
proof -
  have small: "offset p < part_size p" "start_lba (partinfo p) * pblk (partinfo p) + part_size p < 2 ^ 63"
    using assms(1) part_ok_size[OF assms(1)] by (auto simp: part_ok_def)
  then have "part_start p = int (start_lba (partinfo p) * pblk (partinfo p) + offset p)"
    unfolding part_start_def by (subst to_off_t_nat) (simp_all add: add.commute)
  then show "part_read fh p cnt = andthen (dseek fh (int (start_lba (partinfo p) * pblk (partinfo p) + offset p)))
      (\<lambda>_. dread fh (min cnt (part_size p - offset p)))"
    "part_write fh p buf = andthen (dseek fh (int (start_lba (partinfo p) * pblk (partinfo p) + offset p)))
      (\<lambda>_. dwrite fh (take (part_size p - offset p) buf))"
    using clipped_inside[OF assms(1,2)] clipped_inside[OF assms(1,3)]
    by (simp_all add: part_read_def part_write_def min_def)
  have keep: "part_ok (p\<lparr>offset := x\<rparr>)" if "x < part_size p" for x
    using assms(1) that part_ok_size(1)[OF assms(1)] by (simp add: part_ok_def)
  show "part_ok (snd (part_seek off whence p))"
  proof (cases whence)
    case SET
    then show ?thesis using assms(1) keep by (simp add: part_seek_def part_seek_set_def throw_def)
  next
    case CUR
    then show ?thesis using assms(1) keep by (simp add: part_seek_def part_seek_set_def throw_def)
  next
    case END
    have one: "sub64 (part_size p) 1 = part_size p - 1" using small by simp
    have "nat ((int (part_size p - 1) + off) mod 2 ^ 64) < part_size p"
      if "off \<le> 0" "nat (- off) \<le> part_size p - 1"
    proof -
      have "(int (part_size p - 1) + off) mod 2 ^ 64 = int (part_size p - 1) + off"
        using that small by (intro mod_pos_pos_trivial) auto
      then show ?thesis using that small by simp
    qed
    then show ?thesis using END assms(1) keep by (simp add: part_seek_def throw_def one[unfolded One_nat_def] Let_def)
  qed
qed

text \<open>
  \<^verbatim>\<open>stat\<close> of every handle of the kernel reports the mode 0: a partition can only be had without
  the right to read or to write.
\<close>

lemma get_part_needs_mode:
  assumes "dmode fh = 0" "mode \<noteq> 0"
  shows "get_part fh junk i mode g = throw (if i \<ge> num_part g then Eaccess [] else Eperm []) g"
  using assms by (simp add: get_part_def)

text \<open>The header that is compared is what the new block happens to contain.\<close>

lemma new_driver_reads_no_header:
  assumes "dseek fh = (\<lambda>off f. (Ret off, f))" "dread fh = (\<lambda>n f. (Ret (replicate n 0xee), f))"
    "length lba0 = 16" "blocks_differ pt_header EFI_PART = Ret True"
  shows "fst (new_driver fh log_sec lba0 pt_header r na f) = Throw (Runtime_error ''Illegal GPT header. Disk corrupted?'')"
  using assms by (simp add: new_driver_def andthen_def read_over_def computed_def throw_def Let_def)

end
