(* ===== verification/Proc.thy ===== *)
theory Proc
  imports Vmm Loader CString
begin

text \<open>
  The loading of a program: the constructor of kernel/proc/proc.cc with the headers of
  kernel/proc/elf.hh (laid out as those of the boot program), over the page tables on demand.
  The file is an ideal handle, its bytes and a position. Physical memory is that of the page
  tables, where a byte is a part of an entry. The members of \<^verbatim>\<open>context\<close> that the constructor
  does not set, and the first contents of the two headers, are arguments.
\<close>

record loading =
  vm_of :: vm
  cr3 :: u64
  c_pid :: nat
  content :: "u8 list"
  fpos :: nat

definition on_vm :: "(vm, 'a) action \<Rightarrow> (loading, 'a) action" where
  "on_vm m s = (case m (vm_of s) of (r, v) \<Rightarrow> (r, s\<lparr>vm_of := v\<rparr>))"

definition load_seek :: "nat \<Rightarrow> (loading, unit) action" where
  "load_seek off s =
    (if off < 2 ^ 63 then (Ret (), s\<lparr>fpos := off\<rparr>) else (Throw (Einval ''Out of bounds seek''), s))"

definition load_read :: "nat \<Rightarrow> (loading, u8 list) action" where
  "load_read n s =
    (let bs = take n (drop (fpos s) (content s)) in (Ret bs, s\<lparr>fpos := fpos s + length bs\<rparr>))"

text \<open>The bytes read over the first ones of a variable.\<close>

definition over :: "u8 list \<Rightarrow> u8 list \<Rightarrow> u8 list" where
  "over bs old = bs @ drop (length bs) old"

definition as_memory :: "u8 list \<Rightarrow> u32 \<Rightarrow> u8" where
  "as_memory bs = (\<lambda>a. if unat a < length bs then bs ! unat a else 0)"

section \<open>Memory of the process\<close>

definition put_byte :: "u64 \<Rightarrow> u8 \<Rightarrow> vm \<Rightarrow> vm" where
  "put_byte p b s =
    (let e = p AND NOT 7; k = 8 * unat (p AND 7) in
     s\<lparr>pm := (pm s)(e := (pm s e AND NOT (push_bit k 0xff)) OR push_bit k (ucast b))\<rparr>)"

text \<open>Stores to linear addresses, one after the other, through the tables that \<^verbatim>\<open>cr3\<close> leads to.\<close>

fun user_store :: "platform \<Rightarrow> u64 \<Rightarrow> u8 list \<Rightarrow> (loading, unit) action" where
  "user_store pl a [] s = (Ret (), s)"
| "user_store pl a (b # bs) s =
    (let r = resolve_now (pl\<lparr>get_cr3 := cr3 s\<rparr>) a (vm_of s) in
     if status r = OK then user_store pl (a + 1) bs (s\<lparr>vm_of := put_byte (resolved r) b (vm_of s)\<rparr>)
     else (Fault ''page fault'', s))"

definition take_phpage :: "(loading, u64) action" where
  "take_phpage s = (case get_page 7 (palloc (vm_of s)) of (p, t) \<Rightarrow>
     (Ret (of_nat p), s\<lparr>vm_of := (vm_of s)\<lparr>palloc := t\<rparr>\<rparr>))"

text \<open>The new upper table, written through the window: empty, but for the entry of the kernel.\<close>

definition init_pml4 :: "u64 \<Rightarrow> (loading, unit) action" where
  "init_pml4 t s =
    (if unat t + 4096 \<le> 2 ^ 39 then
       (let v = (vm_of s)\<lparr>pm := (\<lambda>x. if x - t < 511 * 8 then 0 else pm (vm_of s) x)\<rparr>
        in (Ret (), s\<lparr>vm_of := set_entry t 511 (get_entry (cr3 s) 511 v) v\<rparr>))
     else (Fault ''page fault'', s))"

definition load_cr3 :: "u64 \<Rightarrow> (loading, unit) action" where
  "load_cr3 t s = (Ret (), s\<lparr>cr3 := t\<rparr>)"

definition back_user :: "nat \<Rightarrow> platform \<Rightarrow> nat \<Rightarrow> nat \<Rightarrow> (loading, bool) action" where
  "back_user fuel pl a n s =
    (let pl = pl\<lparr>get_cr3 := cr3 s\<rparr> in on_vm (back_vmem pl (kmmap fuel pl 0 4096) (of_nat a) (of_nat n) 4 0) s)"

section \<open>The constructor\<close>

text \<open>
  The loop over the headers, with the number of those left. A header that is not \<open>LOAD\<close> is
  loaded like the others.
\<close>

definition load_phead :: "nat \<Rightarrow> platform \<Rightarrow> program_header \<Rightarrow> (loading, unit) action" where
  "load_phead fuel pl ph =
    (if ptype ph \<noteq> LOAD \<and> ptype ph = DYNAMIC then throw (Runtime_error ''Dynamic loading is not yet supported'')
     else if vaddr ph \<ge> 4 * 1024 * 1024 * 1024 \<or> wrap64 (vaddr ph + memsz ph) \<ge> 4 * 1024 * 1024 * 1024
     then throw (Runtime_error ''Malformed ELF section'')
     else
       andthen (back_user fuel pl (vaddr ph) (memsz ph)) (\<lambda>_.
       andthen (load_seek (file_off ph)) (\<lambda>_.
       andthen (load_read (filesz ph)) (\<lambda>bs.
       andthen (user_store pl (of_nat (vaddr ph)) bs) (\<lambda>_.
       if length bs \<noteq> filesz ph then throw (Runtime_error ''Could not read whole section'')
       else user_store pl (of_nat (vaddr ph) + of_nat (filesz ph))
         (replicate (sub64 (memsz ph) (filesz ph)) 0))))))"

fun load_segments :: "nat \<Rightarrow> platform \<Rightarrow> nat \<Rightarrow> nat \<Rightarrow> nat \<Rightarrow> u8 list \<Rightarrow> (loading, unit) action" where
  "load_segments fuel pl entry_size 0 currpos phead = ret ()"
| "load_segments fuel pl entry_size (Suc n) currpos phead =
    andthen (load_seek currpos) (\<lambda>_.
    andthen (load_read 56) (\<lambda>bs.
    andthen (load_phead fuel pl (read_program_header (as_memory (over bs phead)) 0)) (\<lambda>_.
    load_segments fuel pl entry_size n (wrap64 (currpos + entry_size)) (over bs phead))))"

record proc_context =
  pid :: nat
  flags :: u64
  rip :: nat
  cs :: nat
  ss :: nat
  rdi :: u64
  rsi :: u64
  context_cr3 :: u64

definition ELF_magic :: "u8 list" where
  "ELF_magic = [0x7f, 0x45, 0x4c, 0x46, 0]"

text \<open>\<^verbatim>\<open>strncmp\<close> of the identification with the literal.\<close>

definition ident_differs :: "u8 list \<Rightarrow> bool outcome" where
  "ident_differs i = obind (strncmp (demo_mem (2 ^ 62) ELF_magic ++ demo_mem 8 i) 8 (2 ^ 62) 4) (\<lambda>r. Ret (r \<noteq> 0))"

definition from_outcome :: "'a outcome \<Rightarrow> ('s, 'a) action" where
  "from_outcome r = (\<lambda>s. (r, s))"

definition check_head :: "file_header \<Rightarrow> (loading, unit) action" where
  "check_head head =
    andthen (from_outcome (ident_differs (ident head))) (\<lambda>differs.
    if differs then throw (Runtime_error ''Invalid ELF header'')
    else if etype head \<noteq> EXEC then throw (Runtime_error ''File is not an executable'')
    else if machine head \<noteq> 0x3e then throw (Runtime_error ''File is not an x86-64 executable'')
    else if obj_version head \<noteq> 1 then throw (Runtime_error ''Unknown ELF version'')
    else ret ())"

definition new_context :: "file_header \<Rightarrow> u64 \<Rightarrow> u64 \<Rightarrow> u64 \<Rightarrow> u64 \<Rightarrow> (loading, proc_context) action" where
  "new_context head flags0 stdo stdi t s =
    (Ret \<lparr>pid = c_pid s, flags = flags0 OR push_bit 9 1, rip = entrypoint head, cs = 0x1b, ss = 0x23,
          rdi = stdo, rsi = stdi, context_cr3 = t\<rparr>,
     s\<lparr>c_pid := wrap64 (c_pid s + 1)\<rparr>)"

definition new_proc ::
  "nat \<Rightarrow> platform \<Rightarrow> u8 list \<Rightarrow> u8 list \<Rightarrow> u64 \<Rightarrow> u64 \<Rightarrow> u64 \<Rightarrow> (loading, proc_context) action"
where
  "new_proc fuel pl head0 phead0 flags0 stdo stdi =
    andthen (load_read 64) (\<lambda>bs.
    let head = read_file_header (as_memory (over bs head0)) 0 in
    andthen (check_head head) (\<lambda>_.
    andthen take_phpage (\<lambda>t.
    andthen (init_pml4 t) (\<lambda>_.
    andthen (load_cr3 t) (\<lambda>_.
    andthen (load_segments fuel pl (ph_entry_size head) (ph_entry_num head) (ph_offset head) phead0) (\<lambda>_.
    new_context head flags0 stdo stdi t))))))"

section \<open>What is checked\<close>

lemma ident_differs_magic:
  assumes "length i = 16"
  shows "ident_differs i = Ret (take 4 i \<noteq> take 4 ELF_magic)"
proof -
  define m where "m = demo_mem (2 ^ 62) ELF_magic ++ demo_mem 8 i"
  have l: "load m 8 = Some (i ! 0)" "load m 9 = Some (i ! 1)" "load m 10 = Some (i ! 2)" "load m 11 = Some (i ! 3)"
    "load m (2 ^ 62) = Some 0x7f" "load m (2 ^ 62 + 1) = Some 0x45" "load m (2 ^ 62 + 2) = Some 0x4c"
    "load m (2 ^ 62 + 3) = Some 0x46"
    using assms by (simp_all add: m_def load_def demo_mem_def map_add_def ELF_magic_def)
  have four: "(4 :: nat) = Suc (Suc (Suc (Suc 0)))" by simp
  obtain a b c d rest where i: "i = a # b # c # d # rest"
    using assms by (auto simp: numeral_eq_Suc length_Suc_conv)
  have "strncmp_loop m (Suc (Suc (Suc (Suc 0)))) 8 (2 ^ 62) 0 =
      Ret (if a \<noteq> 0x7f then a - 0x7f else if b \<noteq> 0x45 then b - 0x45 else if c \<noteq> 0x4c then c - 0x4c else d - 0x46)"
    using l by (simp add: i)
  then have "strncmp m 8 (2 ^ 62) 4 = Ret (sign_of
      (if a \<noteq> 0x7f then a - 0x7f else if b \<noteq> 0x45 then b - 0x45 else if c \<noteq> 0x4c then c - 0x4c else d - 0x46))"
    unfolding strncmp_def four by simp
  then have "ident_differs i = Ret (sign_of
      (if a \<noteq> 0x7f then a - 0x7f else if b \<noteq> 0x45 then b - 0x45 else if c \<noteq> 0x4c then c - 0x4c else d - 0x46) \<noteq> 0)"
    unfolding ident_differs_def m_def[symmetric] by simp
  then show ?thesis by (auto simp: i ELF_magic_def sign_of_zero)
qed

text \<open>What a call leaves alone: the file, the counter of processes, and \<^verbatim>\<open>cr3\<close>.\<close>

definition keeps_rest :: "(loading, 'a) action \<Rightarrow> bool" where
  "keeps_rest m \<longleftrightarrow> (\<forall>s. content (snd (m s)) = content s \<and> c_pid (snd (m s)) = c_pid s \<and> cr3 (snd (m s)) = cr3 s)"

named_theorems rest "calls that keep the file, the counter and cr3"

lemma keeps_rest_andthen [rest]:
  assumes "keeps_rest m" "\<And>a. keeps_rest (k a)"
  shows "keeps_rest (andthen m k)"
  unfolding keeps_rest_def
proof
  fix s
  show "content (snd (andthen m k s)) = content s \<and> c_pid (snd (andthen m k s)) = c_pid s \<and>
      cr3 (snd (andthen m k s)) = cr3 s"
    using assms by (cases "m s"; cases "fst (m s)") (auto simp: keeps_rest_def andthen_def dest: spec[of _ s])
qed

lemma keeps_rest_basic [rest]:
  "keeps_rest (ret a)" "keeps_rest (throw e)" "keeps_rest (load_seek n)" "keeps_rest (load_read n)"
  "keeps_rest (on_vm f)" "keeps_rest (back_user fuel pl n k)"
  by (simp_all add: keeps_rest_def ret_def throw_def load_seek_def load_read_def on_vm_def back_user_def Let_def
      split: prod.split)

lemma keeps_rest_store [rest]: "keeps_rest (user_store pl a bs)"
proof -
  have "content (snd (user_store pl a bs s)) = content s \<and> c_pid (snd (user_store pl a bs s)) = c_pid s \<and>
      cr3 (snd (user_store pl a bs s)) = cr3 s" for s
    by (induction bs arbitrary: a s) (simp_all add: Let_def)
  then show ?thesis by (simp add: keeps_rest_def)
qed

lemma keeps_rest_if [rest]: "keeps_rest a \<Longrightarrow> keeps_rest b \<Longrightarrow> keeps_rest (if c then a else b)"
  by simp

lemma keeps_rest_phead [rest]: "keeps_rest (load_phead fuel pl ph)"
  unfolding load_phead_def by (intro rest)

lemma keeps_rest_segments [rest]: "keeps_rest (load_segments fuel pl es n p ph)"
proof (induction n arbitrary: p ph)
  case (Suc n)
  show ?case unfolding load_segments.simps by (intro rest Suc)
qed (simp add: rest)

lemma keeps_restD:
  "keeps_rest m \<Longrightarrow> m s = (r, s') \<Longrightarrow> content s' = content s \<and> c_pid s' = c_pid s \<and> cr3 s' = cr3 s"
  by (auto simp: keeps_rest_def dest: spec[of _ s])

text \<open>What is guaranteed of a header whose segment has been loaded.\<close>

definition segment_checked :: "u8 list \<Rightarrow> program_header \<Rightarrow> bool" where
  "segment_checked file ph \<longleftrightarrow> ptype ph \<noteq> DYNAMIC \<and> vaddr ph < 2 ^ 32 \<and> wrap64 (vaddr ph + memsz ph) < 2 ^ 32 \<and>
    filesz ph \<le> length (drop (file_off ph) file)"

lemma load_phead_checked:
  assumes "load_phead fuel pl ph s = (Ret (), s')"
  shows "segment_checked (content s) ph"
proof -
  have d: "ptype ph \<noteq> DYNAMIC" using assms by (auto simp: load_phead_def throw_def LOAD_def DYNAMIC_def split: if_splits)
  have v: "vaddr ph < 2 ^ 32" "wrap64 (vaddr ph + memsz ph) < 2 ^ 32"
    using assms by (auto simp: load_phead_def throw_def split: if_splits)
  have n: "\<not> (vaddr ph \<ge> 4 * 1024 * 1024 * 1024 \<or> wrap64 (vaddr ph + memsz ph) \<ge> 4 * 1024 * 1024 * 1024)"
    using v by simp
  note run = assms[unfolded load_phead_def if_not_P[OF n]]
  have "andthen (back_user fuel pl (vaddr ph) (memsz ph)) (\<lambda>_.
       andthen (load_seek (file_off ph)) (\<lambda>_.
       andthen (load_read (filesz ph)) (\<lambda>bs.
       andthen (user_store pl (of_nat (vaddr ph)) bs) (\<lambda>_.
       if length bs \<noteq> filesz ph then throw (Runtime_error ''Could not read whole section'')
       else user_store pl (of_nat (vaddr ph) + of_nat (filesz ph))
         (replicate (sub64 (memsz ph) (filesz ph)) 0))))) s = (Ret (), s')"
    using run d by simp
  then obtain a s1 s2 bs s3 s4 where b: "back_user fuel pl (vaddr ph) (memsz ph) s = (Ret a, s1)"
    and k: "load_seek (file_off ph) s1 = (Ret (), s2)" and r: "load_read (filesz ph) s2 = (Ret bs, s3)"
    and l: "(if length bs \<noteq> filesz ph then throw (Runtime_error ''Could not read whole section'')
       else user_store pl (of_nat (vaddr ph) + of_nat (filesz ph))
         (replicate (sub64 (memsz ph) (filesz ph)) 0)) s4 = (Ret (), s')"
    by (elim andthen_cases) auto
  have "content s1 = content s" using keeps_restD[OF keeps_rest_basic(6) b] by simp
  moreover have "s2 = s1\<lparr>fpos := file_off ph\<rparr>" using k by (simp add: load_seek_def split: if_splits)
  moreover have "length (take (filesz ph) (drop (fpos s2) (content s2))) = filesz ph"
    using r l by (auto simp: load_read_def throw_def Let_def split: if_splits)
  ultimately show ?thesis using d v by (simp add: segment_checked_def)
qed

text \<open>The header at place \<open>i\<close> of the file.\<close>

definition phead_at :: "u8 list \<Rightarrow> file_header \<Rightarrow> nat \<Rightarrow> program_header" where
  "phead_at file head i =
    read_program_header (as_memory (take 56 (drop (ph_offset head + i * ph_entry_size head) file))) 0"

lemma load_segments_checked:
  assumes "load_segments fuel pl es n p phead s = (Ret (), s')" "length phead = 56"
    "\<And>i. i < n \<Longrightarrow> p + i * es + 56 \<le> length (content s)" "length (content s) < 2 ^ 63"
    "i < n"
  shows "segment_checked (content s) (read_program_header (as_memory (take 56 (drop (p + i * es) (content s)))) 0)"
  using assms
proof (induction n arbitrary: p phead s i)
  case (Suc n)
  obtain s1 bs s2 s3 where k: "load_seek p s = (Ret (), s1)" and r: "load_read 56 s1 = (Ret bs, s2)"
    and l: "load_phead fuel pl (read_program_header (as_memory (over bs phead)) 0) s2 = (Ret (), s3)"
    and rest: "load_segments fuel pl es n (wrap64 (p + es)) (over bs phead) s3 = (Ret (), s')"
    using Suc.prems(1) unfolding load_segments.simps by (elim andthen_cases) auto
  have s1: "s1 = s\<lparr>fpos := p\<rparr>" using k by (simp add: load_seek_def split: if_splits)
  have bs: "bs = take 56 (drop p (content s))" "content s2 = content s"
    using r by (auto simp: load_read_def s1 Let_def)
  have len: "length bs = 56" using Suc.prems(3)[of 0] by (simp add: bs)
  then have o: "over bs phead = bs" using Suc.prems(2) by (simp add: over_def)
  have s3: "content s3 = content s" using keeps_restD[OF keeps_rest_phead l] bs(2) by simp
  show ?case
  proof (cases i)
    case 0
    then show ?thesis using load_phead_checked[OF l] bs o by simp
  next
    case (Suc j)
    then have j: "j < n" using Suc.prems(5) by simp
    have "p + 1 * es + 56 \<le> length (content s)" using Suc.prems(3)[of 1] j by simp
    then have w: "wrap64 (p + es) = p + es" using Suc.prems(4) by (intro wrap64_small) simp
    have "\<And>i. i < n \<Longrightarrow> p + es + i * es + 56 \<le> length (content s)"
      using Suc.prems(3)[of "Suc _"] by (simp add: add.assoc)
    from Suc.IH[OF rest[unfolded w o] len, unfolded s3, OF this Suc.prems(4) j]
    show ?thesis using Suc by (simp add: add.assoc)
  qed
qed simp

section \<open>The constructor checks what it loads\<close>

definition elf_ok :: "file_header \<Rightarrow> bool" where
  "elf_ok head \<longleftrightarrow> take 4 (ident head) = [0x7f, 0x45, 0x4c, 0x46] \<and> etype head = EXEC \<and> machine head = 0x3e \<and>
    obj_version head = 1"

definition head_read :: "u8 list \<Rightarrow> loading \<Rightarrow> file_header" where
  "head_read head0 s = read_file_header (as_memory (over (take 64 (drop (fpos s) (content s))) head0)) 0"

lemma ident_head: "ident_differs (ident (read_file_header m a)) = Ret (take 4 (ident (read_file_header m a)) \<noteq> [0x7f, 0x45, 0x4c, 0x46])"
  using ident_differs_magic[of "ident (read_file_header m a)"] by (simp add: read_file_header_def ELF_magic_def)

lemma check_head_ok:
  assumes "head = read_file_header m a"
  shows "elf_ok head \<Longrightarrow> check_head head = ret ()"
    "\<not> elf_ok head \<Longrightarrow> \<exists>msg. check_head head = throw (Runtime_error msg)"
  using assms by (auto simp: check_head_def elf_ok_def ident_head from_outcome_def andthen_def ret_def throw_def)

definition past_head :: "loading \<Rightarrow> loading" where
  "past_head s = s\<lparr>fpos := fpos s + length (take 64 (drop (fpos s) (content s)))\<rparr>"

lemma load_read_head: "load_read 64 s = (Ret (take 64 (drop (fpos s) (content s))), past_head s)"
  by (simp add: load_read_def past_head_def Let_def)

lemma new_proc_bad:
  assumes "\<not> elf_ok (head_read head0 s)"
  shows "\<exists>msg. new_proc fuel pl head0 phead0 flags0 stdo stdi s = (Throw (Runtime_error msg), past_head s)"
proof -
  obtain msg where "check_head (head_read head0 s) = throw (Runtime_error msg)"
    using check_head_ok(2)[OF head_read_def assms] by blast
  then show ?thesis
    by (simp add: new_proc_def andthen_Ret[OF load_read_head] Let_def head_read_def andthen_throw)
qed

lemma new_proc_good:
  assumes "elf_ok (head_read head0 s)" "get_page 7 (palloc (vm_of s)) = (p, t)" "p + 4096 \<le> 2 ^ 39"
  obtains s1 where "content s1 = content s" "c_pid s1 = c_pid s" "cr3 s1 = of_nat p"
    "new_proc fuel pl head0 phead flag stdo stdi s =
      (let H = head_read head0 s in
       andthen (load_segments fuel pl (ph_entry_size H) (ph_entry_num H) (ph_offset H) phead)
         (\<lambda>_. new_context H flag stdo stdi (of_nat p)) s1)"
proof -
  have "unat (of_nat p :: u64) = p" using assms(3) by (simp add: unat_of_nat)
  then have u: "unat (of_nat p :: u64) + 4096 \<le> 2 ^ 39" using assms(3) by simp
  define s0 where "s0 = (past_head s)\<lparr>vm_of := (vm_of s)\<lparr>palloc := t\<rparr>\<rparr>"
  define v where "v = (vm_of s0)\<lparr>pm := (\<lambda>x. if x - of_nat p < 511 * 8 then 0 else pm (vm_of s0) x)\<rparr>"
  define s0' where "s0' = s0\<lparr>vm_of := set_entry (of_nat p) 511 (get_entry (cr3 s0) 511 v) v\<rparr>"
  have tk: "take_phpage (past_head s) = (Ret (of_nat p), s0)"
    using assms(2) by (simp add: take_phpage_def s0_def past_head_def)
  have init: "init_pml4 (of_nat p) s0 = (Ret (), s0')"
    using u by (simp only: init_pml4_def v_def s0'_def Let_def if_True)
  have "new_proc fuel pl head0 phead flag stdo stdi s =
      (let H = head_read head0 s in
       andthen (load_segments fuel pl (ph_entry_size H) (ph_entry_num H) (ph_offset H) phead)
         (\<lambda>_. new_context H flag stdo stdi (of_nat p)) (s0'\<lparr>cr3 := of_nat p\<rparr>))"
    by (simp only: new_proc_def andthen_Ret load_read_head Let_def head_read_def[symmetric]
      check_head_ok(1)[OF head_read_def assms(1)] andthen_ret tk init load_cr3_def)
  then show thesis by (rule that[rotated 3]) (simp_all add: s0'_def s0_def past_head_def)
qed

lemma new_proc_outcomes:
  assumes "length phead0 = 56" "length (content s) < 2 ^ 63"
    "new_proc fuel pl head0 phead0 flags0 stdo stdi s = (r, s')" "H = head_read head0 s"
  shows "\<not> elf_ok H \<Longrightarrow> (\<exists>msg. r = Throw (Runtime_error msg)) \<and> s' = past_head s"
    "elf_ok H \<Longrightarrow> get_page 7 (palloc (vm_of s)) = (p, t) \<Longrightarrow> p + 4096 \<le> 2 ^ 39 \<Longrightarrow>
      cr3 s' = of_nat p \<and> c_pid s' = (case r of Ret _ \<Rightarrow> wrap64 (c_pid s + 1) | _ \<Rightarrow> c_pid s)"
    "elf_ok H \<Longrightarrow> get_page 7 (palloc (vm_of s)) = (p, t) \<Longrightarrow> p + 4096 \<le> 2 ^ 39 \<Longrightarrow> r = Ret c \<Longrightarrow>
      ph_offset H + ph_entry_num H * ph_entry_size H + 56 \<le> length (content s) \<Longrightarrow>
      pid c = c_pid s \<and> rip c = entrypoint H \<and> bit (flags c) 9 \<and> context_cr3 c = of_nat p \<and>
      (\<forall>i < ph_entry_num H. segment_checked (content s) (phead_at (content s) H i))"
proof -
  show "(\<exists>msg. r = Throw (Runtime_error msg)) \<and> s' = past_head s" if "\<not> elf_ok H"
    using new_proc_bad that assms(3,4) by (metis Pair_inject)
  define load where "load = load_segments fuel pl (ph_entry_size H) (ph_entry_num H) (ph_offset H) phead0"
  have run: thesis if "elf_ok H" "get_page 7 (palloc (vm_of s)) = (p, t)" "p + 4096 \<le> 2 ^ 39"
    "\<And>s1. content s1 = content s \<Longrightarrow> c_pid s1 = c_pid s \<Longrightarrow> cr3 s1 = of_nat p \<Longrightarrow>
      andthen load (\<lambda>_. new_context H flags0 stdo stdi (of_nat p)) s1 = (r, s') \<Longrightarrow> thesis" for thesis
    by (rule new_proc_good[OF that(1)[unfolded assms(4)] that(2,3), where fuel = fuel and pl = pl and
          phead = phead0 and flag = flags0 and stdo = stdo and stdi = stdi])
      (rule that(4); use assms(3) in \<open>simp add: load_def assms(4) Let_def\<close>)
  have load: "keeps_rest load" unfolding load_def by (rule rest)
  show "cr3 s' = of_nat p \<and> c_pid s' = (case r of Ret _ \<Rightarrow> wrap64 (c_pid s + 1) | _ \<Rightarrow> c_pid s)"
    if g: "elf_ok H" "get_page 7 (palloc (vm_of s)) = (p, t)" "p + 4096 \<le> 2 ^ 39"
  proof (rule run[OF g])
    fix s1
    assume s1: "content s1 = content s" "c_pid s1 = c_pid s" "cr3 s1 = of_nat p"
      "andthen load (\<lambda>_. new_context H flags0 stdo stdi (of_nat p)) s1 = (r, s')"
    obtain x s2 where l: "load s1 = (x, s2)" by fastforce
    show ?thesis using s1 keeps_restD[OF load l] l by (cases x) (auto simp: andthen_def new_context_def)
  qed
  show "pid c = c_pid s \<and> rip c = entrypoint H \<and> bit (flags c) 9 \<and> context_cr3 c = of_nat p \<and>
      (\<forall>i < ph_entry_num H. segment_checked (content s) (phead_at (content s) H i))"
    if g: "elf_ok H" "get_page 7 (palloc (vm_of s)) = (p, t)" "p + 4096 \<le> 2 ^ 39" and r: "r = Ret c"
      and long: "ph_offset H + ph_entry_num H * ph_entry_size H + 56 \<le> length (content s)"
  proof (rule run[OF g])
    fix s1
    assume s1: "content s1 = content s" "c_pid s1 = c_pid s" "cr3 s1 = of_nat p"
      "andthen load (\<lambda>_. new_context H flags0 stdo stdi (of_nat p)) s1 = (r, s')"
    then obtain s2 where l: "load s1 = (Ret (), s2)" and c: "new_context H flags0 stdo stdi (of_nat p) s2 = (Ret c, s')"
      unfolding r by (elim andthen_cases) auto
    have inside: "ph_offset H + i * ph_entry_size H + 56 \<le> length (content s1)" if "i < ph_entry_num H" for i
    proof -
      have "i * ph_entry_size H \<le> ph_entry_num H * ph_entry_size H" using that by (intro mult_le_mono1) simp
      then show ?thesis unfolding s1(1) using long by linarith
    qed
    have "segment_checked (content s) (phead_at (content s) H i)" if "i < ph_entry_num H" for i
      using load_segments_checked[OF l[unfolded load_def] assms(1) inside _ that] assms(2) s1(1)
      by (simp add: phead_at_def)
    then show ?thesis using c keeps_restD[OF load l] s1(2) by (auto simp: new_context_def bit_simps)
  qed
qed

text \<open>
  C38: the constructor of a process throws on a file that does not begin with the header of a
  program for this machine, before anything but the position of the file has changed. When it
  returns, every segment was checked: none asks for dynamic linking, all begin and end below
  4 GiB and lie in the file; the process starts at the entry point with interrupts enabled and
  the next number. When it throws later, the tables of the unfinished process stay installed
  and no number is used.
\<close>

theorem new_proc_checks:
  assumes "length phead0 = 56" "length (content s) < 2 ^ 63" "p + 4096 \<le> 2 ^ 39"
    "new_proc fuel pl head0 phead0 flags0 stdo stdi s = (r, s')" "H = head_read head0 s"
    "get_page 7 (palloc (vm_of s)) = (p, t)"
  shows "(\<not> elf_ok H \<longrightarrow> (\<exists>msg. r = Throw (Runtime_error msg)) \<and> s' = past_head s) \<and>
    (elf_ok H \<longrightarrow> cr3 s' = of_nat p \<and> c_pid s' = (case r of Ret _ \<Rightarrow> wrap64 (c_pid s + 1) | _ \<Rightarrow> c_pid s)) \<and>
    (\<forall>c. elf_ok H \<and> r = Ret c \<and> ph_offset H + ph_entry_num H * ph_entry_size H + 56 \<le> length (content s) \<longrightarrow>
      pid c = c_pid s \<and> rip c = entrypoint H \<and> bit (flags c) 9 \<and> context_cr3 c = of_nat p \<and>
      (\<forall>i < ph_entry_num H. segment_checked (content s) (phead_at (content s) H i)))"
proof (intro conjI allI impI)
qed (use new_proc_outcomes[OF assms(1,2,4,5)] assms(3,6) in \<open>blast+\<close>)

definition demo_elf :: "u8 list" where
  "demo_elf = [0x7f, 0x45, 0x4c, 0x46] @ replicate 12 0 @ [2, 0, 0x3e, 0, 1, 0, 0, 0] @ [0, 16, 64, 0, 0, 0, 0, 0] @
     replicate 32 0"

definition demo_loading :: loading where
  "demo_loading = \<lparr>vm_of = chain_vm, cr3 = 0x5000, c_pid = 7, content = demo_elf, fpos = 0\<rparr>"

lemma demo_head: "elf_ok (head_read h demo_loading)" "entrypoint (head_read h demo_loading) = 0x401000"
  "ph_entry_num (head_read h demo_loading) = 0" "ph_offset (head_read h demo_loading) = 0"
  by (simp_all add: elf_ok_def head_read_def demo_loading_def read_file_header_def value_at_numeral as_memory_def over_def demo_elf_def
      upt_rec EXEC_def nth_append)

theorem new_proc_checks_witness:
  "\<exists>c s'. new_proc 3 chain_platform [] (replicate 56 0) 0 1 2 demo_loading = (Ret c, s') \<and>
     pid c = 7 \<and> rip c = 0x401000 \<and> bit (flags c) 9 \<and> c_pid s' = 8 \<and> cr3 s' = context_cr3 c"
proof -
  have tree: "wf_ph 7 (palloc (vm_of demo_loading))" "free_at 7 (palloc (vm_of demo_loading)) 0"
    using new_ph_tree_spec[of 7] by (simp_all add: demo_loading_def chain_vm_def npages_def)
  obtain n t where g: "get_page 7 (palloc (vm_of demo_loading)) = (n * 4096, t)" "n < 2 ^ 20"
    using get_page_number[OF tree] by metis
  have p: "n * 4096 + 4096 \<le> 2 ^ 39" using g(2) by simp
  have len: "length (replicate 56 (0 :: u8)) = 56" "length (content demo_loading) < 2 ^ 63"
    by (simp_all add: demo_loading_def demo_elf_def)
  obtain s1 where "new_proc 3 chain_platform [] (replicate 56 0) 0 1 2 demo_loading =
      new_context (head_read [] demo_loading) 0 1 2 (of_nat (n * 4096)) s1"
    by (rule new_proc_good[OF demo_head(1)[of "[]"] g(1) p, where fuel = 3 and pl = chain_platform and
          phead = "replicate 56 0" and flag = 0 and stdo = 1 and stdi = 2])
      (simp add: Let_def demo_head andthen_ret)
  then obtain c s' where r: "new_proc 3 chain_platform [] (replicate 56 0) 0 1 2 demo_loading = (Ret c, s')"
    by (auto simp: new_context_def)
  have long: "ph_offset (head_read [] demo_loading) + ph_entry_num (head_read [] demo_loading) *
      ph_entry_size (head_read [] demo_loading) + 56 \<le> length (content demo_loading)"
    by (simp add: demo_head) (simp add: demo_loading_def demo_elf_def)
  have "c_pid demo_loading = 7" by (simp add: demo_loading_def)
  then show ?thesis
    using new_proc_checks[OF len p r refl g(1)] demo_head(1)[of "[]"] long r by (auto simp: demo_head)
qed

text \<open>
  Two segments that share a page: the second call of \<^verbatim>\<open>back_vmem\<close> gives the page a new place in
  memory, and what the first segment stored there is no longer seen.
\<close>

lemma shared_page_moves:
  assumes "tables_present (get_cr3 pl) a v" "canonical_check a" "a AND mask 12 = 0" "wf_ph 7 (palloc v)"
    "free_at 7 (palloc v) k" "hw_walk 4 (pm v) (get_cr3 pl) a True = Some (rw, of_nat (m * 4096))"
    "\<not> free_at 7 (palloc v) m" "m < 2 ^ 20"
  shows "\<exists>n v'. back_vmem pl km a 4096 4 0 v = (Ret True, v') \<and>
    hw_walk 4 (pm v') (get_cr3 pl) a True = Some (True, of_nat (n * 4096)) \<and> n \<noteq> m"
proof -
  have "(4 :: u64) AND 128 = 0" by simp
  from back_vmem_maps_free_page[OF assms(1-3) this assms(4,5)] assms(7) show ?thesis by blast
qed

end
