(* ===== verification/Checksum.thy ===== *)
theory Checksum
  imports Prelude
begin

text \<open>
  The checksum programs of user space, userspace/cksum.cpp and md5sum.cpp. Standard input is
  the list of the bytes that it will deliver, \<^verbatim>\<open>fread\<close> that of userspace/user_libc.cc: the
  system call, which stores as many bytes as there are, up to the size of the block, and
  returns their number. What the variables hold before they are first stored to is an argument.
\<close>

fun word_of :: "u8 list \<Rightarrow> u32" where
  "word_of [] = 0"
| "word_of (b # bs) = ucast b OR push_bit 8 (word_of bs)"

text \<open>The block with the first bytes of the input stored to it, and the rest of the input.\<close>

definition fread_block :: "u8 list \<Rightarrow> u8 list \<Rightarrow> nat \<times> u8 list \<times> u8 list" where
  "fread_block block input =
    (let n = min (length block) (length input) in (n, take n input @ drop n block, drop n input))"

section \<open>\<^verbatim>\<open>CRC32\<close>\<close>

definition crc_step :: "u32 \<Rightarrow> u32" where
  "crc_step crc32 = (if crc32 AND 1 \<noteq> 0 then drop_bit 1 crc32 XOR 0xEDB88320 else drop_bit 1 crc32)"

fun crc_bits :: "nat \<Rightarrow> u32 \<Rightarrow> u32" where
  "crc_bits 0 crc32 = crc32"
| "crc_bits (Suc n) crc32 = crc_bits n (crc_step crc32)"

function CRC32_loop :: "u8 list \<Rightarrow> u8 list \<Rightarrow> u32 \<Rightarrow> u32" where
  "CRC32_loop data input crc32 =
    (case fread_block data input of (n, data, input') \<Rightarrow>
      if n = 0 then crc32 else CRC32_loop data input' (crc_bits 32 (crc32 XOR word_of data)))"
  by pat_completeness auto
termination
  by (relation "measure (\<lambda>(_, input, _). length input)") (auto simp: fread_block_def Let_def)

definition CRC32 :: "u8 list \<Rightarrow> u8 list \<Rightarrow> u32" where
  "CRC32 junk input = CRC32_loop junk input 0xFFFFFFFF XOR 0xFFFFFFFF"

declare CRC32_loop.simps [simp del] crc_bits.simps [simp del]

section \<open>The checksum of a sequence of bytes\<close>

text \<open>CRC-32 one byte at a time, as it is specified.\<close>

definition crc_byte :: "u8 \<Rightarrow> u32 \<Rightarrow> u32" where
  "crc_byte b crc = crc_bits 8 (crc XOR ucast b)"

definition crc32_of :: "u8 list \<Rightarrow> u32" where
  "crc32_of bs = fold crc_byte bs 0xFFFFFFFF XOR 0xFFFFFFFF"

lemma bit_word_of: "bit (word_of bs) i \<Longrightarrow> i < 8 * length bs"
proof (induction bs arbitrary: i)
  case (Cons b bs)
  show ?case using Cons.prems Cons.IH[of "i - 8"] by (auto simp: bit_simps dest: bit_imp_le_length)
qed simp

lemma crc_bits_add: "crc_bits (m + n) c = crc_bits n (crc_bits m c)"
  by (induction m arbitrary: c) (simp_all add: crc_bits.simps)

text \<open>Bits that have not reached the end only move.\<close>

lemma crc_bits_shift:
  assumes "\<forall>i < n. \<not> bit x i"
  shows "crc_bits n (c XOR x) = crc_bits n c XOR drop_bit n x"
  using assms
proof (induction n arbitrary: c x)
  case (Suc n)
  have "(c XOR x) AND 1 = c AND 1"
    using Suc.prems by (intro bit_word_eqI) (auto simp: bit_simps)
  then have "crc_step (c XOR x) = crc_step c XOR drop_bit 1 x"
    by (simp add: crc_step_def xor.assoc xor.commute xor.left_commute)
  moreover have "\<forall>i < n. \<not> bit (drop_bit 1 x) i" using Suc.prems by (auto simp: bit_simps)
  ultimately show ?case using Suc.IH[of "drop_bit 1 x" "crc_step c"] by (simp add: crc_bits.simps(2))
qed (simp add: crc_bits.simps)

lemma word_of_Cons_xor: "word_of (b # bs) = ucast b XOR push_bit 8 (word_of bs)"
  by (rule bit_word_eqI) (auto simp: bit_simps dest: bit_imp_le_length)

lemma crc_bits_bytes:
  "length bs \<le> 4 \<Longrightarrow> crc_bits (8 * length bs) (c XOR word_of bs) = fold crc_byte bs c"
proof (induction bs arbitrary: c)
  case (Cons b bs)
  have kept: "drop_bit 8 (push_bit 8 (word_of bs)) = word_of bs"
    using Cons.prems by (intro bit_word_eqI) (auto simp: bit_simps dest: bit_word_of)
  have "crc_bits (8 * length (b # bs)) (c XOR word_of (b # bs)) =
      crc_bits (8 * length bs) (crc_bits 8 ((c XOR ucast b) XOR push_bit 8 (word_of bs)))"
    by (simp add: word_of_Cons_xor crc_bits_add[of 8, symmetric] xor.assoc add.commute del: word_of.simps)
  also have "crc_bits 8 ((c XOR ucast b) XOR push_bit 8 (word_of bs)) = crc_byte b c XOR word_of bs"
    by (subst crc_bits_shift) (auto simp: crc_byte_def kept bit_simps)
  also have "crc_bits (8 * length bs) \<dots> = fold crc_byte bs (crc_byte b c)"
    using Cons by simp
  finally show ?case by simp
qed (simp add: crc_bits.simps)

text \<open>
  What the program adds to its input: a last block of one to three bytes is filled up with
  what the block before it (or the variable) held at the other places.
\<close>

fun padded :: "u8 list \<Rightarrow> u8 list \<Rightarrow> u8 list" where
  "padded data (a # b # c # d # input) = a # b # c # d # padded [a, b, c, d] input"
| "padded data [] = []"
| "padded data [a] = a # drop 1 data"
| "padded data [a, b] = a # b # drop 2 data"
| "padded data [a, b, c] = a # b # c # drop 3 data"

lemma CRC32_loop_padded:
  "length data = 4 \<Longrightarrow> CRC32_loop data input crc = fold crc_byte (padded data input) crc"
proof (induction data input arbitrary: crc rule: padded.induct)
  case (1 data a b c d input)
  then show ?case using crc_bits_bytes[of "[a, b, c, d]"]
    by (subst CRC32_loop.simps) (simp add: fread_block_def Let_def del: word_of.simps)
next
  case (2 data)
  then show ?case by (subst CRC32_loop.simps) (simp add: fread_block_def)
next
  case (3 data a)
  then show ?case using crc_bits_bytes[of "a # drop 1 data"]
    by (subst CRC32_loop.simps, subst CRC32_loop.simps)
      (simp add: fread_block_def Let_def del: word_of.simps)
next
  case (4 data a b)
  then show ?case using crc_bits_bytes[of "a # b # drop (Suc (Suc 0)) data"]
    by (subst CRC32_loop.simps, subst CRC32_loop.simps)
      (simp add: fread_block_def Let_def numeral_2_eq_2 del: word_of.simps)
next
  case (5 data a b d)
  then show ?case using crc_bits_bytes[of "a # b # d # drop (Suc (Suc (Suc 0))) data"]
    by (subst CRC32_loop.simps, subst CRC32_loop.simps)
      (simp add: fread_block_def Let_def numeral_3_eq_3 del: word_of.simps)
qed

lemma padded_whole: "4 dvd length input \<Longrightarrow> padded data input = input"
proof (induction data input rule: padded.induct)
  case (1 data a b c d input)
  have "4 dvd length input" using 1(2) by simp presburger
  then show ?case using 1(1) by simp
qed (auto dest: dvd_imp_le)

lemma CRC32_padded: "length junk = 4 \<Longrightarrow> CRC32 junk input = crc32_of (padded junk input)"
  by (simp add: CRC32_def crc32_of_def CRC32_loop_padded)

lemma xor_cancel_right: "(x :: 'a::len word) XOR z = y XOR z \<longleftrightarrow> x = y"
proof
  assume "x XOR z = y XOR z"
  then have "(x XOR z) XOR z = (y XOR z) XOR z" by simp
  then show "x = y" by (simp only: xor.assoc xor_self_eq xor.right_neutral)
qed simp

lemma xor_cancel_left: "(z :: 'a::len word) XOR x = z XOR y \<longleftrightarrow> x = y"
  by (simp only: xor.commute[of z] xor_cancel_right)

text \<open>No two states of the register have the same successor, so that no change of a block is lost.\<close>

lemma crc_step_inj:
  assumes "crc_step x = crc_step y"
  shows "x = y"
proof -
  have top: "bit (crc_step c) 31 \<longleftrightarrow> odd c" for c
    by (auto simp: crc_step_def bit_simps and_one_eq odd_iff_mod_2_eq_one dest: bit_imp_le_length)
  have low: "odd x \<longleftrightarrow> odd y" using top[of x] top[of y] assms by simp
  then have "drop_bit 1 x = drop_bit 1 y"
    using assms by (auto simp: crc_step_def and_one_eq odd_iff_mod_2_eq_one xor_cancel_right split: if_splits)
  then have rest: "bit x (Suc i) = bit y (Suc i)" for i
    using bit_drop_bit_eq[of 1 x] bit_drop_bit_eq[of 1 y] by (simp add: fun_eq_iff)
  show ?thesis
  proof (rule bit_word_eqI)
    show "bit x i = bit y i" for i using low rest by (cases i) (simp_all add: bit_0)
  qed
qed

lemma crc_bits_inj: "crc_bits n x = crc_bits n y \<Longrightarrow> x = y"
  by (induction n arbitrary: x y) (auto simp: crc_bits.simps dest: crc_step_inj)

lemma fold_crc_byte_inj: "fold crc_byte bs x = fold crc_byte bs y \<Longrightarrow> x = y"
proof (induction bs arbitrary: x y)
  case (Cons b bs)
  then have "crc_byte b x = crc_byte b y" by simp
  then have "x XOR ucast b = y XOR ucast b" unfolding crc_byte_def by (rule crc_bits_inj)
  then show ?case by (simp only: xor_cancel_right)
qed simp

lemma word_of_inj: "length bs = length cs \<Longrightarrow> length bs \<le> 4 \<Longrightarrow> word_of bs = word_of cs \<Longrightarrow> bs = cs"
proof (induction bs cs rule: list_induct2)
  case (Cons b bs c cs)
  have "bit (word_of (b # bs)) i = bit (word_of (c # cs)) i" for i using Cons.prems by simp
  note bits = this[unfolded word_of_Cons_xor bit_xor_iff bit_push_bit_iff]
  have "bit b i = bit c i" if "i < 8" for i using bits[of i] that by (simp add: bit_simps)
  then have "b = c" by (auto intro: bit_word_eqI)
  moreover have "bit (word_of bs) i = bit (word_of cs) i" for i
    using bits[of "8 + i"] Cons.prems(1) Cons.hyps bit_word_of[of bs i] bit_word_of[of cs i]
    by (auto simp: bit_simps dest: bit_imp_le_length)
  ultimately show ?case using Cons.IH Cons.prems(1) by (auto intro: bit_eqI)
qed simp

text \<open>A change within four bytes that follow one another is always detected.\<close>

lemma crc32_of_detects:
  assumes "length bs = length cs" "length bs \<le> 4" "bs \<noteq> cs"
  shows "crc32_of (us @ bs @ vs) \<noteq> crc32_of (us @ cs @ vs)"
proof
  let ?c = "fold crc_byte us 0xFFFFFFFF"
  assume "crc32_of (us @ bs @ vs) = crc32_of (us @ cs @ vs)"
  then have "fold crc_byte vs (fold crc_byte bs ?c) = fold crc_byte vs (fold crc_byte cs ?c)"
    unfolding crc32_of_def fold_append comp_def xor_cancel_right .
  then have "fold crc_byte bs ?c = fold crc_byte cs ?c" by (rule fold_crc_byte_inj)
  then have "crc_bits (8 * length bs) (?c XOR word_of bs) = crc_bits (8 * length bs) (?c XOR word_of cs)"
    using crc_bits_bytes[of bs] crc_bits_bytes[of cs] assms by simp
  then have "?c XOR word_of bs = ?c XOR word_of cs" by (rule crc_bits_inj)
  then have "word_of bs = word_of cs" by (simp only: xor_cancel_left)
  then show False using word_of_inj assms by blast
qed



section \<open>\<^verbatim>\<open>md5\<close>\<close>

definition md5_s :: "nat list" where
  "md5_s = [7, 12, 17, 22, 7, 12, 17, 22, 7, 12, 17, 22, 7, 12, 17, 22, 5, 9, 14, 20, 5, 9, 14, 20, 5, 9, 14, 20, 5, 9, 14, 20, 4, 11, 16, 23, 4, 11, 16, 23, 4, 11, 16, 23, 4, 11, 16, 23, 6, 10, 15, 21, 6, 10, 15, 21, 6, 10, 15, 21, 6, 10, 15, 21]"

definition md5_k :: "u32 list" where
  "md5_k = [0xd76aa478, 0xe8c7b756, 0x242070db, 0xc1bdceee, 0xf57c0faf, 0x4787c62a,
     0xa8304613, 0xfd469501, 0x698098d8, 0x8b44f7af, 0xffff5bb1, 0x895cd7be,
     0x6b901122, 0xfd987193, 0xa679438e, 0x49b40821, 0xf61e2562, 0xc040b340,
     0x265e5a51, 0xe9b6c7aa, 0xd62f105d, 0x02441453, 0xd8a1e681, 0xe7d3fbc8,
     0x21e1cde6, 0xc33707d6, 0xf4d50d87, 0x455a14ed, 0xa9e3e905, 0xfcefa3f8,
     0x676f02d9, 0x8d2a4c8a, 0xfffa3942, 0x8771f681, 0x6d9d6122, 0xfde5380c,
     0xa4beea44, 0x4bdecfa9, 0xf6bb4b60, 0xbebfbc70, 0x289b7ec6, 0xeaa127fa,
     0xd4ef3085, 0x04881d05, 0xd9d4d039, 0xe6db99e5, 0x1fa27cf8, 0xc4ac5665,
     0xf4292244, 0x432aff97, 0xab9423a7, 0xfc93a039, 0x655b59c3, 0x8f0ccc92,
     0xffeff47d, 0x85845dd1, 0x6fa87e4f, 0xfe2ce6e0, 0xa3014314, 0x4e0811a1,
     0xf7537e82, 0xbd3af235, 0x2ad7d2bb, 0xeb86d391]"

text \<open>The buffer has 16 words; a store behind it is a fault.\<close>

definition set_word :: "nat \<Rightarrow> u32 \<Rightarrow> (u32 list, unit) action" where
  "set_word i v buffer = (if i < 16 then (Ret (), buffer[i := v]) else (Fault ''out of bounds'', buffer))"

fun set_words :: "nat list \<Rightarrow> u32 \<Rightarrow> (u32 list, unit) action" where
  "set_words [] v = ret ()"
| "set_words (i # is) v = andthen (set_word i v) (\<lambda>_. set_words is v)"

definition md5_step :: "u32 list \<Rightarrow> nat \<Rightarrow> u32 \<times> u32 \<times> u32 \<times> u32 \<Rightarrow> u32 \<times> u32 \<times> u32 \<times> u32" where
  "md5_step buffer i r = (case r of (A, B, C, D) \<Rightarrow>
    let (f, g) =
      (if i < 16 then ((B AND C) OR (NOT B AND D), i)
       else if i < 32 then ((D AND B) OR (NOT D AND C), (5 * i + 1) mod 16)
       else if i < 48 then (B XOR C XOR D, (3 * i + 5) mod 16)
       else (C XOR (B OR NOT D), (7 * i) mod 16))
    in (D, B + push_bit (md5_s ! i) (A + f + md5_k ! i + buffer ! g), B, C))"

text \<open>The iteration computes in variables of its own: \<^verbatim>\<open>a0\<close> to \<^verbatim>\<open>d0\<close> never change.\<close>

definition md5_init :: "u32 \<times> u32 \<times> u32 \<times> u32" where
  "md5_init = (0x67452301, 0xefcdab89, 0x98badcfe, 0x10325476)"

definition hash_iteration :: "u32 list \<Rightarrow> u32 \<times> u32 \<times> u32 \<times> u32" where
  "hash_iteration buffer = fold (md5_step buffer) [0..<64] md5_init"

definition bytes_of :: "u32 list \<Rightarrow> u8 list" where
  "bytes_of ws = concat (map (\<lambda>w. map (\<lambda>k. ucast (drop_bit (8 * k) w)) [0..<4]) ws)"

definition words_of :: "u8 list \<Rightarrow> u32 list" where
  "words_of bs = map (\<lambda>i. word_of (take 4 (drop (4 * i) bs))) [0..<length bs div 4]"

definition md5_read :: "u32 list \<Rightarrow> u8 list \<Rightarrow> nat \<times> u32 list \<times> u8 list" where
  "md5_read buffer input =
    (case fread_block (bytes_of buffer) input of (n, bs, input) \<Rightarrow> (n, words_of bs, input))"

text \<open>The last block: the new \<^verbatim>\<open>file_size\<close>, \<^verbatim>\<open>additional_block\<close> and the registers.\<close>

definition md5_last :: "nat \<Rightarrow> nat \<Rightarrow> (u32 list, nat \<times> bool \<times> u32 \<times> u32 \<times> u32 \<times> u32) action" where
  "md5_last n file_size =
    andthen (set_word n 0x80) (\<lambda>_.
    andthen (if n < 62
       then andthen (set_words [n + 1..<64] 0) (\<lambda>_.
            andthen (set_word 14 (of_nat (file_size * 8))) (\<lambda>_.
            andthen (set_word 15 (of_nat (file_size div 2 ^ 29))) (\<lambda>_. ret (0, False))))
       else ret (file_size, True)) (\<lambda>(file_size, additional_block) buffer.
    (Ret (file_size, additional_block, hash_iteration buffer), buffer)))"

function md5_loop :: "u8 list \<Rightarrow> nat \<Rightarrow> (u32 list, nat \<times> bool \<times> u32 \<times> u32 \<times> u32 \<times> u32) action" where
  "md5_loop input file_size buffer = (case md5_read buffer input of (n, buffer, input') \<Rightarrow>
     let file_size = wrap64 (file_size + n)
     in if n < 64 then md5_last n file_size buffer else md5_loop input' file_size buffer)"
  by pat_completeness auto
termination
  by (relation "measure (\<lambda>(input, _, _). length input)") (auto simp: md5_read_def fread_block_def Let_def)

text \<open>The words of the result are made with shifts of 32-bit numbers by 32.\<close>

definition md5 :: "u8 list \<Rightarrow> (u32 list, u64 list) action" where
  "md5 input =
    andthen (md5_loop input 0) (\<lambda>(file_size, additional_block, registers).
    andthen (if additional_block
       then andthen (set_words [0..<14] 0) (\<lambda>_.
            andthen (set_word 14 (of_nat (file_size * 8))) (\<lambda>_.
            set_word 15 (of_nat (file_size div 2 ^ 29))))
       else ret ()) (\<lambda>_ buffer. (Fault ''shift by the width'', buffer)))"

declare md5_loop.simps [simp del]

lemma fault_andthen: "fst (m s) = Fault f \<Longrightarrow> fst (andthen m k s) = Fault f"
  by (cases "m s") (auto simp: andthen_def)

lemma set_words_far: "i \<in> set is \<Longrightarrow> 16 \<le> i \<Longrightarrow> fst (set_words is v buffer) = Fault ''out of bounds''"
proof (induction "is" arbitrary: buffer)
  case (Cons j js)
  then show ?case by (cases "j < 16") (auto simp: set_word_def andthen_def)
qed simp

text \<open>
  \<^verbatim>\<open>md5\<close> counts bytes where it indexes words: at the end of every input it stores behind its
  buffer.
\<close>

lemma md5_stores_behind_buffer: "fst (md5 input buffer) = Fault ''out of bounds''"
proof -
  have last: "fst (md5_last n size buffer) = Fault ''out of bounds''" if "n < 64" for n size buffer
  proof (cases "n < 16")
    case True
    then have "fst (set_words [n + 1..<64] 0 b) = Fault ''out of bounds''" for b
      using set_words_far[of 63 "[n + 1..<64]"] by auto
    then obtain b' where "set_words [n + 1..<64] 0 (buffer[n := 0x80]) = (Fault ''out of bounds'', b')"
      by (metis prod.collapse)
    with True show ?thesis by (simp add: md5_last_def set_word_def andthen_def)
  qed (simp add: md5_last_def set_word_def andthen_def)
  have "fst (md5_loop input size buffer) = Fault ''out of bounds''" for size
  proof (induction input size buffer rule: md5_loop.induct)
    case (1 input size buffer)
    obtain n b rest where r: "md5_read buffer input = (n, b, rest)" by (metis prod_cases3)
    show ?case
      using last[of n] 1[OF r[symmetric] refl refl] by (cases "n < 64"; subst md5_loop.simps) (simp_all add: r Let_def)
  qed
  then show ?thesis unfolding md5_def by (rule fault_andthen)
qed

end
