(* ===== verification/AhciInit.thy ===== *)
theory AhciInit
  imports Ports
begin

text \<open>
  The start of the disk adapter, the part of drivers/ahci/ahci.cc that reads: the constructor
  of \<^verbatim>\<open>driver\<close>, which checks the configuration space of the device and looks for the
  capability of message interrupts, and the choice of a port. The configuration space is read
  as in Ports; the registers of the adapter are not part of the model.
\<close>

text \<open>\<^verbatim>\<open>uint32_t config[64]\<close>, from the bytes that \<^verbatim>\<open>read\<close> has delivered.\<close>

definition config_words :: "u8 list \<Rightarrow> nat \<Rightarrow> u32" where
  "config_words bs i = fold (\<lambda>k w. set_byte k (bs ! (4 * i + k)) w) [0..<4] 0"

definition is_msi :: "(nat \<Rightarrow> u32) \<Rightarrow> nat \<Rightarrow> bool" where
  "is_msi config cap \<longleftrightarrow> config (cap div 4) AND 0x0f = 0x05"

definition next_cap :: "(nat \<Rightarrow> u32) \<Rightarrow> nat \<Rightarrow> nat" where
  "next_cap config cap = unat (drop_bit 8 (config (cap div 4)) AND 0xff)"

text \<open>The loop, which may not end: \<open>Some None\<close> is the end of the list, \<open>None\<close> no end at all.\<close>

partial_function (option) find_msi :: "(nat \<Rightarrow> u32) \<Rightarrow> nat \<Rightarrow> nat option option" where
  "find_msi config cap =
    (if is_msi config cap then Some (Some cap)
     else if next_cap config cap = 0 then Some None
     else find_msi config (next_cap config cap))"

record adapter =
  abar :: u32
  msicap :: nat

definition first_cap :: "(nat \<Rightarrow> u32) \<Rightarrow> nat" where
  "first_cap config = unat ((config 0xd AND 0xff) AND NOT 3)"

definition driver_checks :: "(nat \<Rightarrow> u32) \<Rightarrow> adapter outcome" where
  "driver_checks config =
    (if drop_bit 16 (config 2) AND 0xffff \<noteq> 0x0106 then Throw (Runtime_error ''[ahci] Invalid device type.'')
     else if config 9 AND 0xfff \<noteq> 0 then Throw (Runtime_error ''[ahci] ABAR structure doesn't follow spec'')
     else case find_msi config (first_cap config) of
       None \<Rightarrow> Hang
     | Some None \<Rightarrow> Throw (Runtime_error ''[ahci] Couldn't find MSI capability'')
     | Some (Some cap) \<Rightarrow> Ret \<lparr>abar = config 9, msicap = cap\<rparr>)"

text \<open>The constructor, on the handle of the configuration space. A short read leaves bytes of \<open>junk\<close>.\<close>

definition new_ahci_driver :: "'d bus \<Rightarrow> u8 list \<Rightarrow> ('d csp, adapter) action" where
  "new_ahci_driver io junk =
    andthen (csp_read io 256) (\<lambda>bs s. (driver_checks (config_words (bs @ drop (length bs) junk)), s))"

text \<open>\<^verbatim>\<open>get_port\<close>: the ports that the adapter implements.\<close>

definition get_port :: "u32 \<Rightarrow> int \<Rightarrow> nat outcome" where
  "get_port port_impl_btmp portnum =
    (if portnum \<ge> 32 then Throw (Einval '''')
     else if portnum < 0 then Fault ''undefined shift''
     else if port_impl_btmp AND push_bit (nat portnum) 1 \<noteq> 0 then Ret (nat portnum)
     else Throw (Enxio ''[ahci] Port not implemented''))"

section \<open>The list of capabilities\<close>

definition cap_at :: "(nat \<Rightarrow> u32) \<Rightarrow> nat \<Rightarrow> nat \<Rightarrow> nat" where
  "cap_at config k cap = (next_cap config ^^ k) cap"

definition list_stops :: "(nat \<Rightarrow> u32) \<Rightarrow> nat \<Rightarrow> bool" where
  "list_stops config cap \<longleftrightarrow> is_msi config cap \<or> next_cap config cap = 0"

lemma cap_at_simps: "cap_at config 0 cap = cap" "cap_at config (Suc k) cap = cap_at config k (next_cap config cap)"
  by (simp_all add: cap_at_def funpow_swap1)

lemma next_cap_less: "next_cap config cap < 256"
proof -
  have "(0xff :: u32) = mask 8" by (simp add: mask_eq_exp_minus_1)
  moreover have "unat (x AND mask 8) < 2 ^ 8" for x :: u32
    unfolding take_bit_eq_mask[symmetric] by (simp only: unsigned_take_bit_eq take_bit_nat_less_exp)
  ultimately show ?thesis by (simp add: next_cap_def)
qed

lemma find_msi_at:
  assumes "list_stops config (cap_at config k cap)" "\<And>j. j < k \<Longrightarrow> \<not> list_stops config (cap_at config j cap)"
  shows "find_msi config cap =
    Some (if is_msi config (cap_at config k cap) then Some (cap_at config k cap) else None)"
  using assms
proof (induction k arbitrary: cap)
  case 0
  then show ?case by (auto simp: find_msi.simps[of config cap] cap_at_simps list_stops_def)
next
  case (Suc k)
  have "\<not> list_stops config cap" using Suc.prems(2)[of 0] by (simp add: cap_at_simps)
  then have "find_msi config cap = find_msi config (next_cap config cap)"
    by (simp add: find_msi.simps[of config cap] list_stops_def)
  moreover have "\<not> list_stops config (cap_at config j (next_cap config cap))" if "j < k" for j
    using Suc.prems(2)[of "Suc j"] that by (simp add: cap_at_simps)
  ultimately show ?case using Suc.IH[of "next_cap config cap"] Suc.prems(1) by (simp add: cap_at_simps)
qed

lemma find_msi_stops: "find_msi config cap = Some r \<Longrightarrow> \<exists>k. list_stops config (cap_at config k cap)"
proof (induction rule: find_msi.raw_induct[rotated, consumes 1, case_names step])
  case (step find config cap r)
  show ?case
  proof (cases "list_stops config cap")
    case True
    then show ?thesis by (intro exI[of _ 0]) (simp add: cap_at_simps)
  next
    case False
    then have "find config (next_cap config cap) = Some r" using step(2) by (simp add: list_stops_def)
    from step(1)[OF this] show ?thesis by (metis cap_at_simps(2))
  qed
qed

text \<open>
  There are 256 places: a list that has not stopped after 256 steps has come back to a place
  where it has been.
\<close>

lemma list_stops_early:
  assumes "list_stops config (cap_at config k cap)"
  shows "\<exists>j \<le> 256. list_stops config (cap_at config j cap)"
proof -
  define m where "m = (LEAST j. list_stops config (cap_at config j cap))"
  have m: "list_stops config (cap_at config m cap)" "\<And>j. j < m \<Longrightarrow> \<not> list_stops config (cap_at config j cap)"
    unfolding m_def using assms by (auto intro: LeastI dest: not_less_Least)
  have step: "cap_at config (Suc j) cap = next_cap config (cap_at config j cap)" for j by (simp add: cap_at_def)
  have "m \<le> 256"
  proof (rule ccontr)
    assume "\<not> m \<le> 256"
    have "(\<lambda>j. cap_at config (Suc j) cap) ` {..256} \<subseteq> {..<256}"
      using next_cap_less by (auto simp: step)
    then have "card ((\<lambda>j. cap_at config (Suc j) cap) ` {..256}) \<le> 256"
      using card_mono[of "{..<256 :: nat}"] by (metis card_lessThan finite_lessThan)
    then have "\<not> inj_on (\<lambda>j. cap_at config (Suc j) cap) {..256 :: nat}" by (intro pigeonhole) simp
    then obtain i j where ij: "i < j" "j \<le> 256" "cap_at config (Suc i) cap = cap_at config (Suc j) cap"
      unfolding inj_on_def by (metis atMost_iff linorder_neqE_nat order.strict_trans1 order.strict_implies_order)
    have again: "cap_at config (Suc i + n) cap = cap_at config (Suc j + n) cap" for n
    proof (induction n)
      case (Suc n)
      then show ?case using step[of "Suc i + n"] step[of "Suc j + n"] by simp
    qed (simp add: ij)
    obtain n where "m = Suc j + n" using ij(2) \<open>\<not> m \<le> 256\<close> by (metis Suc_leI le_Suc_ex less_le_trans not_le le_trans)
    then show False using m again[of n] ij(1) by (metis add_less_mono1 Suc_less_eq)
  qed
  then show ?thesis using m(1) by blast
qed

lemma find_msi_ends:
  shows "find_msi config cap \<noteq> None \<longleftrightarrow> (\<exists>k \<le> 256. list_stops config (cap_at config k cap))"
    "find_msi config cap = Some (Some c) \<longleftrightarrow>
      (\<exists>k \<le> 256. c = cap_at config k cap \<and> is_msi config c \<and> (\<forall>j < k. \<not> list_stops config (cap_at config j cap)))"
    "drop_bit 16 (config 2) AND 0xffff = 0x0106 \<Longrightarrow> config 9 AND 0xfff = 0 \<Longrightarrow>
      driver_checks config = Hang \<longleftrightarrow> (\<forall>k. \<not> list_stops config (cap_at config k (first_cap config)))"
proof -
  have first: "\<exists>k \<le> 256. list_stops config (cap_at config k cap) \<and> (\<forall>j < k. \<not> list_stops config (cap_at config j cap))"
    if "list_stops config (cap_at config k cap)" for k cap
  proof -
    from list_stops_early[OF that] obtain i where i: "i \<le> 256" "list_stops config (cap_at config i cap)" by blast
    define m where "m = (LEAST j. list_stops config (cap_at config j cap))"
    have "m \<le> i" "list_stops config (cap_at config m cap)" "\<forall>j < m. \<not> list_stops config (cap_at config j cap)"
      unfolding m_def using i(2) by (auto intro: LeastI Least_le dest: not_less_Least)
    then show ?thesis using i(1) by (intro exI[of _ m]) simp
  qed
  have ends: "find_msi config cap \<noteq> None \<longleftrightarrow> (\<exists>k \<le> 256. list_stops config (cap_at config k cap))" for cap
    using first find_msi_stops[of config cap] find_msi_at[of config _ cap] by (metis option.exhaust option.simps(3))
  then show "find_msi config cap \<noteq> None \<longleftrightarrow> (\<exists>k \<le> 256. list_stops config (cap_at config k cap))" .
  show "find_msi config cap = Some (Some c) \<longleftrightarrow>
      (\<exists>k \<le> 256. c = cap_at config k cap \<and> is_msi config c \<and> (\<forall>j < k. \<not> list_stops config (cap_at config j cap)))" (is "?l = ?r")
  proof
    assume l: ?l
    then obtain k where k: "k \<le> 256" "list_stops config (cap_at config k cap)"
        "\<forall>j < k. \<not> list_stops config (cap_at config j cap)"
      using first find_msi_stops by (metis option.sel)
    then show ?r using find_msi_at[OF k(2)] l by (auto split: if_splits)
  next
    assume ?r
    then obtain k where k: "c = cap_at config k cap" "is_msi config c" "\<forall>j < k. \<not> list_stops config (cap_at config j cap)"
      by blast
    then have "list_stops config (cap_at config k cap)" by (simp add: list_stops_def)
    then show ?l using find_msi_at[of config k cap] k by simp
  qed
  show "driver_checks config = Hang \<longleftrightarrow> (\<forall>k. \<not> list_stops config (cap_at config k (first_cap config)))"
    if "drop_bit 16 (config 2) AND 0xffff = 0x0106" "config 9 AND 0xfff = 0"
    using that ends[of "first_cap config"] list_stops_early[of config _ "first_cap config"]
    by (auto simp: driver_checks_def split: option.splits)
qed

text \<open>
  C39: the search for the capability of message interrupts returns exactly when one of the
  first 257 places of the list holds it or ends the list, and then returns the first of these;
  with a list that comes back to itself before, the constructor of the driver never returns.
\<close>

theorem find_msi_terminates:
  "(find_msi config cap \<noteq> None \<longleftrightarrow> (\<exists>k \<le> 256. list_stops config (cap_at config k cap))) \<and>
   (find_msi config cap = Some (Some c) \<longleftrightarrow>
     (\<exists>k \<le> 256. c = cap_at config k cap \<and> is_msi config c \<and> (\<forall>j < k. \<not> list_stops config (cap_at config j cap)))) \<and>
   (drop_bit 16 (config 2) AND 0xffff = 0x0106 \<and> config 9 AND 0xfff = 0 \<longrightarrow>
     (driver_checks config = Hang \<longleftrightarrow> (\<forall>k. \<not> list_stops config (cap_at config k (first_cap config)))))"
  by (intro conjI impI find_msi_ends) simp_all

definition demo_config :: "u32 \<Rightarrow> nat \<Rightarrow> u32" where
  "demo_config entry i =
    (if i = 2 then 0x01060000 else if i = 13 then 0x40 else if i = 16 then entry else if i = 20 then 5 else 0)"

theorem find_msi_terminates_witness:
  "find_msi (demo_config 0x5001) 0x40 = Some (Some 0x50) \<and> driver_checks (demo_config 0x4001) = Hang"
proof
  have "0x50 = cap_at (demo_config 0x5001) 1 0x40 \<and> is_msi (demo_config 0x5001) 0x50 \<and>
      (\<forall>j < 1. \<not> list_stops (demo_config 0x5001) (cap_at (demo_config 0x5001) j 0x40))"
    by (simp add: cap_at_def next_cap_def is_msi_def list_stops_def demo_config_def)
  then show "find_msi (demo_config 0x5001) 0x40 = Some (Some 0x50)"
    using find_msi_terminates[of "demo_config 0x5001" "0x40" "0x50"] by fastforce
  have c: "first_cap (demo_config 0x4001) = 0x40" "next_cap (demo_config 0x4001) 0x40 = 0x40"
    by (simp_all add: first_cap_def next_cap_def demo_config_def)
  have "cap_at (demo_config 0x4001) k 0x40 = 0x40" for k
    by (induction k) (simp_all add: cap_at_simps c)
  then have "\<not> list_stops (demo_config 0x4001) (cap_at (demo_config 0x4001) k (first_cap (demo_config 0x4001)))" for k
    by (simp add: c list_stops_def) (simp add: is_msi_def demo_config_def)
  moreover have "drop_bit 16 (demo_config 0x4001 2) AND 0xffff = 0x0106" "demo_config 0x4001 9 AND 0xfff = 0"
    by (simp_all add: demo_config_def)
  ultimately show "driver_checks (demo_config 0x4001) = Hang"
    using find_msi_terminates[of "demo_config 0x4001"] by blast
qed

end
