(* ===== verification/Strings.thy ===== *)
theory Strings
  imports Prelude
begin

text \<open>
  The class \<^verbatim>\<open>basic_string\<close> of kstdlib/string.hh with the array that it owns
  (\<^verbatim>\<open>smallptr<T[]>\<close> of kstdlib/memory.hh). A null pointer is \<open>None\<close>; an access behind an
  array, or through a null pointer, is a fault. The contents of a new array are an argument.
\<close>

record 'c bstring =
  len :: nat
  data :: "'c list option"

definition empty_string :: "'c bstring" where
  "empty_string = \<lparr>len = 0, data = None\<rparr>"

text \<open>A copy of \<open>n\<close> characters from place \<open>i\<close> to place \<open>at + i\<close>, one after the other.\<close>

fun copy_chars :: "'c list option \<Rightarrow> nat \<Rightarrow> nat \<Rightarrow> nat \<Rightarrow> 'c list \<Rightarrow> 'c list outcome" where
  "copy_chars src at i 0 dest = Ret dest"
| "copy_chars src at i (Suc n) dest = (case src of
     None \<Rightarrow> Fault ''null pointer''
   | Some xs \<Rightarrow> if i < length xs \<and> at + i < length dest
       then copy_chars src at (i + 1) n (dest[at + i := xs ! i]) else Fault ''out of bounds'')"

definition move_string :: "'c bstring \<Rightarrow> 'c bstring \<times> 'c bstring" where
  "move_string other = (other, \<lparr>len = 0, data = None\<rparr>)"

definition copy_string :: "(nat \<Rightarrow> 'c list) \<Rightarrow> 'c bstring \<Rightarrow> 'c bstring outcome" where
  "copy_string new other =
    obind (copy_chars (data other) 0 0 (len other + 1) (new (len other + 1))) (\<lambda>d.
    Ret \<lparr>len = len other, data = Some d\<rparr>)"

text \<open>The length of a C string, in the array that begins with it.\<close>

fun c_length :: "'c::zero list \<Rightarrow> nat outcome" where
  "c_length [] = Fault ''out of bounds''"
| "c_length (c # cs) = (if c = 0 then Ret 0 else obind (c_length cs) (\<lambda>n. Ret (Suc n)))"

definition string_of :: "(nat \<Rightarrow> 'c list) \<Rightarrow> 'c::zero list \<Rightarrow> 'c bstring outcome" where
  "string_of new cstr = obind (c_length cstr) (\<lambda>n.
     obind (copy_chars (Some cstr) 0 0 (n + 1) (new (n + 1))) (\<lambda>d. Ret \<lparr>len = n, data = Some d\<rparr>))"

text \<open>\<^verbatim>\<open>operator=\<close>: the arrays change places, the length of the other string stays.\<close>

definition assign_string :: "'c bstring \<Rightarrow> 'c bstring \<Rightarrow> 'c bstring \<times> 'c bstring" where
  "assign_string s other = (\<lparr>len = len other, data = data other\<rparr>, other\<lparr>data := data s\<rparr>)"

definition string_nonempty :: "'c bstring \<Rightarrow> bool" where
  "string_nonempty s \<longleftrightarrow> len s \<noteq> 0 \<and> data s \<noteq> None"

definition char_at :: "'c bstring \<Rightarrow> nat \<Rightarrow> 'c outcome" where
  "char_at s i = (case data s of None \<Rightarrow> Fault ''null pointer''
     | Some xs \<Rightarrow> if i < length xs then Ret (xs ! i) else Fault ''out of bounds'')"

definition put_char :: "nat \<Rightarrow> 'c \<Rightarrow> 'c list \<Rightarrow> 'c list outcome" where
  "put_char i c dest = (if i < length dest then Ret (dest[i := c]) else Fault ''out of bounds'')"

definition concat_strings :: "(nat \<Rightarrow> 'c list) \<Rightarrow> 'c::zero bstring \<Rightarrow> 'c bstring \<Rightarrow> 'c bstring outcome" where
  "concat_strings new lhs rhs =
    obind (copy_chars (data lhs) 0 0 (len lhs) (new (len lhs + len rhs + 1))) (\<lambda>d.
    obind (copy_chars (data rhs) (len lhs) 0 (len rhs) d) (\<lambda>d.
    obind (put_char (len lhs + len rhs) 0 d) (\<lambda>d.
    Ret \<lparr>len = len lhs + len rhs, data = Some d\<rparr>)))"

definition append_char :: "(nat \<Rightarrow> 'c list) \<Rightarrow> 'c::zero bstring \<Rightarrow> 'c \<Rightarrow> 'c bstring outcome" where
  "append_char new lhs c =
    obind (copy_chars (data lhs) 0 0 (len lhs) (new (len lhs + 2))) (\<lambda>d.
    obind (put_char (len lhs) c d) (\<lambda>d.
    obind (put_char (len lhs + 1) 0 d) (\<lambda>d.
    Ret \<lparr>len = len lhs + 1, data = Some d\<rparr>)))"

definition prepend_char :: "(nat \<Rightarrow> 'c list) \<Rightarrow> 'c::zero \<Rightarrow> 'c bstring \<Rightarrow> 'c bstring outcome" where
  "prepend_char new c rhs =
    obind (copy_chars (data rhs) 1 0 (len rhs) (new (len rhs + 2))) (\<lambda>d.
    obind (put_char 0 c d) (\<lambda>d.
    obind (put_char (len rhs + 1) 0 d) (\<lambda>d.
    Ret \<lparr>len = len rhs + 1, data = Some d\<rparr>)))"

section \<open>Strings as lists of characters\<close>

definition text_of :: "'c bstring \<Rightarrow> 'c list" where
  "text_of s = (case data s of None \<Rightarrow> [] | Some xs \<Rightarrow> take (len s) xs)"

text \<open>An array ends with a zero behind the text; only the empty string may have none.\<close>

definition string_ok :: "'c::zero bstring \<Rightarrow> bool" where
  "string_ok s \<longleftrightarrow> (case data s of None \<Rightarrow> len s = 0 | Some xs \<Rightarrow> length xs = len s + 1 \<and> xs ! len s = 0)"

definition allocates :: "(nat \<Rightarrow> 'c list) \<Rightarrow> bool" where
  "allocates new \<longleftrightarrow> (\<forall>n. length (new n) = n)"

lemma copy_chars_spec:
  assumes "i + n \<le> length xs" "at + i + n \<le> length dest"
  shows "copy_chars (Some xs) at i n dest =
    Ret (take (at + i) dest @ take n (drop i xs) @ drop (at + i + n) dest)"
  using assms
proof (induction n arbitrary: i dest)
  case (Suc n)
  have "take (Suc (at + i)) (dest[at + i := xs ! i]) = take (at + i) dest @ [xs ! i]"
    using Suc.prems by (simp add: take_Suc_conv_app_nth)
  moreover have "take (Suc n) (drop i xs) = xs ! i # take n (drop (Suc i) xs)"
    using Suc.prems by (simp add: Cons_nth_drop_Suc[symmetric])
  ultimately show ?case using Suc.IH[of "i + 1" "dest[at + i := xs ! i]"] Suc.prems by simp
qed simp

lemma copy_chars_text:
  assumes "string_ok s" "at + len s \<le> length dest"
  shows "copy_chars (data s) at 0 (len s) dest = Ret (take at dest @ text_of s @ drop (at + len s) dest)"
  using assms copy_chars_spec[of 0 "len s" "the (data s)" at dest]
  by (cases "data s") (auto simp: string_ok_def text_of_def)

lemma length_text_of: "string_ok s \<Longrightarrow> length (text_of s) = len s"
  by (auto simp: string_ok_def text_of_def split: option.splits)

lemma string_made:
  "xs = t @ [0] \<Longrightarrow> n = length t \<Longrightarrow>
    string_ok \<lparr>len = n, data = Some xs\<rparr> \<and> text_of \<lparr>len = n, data = Some xs\<rparr> = t"
  by (simp add: string_ok_def text_of_def)

lemma put_chars:
  "n = length xs \<Longrightarrow> length ys = 1 \<Longrightarrow> (xs @ ys)[n := c] = xs @ [c]"
  "n = length xs \<Longrightarrow> length ys = 2 \<Longrightarrow> (xs @ ys)[n := c, Suc n := d] = xs @ [c, d]"
  "n = length xs \<Longrightarrow> length us = 1 \<Longrightarrow> length ys = 1 \<Longrightarrow> (us @ xs @ ys)[0 := c, Suc n := d] = c # xs @ [d]"
  by (auto simp: list_update_append length_Suc_conv numeral_2_eq_2 One_nat_def)

lemma c_length_text: "0 \<notin> set t \<Longrightarrow> c_length (t @ 0 # rest) = Ret (length t)"
  by (induction t) auto

lemma string_operations:
  assumes "allocates new" "string_ok a" "string_ok b"
  shows "\<exists>s. concat_strings new a b = Ret s \<and> string_ok s \<and> text_of s = text_of a @ text_of b"
    "\<exists>s. append_char new a c = Ret s \<and> string_ok s \<and> text_of s = text_of a @ [c]"
    "\<exists>s. prepend_char new c a = Ret s \<and> string_ok s \<and> text_of s = c # text_of a"
    "0 \<notin> set t \<Longrightarrow> \<exists>s. string_of new (t @ 0 # rest) = Ret s \<and> string_ok s \<and> text_of s = t"
    "data a \<noteq> None \<Longrightarrow> \<exists>s. copy_string new a = Ret s \<and> string_ok s \<and> text_of s = text_of a"
    "data a = None \<Longrightarrow> copy_string new a = Fault ''null pointer''"
    "string_ok (fst (assign_string a b)) \<and> text_of (fst (assign_string a b)) = text_of b"
proof -
  have new: "length (new n) = n" for n using assms(1) by (simp add: allocates_def)
  note A = length_text_of[OF assms(2)] and B = length_text_of[OF assms(3)]
  show "\<exists>s. concat_strings new a b = Ret s \<and> string_ok s \<and> text_of s = text_of a @ text_of b"
    unfolding concat_strings_def
    by (simp add: copy_chars_text[OF assms(2)] copy_chars_text[OF assms(3)] new put_char_def A B)
      (rule string_made; simp add: A B new put_chars(1)[of _ "text_of a @ text_of b", simplified])
  show "\<exists>s. append_char new a c = Ret s \<and> string_ok s \<and> text_of s = text_of a @ [c]"
    unfolding append_char_def
    by (simp add: copy_chars_text[OF assms(2)] new put_char_def A)
      (rule string_made; simp add: A new put_chars)
  show "\<exists>s. prepend_char new c a = Ret s \<and> string_ok s \<and> text_of s = c # text_of a"
    unfolding prepend_char_def
    by (simp add: copy_chars_text[OF assms(2)] new put_char_def A)
      (rule string_made; simp add: A new put_chars)
  show "\<exists>s. string_of new (t @ 0 # rest) = Ret s \<and> string_ok s \<and> text_of s = t" if "0 \<notin> set t"
    unfolding string_of_def c_length_text[OF that]
    by (simp add: copy_chars_spec new del: copy_chars.simps) (rule string_made; simp)
  show "\<exists>s. copy_string new a = Ret s \<and> string_ok s \<and> text_of s = text_of a" if some: "data a \<noteq> None"
  proof -
    obtain xs where xs: "data a = Some xs" "length xs = len a + 1" "xs ! len a = 0"
      using assms(2) some by (auto simp: string_ok_def)
    then have "copy_string new a = Ret \<lparr>len = len a, data = Some xs\<rparr>"
      using copy_chars_spec[of 0 "len a + 1" xs 0 "new (len a + 1)"] new by (simp add: copy_string_def del: copy_chars.simps)
    then show ?thesis using xs by (simp add: string_ok_def text_of_def)
  qed
  show "data a = None \<Longrightarrow> copy_string new a = Fault ''null pointer''"
    by (simp add: copy_string_def)
  show "string_ok (fst (assign_string a b)) \<and> text_of (fst (assign_string a b)) = text_of b"
    using assms(3) by (cases b) (simp add: assign_string_def)
qed

text \<open>
  C40: on strings whose array ends with a zero behind the text, the operations of
  \<^verbatim>\<open>basic_string\<close> do on the text what list operations do, and make such strings again. A copy
  of a string without an array (made by the default constructor, or moved from) reads through
  a null pointer instead.
\<close>

theorem strings_refine_lists:
  assumes "allocates new" "string_ok a" "string_ok b"
  shows "(\<exists>s. concat_strings new a b = Ret s \<and> string_ok s \<and> text_of s = text_of a @ text_of b) \<and>
    (\<exists>s. append_char new a c = Ret s \<and> string_ok s \<and> text_of s = text_of a @ [c]) \<and>
    (\<exists>s. prepend_char new c a = Ret s \<and> string_ok s \<and> text_of s = c # text_of a) \<and>
    (0 \<notin> set t \<longrightarrow> (\<exists>s. string_of new (t @ 0 # rest) = Ret s \<and> string_ok s \<and> text_of s = t)) \<and>
    (if data a = None then copy_string new a = Fault ''null pointer''
     else \<exists>s. copy_string new a = Ret s \<and> string_ok s \<and> text_of s = text_of a) \<and>
    string_ok (fst (assign_string a b)) \<and> text_of (fst (assign_string a b)) = text_of b"
  using string_operations[OF assms] by simp

theorem strings_refine_lists_witness:
  "(\<exists>s. concat_strings (\<lambda>n. replicate n 7) \<lparr>len = 2, data = Some [1, 2, 0]\<rparr> \<lparr>len = 1, data = Some [3, 0 :: u8]\<rparr> = Ret s \<and>
     text_of s = [1, 2, 3]) \<and>
   (\<exists>s. string_of (\<lambda>n. replicate n 7) [5, 6, 0, 9 :: u8] = Ret s \<and> text_of s = [5, 6]) \<and>
   copy_string (\<lambda>n. replicate n (7 :: u8)) empty_string = Fault ''null pointer''"
proof (intro conjI)
  have new: "allocates (\<lambda>n. replicate n (7 :: u8))" by (simp add: allocates_def)
  have ok: "string_ok \<lparr>len = 2, data = Some [1, 2, 0 :: u8]\<rparr>" "string_ok \<lparr>len = 1, data = Some [3, 0 :: u8]\<rparr>"
    "string_ok (empty_string :: u8 bstring)"
    by (simp_all add: string_ok_def empty_string_def)
  show "\<exists>s. concat_strings (\<lambda>n. replicate n 7) \<lparr>len = 2, data = Some [1, 2, 0]\<rparr> \<lparr>len = 1, data = Some [3, 0 :: u8]\<rparr> = Ret s \<and>
      text_of s = [1, 2, 3]"
    using strings_refine_lists[OF new ok(1,2)] by (simp add: text_of_def) blast
  show "\<exists>s. string_of (\<lambda>n. replicate n 7) [5, 6, 0, 9 :: u8] = Ret s \<and> text_of s = [5, 6]"
    using strings_refine_lists[OF new ok(1,2), where t = "[5, 6]" and rest = "[9]"] by auto
  show "copy_string (\<lambda>n. replicate n (7 :: u8)) empty_string = Fault ''null pointer''"
    using strings_refine_lists[OF new ok(3,3)] by (simp add: empty_string_def)
qed

end
