(* ===== verification/Spec2Isabelle.thy ===== *)
theory Spec2Isabelle
  imports Phmem Buddy Kheap Paging Heap RbMap Sched FatFs FatFile FatDir FileSys Vmm Vfs Screen Ahci Boot Kproc Interrupts Ports Gpt Proc Checksum AhciInit Strings
begin

text \<open>
  A model of CellulOS, a 64-bit kernel in C++, and what makes its parts correct.

  \<^bold>\<open>The program.\<close> The boot code (boot/) loads the kernel and hands over the memory map.
  \<^verbatim>\<open>kernel_early_main\<close> (kernel/kernel.cpp) installs page tables (kernel/mem/default_pages.cc), sets up
  two allocators (kernel/kmmap.cc): one of physical pages (kernel/mem/phmem_allocator.hh)
  and one of kernel addresses (kernel/mem/vmem_allocator.hh). \<^verbatim>\<open>kmmap\<close> takes a range from the
  second and backs it page by page with pages of the first (kernel/mem/phmem_manager.cc),
  reading the page tables through a window onto physical memory (kernel/mem/utils.cc).
  \<^verbatim>\<open>new\<close> and \<^verbatim>\<open>delete\<close> (kstdlib/new.cc) cut these ranges into slots. The scheduler
  (kernel/proc/sched.cpp) keeps processes in trees and maps (kstdlib/map.hh). Files are
  reached through handles and directory iterators (kernel/fs/); the FAT driver
  (drivers/fat/) implements both on top of a handle of the disk. A process is loaded from an
  ELF file into page tables of its own (kernel/proc/proc.cc) and comes back to the kernel by
  the timer or by system calls (kernel/proc/scheduler_main.cc).

  \<^bold>\<open>Theories.\<close> Each states which source it models; definitions carry the names of the code.
  \<^item> Prelude: machine integers, the outcomes of a C++ call (value, exception, fault, no
    return), state-passing calls, facts on words and lists.
  \<^item> Allocator: the contract of an allocator of numbered pages as a locale, with what a
    client may rely on (no page is granted twice; release undoes a grant).
  \<^item> Phmem: phmem_allocator.hh. A tree of fan-out 4 over 64-bit bitmaps (\<open>ph_tree\<close>); get,
    release and reservation of pages. Lemmas: the cached flags are right after every
    operation, the least free page is taken. It interprets both allocator contracts.
  \<^item> Buddy: vmem_allocator.hh. A binary tree whose nodes cache the order of the largest free
    block (\<open>buddy\<close>), with the stale fields the code leaves in split nodes. It interprets the
    allocator contract; unmapping a whole block is shown to break the invariant.
  \<^item> Kheap: \<^verbatim>\<open>setup_heap\<close> of kmmap.cc, which reserves the holes of the memory map.
  \<^item> Paging: \<^verbatim>\<open>resolve_to_phmem\<close> and the default tables, over a memory of 64-bit entries;
    compared with a separate definition of the processor's four-level walk.
  \<^item> Heap: operator new and delete; pages with bitmaps of slots, threaded on 503 lists by
    the length of their longest free run. Lemmas: the two bitmap searches against their
    specification, the invariant of lists and bitmaps, the round trip.
  \<^item> RbMap: the red-black tree with parent pointers as paths; the map on top of it.
    Lemmas: invariants and contents after insertion and deletion, logarithmic search.
  \<^item> Sched: the state of \<^verbatim>\<open>hl_sched\<close> and all its operations; rebuilding the ready queue by a
    depth-first traversal, sharing out time, the alternation of commands and reports.
  \<^item> Vmm: \<^verbatim>\<open>back_vmem\<close>, \<^verbatim>\<open>unback_vmem\<close> (kernel/mem/phmem_manager.cc), \<^verbatim>\<open>kmmap\<close>, \<^verbatim>\<open>kmunmap\<close>. The crawl
    over the four levels with its callbacks, on top of Phmem, Buddy and Paging. Lemmas: what
    the crawl does where the tables are present, what the processor then sees.
  \<^item> CString: kstdlib/cstring.cc and \<^verbatim>\<open>strtol\<close>, over a partial map of bytes in which a read or
    write outside is a fault; \<^verbatim>\<open>None\<close> where a loop would not return. Functional correctness of
    the sound functions and the exact behaviour of the others.
  \<^item> Stdio: kstdlib/cstdio.cc over an abstract stream (locale \<open>stream\<close>).
  \<^item> FileSys: the memory file, permission handles and coherent iterators of kernel/fs, the
    memory file as a stream, FAT directories as the raw iterator of \<^verbatim>\<open>coh_dit\<close>.
  \<^item> Ahci: the file of a disk (drivers/ahci), over the specified behaviour of the adapter for a
    single command. Reads and writes of any length, split into rounds of a page.
  \<^item> Screen: misc/display.cpp and drivers/vga_text. \<^verbatim>\<open>print\<close> is shown to write the text its
    format stands for; the driver keeps its cursor on the screen.
  \<^item> Vfs: the device file system and the root file system with its mount points. A locale
    (\<open>mounted\<close>) states what the root needs of a mounted file system; it is interpreted on the
    kernel's composition of devices and FAT volume.
  \<^item> FatFs, FatFile, FatDir: the volume (tables of 12, 16 and 32-bit entries), files as chains
    of clusters, and the directory iterator with long names, over an ideal disk handle.
  \<^item> Loader: boot/load_kernel.cpp over the total 32-bit memory of the boot program. The image
    that the segments of the file describe is stated apart from the loops that build it.
  \<^item> Boot: boot/x64bootstrap.cpp: the memory map, the choice of the module, the loading, the
    page tables. Composed with Loader: the new tables translate every byte of a segment to
    the place where the loader has stored it.
  \<^item> Proc: the constructor of a process, on top of Vmm, with the headers of Loader.
  \<^item> Kproc: kernel/proc/scheduler_main.cc, the switch of processes over Sched and every system
    call over the file systems of Vfs, with user memory as a partial map of bytes.
  \<^item> Interrupts: segment and gate descriptors, the vectors of kernel/interrupts.cc and their
    set-up by \<^verbatim>\<open>kernel_early_main\<close>. It interprets the allocator contract.
  \<^item> Ports: the PCI configuration space and the serial line over the four port instructions.
  \<^item> Gpt: drivers/gpt, the partition table and the partitions as files.
  \<^item> AhciInit: what the driver of the disk adapter checks before it starts, over Ports; its
    search in a linked list of capabilities ends exactly when the list does.
  \<^item> Strings: kstdlib/string.hh with the arrays that strings own. The other theories use lists
    of characters; here the operations of the class are shown to refine list operations.
  \<^item> Checksum: the two checksum programs of userspace/, one of them against the bytewise
    definition of its checksum.

  \<^bold>\<open>Conventions.\<close> A value that is combined bitwise is a word of its width; addresses and sizes
  that are only added, subtracted and compared are naturals with the wrap-around written
  out. A null or wild dereference, an index out of bounds or a failed kernel assertion is
  \<open>Fault\<close>; memory freed and read again is an absent object. Memory that is a total map (Loader,
  the page tables) is that of a machine without protection.

  \<^bold>\<open>Bounds and fuel.\<close> \<open>setup_loop\<close> recurses over the list of entries. \<open>dfs\<close> of Sched takes as
  fuel one more than the number of processes, and every level marks a process visited.
  \<open>push\<close>, \<open>open_file\<close>, \<open>list_dir\<close> and \<open>create_file\<close> of FatDir take the number of clusters they
  may visit: a chain of the volume without a cycle has at most the number of clusters of
  the volume, and a cyclic one makes the code run for ever, which is \<open>Hang\<close>. The fuel of \<open>kmmap\<close>
  is the depth to which it calls itself for new page tables. The loop over the memory map of
  the boot program is bounded by the 256 entries of its buffer; its \<open>strcmp\<close>, which may run out
  of both strings, is a partial function.

  \<^bold>\<open>Parameters.\<close> The root of the page tables (\<^verbatim>\<open>get_cr3\<close>) and the memory behind it; the contents
  of freshly mapped memory; whether the compiler copies the token of the lock that
  \<^verbatim>\<open>acquire_lock\<close> returns; the initial contents of the buffer of a directory iterator and of the
  variables that the code reads before it stores to them; the addresses of new objects and of
  what the linker places; whether the processor has the long mode; the port instructions and
  the devices behind them; the commands of the disk adapter.

  \<^bold>\<open>Not modelled.\<close> Assembly (\<^verbatim>\<open>.s\<close> files, x86/asm_stubs.cc) and the start of the disk adapter
  (drivers/ahci/ahci.cc, what it stores to registers), which have no meaning without the machine;
  the exception handlers and the demonstration code of \<^verbatim>\<open>kernel_main\<close>, and the messages of the
  boot program, which only print; userspace/test.cc, which repeats functions of
  kstdlib/cstring.cc; what the root file system does behind a symbolic link, which begins
  with the read of an uninitialised object.
\<close>

end
